(* ===== verification/Prelude.thy ===== *)
theory Prelude
  imports Main "HOL-Library.Word" "HOL-Library.List_Lexorder" "HOL-Library.Multiset"
begin

text \<open>
  What the component theories share: the type of results of C code that can abort, memory
  blocks with uninitialised cells, loops that can fault, the byte representation of integers on
  a little-endian host (with \<open>htonl\<close> and its kin), \<open>memcmp\<close>, and the contract of comparison
  functions.
\<close>

named_theorems res_simps \<open>unfolding results that may be faults\<close>
named_theorems arr_simps \<open>reading and writing memory blocks\<close>

section \<open>Results that may be faults\<close>

text \<open>
  A fault is a way in which the C program stops being a C program: a failed \<open>assert\<close> (which
  aborts the process), a null dereference, an access outside the object, a read of an
  uninitialised cell, an access to freed memory, a division by zero, a conversion of a value that
  the target type cannot hold. \<open>Out_of_fuel\<close> belongs to
  the model only: a loop that was given too little fuel. A loop that returns \<open>Out_of_fuel\<close> for
  every fuel does not terminate.
\<close>

datatype fault =
    Assert_failed
  | Null_deref
  | Out_of_bounds
  | Uninit_read
  | Use_after_free
  | Div_by_zero
  | Bad_conversion
  | Out_of_fuel

type_synonym 'a res = "fault + 'a"

definition bindR :: "'a res \<Rightarrow> ('a \<Rightarrow> 'b res) \<Rightarrow> 'b res" where
  "bindR m f = (case m of Inl e \<Rightarrow> Inl e | Inr x \<Rightarrow> f x)"

definition assertR :: "bool \<Rightarrow> unit res" where
  "assertR b = (if b then Inr () else Inl Assert_failed)"

definition derefR :: "'a option \<Rightarrow> 'a res" where
  "derefR p = (case p of None \<Rightarrow> Inl Null_deref | Some x \<Rightarrow> Inr x)"

lemma bindR_simps [simp, res_simps]:
  "bindR (Inl e) f = Inl e"
  "bindR (Inr x) f = f x"
  by (simp_all add: bindR_def)

lemma bindR_assoc: "bindR (bindR m f) g = bindR m (\<lambda>x. bindR (f x) g)"
  by (cases m) simp_all

lemma bindR_Inr_right [simp]: "bindR m Inr = m"
  by (cases m) simp_all

lemma bindR_eq_Inr [res_simps]:
  "bindR m f = Inr y \<longleftrightarrow> (\<exists>x. m = Inr x \<and> f x = Inr y)"
  by (cases m) simp_all

lemma bindR_eq_Inl:
  "bindR m f = Inl e \<longleftrightarrow> m = Inl e \<or> (\<exists>x. m = Inr x \<and> f x = Inl e)"
  by (cases m) auto

lemma bindR_cong [fundef_cong]:
  "m = m' \<Longrightarrow> (\<And>x. m' = Inr x \<Longrightarrow> f x = f' x) \<Longrightarrow> bindR m f = bindR m' f'"
  by (cases m') simp_all

lemma assertR_simps [simp, res_simps]:
  "assertR True = Inr ()"
  "assertR False = Inl Assert_failed"
  by (simp_all add: assertR_def)

lemma assertR_eq_Inr [res_simps]: "assertR b = Inr u \<longleftrightarrow> b"
  by (simp add: assertR_def)

lemma bindR_assertR: "bindR (assertR b) f = (if b then f () else Inl Assert_failed)"
  by (simp add: assertR_def)

lemma derefR_simps [simp, res_simps]:
  "derefR None = Inl Null_deref"
  "derefR (Some x) = Inr x"
  by (simp_all add: derefR_def)

lemma derefR_eq_Inr [res_simps]: "derefR p = Inr x \<longleftrightarrow> p = Some x"
  by (cases p) simp_all

subsection \<open>Loops over a range or a list\<close>

text \<open>
  \<open>foldR f xs s\<close> is a \<open>for\<close> loop that runs its body for the elements of \<open>xs\<close> in order,
  passing the state \<open>s\<close> along and stopping at the first fault; \<open>mapR\<close> collects a value per
  element.
\<close>

fun foldR :: "('a \<Rightarrow> 's \<Rightarrow> 's res) \<Rightarrow> 'a list \<Rightarrow> 's \<Rightarrow> 's res" where
  "foldR f [] s = Inr s"
| "foldR f (x # xs) s = bindR (f x s) (foldR f xs)"

fun mapR :: "('a \<Rightarrow> 'b res) \<Rightarrow> 'a list \<Rightarrow> 'b list res" where
  "mapR f [] = Inr []"
| "mapR f (x # xs) = bindR (f x) (\<lambda>y. bindR (mapR f xs) (\<lambda>ys. Inr (y # ys)))"

lemma foldR_cong [fundef_cong]:
  "xs = ys \<Longrightarrow> s = t \<Longrightarrow> (\<And>x s. x \<in> set ys \<Longrightarrow> f x s = g x s) \<Longrightarrow> foldR f xs s = foldR g ys t"
proof (induction xs arbitrary: ys s t)
  case (Cons x xs)
  then show ?case by (cases "f x s") auto
qed auto

lemma foldR_append: "foldR f (xs @ ys) s = bindR (foldR f xs s) (foldR f ys)"
proof (induction xs arbitrary: s)
  case (Cons x xs)
  then show ?case by (cases "f x s") simp_all
qed simp

lemma mapR_cong [fundef_cong]:
  "xs = ys \<Longrightarrow> (\<And>x. x \<in> set ys \<Longrightarrow> f x = g x) \<Longrightarrow> mapR f xs = mapR g ys"
  by (induction xs arbitrary: ys) auto

lemma mapR_pure: "(\<And>x. x \<in> set xs \<Longrightarrow> f x = Inr (g x)) \<Longrightarrow> mapR f xs = Inr (map g xs)"
  by (induction xs) auto

lemma mapR_Inr_length: "mapR f xs = Inr ys \<Longrightarrow> length ys = length xs"
  by (induction xs arbitrary: ys) (auto simp: res_simps)

lemma mapR_Inr_nth:
  "mapR f xs = Inr ys \<Longrightarrow> i < length xs \<Longrightarrow> f (xs ! i) = Inr (ys ! i)"
proof (induction xs arbitrary: ys i)
  case (Cons x xs)
  then show ?case by (cases i) (auto simp: res_simps)
qed simp

lemma mapR_nth:
  assumes "length ys = length xs" "\<And>i. i < length xs \<Longrightarrow> f (xs ! i) = Inr (ys ! i)"
  shows "mapR f xs = Inr ys"
  using assms by (induction ys xs rule: list_induct2) fastforce+

text \<open>An invariant of the body is an invariant of the loop.\<close>

lemma foldR_invariant:
  assumes "foldR f xs s = Inr t"
    and "P s"
    and "\<And>x s s'. x \<in> set xs \<Longrightarrow> P s \<Longrightarrow> f x s = Inr s' \<Longrightarrow> P s'"
  shows "P t"
  using assms
proof (induction xs arbitrary: s)
  case (Cons x xs)
  from Cons.prems(1) obtain s' where s': "f x s = Inr s'" "foldR f xs s' = Inr t"
    by (auto simp: res_simps)
  have "P s'"
    by (rule Cons.prems(3) [OF _ Cons.prems(2) s'(1)]) simp
  show ?case
    by (rule Cons.IH [OF s'(2) \<open>P s'\<close>]) (rule Cons.prems(3), simp_all)
qed simp

section \<open>Memory blocks\<close>

text \<open>
  A block obtained from \<open>malloc\<close> is a list of cells, \<open>None\<close> where nothing has been written yet.
  Reading such a cell is a fault of its own, so no theorem relies on the value of an
  uninitialised cell. Allocation is assumed to succeed, as the \<open>assert\<close>s of the code demand.
\<close>

type_synonym 'a arr = "'a option list"

definition arr_malloc :: "nat \<Rightarrow> 'a arr" where
  "arr_malloc n = replicate n None"

definition arr_load :: "'a arr \<Rightarrow> nat \<Rightarrow> 'a res" where
  "arr_load a i =
     (if i < length a then (case a ! i of None \<Rightarrow> Inl Uninit_read | Some x \<Rightarrow> Inr x)
      else Inl Out_of_bounds)"

definition arr_store :: "'a arr \<Rightarrow> nat \<Rightarrow> 'a \<Rightarrow> 'a arr res" where
  "arr_store a i x = (if i < length a then Inr (a[i := Some x]) else Inl Out_of_bounds)"

definition arr_realloc :: "'a arr \<Rightarrow> nat \<Rightarrow> 'a arr" where
  "arr_realloc a n = take n a @ replicate (n - length a) None"

definition arr_memmove :: "'a arr \<Rightarrow> nat \<Rightarrow> nat \<Rightarrow> nat \<Rightarrow> 'a arr res" where
  "arr_memmove a dst src n =
     (if dst + n \<le> length a \<and> src + n \<le> length a
      then Inr (take dst a @ take n (drop src a) @ drop (dst + n) a)
      else Inl Out_of_bounds)"

definition arr_memcpy :: "'a arr \<Rightarrow> nat \<Rightarrow> 'a list \<Rightarrow> 'a arr res" where
  "arr_memcpy a dst xs =
     (if dst + length xs \<le> length a
      then Inr (take dst a @ map Some xs @ drop (dst + length xs) a)
      else Inl Out_of_bounds)"

definition arr_load_n :: "'a arr \<Rightarrow> nat \<Rightarrow> nat \<Rightarrow> 'a list res" where
  "arr_load_n a i n = mapR (arr_load a) [i..<i + n]"

lemma length_arr_malloc [simp, arr_simps]: "length (arr_malloc n) = n"
  by (simp add: arr_malloc_def)

lemma length_arr_realloc [simp, arr_simps]: "length (arr_realloc a n) = n"
  by (simp add: arr_realloc_def)

lemma take_arr_realloc [simp, arr_simps]: "k \<le> n \<Longrightarrow> k \<le> length a \<Longrightarrow> take k (arr_realloc a n) = take k a"
  by (simp add: arr_realloc_def min_def)

lemma arr_load_Inr [arr_simps]: "arr_load a i = Inr x \<longleftrightarrow> i < length a \<and> a ! i = Some x"
  by (auto simp: arr_load_def split: option.splits)

lemma arr_store_Inr [arr_simps]: "arr_store a i x = Inr b \<longleftrightarrow> i < length a \<and> b = a[i := Some x]"
  by (auto simp: arr_store_def)

lemma arr_memcpy_Inr [arr_simps]:
  "arr_memcpy a d xs = Inr b \<longleftrightarrow>
     d + length xs \<le> length a \<and> b = take d a @ map Some xs @ drop (d + length xs) a"
  by (auto simp: arr_memcpy_def)

lemma arr_memmove_Inr [arr_simps]:
  "arr_memmove a d s n = Inr b \<longleftrightarrow>
     d + n \<le> length a \<and> s + n \<le> length a \<and> b = take d a @ take n (drop s a) @ drop (d + n) a"
  by (auto simp: arr_memmove_def)

text \<open>A block whose first cells hold \<open>xs\<close>.\<close>

lemma arr_load_prefix: "i < length xs \<Longrightarrow> arr_load (map Some xs @ r) i = Inr (xs ! i)"
  by (simp add: arr_load_def nth_append)

lemma arr_load_mid: "arr_load (map Some xs @ Some y # r) (length xs) = Inr y"
  by (simp add: arr_load_def nth_append)

lemma prefix_cells:
  assumes "n \<le> length a" and "\<forall>i<n. a ! i \<noteq> None"
  shows "map Some (map the (take n a)) @ drop n a = a"
proof -
  have "map Some (map the (take n a)) = take n a"
    using assms by (intro nth_equalityI) auto
  then show ?thesis by simp
qed

lemma arr_load_n_prefix:
  assumes "i + n \<le> length xs"
  shows "arr_load_n (map Some xs @ r) i n = Inr (take n (drop i xs))"
proof -
  have "mapR (arr_load (map Some xs @ r)) [i..<i + n] = Inr (map (\<lambda>j. xs ! j) [i..<i + n])"
    using assms by (intro mapR_pure) (auto intro: arr_load_prefix)
  moreover have "map (\<lambda>j. xs ! j) [i..<i + n] = take n (drop i xs)"
    using assms by (intro nth_equalityI) auto
  ultimately show ?thesis by (simp add: arr_load_n_def)
qed

lemma arr_load_n_block:
  assumes "length p = d" "length xs = n"
  shows "arr_load_n (p @ map Some xs @ r) d n = Inr xs"
proof -
  have "mapR (arr_load (p @ map Some xs @ r)) [d..<d + n] = Inr (map (\<lambda>j. xs ! (j - d)) [d..<d + n])"
    using assms by (intro mapR_pure) (auto simp: arr_load_def nth_append)
  moreover have "map (\<lambda>j. xs ! (j - d)) [d..<d + n] = xs"
    using assms by (intro nth_equalityI) auto
  ultimately show ?thesis by (simp add: arr_load_n_def)
qed

lemma arr_load_n_length: "arr_load_n a i n = Inr xs \<Longrightarrow> length xs = n"
  by (auto simp: arr_load_n_def dest: mapR_Inr_length)

lemma arr_load_n_bound:
  assumes "arr_load_n a i n = Inr xs" and "0 < n"
  shows "i + n \<le> length a"
proof -
  have "arr_load a ([i..<i + n] ! (n - 1)) = Inr (xs ! (n - 1))"
    using mapR_Inr_nth [of "arr_load a" "[i..<i + n]" xs "n - 1"] assms
    by (simp add: arr_load_n_def)
  with \<open>0 < n\<close> show ?thesis by (auto simp: arr_load_Inr)
qed

section \<open>Heaps\<close>

text \<open>
  Objects shared through pointers live in heaps, one for each type: an address is an index, and a
  freed object leaves a hole.
\<close>

type_synonym addr = nat
type_synonym 'a heap = "'a option list"

definition heap_load :: "'a heap \<Rightarrow> addr \<Rightarrow> 'a res" where
  "heap_load h p =
     (if p < length h then (case h ! p of None \<Rightarrow> Inl Use_after_free | Some x \<Rightarrow> Inr x)
      else Inl Out_of_bounds)"

definition heap_store :: "'a heap \<Rightarrow> addr \<Rightarrow> 'a \<Rightarrow> 'a heap res" where
  "heap_store h p x = bindR (heap_load h p) (\<lambda>_. Inr (h[p := Some x]))"

definition heap_free :: "'a heap \<Rightarrow> addr \<Rightarrow> 'a heap res" where
  "heap_free h p = bindR (heap_load h p) (\<lambda>_. Inr (h[p := None]))"

definition alive :: "'a heap \<Rightarrow> addr \<Rightarrow> bool" where
  "alive h p \<longleftrightarrow> p < length h \<and> h ! p \<noteq> None"

abbreviation obj :: "'a heap \<Rightarrow> addr \<Rightarrow> 'a" where
  "obj h p \<equiv> the (h ! p)"

lemma heap_load_Inr: "heap_load h p = Inr x \<longleftrightarrow> alive h p \<and> x = obj h p"
  by (auto simp: heap_load_def alive_def split: option.splits)

lemma heap_load_alive [simp]: "alive h p \<Longrightarrow> heap_load h p = Inr (obj h p)"
  by (simp add: heap_load_Inr)

lemma heap_store_alive [simp]: "alive h p \<Longrightarrow> heap_store h p x = Inr (h[p := Some x])"
  by (simp add: heap_store_def)

lemma heap_free_alive [simp]: "alive h p \<Longrightarrow> heap_free h p = Inr (h[p := None])"
  by (simp add: heap_free_def)

lemma alive_less: "alive h p \<Longrightarrow> p < length h"
  by (simp add: alive_def)

lemma alive_append [simp]: "alive (h @ [Some x]) p \<longleftrightarrow> alive h p \<or> p = length h"
  by (auto simp: alive_def nth_append less_Suc_eq)

lemma obj_append: "p < length h \<Longrightarrow> obj (h @ [Some x]) p = obj h p"
  by (simp add: nth_append)

lemma alive_update [simp]: "p < length h \<Longrightarrow> alive (h[p := Some x]) q \<longleftrightarrow> alive h q \<or> q = p"
  by (cases "q = p") (simp_all add: alive_def)

lemma obj_update: "p < length h \<Longrightarrow> obj (h[p := Some x]) q = (if q = p then x else obj h q)"
  by simp

section \<open>Machine integers and their bytes\<close>

type_synonym byte = "8 word"
type_synonym u16 = "16 word"
type_synonym u32 = "32 word"
type_synonym u64 = "64 word"

text \<open>
  The host is little-endian (x86-64 and arm64, the platforms of the Makefile's toolchain), and
  \<open>size_t\<close> has 64 bits. \<open>le_bytes n v\<close> is the memory image of an \<open>n\<close>-byte integer.
\<close>

fun le_bytes :: "nat \<Rightarrow> nat \<Rightarrow> byte list" where
  "le_bytes 0 v = []"
| "le_bytes (Suc n) v = of_nat v # le_bytes n (v div 256)"

fun le_value :: "byte list \<Rightarrow> nat" where
  "le_value [] = 0"
| "le_value (b # bs) = unat b + 256 * le_value bs"

lemma length_le_bytes [simp]: "length (le_bytes n v) = n"
  by (induction n arbitrary: v) auto

lemma unat_byte_less [simp]: "unat (b :: byte) < 256"
  using unsigned_less [of b, where ?'a = nat] by simp

lemma unat_of_nat_byte [simp]: "unat (of_nat v :: byte) = v mod 256"
  by (simp add: unat_of_nat)

lemma le_value_le_bytes: "le_value (le_bytes n v) = v mod 256 ^ n"
proof (induction n arbitrary: v)
  case (Suc n)
  have "v mod 256 ^ Suc n = 256 * (v div 256 mod 256 ^ n) + v mod 256"
    by (simp add: mod_mult2_eq)
  with Suc show ?case by simp
qed simp

lemma le_value_bound: "le_value bs < 256 ^ length bs"
proof (induction bs)
  case (Cons b bs)
  have "unat b + 256 * le_value bs < 256 + 256 * le_value bs" by simp
  also have "\<dots> = 256 * Suc (le_value bs)" by simp
  also have "\<dots> \<le> 256 * 256 ^ length bs" using Cons by (intro mult_le_mono2) simp
  finally show ?case by simp
qed simp

lemma le_bytes_le_value: "length bs = n \<Longrightarrow> le_bytes n (le_value bs) = bs"
proof (induction bs arbitrary: n)
  case (Cons b bs)
  have "(of_nat (unat b + 256 * le_value bs) :: byte) = b"
    by (simp only: word_unat_eq_iff unat_of_nat_byte) simp
  moreover have "(unat b + 256 * le_value bs) div 256 = le_value bs"
    by (simp add: div_add1_eq)
  ultimately show ?case using Cons by auto
qed simp

text \<open>
  \<open>htons\<close>, \<open>htonl\<close>, \<open>htonll\<close> (and \<open>ntohs\<close>, \<open>ntohl\<close>, \<open>ntohll\<close>, the same functions) reverse the
  bytes of an integer on this host.
\<close>

definition swap_bytes :: "nat \<Rightarrow> nat \<Rightarrow> nat" where
  "swap_bytes n v = le_value (rev (le_bytes n v))"

definition htons :: "u16 \<Rightarrow> u16" where
  "htons v = of_nat (swap_bytes 2 (unat v))"

definition htonl :: "u32 \<Rightarrow> u32" where
  "htonl v = of_nat (swap_bytes 4 (unat v))"

definition htonll :: "u64 \<Rightarrow> u64" where
  "htonll v = of_nat (swap_bytes 8 (unat v))"

abbreviation ntohs :: "u16 \<Rightarrow> u16" where "ntohs \<equiv> htons"
abbreviation ntohl :: "u32 \<Rightarrow> u32" where "ntohl \<equiv> htonl"
abbreviation ntohll :: "u64 \<Rightarrow> u64" where "ntohll \<equiv> htonll"

definition u16_bytes :: "u16 \<Rightarrow> byte list" where "u16_bytes v = le_bytes 2 (unat v)"
definition u32_bytes :: "u32 \<Rightarrow> byte list" where "u32_bytes v = le_bytes 4 (unat v)"
definition u64_bytes :: "u64 \<Rightarrow> byte list" where "u64_bytes v = le_bytes 8 (unat v)"

definition u16_of :: "byte list \<Rightarrow> u16" where "u16_of bs = of_nat (le_value bs)"
definition u32_of :: "byte list \<Rightarrow> u32" where "u32_of bs = of_nat (le_value bs)"
definition u64_of :: "byte list \<Rightarrow> u64" where "u64_of bs = of_nat (le_value bs)"

lemma length_uint_bytes [simp]:
  "length (u16_bytes a) = 2" "length (u32_bytes b) = 4" "length (u64_bytes c) = 8"
  by (simp_all add: u16_bytes_def u32_bytes_def u64_bytes_def)

lemma swap_bytes_bound: "swap_bytes n v < 256 ^ n"
  using le_value_bound [of "rev (le_bytes n v)"] by (simp add: swap_bytes_def)

lemma le_bytes_swap: "le_bytes n (swap_bytes n v) = rev (le_bytes n v)"
  by (simp add: swap_bytes_def le_bytes_le_value)

lemma swap_bytes_swap: "swap_bytes n (swap_bytes n v) = v mod 256 ^ n"
  using le_bytes_swap [of n v] by (simp add: swap_bytes_def [of n "swap_bytes n v"] le_value_le_bytes)

lemma unat_htonl: "unat (htonl v) = swap_bytes 4 (unat v)"
  using swap_bytes_bound [of 4 "unat v"] by (simp add: htonl_def unat_of_nat)

lemma unat_htonll: "unat (htonll v) = swap_bytes 8 (unat v)"
  using swap_bytes_bound [of 8 "unat v"] by (simp add: htonll_def unat_of_nat)

lemma unat_htons: "unat (htons v) = swap_bytes 2 (unat v)"
  using swap_bytes_bound [of 2 "unat v"] by (simp add: htons_def unat_of_nat)

lemma htonl_htonl [simp]: "htonl (htonl v) = v"
  using unsigned_less [of v, where ?'a = nat]
  by (simp add: htonl_def [of "htonl v"] unat_htonl swap_bytes_swap)

lemma htonll_htonll [simp]: "htonll (htonll v) = v"
  using unsigned_less [of v, where ?'a = nat]
  by (simp add: htonll_def [of "htonll v"] unat_htonll swap_bytes_swap)

lemma htons_htons [simp]: "htons (htons v) = v"
  using unsigned_less [of v, where ?'a = nat]
  by (simp add: htons_def [of "htons v"] unat_htons swap_bytes_swap)

lemma uint_of_bytes [simp]:
  "u16_of (u16_bytes a) = a" "u32_of (u32_bytes b) = b" "u64_of (u64_bytes c) = c"
  using unsigned_less [of a, where ?'a = nat] unsigned_less [of b, where ?'a = nat]
    unsigned_less [of c, where ?'a = nat]
  by (simp_all add: u16_bytes_def u16_of_def u32_bytes_def u32_of_def u64_bytes_def u64_of_def
      le_value_le_bytes)

text \<open>An integer written through \<open>htonl\<close> is in network byte order.\<close>

lemma sint_of_int32: "- (2 ^ 31) \<le> k \<Longrightarrow> k < 2 ^ 31 \<Longrightarrow> sint (of_int k :: u32) = k"
  by (simp add: sint_uint uint_word_of_int_eq signed_take_bit_int_eq_self signed_take_bit_take_bit)

lemma u32_bytes_htonl: "u32_bytes (htonl v) = rev (u32_bytes v)"
  by (simp add: u32_bytes_def unat_htonl le_bytes_swap)

lemma u64_bytes_htonll: "u64_bytes (htonll v) = rev (u64_bytes v)"
  by (simp add: u64_bytes_def unat_htonll le_bytes_swap)

section \<open>Bytes and strings in memory\<close>

text \<open>The bytes \<open>bs\<close> lie at offset \<open>p\<close> of a block.\<close>

definition mem_at :: "byte arr \<Rightarrow> nat \<Rightarrow> byte list \<Rightarrow> bool" where
  "mem_at mem p bs \<longleftrightarrow> p + length bs \<le> length mem \<and> take (length bs) (drop p mem) = map Some bs"

lemma mem_at_split:
  assumes "mem_at mem p bs"
  shows "mem = take p mem @ map Some bs @ drop (p + length bs) mem" "length (take p mem) = p"
proof -
  have "mem = take p mem @ take (length bs) (drop p mem) @ drop (length bs) (drop p mem)"
    by (simp only: append_take_drop_id)
  then show "mem = take p mem @ map Some bs @ drop (p + length bs) mem"
    using assms by (simp add: mem_at_def add.commute)
  show "length (take p mem) = p" using assms by (simp add: mem_at_def)
qed

lemma mem_at_intro: "length q = p \<Longrightarrow> mem_at (q @ map Some bs @ r) p bs"
  by (simp add: mem_at_def)

lemma mem_at_append:
  "mem_at mem p (xs @ ys) \<longleftrightarrow> mem_at mem p xs \<and> mem_at mem (p + length xs) ys"
proof
  assume a: "mem_at mem p (xs @ ys)"
  obtain q r where m: "mem = q @ map Some (xs @ ys) @ r" "length q = p"
    using mem_at_split [OF a] by blast
  show "mem_at mem p xs \<and> mem_at mem (p + length xs) ys"
    using mem_at_intro [of q p xs "map Some ys @ r"] mem_at_intro [of "q @ map Some xs" "p + length xs" ys r] m
    by simp
next
  assume a: "mem_at mem p xs \<and> mem_at mem (p + length xs) ys"
  have "take (length xs + length ys) (drop p mem) =
      take (length xs) (drop p mem) @ take (length ys) (drop (length xs) (drop p mem))"
    by (rule take_add)
  with a show "mem_at mem p (xs @ ys)"
    by (simp add: mem_at_def add.commute add.left_commute)
qed

lemma mem_at_slice:
  assumes "mem_at mem 0 xs" "i + n \<le> length xs"
  shows "mem_at mem i (take n (drop i xs))"
proof -
  have "take n (drop i (take (length xs) mem)) = map Some (take n (drop i xs))"
    using assms(1) by (simp add: mem_at_def take_map drop_map)
  moreover have "take n (drop i (take (length xs) mem)) = take n (drop i mem)"
    using assms(2) by (simp add: drop_take min_def)
  moreover have "length (take n (drop i xs)) = n" using assms(2) by simp
  moreover have "length xs \<le> length mem" using assms(1) by (simp add: mem_at_def)
  ultimately show ?thesis unfolding mem_at_def using assms(2) by presburger
qed

lemma mem_at_Cons: "mem_at mem p (x # xs) \<longleftrightarrow> mem_at mem p [x] \<and> mem_at mem (Suc p) xs"
  using mem_at_append [of mem p "[x]" xs] by simp

lemma mem_atE:
  assumes "mem_at mem p bs"
  obtains q r where "mem = q @ map Some bs @ r" "length q = p"
  using mem_at_split [OF assms] by blast

lemma mem_at_load:
  assumes "mem_at mem p (x # xs)"
  shows "arr_load mem p = Inr x"
proof -
  from assms obtain q r where "mem = q @ map Some (x # xs) @ r" "length q = p" by (rule mem_atE)
  then show ?thesis by (simp add: arr_load_def nth_append)
qed

lemma mem_at_load_n:
  assumes "mem_at mem p bs"
  shows "arr_load_n mem p (length bs) = Inr bs"
proof -
  from assms obtain q r where "mem = q @ map Some bs @ r" "length q = p" by (rule mem_atE)
  then show ?thesis by (simp add: arr_load_n_block)
qed

lemma mem_at_whole: "mem_at (map Some bs) 0 bs"
  using mem_at_intro [of "[]" 0 bs "[]"] by simp

text \<open>The length of the 0-terminated string at the start of a block.\<close>

fun strlen :: "byte arr \<Rightarrow> nat res" where
  "strlen [] = Inl Out_of_bounds"
| "strlen (None # cs) = Inl Uninit_read"
| "strlen (Some c # cs) = (if c = 0 then Inr 0 else bindR (strlen cs) (\<lambda>n. Inr (Suc n)))"

lemma strlen_string: "0 \<notin> set bs \<Longrightarrow> strlen (map Some bs @ Some 0 # r) = Inr (length bs)"
  by (induction bs) auto

lemma mem_at_strlen:
  assumes "mem_at mem p (bs @ [0])" "0 \<notin> set bs"
  shows "strlen (drop p mem) = Inr (length bs)"
proof -
  from assms(1) obtain q r where "mem = q @ map Some (bs @ [0]) @ r" "length q = p" by (rule mem_atE)
  then have "drop p mem = map Some bs @ Some 0 # r" by simp
  then show ?thesis using strlen_string [OF assms(2)] by simp
qed

section \<open>Comparison functions\<close>

text \<open>
  \<open>memcmp\<close> on two objects of at least \<open>n\<close> bytes. The standard fixes the sign of the result
  only, and the code uses only the sign, so the model returns -1, 0 or 1.
\<close>

fun memcmp :: "byte list \<Rightarrow> byte list \<Rightarrow> nat \<Rightarrow> int" where
  "memcmp (x # xs) (y # ys) (Suc n) = (if x = y then memcmp xs ys n else if x < y then -1 else 1)"
| "memcmp _ _ _ = 0"

lemma memcmp_0 [simp]: "memcmp xs ys 0 = 0"
  by (cases xs; cases ys) auto

lemma memcmp_eq_0:
  "n \<le> length xs \<Longrightarrow> n \<le> length ys \<Longrightarrow> memcmp xs ys n = 0 \<longleftrightarrow> take n xs = take n ys"
  by (induction xs ys n rule: memcmp.induct) auto

lemma memcmp_less:
  "n \<le> length xs \<Longrightarrow> n \<le> length ys \<Longrightarrow> memcmp xs ys n < 0 \<longleftrightarrow> take n xs < take n ys"
proof (induction xs ys n rule: memcmp.induct)
  case (1 x xs y ys n)
  then show ?case by auto
qed auto

lemma memcmp_self [simp]: "memcmp xs xs n = 0"
proof (induction n arbitrary: xs)
  case (Suc n)
  then show ?case by (cases xs) auto
qed simp

lemma memcmp_anti: "memcmp ys xs n = - memcmp xs ys n"
  by (induction xs ys n rule: memcmp.induct) auto

text \<open>
  The contract of the comparison functions passed to the containers: on the elements in \<open>dom\<close>
  the sign of the result is that of a total preorder.
\<close>

locale comparator =
  fixes cmp :: "'a \<Rightarrow> 'a \<Rightarrow> int"
    and valid :: "'a \<Rightarrow> bool"
  assumes cmp_swap: "valid x \<Longrightarrow> valid y \<Longrightarrow> cmp x y < 0 \<longleftrightarrow> cmp y x > 0"
    and cmp_trans: "valid x \<Longrightarrow> valid y \<Longrightarrow> valid z \<Longrightarrow> cmp x y \<le> 0 \<Longrightarrow> cmp y z \<le> 0 \<Longrightarrow> cmp x z \<le> 0"
begin

lemma cmp_refl: "valid x \<Longrightarrow> cmp x x = 0"
  using cmp_swap [of x x] by linarith

lemma cmp_total: "valid x \<Longrightarrow> valid y \<Longrightarrow> cmp x y \<le> 0 \<or> cmp y x \<le> 0"
  using cmp_swap [of y x] by linarith

lemma cmp_not_less: "valid x \<Longrightarrow> valid y \<Longrightarrow> \<not> cmp x y < 0 \<longleftrightarrow> cmp y x \<le> 0"
  using cmp_swap [of x y] by linarith

lemma cmp_less_le: "valid x \<Longrightarrow> valid y \<Longrightarrow> cmp x y < 0 \<Longrightarrow> cmp x y \<le> 0"
  by simp

end

text \<open>A comparison function whose 0 is equality.\<close>

locale key_comparator = comparator +
  assumes cmp_eq: "valid x \<Longrightarrow> valid y \<Longrightarrow> cmp x y = 0 \<longleftrightarrow> x = y"
begin

lemma cmp_cases:
  assumes "valid x" "valid y"
  obtains "cmp x y < 0" "cmp y x > 0" | "x = y" | "cmp x y > 0" "cmp y x < 0"
  using cmp_swap [OF assms] cmp_swap [OF assms(2,1)] cmp_eq [OF assms] by fastforce

end

lemma memcmp_key_comparator:
  "key_comparator (\<lambda>a b. memcmp a b n) (\<lambda>a. length a = n)"
proof
  fix x y :: "byte list"
  assume l: "length x = n" "length y = n"
  show "memcmp x y n < 0 \<longleftrightarrow> memcmp y x n > 0"
    using memcmp_anti [of y x n] by auto
  show "memcmp x y n = 0 \<longleftrightarrow> x = y"
    using l memcmp_eq_0 [of n x y] by simp
next
  fix x y z :: "byte list"
  assume l: "length x = n" "length y = n" "length z = n"
    and le: "memcmp x y n \<le> 0" "memcmp y z n \<le> 0"
  have "x \<le> y" "y \<le> z"
    using l le memcmp_less [of n x y] memcmp_eq_0 [of n x y]
      memcmp_less [of n y z] memcmp_eq_0 [of n y z] by (auto simp: le_less)
  then have "x \<le> z" by simp
  then show "memcmp x z n \<le> 0"
    using l memcmp_less [of n x z] memcmp_eq_0 [of n x z] by (auto simp: le_less)
qed

interpretation memcmp_order: key_comparator "\<lambda>a b. memcmp a b n" "\<lambda>a. length a = n" for n
  by (rule memcmp_key_comparator)

end
