(* ===== verification/CList.thy ===== *)
theory CList
  imports Prelude
begin

text \<open>
  The generic array list of \<open>src/util/list.c\<close>: \<open>void **data\<close> with a size and a capacity. The
  model keeps the block itself (\<open>ldata\<close>, with its uninitialised cells), so that an access past
  the block is a fault. A pointer to a list is never \<open>NULL\<close> where the code passes one, so the
  \<open>assert(list != NULL)\<close> of each function has no counterpart.

  \<open>list_elems\<close> is the abstraction: the sequence of the elements stored. The interface
  \<open>sequence\<close> states what the clients of a list rely on, and the list is shown to provide it.
\<close>

record 'a list_t =
  ldata :: "'a arr"
  lsize :: nat
  lcapacity :: nat

section \<open>Operations\<close>

definition list_create :: "nat \<Rightarrow> 'a list_t" where
  "list_create initial_capacity =
     \<lparr>ldata = arr_malloc initial_capacity,
      lsize = 0,
      lcapacity = (if initial_capacity < 1 then 1 else initial_capacity)\<rparr>"

text \<open>The elements on which the destructor is called, in order.\<close>

definition list_destroy :: "'a list_t \<Rightarrow> bool \<Rightarrow> 'a list res" where
  "list_destroy l destroy =
     (if destroy then mapR (\<lambda>i. arr_load (ldata l) i) [0..<lsize l] else Inr [])"

definition list_size :: "'a list_t \<Rightarrow> nat" where
  "list_size l = lsize l"

definition list_add :: "'a list_t \<Rightarrow> 'a \<Rightarrow> 'a list_t res" where
  "list_add l e =
     (if lsize l < lcapacity l then
        bindR (arr_store (ldata l) (lsize l) e) (\<lambda>d.
          Inr (l\<lparr>ldata := d, lsize := lsize l + 1\<rparr>))
      else
        bindR (arr_store (arr_realloc (ldata l) (lcapacity l * 2)) (lsize l) e) (\<lambda>d.
          Inr (l\<lparr>ldata := d, lsize := lsize l + 1, lcapacity := lcapacity l * 2\<rparr>)))"

definition list_get :: "'a list_t \<Rightarrow> nat \<Rightarrow> 'a res" where
  "list_get l i = bindR (assertR (i < lsize l)) (\<lambda>_. arr_load (ldata l) i)"

definition list_remove :: "'a list_t \<Rightarrow> nat \<Rightarrow> ('a \<times> 'a list_t) res" where
  "list_remove l i =
     bindR (assertR (i < lsize l)) (\<lambda>_.
     bindR (arr_load (ldata l) i) (\<lambda>result.
     bindR (arr_memmove (ldata l) i (i + 1) (lsize l - 1 - i)) (\<lambda>d.
       Inr (result, l\<lparr>ldata := d, lsize := lsize l - 1\<rparr>))))"

text \<open>
  The comparison of \<open>list_find\<close>: pointer equality when \<open>cmp\<close> is \<open>NULL\<close>. A comparison function
  may itself fault (it dereferences its arguments).
\<close>

fun elem_matches :: "('a \<Rightarrow> 'a \<Rightarrow> int res) option \<Rightarrow> 'a \<Rightarrow> 'a \<Rightarrow> bool res" where
  "elem_matches None x e = Inr (x = e)"
| "elem_matches (Some cmp) x e = bindR (cmp x e) (\<lambda>r. Inr (r = 0))"

function list_find_from ::
  "'a list_t \<Rightarrow> 'a \<Rightarrow> ('a \<Rightarrow> 'a \<Rightarrow> int res) option \<Rightarrow> nat \<Rightarrow> nat res" where
  "list_find_from l e cmp i =
     (if i < lsize l then
        bindR (arr_load (ldata l) i) (\<lambda>x.
        bindR (elem_matches cmp x e) (\<lambda>hit.
          if hit then Inr i else list_find_from l e cmp (Suc i)))
      else Inr (lsize l))"
  by pat_completeness auto
termination
  by (relation "measure (\<lambda>(l, e, cmp, i). lsize l - i)") auto

declare list_find_from.simps [simp del]

definition list_find :: "'a list_t \<Rightarrow> 'a \<Rightarrow> ('a \<Rightarrow> 'a \<Rightarrow> int res) option \<Rightarrow> nat res" where
  "list_find l e cmp = list_find_from l e cmp 0"

section \<open>Abstraction and invariant\<close>

definition list_elems :: "'a list_t \<Rightarrow> 'a list" where
  "list_elems l = map the (take (lsize l) (ldata l))"

definition list_ok :: "'a list_t \<Rightarrow> bool" where
  "list_ok l \<longleftrightarrow>
     lsize l \<le> lcapacity l \<and> 0 < lcapacity l \<and> lcapacity l \<le> length (ldata l) \<and>
     (\<forall>i < lsize l. ldata l ! i \<noteq> None)"

lemma list_okD:
  assumes "list_ok l"
  shows "lsize l \<le> lcapacity l" "0 < lcapacity l" "lcapacity l \<le> length (ldata l)"
    "lsize l \<le> length (ldata l)" "\<And>i. i < lsize l \<Longrightarrow> ldata l ! i \<noteq> None"
  using assms by (auto simp: list_ok_def)

lemma length_list_elems: "list_ok l \<Longrightarrow> length (list_elems l) = lsize l"
  by (simp add: list_elems_def list_ok_def)

lemma list_elems_nth: "list_ok l \<Longrightarrow> i < lsize l \<Longrightarrow> ldata l ! i = Some (list_elems l ! i)"
  by (auto simp: list_elems_def list_ok_def)

lemma list_load_elem: "list_ok l \<Longrightarrow> i < lsize l \<Longrightarrow> arr_load (ldata l) i = Inr (list_elems l ! i)"
  by (simp add: arr_load_def list_elems_nth list_ok_def)

lemma list_ok_create: "0 < n \<Longrightarrow> list_ok (list_create n)"
  by (simp add: list_ok_def list_create_def)

lemma list_elems_create [simp]: "list_elems (list_create n) = []"
  by (simp add: list_elems_def list_create_def)

lemma list_size_elems: "list_ok l \<Longrightarrow> list_size l = length (list_elems l)"
  by (simp add: list_size_def length_list_elems)

lemma list_size_create [simp]: "list_size (list_create n) = 0"
  by (simp add: list_size_def list_create_def)

lemma list_get_elems:
  "list_ok l \<Longrightarrow>
     list_get l i = (if i < length (list_elems l) then Inr (list_elems l ! i) else Inl Assert_failed)"
  by (simp add: list_get_def length_list_elems list_load_elem bindR_assertR)

text \<open>
  Appending reaches the end of the block only when the capacity is used up, and then the block
  is doubled first.
\<close>

lemma list_add_elems:
  assumes ok: "list_ok l"
  shows "\<exists>l'. list_add l e = Inr l' \<and> list_ok l' \<and> list_elems l' = list_elems l @ [e]"
proof (cases "lsize l < lcapacity l")
  case True
  let ?l = "l\<lparr>ldata := (ldata l)[lsize l := Some e], lsize := lsize l + 1\<rparr>"
  have "list_add l e = Inr ?l"
    using True list_okD(3) [OF ok] by (simp add: list_add_def arr_store_def)
  moreover have "list_ok ?l"
    using ok True by (auto simp: list_ok_def nth_list_update)
  moreover have "list_elems ?l = list_elems l @ [e]"
    using True list_okD(3) [OF ok] by (simp add: list_elems_def take_Suc_conv_app_nth)
  ultimately show ?thesis by blast
next
  case False
  with ok have full: "lsize l = lcapacity l" by (auto simp: list_ok_def)
  let ?d = "arr_realloc (ldata l) (lcapacity l * 2)"
  let ?l = "l\<lparr>ldata := ?d[lsize l := Some e], lsize := lsize l + 1, lcapacity := lcapacity l * 2\<rparr>"
  have old: "take (lsize l) ?d = take (lsize l) (ldata l)"
    using full list_okD [OF ok] by simp
  have "list_add l e = Inr ?l"
    using False full list_okD(2) [OF ok] by (simp add: list_add_def arr_store_def)
  moreover have "list_ok ?l"
    unfolding list_ok_def
  proof (intro conjI allI impI)
    fix i assume i: "i < lsize ?l"
    show "ldata ?l ! i \<noteq> None"
    proof (cases "i = lsize l")
      case True
      then show ?thesis using full list_okD(2) [OF ok] by simp
    next
      case other: False
      with i have "i < lsize l" by simp
      then have "?d ! i = ldata l ! i"
        using old by (metis nth_take)
      with other \<open>i < lsize l\<close> show ?thesis using list_okD(5) [OF ok] by simp
    qed
  qed (use full list_okD(2) [OF ok] in auto)
  moreover have "list_elems ?l = list_elems l @ [e]"
    using full list_okD(2) [OF ok] old by (simp add: list_elems_def take_Suc_conv_app_nth)
  ultimately show ?thesis by blast
qed

lemma list_remove_elems:
  assumes ok: "list_ok l" and i: "i < length (list_elems l)"
  shows "\<exists>l'. list_remove l i = Inr (list_elems l ! i, l') \<and> list_ok l' \<and>
    list_elems l' = take i (list_elems l) @ drop (Suc i) (list_elems l)"
proof -
  let ?n = "lsize l" and ?d = "ldata l"
  let ?d' = "take i ?d @ take (?n - 1 - i) (drop (i + 1) ?d) @ drop (i + (?n - 1 - i)) ?d"
  let ?l = "l\<lparr>ldata := ?d', lsize := ?n - 1\<rparr>"
  have i': "i < ?n" using i length_list_elems [OF ok] by simp
  note len = list_okD(4) [OF ok]
  have "list_remove l i = Inr (list_elems l ! i, ?l)"
    using i' len list_load_elem [OF ok i'] by (simp add: list_remove_def arr_memmove_def)
  moreover have pre: "take (?n - 1) ?d' = take i ?d @ drop (Suc i) (take ?n ?d)"
    using i' len by (intro nth_equalityI) (auto simp: nth_append)
  moreover have "list_ok ?l"
    unfolding list_ok_def
  proof (intro conjI allI impI)
    fix j assume j: "j < lsize ?l"
    have jn: "j < ?n - 1" using j by simp
    have "ldata ?l ! j = ?d' ! j" by simp
    also have "\<dots> = take (?n - 1) ?d' ! j"
      by (rule nth_take [OF jn, symmetric])
    also have "\<dots> = (if j < i then ?d ! j else ?d ! Suc j)"
      unfolding pre using i' len j by (simp add: nth_append min_def)
    finally show "ldata ?l ! j \<noteq> None"
      using j i' list_okD(5) [OF ok, of j] list_okD(5) [OF ok, of "Suc j"] by simp
  qed (use i' len list_okD [OF ok] in auto)
  moreover have "list_elems ?l = take i (list_elems l) @ drop (Suc i) (list_elems l)"
    unfolding list_elems_def using pre i' by (simp add: take_map drop_map min_def)
  ultimately show ?thesis by blast
qed

lemma list_remove_out:
  "list_ok l \<Longrightarrow> length (list_elems l) \<le> i \<Longrightarrow> list_remove l i = Inl Assert_failed"
  by (simp add: list_remove_def length_list_elems bindR_assertR)

lemma list_find_from_first:
  assumes ok: "list_ok l"
    and m: "\<And>x. x \<in> set (list_elems l) \<Longrightarrow> elem_matches cmp x e = Inr (P x)"
  shows "i \<le> lsize l \<Longrightarrow> list_find_from l e cmp i =
    Inr (i + length (takeWhile (\<lambda>x. \<not> P x) (drop i (list_elems l))))"
proof (induction "lsize l - i" arbitrary: i)
  case 0
  then show ?case
    using length_list_elems [OF ok] by (simp add: list_find_from.simps [of l e cmp i])
next
  case (Suc k)
  then have i: "i < lsize l" by simp
  have d: "drop i (list_elems l) = list_elems l ! i # drop (Suc i) (list_elems l)"
    using i length_list_elems [OF ok] by (simp add: Cons_nth_drop_Suc)
  have "elem_matches cmp (list_elems l ! i) e = Inr (P (list_elems l ! i))"
    using i length_list_elems [OF ok] by (intro m) simp
  with Suc i show ?case
    using list_load_elem [OF ok i] by (simp add: list_find_from.simps [of l e cmp i] d)
qed

lemma list_find_first:
  assumes "list_ok l"
    and "\<And>x. x \<in> set (list_elems l) \<Longrightarrow> elem_matches cmp x e = Inr (P x)"
  shows "list_find l e cmp = Inr (length (takeWhile (\<lambda>x. \<not> P x) (list_elems l)))"
  using list_find_from_first [OF assms, of 0] by (simp add: list_find_def)

lemma list_destroy_elems:
  assumes "list_ok l"
  shows "list_destroy l True = Inr (list_elems l)"
proof -
  have "mapR (\<lambda>i. arr_load (ldata l) i) [0..<lsize l] = Inr (map (\<lambda>i. list_elems l ! i) [0..<lsize l])"
    by (rule mapR_pure) (simp add: list_load_elem [OF assms])
  also have "map (\<lambda>i. list_elems l ! i) [0..<lsize l] = list_elems l"
    using length_list_elems [OF assms] by (metis map_nth)
  finally show ?thesis by (simp add: list_destroy_def)
qed

lemma list_destroy_none [simp]: "list_destroy l False = Inr []"
  by (simp add: list_destroy_def)

text \<open>
  A list that is only read: \<open>list_create(0)\<close> without an append is such a list, although it is not
  well formed.
\<close>

definition list_rd :: "'a list_t \<Rightarrow> bool" where
  "list_rd l \<longleftrightarrow> lsize l \<le> length (ldata l) \<and> (\<forall>i < lsize l. ldata l ! i \<noteq> None)"

lemma list_ok_rd: "list_ok l \<Longrightarrow> list_rd l"
  by (auto simp: list_ok_def list_rd_def)

lemma list_rd_create: "list_rd (list_create n)"
  by (simp add: list_rd_def list_create_def)

lemma list_size_rd: "list_rd l \<Longrightarrow> list_size l = length (list_elems l)"
  by (simp add: list_size_def list_elems_def list_rd_def)

lemma list_load_rd: "list_rd l \<Longrightarrow> i < length (list_elems l) \<Longrightarrow> arr_load (ldata l) i = Inr (list_elems l ! i)"
  by (auto simp: arr_load_def list_elems_def list_rd_def split: option.splits)

lemma list_get_rd:
  "list_rd l \<Longrightarrow>
     list_get l i = (if i < length (list_elems l) then Inr (list_elems l ! i) else Inl Assert_failed)"
  using list_load_rd [of l i] list_size_rd [of l]
  by (simp add: list_get_def list_size_def bindR_assertR)

lemma list_destroy_rd:
  assumes "list_rd l"
  shows "list_destroy l True = Inr (list_elems l)"
proof -
  have n: "lsize l = length (list_elems l)" using list_size_rd [OF assms] by (simp add: list_size_def)
  have "mapR (\<lambda>i. arr_load (ldata l) i) [0..<length (list_elems l)] = Inr (map (\<lambda>i. list_elems l ! i) [0..<length (list_elems l)])"
    by (rule mapR_pure) (simp add: list_load_rd [OF assms])
  also have "map (\<lambda>i. list_elems l ! i) [0..<length (list_elems l)] = list_elems l"
    by (rule map_nth)
  finally show ?thesis by (simp add: list_destroy_def n)
qed

section \<open>The interface of a sequence\<close>

text \<open>
  What the clients of the list rely on. Laws are stated against the sequence of elements, the
  errors included.
\<close>

locale sequence =
  fixes size_of :: "'l \<Rightarrow> nat"
    and get :: "'l \<Rightarrow> nat \<Rightarrow> 'a res"
    and add :: "'l \<Rightarrow> 'a \<Rightarrow> 'l res"
    and remove :: "'l \<Rightarrow> nat \<Rightarrow> ('a \<times> 'l) res"
    and elems :: "'l \<Rightarrow> 'a list"
    and ok :: "'l \<Rightarrow> bool"
  assumes size_law: "ok l \<Longrightarrow> size_of l = length (elems l)"
    and get_law: "ok l \<Longrightarrow>
      get l i = (if i < length (elems l) then Inr (elems l ! i) else Inl Assert_failed)"
    and add_law: "ok l \<Longrightarrow> \<exists>l'. add l x = Inr l' \<and> ok l' \<and> elems l' = elems l @ [x]"
    and remove_law: "ok l \<Longrightarrow> i < length (elems l) \<Longrightarrow>
      \<exists>l'. remove l i = Inr (elems l ! i, l') \<and> ok l' \<and>
        elems l' = take i (elems l) @ drop (Suc i) (elems l)"
    and remove_out_law: "ok l \<Longrightarrow> length (elems l) \<le> i \<Longrightarrow> remove l i = Inl Assert_failed"
begin

lemma addE:
  assumes "ok l"
  obtains l' where "add l x = Inr l'" "ok l'" "elems l' = elems l @ [x]"
  using add_law [OF assms] by blast

lemma add_Inr: "ok l \<Longrightarrow> add l x = Inr l' \<Longrightarrow> ok l' \<and> elems l' = elems l @ [x]"
  using add_law [of l x] by auto

lemma get_Inr: "ok l \<Longrightarrow> get l i = Inr x \<longleftrightarrow> i < length (elems l) \<and> elems l ! i = x"
  by (simp add: get_law)

lemma get_after_add:
  assumes "ok l" "add l x = Inr l'"
  shows "get l' (size_of l) = Inr x" "i < size_of l \<Longrightarrow> get l' i = get l i"
  using add_Inr [OF assms] assms(1) by (simp_all add: get_law size_law nth_append)

lemma remove_first:
  assumes "ok l" "elems l = x # xs"
  shows "\<exists>l'. remove l 0 = Inr (x, l') \<and> ok l' \<and> elems l' = xs"
  using remove_law [OF assms(1), of 0] assms(2) by simp

lemma remove_Inr:
  assumes "ok l" "remove l i = Inr (x, l')"
  shows "i < length (elems l)" "x = elems l ! i" "ok l'"
    "elems l' = take i (elems l) @ drop (Suc i) (elems l)"
proof -
  show i: "i < length (elems l)"
    using assms remove_out_law [of l i] by (cases "i < length (elems l)") auto
  show "x = elems l ! i" "ok l'" "elems l' = take i (elems l) @ drop (Suc i) (elems l)"
    using remove_law [OF assms(1) i] assms(2) by auto
qed

lemma mset_remove:
  assumes "ok l" "remove l i = Inr (x, l')"
  shows "mset (elems l) = add_mset x (mset (elems l'))"
proof -
  note r = remove_Inr [OF assms]
  have "elems l = take i (elems l) @ elems l ! i # drop (Suc i) (elems l)"
    using r(1) by (rule id_take_nth_drop)
  then have "mset (elems l) = mset (take i (elems l)) + add_mset (elems l ! i) (mset (drop (Suc i) (elems l)))"
    by (metis mset.simps(2) mset_append)
  then show ?thesis using r by simp
qed

lemma add_all:
  assumes "ok l"
  shows "\<exists>l'. foldR (\<lambda>x l. add l x) xs l = Inr l' \<and> ok l' \<and> elems l' = elems l @ xs"
  using assms
proof (induction xs arbitrary: l)
  case (Cons x xs)
  obtain l1 where "add l x = Inr l1" "ok l1" "elems l1 = elems l @ [x]"
    using Cons.prems by (rule addE)
  with Cons.IH [of l1] show ?case by auto
qed simp

end

interpretation clist: sequence list_size list_get list_add list_remove list_elems list_ok
proof
  fix l :: "'a list_t" and i
  assume "list_ok l" "length (list_elems l) \<le> i"
  then show "list_remove l i = Inl Assert_failed" by (rule list_remove_out)
qed (simp_all add: list_size_elems list_get_elems list_add_elems list_remove_elems)

section \<open>Properties\<close>

text \<open>
  A list created with a positive capacity never reads or writes outside its block and never
  fails an assertion while it is only appended to: adding any sequence of elements succeeds, the
  list then holds exactly these elements in order, and its size is their number, whatever the
  number of doublings of the block on the way.
\<close>

lemma list_appends_all:
  assumes "0 < n"
  shows "\<exists>l. foldR (\<lambda>x l. list_add l x) xs (list_create n) = Inr l \<and> list_ok l \<and>
    list_elems l = xs \<and> list_size l = length xs \<and> (\<forall>i < length xs. list_get l i = Inr (xs ! i))"
proof -
  obtain l where "foldR (\<lambda>x l. list_add l x) xs (list_create n) = Inr l" "list_ok l"
      "list_elems l = list_elems (list_create n) @ xs"
    using clist.add_all [OF list_ok_create [OF assms]] by blast
  then show ?thesis by (auto simp: list_get_elems list_size_elems)
qed

lemma list_appends_all_witness:
  "\<exists>l. foldR (\<lambda>x l. list_add l x) [10, 20, 30 :: nat] (list_create 1) = Inr l \<and> list_ok l \<and>
    list_elems l = [10, 20, 30] \<and> list_size l = 3 \<and> (\<forall>i < 3. list_get l i = Inr ([10, 20, 30] ! i))"
proof -
  have l: "length [10, 20, 30 :: nat] = 3" by simp
  show ?thesis by (rule list_appends_all [of 1 "[10, 20, 30 :: nat]", unfolded l]) simp
qed

text \<open>
  \<open>list_create(0)\<close> allocates a block of no cells but records a capacity of 1, so the first
  \<open>list_add\<close> on such a list writes past the block, for every element.
\<close>

theorem list_create_0_overflows: "list_add (list_create 0) e = Inl Out_of_bounds"
  by (simp add: list_add_def list_create_def arr_store_def)

end
