(* ===== verification/CMap.thy ===== *)
theory CMap
  imports CList
begin

text \<open>
  The chained hash map of \<open>src/util/map.c\<close>: an array of buckets, each \<open>NULL\<close> or an array list
  of entries. An entry is owned by one slot of one bucket, so the model stores it there, and a
  pointer to an entry is its position (bucket, slot). Keys are the byte strings the key pointers
  point to; the values passed to \<open>map_set\<close> are never \<open>NULL\<close> in the program. The destructors are
  calls into the client: each operation returns the list of the destructor calls it makes.

  \<open>map_abs\<close> is the abstraction, a finite map; \<open>dictionary\<close> is the interface the clients use.
\<close>

record ('k, 'v) entry_t =
  ekey :: 'k
  eval :: "'v option"

record ('k, 'v) map_t =
  m_n_buckets :: nat
  m_buckets :: "('k, 'v) entry_t list_t option list"
  m_size :: nat
  m_destroy_key :: bool
  m_destroy_val :: bool
  m_compare_key :: "'k \<Rightarrow> 'k \<Rightarrow> int"
  m_hash :: "'k \<Rightarrow> u64"

datatype ('k, 'v) destructor_call = Destroy_key 'k | Destroy_val "'v option"

section \<open>Operations\<close>

definition entry_destroy :: "('k, 'v) map_t \<Rightarrow> ('k, 'v) entry_t \<Rightarrow> ('k, 'v) destructor_call list" where
  "entry_destroy m e =
     (if m_destroy_key m then [Destroy_key (ekey e)] else []) @
     (if m_destroy_val m then [Destroy_val (eval e)] else [])"

definition entry_compare :: "('k, 'v) map_t \<Rightarrow> ('k, 'v) entry_t \<Rightarrow> ('k, 'v) entry_t \<Rightarrow> int" where
  "entry_compare m e1 e2 = m_compare_key m (ekey e1) (ekey e2)"

definition map_get_bucket :: "('k, 'v) map_t \<Rightarrow> 'k \<Rightarrow> nat res" where
  "map_get_bucket m key =
     (if m_n_buckets m = 0 then Inl Div_by_zero
      else Inr (unat (m_hash m key) mod m_n_buckets m))"

definition map_size :: "('k, 'v) map_t \<Rightarrow> nat" where
  "map_size m = m_size m"

definition map_create ::
  "nat \<Rightarrow> ('k \<Rightarrow> u64) \<Rightarrow> bool \<Rightarrow> bool \<Rightarrow> ('k \<Rightarrow> 'k \<Rightarrow> int) \<Rightarrow> ('k, 'v) map_t" where
  "map_create n_buckets hash destroy_key destroy_val compare =
     \<lparr>m_n_buckets = n_buckets,
      m_buckets = replicate n_buckets None,
      m_size = 0,
      m_destroy_key = destroy_key,
      m_destroy_val = destroy_val,
      m_compare_key = compare,
      m_hash = hash\<rparr>"

definition bucket_at :: "('k, 'v) map_t \<Rightarrow> nat \<Rightarrow> ('k, 'v) entry_t list_t option res" where
  "bucket_at m bi = (if bi < length (m_buckets m) then Inr (m_buckets m ! bi) else Inl Out_of_bounds)"

text \<open>The entry with its position, which stands for the pointer the code returns.\<close>

definition map_get_entry :: "('k, 'v) map_t \<Rightarrow> 'k \<Rightarrow> (nat \<times> nat \<times> ('k, 'v) entry_t) option res" where
  "map_get_entry m key =
     bindR (map_get_bucket m key) (\<lambda>bi.
     bindR (bucket_at m bi) (\<lambda>b.
       case b of
         None \<Rightarrow> Inr None
       | Some bucket \<Rightarrow>
           bindR (list_find bucket \<lparr>ekey = key, eval = None\<rparr> (Some (\<lambda>e1 e2. Inr (entry_compare m e1 e2)))) (\<lambda>ei.
             if ei = list_size bucket then Inr None
             else bindR (list_get bucket ei) (\<lambda>e. Inr (Some (bi, ei, e))))))"

definition map_get :: "('k, 'v) map_t \<Rightarrow> 'k \<Rightarrow> 'v option res" where
  "map_get m key =
     bindR (map_get_entry m key) (\<lambda>e.
       case e of None \<Rightarrow> Inr None | Some (_, _, e) \<Rightarrow> Inr (eval e))"

definition write_entry :: "nat \<Rightarrow> ('k, 'v) entry_t \<Rightarrow> ('k, 'v) entry_t list_t \<Rightarrow> ('k, 'v) entry_t list_t" where
  "write_entry ei e l = l\<lparr>ldata := (ldata l)[ei := Some e]\<rparr>"

definition map_set ::
  "('k, 'v) map_t \<Rightarrow> 'k \<Rightarrow> 'v \<Rightarrow> ('v option \<times> ('k, 'v) destructor_call list \<times> ('k, 'v) map_t) res" where
  "map_set m key val =
     bindR (map_get_entry m key) (\<lambda>old.
       case old of
         Some (bi, ei, old_entry) \<Rightarrow>
           Inr (eval old_entry,
                if m_destroy_key m then [Destroy_key (ekey old_entry)] else [],
                m\<lparr>m_buckets := (m_buckets m)
                    [bi := map_option (write_entry ei \<lparr>ekey = key, eval = Some val\<rparr>) (m_buckets m ! bi)]\<rparr>)
       | None \<Rightarrow>
           bindR (map_get_bucket m key) (\<lambda>i.
           bindR (bucket_at m i) (\<lambda>b.
             case b of
               None \<Rightarrow>
                 bindR (list_add (list_create 1) \<lparr>ekey = key, eval = Some val\<rparr>) (\<lambda>l.
                   Inr (None, [], m\<lparr>m_buckets := (m_buckets m)[i := Some l], m_size := m_size m + 1\<rparr>))
             | Some bucket \<Rightarrow>
                 bindR (list_add bucket \<lparr>ekey = key, eval = Some val\<rparr>) (\<lambda>l.
                   Inr (None, [], m\<lparr>m_buckets := (m_buckets m)[i := Some l], m_size := m_size m + 1\<rparr>)))))"

text \<open>As in the source, \<open>map_remove\<close> leaves \<open>m_size\<close> alone.\<close>

definition map_remove ::
  "('k, 'v) map_t \<Rightarrow> 'k \<Rightarrow> ('v option \<times> ('k, 'v) destructor_call list \<times> ('k, 'v) map_t) res" where
  "map_remove m key =
     bindR (map_get_bucket m key) (\<lambda>bi.
     bindR (bucket_at m bi) (\<lambda>b.
       case b of
         None \<Rightarrow> Inr (None, [], m)
       | Some bucket \<Rightarrow>
           bindR (list_find bucket \<lparr>ekey = key, eval = None\<rparr> (Some (\<lambda>e1 e2. Inr (entry_compare m e1 e2)))) (\<lambda>ei.
             if ei = list_size bucket then Inr (None, [], m)
             else
               bindR (list_remove bucket ei) (\<lambda>(entry, l).
                 Inr (eval entry,
                      if m_destroy_key m then [Destroy_key (ekey entry)] else [],
                      m\<lparr>m_buckets := (m_buckets m)[bi := Some l]\<rparr>)))))"

definition destroy_bucket ::
  "('k, 'v) map_t \<Rightarrow> nat \<Rightarrow> ('k, 'v) destructor_call list \<Rightarrow> ('k, 'v) destructor_call list res" where
  "destroy_bucket m i calls =
     bindR (bucket_at m i) (\<lambda>b.
       case b of
         None \<Rightarrow> Inr calls
       | Some bucket \<Rightarrow>
           bindR (foldR (\<lambda>j calls. bindR (list_get bucket j) (\<lambda>e. Inr (calls @ entry_destroy m e)))
                    [0..<list_size bucket] calls) (\<lambda>calls'.
           bindR (list_destroy bucket False) (\<lambda>_. Inr calls')))"

definition map_destroy :: "('k, 'v) map_t \<Rightarrow> ('k, 'v) destructor_call list res" where
  "map_destroy m = foldR (destroy_bucket m) [0..<m_n_buckets m] []"

section \<open>Abstraction and invariant\<close>

definition bucket_index :: "('k, 'v) map_t \<Rightarrow> 'k \<Rightarrow> nat" where
  "bucket_index m k = unat (m_hash m k) mod m_n_buckets m"

definition bucket_entries :: "('k, 'v) entry_t list_t option \<Rightarrow> ('k, 'v) entry_t list" where
  "bucket_entries b = (case b of None \<Rightarrow> [] | Some l \<Rightarrow> list_elems l)"

definition assoc_of :: "('k, 'v) entry_t list \<Rightarrow> 'k \<rightharpoonup> 'v" where
  "assoc_of es = map_of (map (\<lambda>e. (ekey e, the (eval e))) es)"

definition map_abs :: "('k, 'v) map_t \<Rightarrow> 'k \<rightharpoonup> 'v" where
  "map_abs m k = assoc_of (bucket_entries (m_buckets m ! bucket_index m k)) k"

definition bucket_ok :: "('k \<Rightarrow> bool) \<Rightarrow> ('k, 'v) map_t \<Rightarrow> nat \<Rightarrow> ('k, 'v) entry_t list_t option \<Rightarrow> bool" where
  "bucket_ok valid m i b \<longleftrightarrow>
     (case b of None \<Rightarrow> True | Some l \<Rightarrow> list_ok l) \<and>
     distinct (map ekey (bucket_entries b)) \<and>
     (\<forall>e \<in> set (bucket_entries b). valid (ekey e) \<and> bucket_index m (ekey e) = i \<and> eval e \<noteq> None)"

definition map_ok :: "('k \<Rightarrow> bool) \<Rightarrow> ('k, 'v) map_t \<Rightarrow> bool" where
  "map_ok valid m \<longleftrightarrow>
     0 < m_n_buckets m \<and> length (m_buckets m) = m_n_buckets m \<and>
     (\<forall>i < m_n_buckets m. bucket_ok valid m i (m_buckets m ! i)) \<and>
     (\<forall>x y. valid x \<longrightarrow> valid y \<longrightarrow> m_compare_key m x y = 0 \<longleftrightarrow> x = y)"

lemma map_okD:
  assumes "map_ok valid m"
  shows "0 < m_n_buckets m" "length (m_buckets m) = m_n_buckets m"
    "\<And>i. i < m_n_buckets m \<Longrightarrow> bucket_ok valid m i (m_buckets m ! i)"
    "\<And>x y. valid x \<Longrightarrow> valid y \<Longrightarrow> m_compare_key m x y = 0 \<longleftrightarrow> x = y"
    "bucket_index m k < m_n_buckets m"
  using assms by (auto simp: map_ok_def bucket_index_def)

lemma bucket_entries_simps [simp]:
  "bucket_entries None = []" "bucket_entries (Some l) = list_elems l"
  by (simp_all add: bucket_entries_def)

lemma assoc_of_simps [simp]:
  "assoc_of [] = Map.empty"
  "assoc_of (e # es) = (assoc_of es)(ekey e \<mapsto> the (eval e))"
  by (simp_all add: assoc_of_def)

lemma assoc_of_append: "assoc_of (xs @ ys) = assoc_of ys ++ assoc_of xs"
  by (simp add: assoc_of_def)

lemma dom_assoc_of: "dom (assoc_of es) = ekey ` set es"
  by (simp add: assoc_of_def dom_map_of_conv_image_fst image_image)

lemma assoc_of_Some_iff: "(\<exists>v. assoc_of es k = Some v) \<longleftrightarrow> k \<in> ekey ` set es"
  using dom_assoc_of [of es] by (metis domIff domI not_None_eq)

lemma assoc_of_None: "k \<notin> ekey ` set es \<Longrightarrow> assoc_of es k = None"
  using dom_assoc_of [of es] by auto

lemma assoc_of_eq:
  assumes "distinct (map ekey es)" "e \<in> set es"
  shows "assoc_of es (ekey e) = Some (the (eval e))"
  unfolding assoc_of_def
  by (rule map_of_is_SomeI) (use assms in \<open>auto simp: comp_def image_iff\<close>)

lemma assoc_of_update_nth:
  assumes "distinct (map ekey es)" "i < length es" "ekey e = ekey (es ! i)"
  shows "assoc_of (es[i := e]) = (assoc_of es)(ekey e \<mapsto> the (eval e))"
  using assms
proof (induction es arbitrary: i)
  case (Cons x es)
  show ?case
  proof (cases i)
    case 0
    with Cons.prems show ?thesis by (simp add: fun_eq_iff)
  next
    case (Suc j)
    with Cons.prems have "ekey x \<noteq> ekey e" by auto
    with Cons Suc show ?thesis by (auto simp: fun_eq_iff)
  qed
qed simp

lemma assoc_of_remove_nth:
  assumes "distinct (map ekey es)" "i < length es"
  shows "assoc_of (take i es @ drop (Suc i) es) = (assoc_of es)(ekey (es ! i) := None)"
  using assms
proof (induction es arbitrary: i)
  case (Cons x es)
  show ?case
  proof (cases i)
    case 0
    with Cons.prems show ?thesis
      using assoc_of_None [of "ekey x" es] by (auto simp: fun_eq_iff)
  next
    case (Suc j)
    with Cons.prems have "ekey x \<noteq> ekey (es ! j)" by auto
    with Cons Suc show ?thesis by (auto simp: fun_eq_iff)
  qed
qed simp

text \<open>A key's position in its bucket.\<close>

definition key_index :: "'k \<Rightarrow> ('k, 'v) entry_t list \<Rightarrow> nat" where
  "key_index k es = length (takeWhile (\<lambda>e. ekey e \<noteq> k) es)"

lemma key_index_found:
  assumes "k \<in> ekey ` set es"
  shows "key_index k es < length es" "ekey (es ! key_index k es) = k"
proof -
  have "length (takeWhile (\<lambda>e. ekey e \<noteq> k) es) < length es"
    using assms by (induction es) auto
  then show *: "key_index k es < length es" by (simp add: key_index_def)
  show "ekey (es ! key_index k es) = k"
    using nth_length_takeWhile [of "\<lambda>e. ekey e \<noteq> k" es] * by (simp add: key_index_def)
qed

lemma key_index_missing: "k \<notin> ekey ` set es \<Longrightarrow> key_index k es = length es"
  unfolding key_index_def by (subst takeWhile_eq_all_conv [THEN iffD2]) auto

lemma assoc_of_key_index:
  assumes "distinct (map ekey es)" "k \<in> ekey ` set es"
  shows "assoc_of es k = Some (the (eval (es ! key_index k es)))"
  using assoc_of_eq [OF assms(1), of "es ! key_index k es"] key_index_found [OF assms(2)] by simp

lemma find_key:
  assumes ok: "map_ok valid m" and k: "valid k"
    and b: "m_buckets m ! bucket_index m k = Some bucket"
  shows "list_find bucket \<lparr>ekey = k, eval = None\<rparr> (Some (\<lambda>e1 e2. Inr (entry_compare m e1 e2)))
    = Inr (key_index k (list_elems bucket))"
proof -
  have bk: "bucket_ok valid m (bucket_index m k) (Some bucket)"
    using map_okD(3,5) [OF ok] b by metis
  have "list_find bucket \<lparr>ekey = k, eval = None\<rparr> (Some (\<lambda>e1 e2. Inr (entry_compare m e1 e2)))
      = Inr (length (takeWhile (\<lambda>e. \<not> (ekey e = k)) (list_elems bucket)))"
    using bk k map_okD(4) [OF ok]
    by (intro list_find_first) (auto simp: bucket_ok_def entry_compare_def)
  then show ?thesis by (simp add: key_index_def)
qed

lemma map_get_entry_cases:
  assumes ok: "map_ok valid m" and k: "valid k"
  defines "es \<equiv> bucket_entries (m_buckets m ! bucket_index m k)"
  shows "map_get_entry m k =
    Inr (if k \<in> ekey ` set es
         then Some (bucket_index m k, key_index k es, es ! key_index k es) else None)"
proof (cases "m_buckets m ! bucket_index m k")
  case None
  then show ?thesis
    using map_okD(1,2,5) [OF ok]
    by (simp add: map_get_entry_def map_get_bucket_def bucket_at_def bucket_index_def es_def)
next
  case (Some bucket)
  then have es: "es = list_elems bucket" by (simp add: es_def)
  have "list_ok bucket"
    using map_okD(3) [OF ok map_okD(5) [OF ok], of k] Some by (simp add: bucket_ok_def)
  moreover have "map_get_bucket m k = Inr (bucket_index m k)"
    using map_okD(1) [OF ok] by (simp add: map_get_bucket_def bucket_index_def)
  moreover have "bucket_at m (bucket_index m k) = Inr (Some bucket)"
    using Some map_okD(2,5) [OF ok] by (simp add: bucket_at_def)
  ultimately show ?thesis
    using find_key [OF ok k Some] key_index_found(1) [of k es] key_index_missing [of k es]
    by (cases "k \<in> ekey ` set es") (auto simp: map_get_entry_def list_size_elems list_get_elems es)
qed

lemma map_get_abs:
  assumes ok: "map_ok valid m" and k: "valid k"
  shows "map_get m k = Inr (map_abs m k)"
proof -
  let ?es = "bucket_entries (m_buckets m ! bucket_index m k)"
  have b: "bucket_ok valid m (bucket_index m k) (m_buckets m ! bucket_index m k)"
    using map_okD(3,5) [OF ok] by simp
  show ?thesis
  proof (cases "k \<in> ekey ` set ?es")
    case True
    note ki = key_index_found [OF True]
    have "eval (?es ! key_index k ?es) \<noteq> None"
      using b ki(1) by (simp add: bucket_ok_def)
    then show ?thesis
      using True b assoc_of_key_index [of ?es k]
      by (simp add: map_get_def map_get_entry_cases [OF ok k] map_abs_def bucket_ok_def)
  next
    case False
    then show ?thesis
      by (simp add: map_get_def map_get_entry_cases [OF ok k] map_abs_def assoc_of_None)
  qed
qed

text \<open>Replacing one bucket.\<close>

lemma bucket_index_update [simp]:
  "bucket_index (m\<lparr>m_buckets := bs\<rparr>) k = bucket_index m k"
  "bucket_index (m\<lparr>m_size := s\<rparr>) k = bucket_index m k"
  "bucket_index (m\<lparr>m_buckets := bs, m_size := s\<rparr>) k = bucket_index m k"
  by (simp_all add: bucket_index_def)

lemma map_ok_replace:
  assumes ok: "map_ok valid m" and i: "i < m_n_buckets m"
    and b: "bucket_ok valid m i b"
  shows "map_ok valid (m\<lparr>m_buckets := (m_buckets m)[i := b]\<rparr>)"
    and "map_ok valid (m\<lparr>m_buckets := (m_buckets m)[i := b], m_size := s\<rparr>)"
  using map_okD [OF ok] i b
  by (auto simp: map_ok_def bucket_ok_def nth_list_update split: option.splits)

lemma map_abs_replace:
  assumes ok: "map_ok valid m"
    and b: "assoc_of (bucket_entries b) = (assoc_of (bucket_entries (m_buckets m ! bucket_index m k)))(k := v)"
    and nb: "\<And>k'. k' \<noteq> k \<Longrightarrow> bucket_index m k' = bucket_index m k \<Longrightarrow>
      assoc_of (bucket_entries b) k' = assoc_of (bucket_entries (m_buckets m ! bucket_index m k)) k'"
  shows "map_abs (m\<lparr>m_buckets := (m_buckets m)[bucket_index m k := b]\<rparr>) = (map_abs m)(k := v)"
    and "map_abs (m\<lparr>m_buckets := (m_buckets m)[bucket_index m k := b], m_size := s\<rparr>) = (map_abs m)(k := v)"
  using map_okD(2,5) [OF ok] b nb
  by (auto simp: fun_eq_iff map_abs_def nth_list_update)

text \<open>The number of entries, and of keys.\<close>

definition map_count :: "('k, 'v) map_t \<Rightarrow> nat" where
  "map_count m = length (concat (map bucket_entries (m_buckets m)))"

lemma length_concat_update:
  "i < length xs \<Longrightarrow>
     length (concat (map f (xs[i := y]))) + length (f (xs ! i)) =
     length (concat (map f xs)) + length (f y)"
proof (induction xs arbitrary: i)
  case (Cons x xs)
  then show ?case by (cases i) auto
qed simp

lemma map_count_replace:
  assumes "i < length (m_buckets m)"
  shows "map_count (m\<lparr>m_buckets := (m_buckets m)[i := b]\<rparr>) + length (bucket_entries (m_buckets m ! i)) =
      map_count m + length (bucket_entries b)"
    and "map_count (m\<lparr>m_buckets := (m_buckets m)[i := b], m_size := s\<rparr>) + length (bucket_entries (m_buckets m ! i)) =
      map_count m + length (bucket_entries b)"
  using length_concat_update [OF assms, of bucket_entries b] by (simp_all add: map_count_def)

lemma in_dom_map_abs:
  "k \<in> dom (map_abs m) \<longleftrightarrow> k \<in> ekey ` set (bucket_entries (m_buckets m ! bucket_index m k))"
  by (simp add: dom_def map_abs_def assoc_of_Some_iff)

lemma map_abs_SomeD:
  assumes ok: "map_ok valid m" and s: "map_abs m k = Some v"
  shows "valid k" "k \<in> ekey ` set (bucket_entries (m_buckets m ! bucket_index m k))"
proof -
  show *: "k \<in> ekey ` set (bucket_entries (m_buckets m ! bucket_index m k))"
    using in_dom_map_abs [of k m] s by (simp add: domI)
  show "valid k"
    using * map_okD(3) [OF ok map_okD(5) [OF ok], of k] by (auto simp: bucket_ok_def)
qed

lemma dom_map_abs:
  assumes ok: "map_ok valid m"
  shows "dom (map_abs m) = (\<Union>i<m_n_buckets m. ekey ` set (bucket_entries (m_buckets m ! i)))"
    (is "_ = ?U")
proof
  show "dom (map_abs m) \<subseteq> ?U"
    using map_abs_SomeD(2) [OF ok] map_okD(5) [OF ok] by blast
  show "?U \<subseteq> dom (map_abs m)"
  proof
    fix k assume "k \<in> ?U"
    then obtain i where i: "i < m_n_buckets m" and k: "k \<in> ekey ` set (bucket_entries (m_buckets m ! i))"
      by blast
    then have "bucket_index m k = i"
      using map_okD(3) [OF ok i] by (auto simp: bucket_ok_def)
    with k show "k \<in> dom (map_abs m)"
      by (simp add: dom_def map_abs_def assoc_of_Some_iff)
  qed
qed

lemma map_count_card:
  assumes ok: "map_ok valid m"
  shows "map_count m = card (dom (map_abs m))"
proof -
  let ?K = "\<lambda>i. ekey ` set (bucket_entries (m_buckets m ! i))"
  have "card (dom (map_abs m)) = (\<Sum>i<m_n_buckets m. card (?K i))"
    unfolding dom_map_abs [OF ok]
  proof (rule card_UN_disjoint)
    show "\<forall>i\<in>{..<m_n_buckets m}. \<forall>j\<in>{..<m_n_buckets m}. i \<noteq> j \<longrightarrow> ?K i \<inter> ?K j = {}"
    proof (intro ballI impI)
      fix i j assume "i \<in> {..<m_n_buckets m}" "j \<in> {..<m_n_buckets m}" "i \<noteq> j"
      then show "?K i \<inter> ?K j = {}"
        using map_okD(3) [OF ok, of i] map_okD(3) [OF ok, of j] by (auto simp: bucket_ok_def)
    qed
  qed simp_all
  also have "\<dots> = (\<Sum>i<m_n_buckets m. length (bucket_entries (m_buckets m ! i)))"
  proof (rule sum.cong)
    fix i assume "i \<in> {..<m_n_buckets m}"
    then have "distinct (map ekey (bucket_entries (m_buckets m ! i)))"
      using map_okD(3) [OF ok, of i] by (simp add: bucket_ok_def)
    from distinct_card [OF this] show "card (?K i) = length (bucket_entries (m_buckets m ! i))"
      by simp
  qed simp
  also have "\<dots> = map_count m"
    using map_okD(2) [OF ok]
    by (simp add: map_count_def length_concat comp_def sum_list_sum_nth atLeast0LessThan)
  finally show ?thesis by simp
qed

section \<open>Correctness of the operations\<close>

lemma map_create_ok:
  assumes "0 < n" "\<And>x y. valid x \<Longrightarrow> valid y \<Longrightarrow> cmp x y = 0 \<longleftrightarrow> x = y"
  shows "map_ok valid (map_create n h dk dv cmp)"
    and "map_abs (map_create n h dk dv cmp) = Map.empty"
    and "map_count (map_create n h dk dv cmp) = 0"
  using assms
  by (auto simp: map_ok_def map_create_def bucket_ok_def map_abs_def bucket_index_def map_count_def
      concat_eq_Nil_conv)

definition set_step :: "('k \<Rightarrow> bool) \<Rightarrow> ('k, 'v) map_t \<Rightarrow> 'k \<Rightarrow> 'v \<Rightarrow> ('k, 'v) map_t \<Rightarrow> bool" where
  "set_step valid m k v m' \<longleftrightarrow>
     map_ok valid m' \<and> map_abs m' = (map_abs m)(k \<mapsto> v) \<and>
     m_size m' = m_size m + (if k \<in> dom (map_abs m) then 0 else 1)"

lemma write_entry_list:
  assumes ok: "list_ok l" and i: "i < length (list_elems l)"
  shows "list_ok (write_entry i e l)" "list_elems (write_entry i e l) = (list_elems l)[i := e]"
  using ok i length_list_elems [OF ok] list_okD(4) [OF ok]
  by (auto simp: list_ok_def write_entry_def list_elems_def nth_list_update take_update_swap map_update)

lemma map_set_replace:
  assumes ok: "map_ok valid m" and k: "valid k" and hit: "k \<in> dom (map_abs m)"
  shows "\<exists>d m'. map_set m k v = Inr (map_abs m k, d, m') \<and> set_step valid m k v m'"
proof -
  let ?i = "bucket_index m k"
  have hit': "k \<in> ekey ` set (bucket_entries (m_buckets m ! ?i))"
    using hit by (simp add: in_dom_map_abs)
  then obtain l where l: "m_buckets m ! ?i = Some l"
    by (cases "m_buckets m ! ?i") auto
  let ?es = "list_elems l" and ?e = "\<lparr>ekey = k, eval = Some v\<rparr>"
  let ?j = "key_index k ?es"
  have bo: "bucket_ok valid m ?i (Some l)"
    using map_okD(3,5) [OF ok] l by metis
  note ki = key_index_found [of k ?es]
  have kes: "k \<in> ekey ` set ?es" using hit' l by simp
  note ki = key_index_found [OF kes]
  note we = write_entry_list [of l ?j ?e]
  have lok: "list_ok l" using bo by (simp add: bucket_ok_def)
  let ?m = "m\<lparr>m_buckets := (m_buckets m)[?i := Some (write_entry ?j ?e l)]\<rparr>"
  have "map_set m k v = Inr (map_abs m k, if m_destroy_key m then [Destroy_key k] else [], ?m)"
  proof -
    have "eval (?es ! ?j) = map_abs m k"
      using map_get_abs [OF ok k] kes l
      by (simp add: map_get_def map_get_entry_cases [OF ok k])
    then show ?thesis
      using kes ki l by (simp add: map_set_def map_get_entry_cases [OF ok k])
  qed
  moreover have "bucket_ok valid m ?i (Some (write_entry ?j ?e l))"
  proof -
    have keys: "map ekey (?es[?j := ?e]) = map ekey ?es"
      using ki by (simp add: map_update list_update_same_conv)
    have "\<forall>e \<in> set (?es[?j := ?e]). valid (ekey e) \<and> bucket_index m (ekey e) = ?i \<and> eval e \<noteq> None"
    proof
      fix e assume "e \<in> set (?es[?j := ?e])"
      then have "e = ?e \<or> e \<in> set ?es"
        using set_update_subset_insert [of ?es ?j ?e] by blast
      then show "valid (ekey e) \<and> bucket_index m (ekey e) = ?i \<and> eval e \<noteq> None"
        using bo k by (auto simp: bucket_ok_def)
    qed
    then show ?thesis
      using bo we [OF lok ki(1)] keys by (simp add: bucket_ok_def)
  qed
  then have "map_ok valid ?m"
    using map_ok_replace(1) [OF ok map_okD(5) [OF ok]] by simp
  moreover have "map_abs ?m = (map_abs m)(k \<mapsto> v)"
  proof (rule map_abs_replace(1) [OF ok])
    have "assoc_of (?es[?j := ?e]) = (assoc_of ?es)(k \<mapsto> v)"
      using assoc_of_update_nth [of ?es ?j ?e] bo ki by (simp add: bucket_ok_def)
    then show "assoc_of (bucket_entries (Some (write_entry ?j ?e l))) =
        (assoc_of (bucket_entries (m_buckets m ! ?i)))(k \<mapsto> v)"
      "\<And>k'. k' \<noteq> k \<Longrightarrow> bucket_index m k' = ?i \<Longrightarrow>
        assoc_of (bucket_entries (Some (write_entry ?j ?e l))) k' =
        assoc_of (bucket_entries (m_buckets m ! ?i)) k'"
      using we(2) [OF lok ki(1)] l by simp_all
  qed
  ultimately show ?thesis using hit by (auto simp: set_step_def)
qed

lemma map_set_insert:
  assumes ok: "map_ok valid m" and k: "valid k" and miss: "k \<notin> dom (map_abs m)"
  shows "\<exists>d m'. map_set m k v = Inr (map_abs m k, d, m') \<and> set_step valid m k v m'"
proof -
  let ?i = "bucket_index m k" and ?e = "\<lparr>ekey = k, eval = Some v\<rparr>"
  let ?b = "m_buckets m ! ?i"
  let ?l = "case ?b of None \<Rightarrow> list_create 1 | Some l \<Rightarrow> l"
  have miss': "k \<notin> ekey ` set (bucket_entries ?b)"
    using miss by (simp add: in_dom_map_abs)
  have bo: "bucket_ok valid m ?i ?b"
    using map_okD(3,5) [OF ok] by simp
  have lok: "list_ok ?l" and les: "list_elems ?l = bucket_entries ?b"
    using bo by (auto simp: bucket_ok_def list_ok_create split: option.splits)
  obtain l' where l': "list_add ?l ?e = Inr l'" "list_ok l'" "list_elems l' = bucket_entries ?b @ [?e]"
    using list_add_elems [OF lok, of ?e] les by auto
  let ?m = "m\<lparr>m_buckets := (m_buckets m)[?i := Some l'], m_size := m_size m + 1\<rparr>"
  have "map_set m k v = Inr (None, [], ?m)"
    using miss' l'(1) map_okD(1,2,5) [OF ok]
    by (cases ?b) (simp_all add: map_set_def map_get_entry_cases [OF ok k] map_get_bucket_def
        bucket_at_def bucket_index_def [symmetric])
  moreover have "map_abs m k = None" using miss by auto
  moreover have "bucket_ok valid m ?i (Some l')"
    using bo k miss' l'(2,3) by (auto simp: bucket_ok_def)
  then have "map_ok valid ?m"
    using map_ok_replace(2) [OF ok map_okD(5) [OF ok]] by simp
  moreover have "map_abs ?m = (map_abs m)(k \<mapsto> v)"
    by (rule map_abs_replace(2) [OF ok])
      (use l'(3) miss' in \<open>auto simp: assoc_of_append fun_eq_iff map_add_def assoc_of_None split: option.splits\<close>)
  ultimately show ?thesis using miss by (auto simp: set_step_def)
qed

lemma map_set_abs:
  "map_ok valid m \<Longrightarrow> valid k \<Longrightarrow>
     \<exists>d m'. map_set m k v = Inr (map_abs m k, d, m') \<and> set_step valid m k v m'"
  using map_set_replace [of valid m k v] map_set_insert [of valid m k v] by blast


lemma map_remove_abs:
  assumes ok: "map_ok valid m" and k: "valid k"
  shows "\<exists>d m'. map_remove m k = Inr (map_abs m k, d, m') \<and> map_ok valid m' \<and>
    map_abs m' = (map_abs m)(k := None) \<and> m_size m' = m_size m"
proof -
  let ?i = "bucket_index m k"
  let ?b = "m_buckets m ! ?i"
  have bo: "bucket_ok valid m ?i ?b"
    using map_okD(3,5) [OF ok] by simp
  have at: "map_get_bucket m k = Inr ?i" "bucket_at m ?i = Inr ?b"
    using map_okD(1,2,5) [OF ok] by (simp_all add: map_get_bucket_def bucket_at_def bucket_index_def)
  show ?thesis
  proof (cases "k \<in> dom (map_abs m)")
    case False
    then have miss: "k \<notin> ekey ` set (bucket_entries ?b)" "map_abs m k = None"
      using in_dom_map_abs [of k m] by auto
    have "map_remove m k = Inr (None, [], m)"
    proof (cases ?b)
      case None
      then show ?thesis by (simp add: map_remove_def at)
    next
      case (Some l)
      then have "key_index k (list_elems l) = list_size l"
        using miss bo by (simp add: key_index_missing list_size_elems bucket_ok_def)
      then show ?thesis
        using Some find_key [OF ok k Some] by (simp add: map_remove_def at)
    qed
    moreover have "map_abs m = (map_abs m)(k := None)"
      using miss(2) by (auto simp: fun_eq_iff)
    ultimately show ?thesis using ok miss(2) by (intro exI [of _ "[]"] exI [of _ m]) simp
  next
    case True
    then have hit: "k \<in> ekey ` set (bucket_entries ?b)"
      using in_dom_map_abs by metis
    then obtain l where l: "?b = Some l" by (cases ?b) auto
    let ?es = "list_elems l" and ?j = "key_index k (list_elems l)"
    have lok: "list_ok l" and dis: "distinct (map ekey ?es)"
      using bo l by (simp_all add: bucket_ok_def)
    have ki: "?j < length ?es" "ekey (?es ! ?j) = k"
      using key_index_found [of k ?es] hit l by simp_all
    obtain l' where l': "list_remove l ?j = Inr (?es ! ?j, l')" "list_ok l'"
        "list_elems l' = take ?j ?es @ drop (Suc ?j) ?es"
      using list_remove_elems [OF lok ki(1)] by blast
    let ?m = "m\<lparr>m_buckets := (m_buckets m)[?i := Some l']\<rparr>"
    have sub: "set (list_elems l') \<subseteq> set ?es"
      unfolding l'(3) using set_take_subset [of ?j ?es] set_drop_subset [of "Suc ?j" ?es] by auto
    have "eval (?es ! ?j) = map_abs m k"
      using map_get_abs [OF ok k] hit l
      by (simp add: map_get_def map_get_entry_cases [OF ok k])
    then have "map_remove m k =
        Inr (map_abs m k, if m_destroy_key m then [Destroy_key k] else [], ?m)"
      using find_key [OF ok k l] l l'(1) ki lok by (simp add: map_remove_def at list_size_elems)
    moreover have "distinct (map ekey (list_elems l'))"
    proof -
      have "distinct (map ekey (take ?j ?es) @ map ekey (?es ! ?j # drop (Suc ?j) ?es))"
        using dis ki(1) by (metis id_take_nth_drop map_append)
      then show ?thesis unfolding l'(3) by auto
    qed
    then have "bucket_ok valid m ?i (Some l')"
      using bo l l'(2) sub by (auto simp: bucket_ok_def)
    then have "map_ok valid ?m"
      using map_ok_replace(1) [OF ok map_okD(5) [OF ok]] by simp
    moreover have "map_abs ?m = (map_abs m)(k := None)"
      by (rule map_abs_replace(1) [OF ok])
        (use assoc_of_remove_nth [OF dis ki(1)] ki(2) l l'(3) in simp_all)
    ultimately show ?thesis by (intro exI [of _ "if m_destroy_key m then [Destroy_key k] else []"] exI [of _ ?m]) simp
  qed
qed

text \<open>Destroying a map calls the destructors on each entry once.\<close>

lemma entry_loop:
  assumes "list_ok l" "n \<le> length (list_elems l)"
  shows "foldR (\<lambda>j calls. bindR (list_get l j) (\<lambda>e. Inr (calls @ entry_destroy m e))) [0..<n] c
    = Inr (c @ concat (map (entry_destroy m) (take n (list_elems l))))"
  using assms(2)
proof (induction n)
  case (Suc n)
  then show ?case
    by (simp add: foldR_append list_get_elems [OF assms(1)] take_Suc_conv_app_nth)
qed simp

lemma destroy_bucket_calls:
  assumes ok: "map_ok valid m" and i: "i < m_n_buckets m"
  shows "destroy_bucket m i calls =
    Inr (calls @ concat (map (entry_destroy m) (bucket_entries (m_buckets m ! i))))"
proof (cases "m_buckets m ! i")
  case None
  then show ?thesis using i map_okD(2) [OF ok] by (simp add: destroy_bucket_def bucket_at_def)
next
  case (Some l)
  then have "list_ok l" using map_okD(3) [OF ok i] by (simp add: bucket_ok_def)
  then show ?thesis
    using i map_okD(2) [OF ok] Some
    by (simp add: destroy_bucket_def bucket_at_def entry_loop list_size_elems)
qed

lemma map_destroy_calls:
  assumes ok: "map_ok valid m"
  shows "map_destroy m = Inr (concat (map (entry_destroy m) (concat (map bucket_entries (m_buckets m)))))"
proof -
  have "foldR (destroy_bucket m) [0..<n] [] =
      Inr (concat (map (entry_destroy m) (concat (map bucket_entries (take n (m_buckets m))))))"
    if "n \<le> m_n_buckets m" for n
    using that
  proof (induction n)
    case (Suc n)
    then show ?case
      using map_okD(2) [OF ok] destroy_bucket_calls [OF ok, of n]
      by (simp add: foldR_append take_Suc_conv_app_nth)
  qed simp
  from this [of "m_n_buckets m"] show ?thesis
    using map_okD(2) [OF ok] by (simp add: map_destroy_def)
qed

text \<open>The entries that are destroyed are those of the finite map.\<close>

lemma map_destroy_entries:
  assumes ok: "map_ok valid m"
  shows "\<exists>es. map_destroy m = Inr (concat (map (entry_destroy m) es)) \<and> distinct (map ekey es) \<and>
    ekey ` set es = dom (map_abs m) \<and> (\<forall>e \<in> set es. eval e = map_abs m (ekey e))"
proof -
  let ?es = "concat (map bucket_entries (m_buckets m))"
  have val: "ekey e \<in> dom (map_abs m) \<and> eval e = map_abs m (ekey e)" if e: "e \<in> set ?es" for e
  proof -
    obtain b where "b \<in> set (m_buckets m)" "e \<in> set (bucket_entries b)" using e by auto
    then obtain i where i: "i < m_n_buckets m" "e \<in> set (bucket_entries (m_buckets m ! i))"
      using map_okD(2) [OF ok] in_set_conv_nth [of b "m_buckets m"] by auto
    have b: "bucket_ok valid m i (m_buckets m ! i)" using map_okD(3) [OF ok] i(1) by simp
    then have "bucket_index m (ekey e) = i" using i(2) by (simp add: bucket_ok_def)
    moreover have "eval e \<noteq> None" using b i(2) by (simp add: bucket_ok_def)
    ultimately show ?thesis
      using assoc_of_eq [of "bucket_entries (m_buckets m ! i)" e] b i(2) by (simp add: map_abs_def bucket_ok_def dom_def)
  qed
  have "dom (map_abs m) \<subseteq> ekey ` set ?es"
  proof
    fix k assume "k \<in> dom (map_abs m)"
    then have "k \<in> ekey ` set (bucket_entries (m_buckets m ! bucket_index m k))" by (simp add: in_dom_map_abs)
    moreover have "m_buckets m ! bucket_index m k \<in> set (m_buckets m)" using map_okD(2,5) [OF ok] by simp
    ultimately show "k \<in> ekey ` set ?es" by auto
  qed
  moreover have "ekey ` set ?es \<subseteq> dom (map_abs m)" using val by blast
  ultimately have img: "ekey ` set ?es = dom (map_abs m)" by (rule equalityI [rotated])
  have "distinct (map ekey ?es)"
    using map_count_card [OF ok] img by (intro card_distinct) (simp add: map_count_def)
  then show ?thesis using map_destroy_calls [OF ok] val img by blast
qed

lemma map_set_flags: "map_set m k v = Inr (old, calls, m') \<Longrightarrow> m_destroy_val m' = m_destroy_val m"
  by (auto simp: map_set_def bindR_eq_Inr split: option.splits)

section \<open>The interface of a dictionary\<close>

locale dictionary =
  fixes lookup :: "'m \<Rightarrow> 'k \<Rightarrow> 'v option res"
    and store :: "'m \<Rightarrow> 'k \<Rightarrow> 'v \<Rightarrow> ('v option \<times> 'd \<times> 'm) res"
    and delete :: "'m \<Rightarrow> 'k \<Rightarrow> ('v option \<times> 'd \<times> 'm) res"
    and abs :: "'m \<Rightarrow> 'k \<rightharpoonup> 'v"
    and ok :: "'m \<Rightarrow> bool"
    and valid :: "'k \<Rightarrow> bool"
  assumes lookup_law: "ok m \<Longrightarrow> valid k \<Longrightarrow> lookup m k = Inr (abs m k)"
    and store_law: "ok m \<Longrightarrow> valid k \<Longrightarrow>
      \<exists>d m'. store m k v = Inr (abs m k, d, m') \<and> ok m' \<and> abs m' = (abs m)(k \<mapsto> v)"
    and delete_law: "ok m \<Longrightarrow> valid k \<Longrightarrow>
      \<exists>d m'. delete m k = Inr (abs m k, d, m') \<and> ok m' \<and> abs m' = (abs m)(k := None)"
    and keys_law: "ok m \<Longrightarrow> k \<in> dom (abs m) \<Longrightarrow> valid k"
begin

lemma store_Inr:
  assumes "ok m" "valid k" "store m k v = Inr (old, d, m')"
  shows "old = abs m k" "ok m'" "abs m' = (abs m)(k \<mapsto> v)"
  using store_law [OF assms(1,2), of v] assms(3) by auto

lemma store_never_faults: "ok m \<Longrightarrow> valid k \<Longrightarrow> \<exists>r. store m k v = Inr r"
  using store_law [of m k v] by blast

lemma lookup_store_same:
  assumes "ok m" "valid k" "store m k v = Inr (old, d, m')"
  shows "lookup m' k = Inr (Some v)"
  using store_Inr [OF assms] lookup_law [of m' k] assms(2) by simp

lemma lookup_store_other:
  assumes "ok m" "valid k" "valid k'" "k' \<noteq> k" "store m k v = Inr (old, d, m')"
  shows "lookup m' k' = lookup m k'"
  using store_Inr [OF assms(1,2,5)] lookup_law [of m' k'] lookup_law [of m k'] assms by simp

lemma lookup_delete_same:
  assumes "ok m" "valid k" "delete m k = Inr (old, d, m')"
  shows "lookup m' k = Inr None"
  using delete_law [OF assms(1,2)] lookup_law [of m' k] assms(2,3) by auto

text \<open>Storing a list of bindings, one after the other.\<close>

lemma store_all:
  assumes "ok m" "\<forall>kv \<in> set kvs. valid (fst kv)"
  shows "\<exists>m'. foldR (\<lambda>kv m. bindR (store m (fst kv) (snd kv)) (\<lambda>(_, _, m'). Inr m')) kvs m = Inr m' \<and>
    ok m' \<and> abs m' = abs m ++ map_of (rev kvs)"
  using assms
proof (induction kvs arbitrary: m)
  case (Cons kv kvs)
  obtain d m1 where m1: "store m (fst kv) (snd kv) = Inr (abs m (fst kv), d, m1)" "ok m1"
      "abs m1 = (abs m)(fst kv \<mapsto> snd kv)"
    using store_law [of m "fst kv" "snd kv"] Cons.prems by auto
  obtain m' where "foldR (\<lambda>kv m. bindR (store m (fst kv) (snd kv)) (\<lambda>(_, _, m'). Inr m')) kvs m1 = Inr m'"
      "ok m'" "abs m' = abs m1 ++ map_of (rev kvs)"
    using Cons.IH [OF m1(2)] Cons.prems(2) by auto
  then show ?case
    using m1 by (cases kv) (auto simp: map_add_upd_left map_add_def fun_eq_iff split: option.splits)
qed simp

end

lemma map_dictionary: "dictionary map_get map_set map_remove map_abs (map_ok valid) valid"
proof
  fix m :: "('a, 'b) map_t" and k v
  assume "map_ok valid m" "valid k"
  then show "\<exists>d m'. map_set m k v = Inr (map_abs m k, d, m') \<and> map_ok valid m' \<and>
      map_abs m' = (map_abs m)(k \<mapsto> v)"
    using map_set_abs [of valid m k v] by (auto simp: set_step_def)
  show "\<exists>d m'. map_remove m k = Inr (map_abs m k, d, m') \<and> map_ok valid m' \<and>
      map_abs m' = (map_abs m)(k := None)"
    using map_remove_abs [OF \<open>map_ok valid m\<close> \<open>valid k\<close>] by auto
qed (auto simp: map_get_abs dest: map_abs_SomeD(1))

interpretation cmap: dictionary map_get map_set map_remove map_abs "map_ok valid" valid for valid
  by (rule map_dictionary)

section \<open>Properties\<close>

text \<open>
  C40: The hash map implements a finite map. On every well-formed map (buckets hold distinct keys
  that hash to them) and valid keys, \<open>map_get\<close> is the lookup, \<open>map_set\<close> returns the old value
  and updates, \<open>map_remove\<close> returns the old value and deletes, none of them faults, and each
  leaves a well-formed map. This holds for every hash function and every number of buckets, so
  collisions are covered.
\<close>

theorem map_refines_finite_map:
  assumes "map_ok valid m" and "valid k"
  shows "map_get m k = Inr (map_abs m k) \<and>
    (\<exists>d m'. map_set m k v = Inr (map_abs m k, d, m') \<and> map_ok valid m' \<and>
       map_abs m' = (map_abs m)(k \<mapsto> v)) \<and>
    (\<exists>d m'. map_remove m k = Inr (map_abs m k, d, m') \<and> map_ok valid m' \<and>
       map_abs m' = (map_abs m)(k := None))"
  using cmap.lookup_law [OF assms] cmap.store_law [OF assms] cmap.delete_law [OF assms] by blast

text \<open>A map whose keys all collide.\<close>

lemma collide_map_ok:
  "map_ok (\<lambda>a. length a = 2) (map_create 16 (\<lambda>_. 7) False True (\<lambda>a b. memcmp a b 2))"
  by (rule map_create_ok) (simp_all add: memcmp_order.cmp_eq)

theorem map_refines_finite_map_witness:
  "\<exists>d m'. map_set (map_create 16 (\<lambda>_. 7) False True (\<lambda>a b. memcmp a b 2)) [1, 2] (5 :: nat) =
     Inr (None, d, m') \<and> map_abs m' = [[1, 2] \<mapsto> 5]"
  using map_refines_finite_map [OF collide_map_ok, of "[1, 2]" "5 :: nat"]
  by (auto simp: map_create_ok(2))

lemma map_set_all:
  assumes "map_ok valid m" "\<forall>kv \<in> set kvs. valid (fst kv)" "m_size m = card (dom (map_abs m))"
  shows "\<exists>m'. foldR (\<lambda>kv m. bindR (map_set m (fst kv) (snd kv)) (\<lambda>(_, _, m'). Inr m')) kvs m = Inr m' \<and>
    map_ok valid m' \<and> map_abs m' = map_abs m ++ map_of (rev kvs) \<and> m_size m' = card (dom (map_abs m'))"
  using assms
proof (induction kvs arbitrary: m)
  case (Cons kv kvs)
  obtain d m1 where m1: "map_set m (fst kv) (snd kv) = Inr (map_abs m (fst kv), d, m1)"
      and st: "set_step valid m (fst kv) (snd kv) m1"
    using map_set_abs [OF Cons.prems(1), of "fst kv" "snd kv"] Cons.prems(2) by auto
  have fin: "finite (dom (map_abs m))"
    by (simp add: dom_map_abs [OF Cons.prems(1)])
  have ok1: "map_ok valid m1" and sz: "m_size m1 = card (dom (map_abs m1))"
    and ab: "map_abs m1 = (map_abs m)(fst kv \<mapsto> snd kv)"
    using st fin Cons.prems(3) by (auto simp: set_step_def insert_absorb)
  obtain m' where "foldR (\<lambda>kv m. bindR (map_set m (fst kv) (snd kv)) (\<lambda>(_, _, m'). Inr m')) kvs m1 = Inr m'"
      "map_ok valid m'" "map_abs m' = map_abs m1 ++ map_of (rev kvs)" "m_size m' = card (dom (map_abs m'))"
    using Cons.IH [OF ok1 _ sz] Cons.prems(2) by auto
  then show ?case
    using m1 ab by (cases kv) (auto simp: map_add_def fun_eq_iff split: option.splits)
qed simp

text \<open>
  As long as nothing is removed, \<open>map_size\<close> is the number of distinct keys: storing any list
  of bindings into a new map succeeds, the map then holds for each key the value stored last, and
  \<open>map_size\<close> counts each key once however often it was stored.
\<close>

lemma map_size_counts_keys:
  assumes "0 < n" and "\<forall>kv \<in> set kvs. valid (fst kv)"
    and "\<forall>x y. valid x \<longrightarrow> valid y \<longrightarrow> cmp x y = 0 \<longleftrightarrow> x = y"
  shows "\<exists>m. foldR (\<lambda>kv m. bindR (map_set m (fst kv) (snd kv)) (\<lambda>(_, _, m'). Inr m')) kvs
      (map_create n h dk dv cmp) = Inr m \<and>
    map_abs m = map_of (rev kvs) \<and> map_size m = card (fst ` set kvs)"
proof -
  let ?m = "map_create n h dk dv cmp :: ('a, 'b) map_t"
  have ok: "map_ok valid ?m" and e: "map_abs ?m = Map.empty"
    using map_create_ok [OF assms(1), of valid cmp] assms(3) by auto
  have "m_size ?m = card (dom (map_abs ?m))" using e by (simp add: map_create_def)
  from map_set_all [OF ok assms(2) this] obtain m where
    "foldR (\<lambda>kv m. bindR (map_set m (fst kv) (snd kv)) (\<lambda>(_, _, m'). Inr m')) kvs ?m = Inr m"
    "map_abs m = map_of (rev kvs)" "m_size m = card (dom (map_abs m))"
    using e by auto
  then show ?thesis by (auto simp: map_size_def dom_map_of_conv_image_fst)
qed

lemma map_size_counts_keys_witness:
  "\<exists>m. foldR (\<lambda>kv m. bindR (map_set m (fst kv) (snd kv)) (\<lambda>(_, _, m'). Inr m'))
        [([1, 2], 10 :: nat), ([3, 4], 20), ([1, 2], 30)]
        (map_create 4 (\<lambda>_. 0) False False (\<lambda>a b. memcmp a b 2)) = Inr m \<and>
     map_abs m = map_of (rev [([1, 2], 10), ([3, 4], 20), ([1, 2], 30)]) \<and>
     map_size m = card (fst ` set [([1, 2] :: byte list, 10 :: nat), ([3, 4], 20), ([1, 2], 30)])"
  by (rule map_size_counts_keys [where valid = "\<lambda>a. length a = 2"]) (auto simp: memcmp_order.cmp_eq)

text \<open>
  Removing a key that is present does not change \<open>map_size\<close>, which is then one too large.
\<close>

lemma map_remove_size_stale:
  assumes ok: "map_ok valid m" and k: "valid k" "k \<in> dom (map_abs m)"
    and counted: "map_size m = card (dom (map_abs m))"
    and r: "map_remove m k = Inr (old, d, m')"
  shows "map_size m' = card (dom (map_abs m')) + 1"
proof -
  obtain "map_abs m' = (map_abs m)(k := None)" "m_size m' = m_size m"
    using map_remove_abs [OF ok k(1)] r by auto
  moreover have "finite (dom (map_abs m))" by (simp add: dom_map_abs [OF ok])
  ultimately show ?thesis
    using counted k(2) by (simp add: map_size_def card_Diff_singleton card_gt_0_iff) (metis Suc_pred card_gt_0_iff empty_iff)
qed

text \<open>
  \<open>map_destroy\<close> never faults on a well-formed map, and it calls the value destructor (when the
  map has one) exactly once for each key that is in the map, on the value of the key, and the key
  destructor likewise: the calls are given as a multiset.
\<close>

lemma map_destroy_each_value_once:
  assumes ok: "map_ok valid m"
  shows "\<exists>calls. map_destroy m = Inr calls \<and>
    mset calls = (if m_destroy_key m then image_mset Destroy_key (mset_set (dom (map_abs m))) else {#}) +
      (if m_destroy_val m then image_mset (\<lambda>k. Destroy_val (map_abs m k)) (mset_set (dom (map_abs m))) else {#})"
proof -
  obtain es where es: "map_destroy m = Inr (concat (map (entry_destroy m) es))" "distinct (map ekey es)"
      "ekey ` set es = dom (map_abs m)" "\<forall>e \<in> set es. eval e = map_abs m (ekey e)"
    using map_destroy_entries [OF ok] by blast
  have "mset (map ekey es) = mset_set (dom (map_abs m))"
    using mset_set_set [OF es(2)] es(3) by simp
  moreover have "mset (concat (map (entry_destroy m) es)) =
      (if m_destroy_key m then image_mset Destroy_key (mset (map ekey es)) else {#}) +
      (if m_destroy_val m then image_mset (\<lambda>k. Destroy_val (map_abs m k)) (mset (map ekey es)) else {#})"
    using es(4) by (induction es) (auto simp: entry_destroy_def)
  ultimately show ?thesis using es(1) by simp
qed

lemma map_destroy_each_value_once_witness:
  "\<exists>d m. map_set (map_create 16 (\<lambda>_. 7) False True (\<lambda>a b. memcmp a b 2)) [1, 2] (5 :: nat) = Inr (None, d, m) \<and>
     map_destroy m = Inr [Destroy_val (Some 5)]"
proof -
  let ?m = "map_create 16 (\<lambda>_. 7) False True (\<lambda>a b. memcmp a b 2) :: (byte list, nat) map_t"
  have "map_abs ?m = Map.empty" by (rule map_create_ok) (simp_all add: memcmp_order.cmp_eq)
  then obtain d m where m: "map_set ?m [1, 2] 5 = Inr (None, d, m)" "map_ok (\<lambda>a. length a = 2) m" "map_abs m = [[1, 2] \<mapsto> 5]"
    using cmap.store_law [OF collide_map_ok, of "[1, 2]" "5 :: nat"] by auto
  have "m_destroy_val m \<and> \<not> m_destroy_key m"
    using m(1) by (auto simp: map_set_def map_create_def bindR_eq_Inr split: option.splits)
  then have "map_destroy m = Inr [Destroy_val (Some 5)]"
    using map_destroy_each_value_once [OF m(2)] by (auto simp: m(3))
  then show ?thesis using m(1) by blast
qed

end
