(* ===== verification/Buffer.thy ===== *)
theory Buffer
  imports Prelude
begin

text \<open>
  Byte buffers (\<open>src/util/buffer.c\<close>): fixed buffers with their hexadecimal form, and the dynamic
  buffer into which every message, header and JSON document is written. \<open>buffer_read\<close> and
  \<open>buffer_print\<close> are in the theory \<open>Print\<close>.

  Lengths and capacities keep their width (\<open>uint32_t\<close>), so a capacity that is doubled too often
  becomes 0, and loop counters of type \<open>uint8_t\<close> wrap at 256. A size passed as \<open>size_t\<close> is the
  size of an object and is a natural number.
\<close>

section \<open>Characters\<close>

definition bytes_of :: "string \<Rightarrow> byte list" where
  "bytes_of s = map of_char s"

definition hex_digit :: "nat \<Rightarrow> byte" where
  "hex_digit n = of_nat (if n < 10 then 48 + n else 87 + n)"

text \<open>What \<open>sprintf(..., "%02x", b)\<close> writes before the terminating 0.\<close>

definition hex_byte :: "byte \<Rightarrow> byte list" where
  "hex_byte b = [hex_digit (unat b div 16), hex_digit (unat b mod 16)]"

text \<open>What \<open>printf\<close> writes for \<open>%llu\<close> and \<open>%d\<close>.\<close>

fun decimal :: "nat \<Rightarrow> byte list" where
  "decimal n = (if n < 10 then [of_nat (48 + n)] else decimal (n div 10) @ [of_nat (48 + n mod 10)])"

declare decimal.simps [simp del]

definition printf_d :: "int \<Rightarrow> byte list" where
  "printf_d n = (if n < 0 then [45] else []) @ decimal (nat \<bar>n\<bar>)"

text \<open>The value of a string of digits.\<close>

definition is_digit :: "byte \<Rightarrow> bool" where
  "is_digit c \<longleftrightarrow> 48 \<le> unat c \<and> unat c \<le> 57"

definition number_of_digits :: "byte list \<Rightarrow> nat" where
  "number_of_digits = foldl (\<lambda>n c. 10 * n + (unat c - 48)) 0"

definition digit_value :: "byte \<Rightarrow> nat option" where
  "digit_value c =
     (let n = unat c in
      if 48 \<le> n \<and> n \<le> 57 then Some (n - 48)
      else if 97 \<le> n \<and> n \<le> 102 then Some (n - 87)
      else if 65 \<le> n \<and> n \<le> 70 then Some (n - 55)
      else None)"

definition isxdigit :: "byte \<Rightarrow> bool" where
  "isxdigit c \<longleftrightarrow> digit_value c \<noteq> None"

definition isspace :: "byte \<Rightarrow> bool" where
  "isspace c \<longleftrightarrow> c = 32 \<or> (9 \<le> unat c \<and> unat c \<le> 13)"

text \<open>
  \<open>sscanf(s, "%02x", &x)\<close>: white space is skipped, then at most two characters are taken: an
  optional sign and hexadecimal digits. Without a digit there is no conversion. (\<open>"0x"\<close> uses up
  the width as a prefix and is no conversion either.) The result is the low byte of \<open>x\<close>.
\<close>

fun scan_digits :: "byte list \<Rightarrow> nat \<Rightarrow> nat \<Rightarrow> nat option \<Rightarrow> nat option" where
  "scan_digits (c # cs) (Suc width) acc res =
     (case digit_value c of
        None \<Rightarrow> res
      | Some d \<Rightarrow> scan_digits cs width (16 * acc + d) (Some (16 * acc + d)))"
| "scan_digits _ _ _ res = res"

definition sscanf_02x :: "byte list \<Rightarrow> byte option" where
  "sscanf_02x s =
     (case dropWhile isspace s of
        [] \<Rightarrow> None
      | c # cs \<Rightarrow>
          if c = 43 then map_option of_nat (scan_digits cs 1 0 None)
          else if c = 45 then map_option (\<lambda>n. - of_nat n) (scan_digits cs 1 0 None)
          else if c = 48 \<and> (take 1 cs = [120] \<or> take 1 cs = [88]) then None
          else map_option of_nat (scan_digits (c # cs) 2 0 None))"

section \<open>Fixed buffers\<close>

record buffer_t =
  b_length :: u32
  b_data :: "byte arr"

definition buffer_create :: "u32 \<Rightarrow> buffer_t" where
  "buffer_create len = \<lparr>b_length = len, b_data = replicate (unat len) (Some 0)\<rparr>"

definition buffer_copy :: "buffer_t \<Rightarrow> buffer_t res" where
  "buffer_copy b =
     bindR (arr_load_n (b_data b) 0 (unat (b_length b))) (\<lambda>bs.
     bindR (arr_memcpy (arr_malloc (unat (b_length b))) 0 bs) (\<lambda>d.
       Inr \<lparr>b_length = b_length b, b_data = d\<rparr>))"

function buffer_is_null_from :: "buffer_t \<Rightarrow> nat \<Rightarrow> bool res" where
  "buffer_is_null_from b i =
     (if i < unat (b_length b) then
        bindR (arr_load (b_data b) i) (\<lambda>c.
          if c \<noteq> 0 then Inr False else buffer_is_null_from b (Suc i))
      else Inr True)"
  by pat_completeness auto
termination
  by (relation "measure (\<lambda>(b, i). unat (b_length b) - i)") auto

declare buffer_is_null_from.simps [simp del]

definition buffer_is_null :: "buffer_t \<Rightarrow> bool res" where
  "buffer_is_null b = buffer_is_null_from b 0"

text \<open>
  The result has type \<open>int\<close>: the difference of the lengths is computed in 32 bits and read as a
  signed number.
\<close>

function buffer_compare_from :: "buffer_t \<Rightarrow> buffer_t \<Rightarrow> nat \<Rightarrow> int res" where
  "buffer_compare_from b1 b2 i =
     (if i < unat (b_length b1) then
        bindR (arr_load (b_data b1) i) (\<lambda>x.
        bindR (arr_load (b_data b2) i) (\<lambda>y.
          if x \<noteq> y then Inr (uint x - uint y) else buffer_compare_from b1 b2 (Suc i)))
      else Inr 0)"
  by pat_completeness auto
termination
  by (relation "measure (\<lambda>(b1, b2, i). unat (b_length b1) - i)") auto

declare buffer_compare_from.simps [simp del]

definition buffer_compare :: "buffer_t \<Rightarrow> buffer_t \<Rightarrow> int res" where
  "buffer_compare b1 b2 =
     (if b_length b1 \<noteq> b_length b2 then Inr (sint (b_length b1 - b_length b2))
      else buffer_compare_from b1 b2 0)"

text \<open>
  The loops over a buffer in \<open>buffer_to_hex\<close> and \<open>buffer_from_hex\<close> have a counter of type
  \<open>uint8_t\<close>. The fuel of the model is the number of iterations allowed.
\<close>

fun to_hex_loop :: "nat \<Rightarrow> byte arr \<Rightarrow> u32 \<Rightarrow> byte \<Rightarrow> byte arr \<Rightarrow> byte arr res" where
  "to_hex_loop 0 data len i r = Inl Out_of_fuel"
| "to_hex_loop (Suc fuel) data len i r =
     (if unat i < unat len then
        bindR (arr_load data (unat i)) (\<lambda>c.
        bindR (arr_memcpy r (2 * unat i) (hex_byte c @ [0])) (\<lambda>r'.
          to_hex_loop fuel data len (i + 1) r'))
      else Inr r)"

definition buffer_to_hex :: "nat \<Rightarrow> buffer_t \<Rightarrow> byte arr res" where
  "buffer_to_hex fuel b =
     to_hex_loop fuel (b_data b) (b_length b) 0
       (replicate (unat (b_length b * 2 + 1)) (Some 0))"

fun from_hex_loop :: "nat \<Rightarrow> byte list \<Rightarrow> nat \<Rightarrow> byte \<Rightarrow> byte arr \<Rightarrow> byte arr res" where
  "from_hex_loop 0 hex len i d = Inl Out_of_fuel"
| "from_hex_loop (Suc fuel) hex len i d =
     (if unat i < len then
        bindR (case sscanf_02x (drop (2 * unat i) hex) of None \<Rightarrow> Inl Uninit_read | Some x \<Rightarrow> Inr x) (\<lambda>x.
        bindR (arr_store d (unat i) x) (\<lambda>d'.
          from_hex_loop fuel hex len (i + 1) d'))
      else Inr d)"

text \<open>\<open>hex\<close> is the string without its terminating 0.\<close>

definition buffer_from_hex :: "nat \<Rightarrow> byte list \<Rightarrow> buffer_t res" where
  "buffer_from_hex fuel hex =
     bindR (from_hex_loop fuel hex (length hex div 2) 0 (arr_malloc (length hex))) (\<lambda>d.
       Inr \<lparr>b_length = of_nat (length hex div 2), b_data = d\<rparr>)"

section \<open>Dynamic buffers\<close>

record dynamic_buffer_t =
  d_length :: u32
  d_data :: "byte arr"
  d_capacity :: u32

definition dynamic_buffer_create :: "int \<Rightarrow> dynamic_buffer_t" where
  "dynamic_buffer_create initial_capacity =
     \<lparr>d_length = 0,
      d_data = replicate (nat initial_capacity) (Some 0),
      d_capacity = (if initial_capacity < 1 then 1 else of_int initial_capacity)\<rparr>"

text \<open>
  \<open>while (length + n >= capacity) capacity *= 2;\<close> the sum is computed in 64 bits. After 32
  doublings the capacity is 0, so 33 iterations decide whether the loop ends.
\<close>

fun grow_capacity :: "nat \<Rightarrow> nat \<Rightarrow> u32 \<Rightarrow> u32 res" where
  "grow_capacity 0 need cap = Inl Out_of_fuel"
| "grow_capacity (Suc fuel) need cap =
     (if need \<ge> unat cap then grow_capacity fuel need (cap * 2) else Inr cap)"

definition grow_fuel :: nat where
  "grow_fuel = 34"

definition dynamic_buffer_write :: "byte list \<Rightarrow> nat \<Rightarrow> dynamic_buffer_t \<Rightarrow> dynamic_buffer_t res" where
  "dynamic_buffer_write src n b =
     bindR (if unat (d_length b) + n \<ge> unat (d_capacity b) then
              bindR (grow_capacity grow_fuel (unat (d_length b) + n) (d_capacity b)) (\<lambda>c.
                Inr (b\<lparr>d_capacity := c, d_data := arr_realloc (d_data b) (unat c)\<rparr>))
            else Inr b) (\<lambda>b.
     if n \<le> length src then
       bindR (arr_memcpy (d_data b) (unat (d_length b)) (take n src)) (\<lambda>d.
         Inr (b\<lparr>d_data := d, d_length := d_length b + of_nat n\<rparr>))
     else Inl Out_of_bounds)"

text \<open>
  \<open>realloc\<close> to 0 bytes returns \<open>NULL\<close>, on which the assertion fails.
\<close>

definition dynamic_buffer_putc :: "byte \<Rightarrow> dynamic_buffer_t \<Rightarrow> dynamic_buffer_t res" where
  "dynamic_buffer_putc c b =
     bindR (if d_length b + 1 \<ge> d_capacity b then
              bindR (assertR (d_capacity b * 2 \<noteq> 0)) (\<lambda>_.
                Inr (b\<lparr>d_capacity := d_capacity b * 2,
                       d_data := arr_realloc (d_data b) (unat (d_capacity b * 2))\<rparr>))
            else Inr b) (\<lambda>b.
     bindR (arr_store (d_data b) (unat (d_length b)) c) (\<lambda>d.
       Inr (b\<lparr>d_data := d, d_length := d_length b + 1\<rparr>)))"

section \<open>The contents of a dynamic buffer\<close>

definition dbuf_bytes :: "dynamic_buffer_t \<Rightarrow> byte list" where
  "dbuf_bytes b = map the (take (unat (d_length b)) (d_data b))"

definition dbuf_ok :: "dynamic_buffer_t \<Rightarrow> bool" where
  "dbuf_ok b \<longleftrightarrow>
     unat (d_length b) < unat (d_capacity b) \<and>
     (length (d_data b) = unat (d_capacity b) \<or> d_data b = [] \<and> d_length b = 0 \<and> d_capacity b = 1) \<and>
     (\<forall>i < unat (d_length b). d_data b ! i \<noteq> None)"

lemma dbuf_okD:
  assumes "dbuf_ok b"
  shows "unat (d_length b) < unat (d_capacity b)" "unat (d_length b) \<le> length (d_data b)"
    "\<And>i. i < unat (d_length b) \<Longrightarrow> d_data b ! i \<noteq> None"
    "0 < unat (d_capacity b)"
  using assms by (auto simp: dbuf_ok_def)

lemma length_dbuf_bytes: "dbuf_ok b \<Longrightarrow> length (dbuf_bytes b) = unat (d_length b)"
  using dbuf_okD(2) [of b] by (simp add: dbuf_bytes_def)

lemma dbuf_ok_create: "n < 2 ^ 31 \<Longrightarrow> dbuf_ok (dynamic_buffer_create n)"
proof (cases "n < 1")
  case False
  assume "n < 2 ^ 31"
  with False have "unat (of_int n :: u32) = nat n"
    by (simp add: unat_eq_nat_uint uint_word_of_int)
  with False show ?thesis by (simp add: dbuf_ok_def dynamic_buffer_create_def)
qed (simp add: dbuf_ok_def dynamic_buffer_create_def)

lemma dbuf_bytes_create [simp]: "dbuf_bytes (dynamic_buffer_create n) = []"
  by (simp add: dbuf_bytes_def dynamic_buffer_create_def)

text \<open>Doubling finds a capacity below the limit of the width.\<close>

lemma unat_double: "unat (c :: u32) < 2 ^ 31 \<Longrightarrow> unat (c * 2) = 2 * unat c"
  by (simp add: unat_word_ariths)

lemma grow_capacity_enough:
  assumes "need < 2 ^ 31" "0 < unat cap" "need < unat cap * 2 ^ k"
  shows "\<exists>c. grow_capacity (Suc k) need cap = Inr c \<and> need < unat c"
  using assms(2,3)
proof (induction k arbitrary: cap)
  case (Suc k)
  show ?case
  proof (cases "need \<ge> unat cap")
    case True
    then have d: "unat (cap * 2) = 2 * unat cap"
      using assms(1) by (intro unat_double) simp
    have "grow_capacity (Suc (Suc k)) need cap = grow_capacity (Suc k) need (cap * 2)"
      using True by (subst grow_capacity.simps(2)) simp
    with Suc.IH [of "cap * 2"] Suc.prems d show ?thesis by simp
  qed simp
qed simp

lemma grow_capacity_stable:
  "grow_capacity f need cap = Inr c \<Longrightarrow> grow_capacity (f + d) need cap = Inr c"
  by (induction f need cap rule: grow_capacity.induct) (auto split: if_splits)

lemma grow_capacity_returns:
  assumes "need < 2 ^ 31" "0 < unat cap"
  shows "\<exists>c. grow_capacity grow_fuel need cap = Inr c \<and> need < unat c"
proof -
  have "need < 1 * 2 ^ 31" using assms(1) by simp
  also have "\<dots> \<le> unat cap * 2 ^ 31" using assms(2) by (intro mult_le_mono1) simp
  finally obtain c where "grow_capacity (Suc 31) need cap = Inr c" "need < unat c"
    using grow_capacity_enough [OF assms] by blast
  then show ?thesis
    using grow_capacity_stable [of "Suc 31" need cap c 2] by (auto simp: grow_fuel_def)
qed

lemma bytes_after_memcpy:
  assumes "n \<le> length a" "n + length xs \<le> length a"
  shows "map the (take (n + length xs) (take n a @ map Some xs @ drop (n + length xs) a))
    = map the (take n a) @ xs"
  using assms by (simp add: comp_def)

lemma dynamic_buffer_write_bytes:
  assumes ok: "dbuf_ok b" and lim: "length (dbuf_bytes b) + length src < 2 ^ 31"
  shows "\<exists>b'. dynamic_buffer_write src (length src) b = Inr b' \<and> dbuf_ok b' \<and>
    dbuf_bytes b' = dbuf_bytes b @ src"
proof -
  let ?n = "unat (d_length b)" and ?k = "length src"
  note D = dbuf_okD [OF ok]
  have lim': "?n + ?k < 2 ^ 31" using lim length_dbuf_bytes [OF ok] by simp
  have len: "unat (d_length b + of_nat ?k) = ?n + ?k"
    using lim' by (simp add: unat_word_ariths unat_of_nat)
  have fin: "\<exists>b'. bindR (arr_memcpy (d_data b1) ?n (take ?k src)) (\<lambda>d.
        Inr (b1\<lparr>d_data := d, d_length := d_length b1 + of_nat ?k\<rparr>)) = Inr b' \<and>
      dbuf_ok b' \<and> dbuf_bytes b' = dbuf_bytes b @ src"
    if b1: "d_length b1 = d_length b" "?n + ?k < unat (d_capacity b1)"
      "length (d_data b1) = unat (d_capacity b1)" "take ?n (d_data b1) = take ?n (d_data b)" for b1
  proof -
    let ?d = "take ?n (d_data b1) @ map Some src @ drop (?n + ?k) (d_data b1)"
    have "arr_memcpy (d_data b1) ?n (take ?k src) = Inr ?d"
      using b1(2,3) by (simp add: arr_memcpy_def)
    moreover have "\<forall>i < ?n + ?k. ?d ! i \<noteq> None"
    proof (intro allI impI)
      fix i assume i: "i < ?n + ?k"
      show "?d ! i \<noteq> None"
      proof (cases "i < ?n")
        case True
        then have "?d ! i = d_data b ! i"
          unfolding b1(4) using D(2) by (simp add: nth_append)
        then show ?thesis using D(3) [OF True] by simp
      next
        case False
        with i have "i - ?n < ?k" by simp
        with False show ?thesis using b1(2,3) by (simp add: nth_append min_def)
      qed
    qed
    moreover have "map the (take (?n + ?k) ?d) = dbuf_bytes b @ src"
      using bytes_after_memcpy [of ?n "d_data b1" src] b1 by (simp add: dbuf_bytes_def)
    ultimately show ?thesis
      using b1 len by (auto simp: dbuf_ok_def dbuf_bytes_def)
  qed
  show ?thesis
  proof (cases "?n + ?k \<ge> unat (d_capacity b)")
    case True
    obtain c where c: "grow_capacity grow_fuel (?n + ?k) (d_capacity b) = Inr c" "?n + ?k < unat c"
      using grow_capacity_returns [OF lim' D(4)] by blast
    show ?thesis
      using True c D(2) fin [of "b\<lparr>d_capacity := c, d_data := arr_realloc (d_data b) (unat c)\<rparr>"]
      by (simp add: dynamic_buffer_write_def)
  next
    case False
    show ?thesis
    proof (cases "length (d_data b) = unat (d_capacity b)")
      case True
      then show ?thesis using False fin [of b] by (simp add: dynamic_buffer_write_def)
    next
      case other: False
      with ok have "d_data b = []" "d_length b = 0" "d_capacity b = 1" by (auto simp: dbuf_ok_def)
      with False have "src = []" by (cases src) simp_all
      then show ?thesis
        using False ok \<open>d_data b = []\<close> \<open>d_length b = 0\<close> \<open>d_capacity b = 1\<close>
        by (simp add: dynamic_buffer_write_def arr_memcpy_def dbuf_ok_def dbuf_bytes_def)
    qed
  qed
qed

lemma dynamic_buffer_putc_bytes:
  assumes ok: "dbuf_ok b" and lim: "length (dbuf_bytes b) + 1 < 2 ^ 31"
  shows "\<exists>b'. dynamic_buffer_putc c b = Inr b' \<and> dbuf_ok b' \<and> dbuf_bytes b' = dbuf_bytes b @ [c]"
proof -
  let ?n = "unat (d_length b)"
  note D = dbuf_okD [OF ok]
  have lim': "?n + 1 < 2 ^ 31" using lim length_dbuf_bytes [OF ok] by simp
  have len: "unat (d_length b + 1) = ?n + 1"
    using lim' by (simp add: unat_word_ariths)
  have fin: "\<exists>b'. bindR (arr_store (d_data b1) ?n c) (\<lambda>d.
        Inr (b1\<lparr>d_data := d, d_length := d_length b1 + 1\<rparr>)) = Inr b' \<and>
      dbuf_ok b' \<and> dbuf_bytes b' = dbuf_bytes b @ [c]"
    if b1: "d_length b1 = d_length b" "?n + 1 < unat (d_capacity b1)"
      "length (d_data b1) = unat (d_capacity b1)" "take ?n (d_data b1) = take ?n (d_data b)" for b1
  proof -
    let ?d = "(d_data b1)[?n := Some c]"
    have "arr_store (d_data b1) ?n c = Inr ?d"
      using b1(2,3) by (simp add: arr_store_def)
    moreover have "\<forall>i < ?n + 1. ?d ! i \<noteq> None"
    proof (intro allI impI)
      fix i assume i: "i < ?n + 1"
      show "?d ! i \<noteq> None"
      proof (cases "i = ?n")
        case False
        with i have "i < ?n" by simp
        then have "?d ! i = d_data b ! i" using b1(4) False by (metis nth_list_update_neq nth_take)
        then show ?thesis using D(3) [OF \<open>i < ?n\<close>] by simp
      qed (use b1(2,3) in simp)
    qed
    moreover have "map the (take (?n + 1) ?d) = dbuf_bytes b @ [c]"
      using b1 by (simp add: dbuf_bytes_def take_Suc_conv_app_nth)
    ultimately show ?thesis
      using b1 len by (auto simp: dbuf_ok_def dbuf_bytes_def)
  qed
  show ?thesis
  proof (cases "d_length b + 1 \<ge> d_capacity b")
    case True
    then have cap: "unat (d_capacity b) = ?n + 1"
      using D(1) len by (simp add: word_le_nat_alt)
    then have dbl: "unat (d_capacity b * 2) = 2 * unat (d_capacity b)"
      using lim' by (intro unat_double) simp
    then have "d_capacity b * 2 \<noteq> 0" using cap by (metis add_gr_0 mult_is_0 numeral_eq_one_iff unat_0 zero_less_one zero_neq_numeral nat_less_le)
    then show ?thesis
      using True dbl cap D(2)
        fin [of "b\<lparr>d_capacity := d_capacity b * 2, d_data := arr_realloc (d_data b) (unat (d_capacity b * 2))\<rparr>"]
      by (simp add: dynamic_buffer_putc_def)
  next
    case False
    then have "?n + 1 < unat (d_capacity b)" using len by (simp add: word_le_nat_alt)
    moreover from this ok have "length (d_data b) = unat (d_capacity b)" by (auto simp: dbuf_ok_def)
    ultimately show ?thesis using False fin [of b] by (simp add: dynamic_buffer_putc_def)
  qed
qed

lemma dbuf_mem_at: "dbuf_ok b \<Longrightarrow> mem_at (d_data b) 0 (dbuf_bytes b)"
  using prefix_cells [of "unat (d_length b)" "d_data b"] dbuf_okD [of b]
    mem_at_intro [of "[]" 0 "dbuf_bytes b" "drop (unat (d_length b)) (d_data b)"]
  by (simp add: dbuf_bytes_def)

section \<open>The interface of a byte sink\<close>

text \<open>
  The writers of tuples, headers and JSON use a buffer only through these laws. \<open>appends\<close> says
  that a writer appends the given bytes to any sink that has room for them; it is closed under
  sequencing and loops.
\<close>

definition appends :: "('b \<Rightarrow> bool) \<Rightarrow> ('b \<Rightarrow> byte list) \<Rightarrow> nat \<Rightarrow> ('b \<Rightarrow> 'b res) \<Rightarrow> byte list \<Rightarrow> bool" where
  "appends ok content limit w bs \<longleftrightarrow>
     (\<forall>b. ok b \<longrightarrow> length (content b) + length bs < limit \<longrightarrow>
        (\<exists>b'. w b = Inr b' \<and> ok b' \<and> content b' = content b @ bs))"

locale byte_sink =
  fixes put :: "byte list \<Rightarrow> nat \<Rightarrow> 'b \<Rightarrow> 'b res"
    and putc :: "byte \<Rightarrow> 'b \<Rightarrow> 'b res"
    and content :: "'b \<Rightarrow> byte list"
    and ok :: "'b \<Rightarrow> bool"
    and limit :: nat
  assumes put_law: "ok b \<Longrightarrow> length (content b) + length src < limit \<Longrightarrow>
      \<exists>b'. put src (length src) b = Inr b' \<and> ok b' \<and> content b' = content b @ src"
    and putc_law: "ok b \<Longrightarrow> length (content b) + 1 < limit \<Longrightarrow>
      \<exists>b'. putc c b = Inr b' \<and> ok b' \<and> content b' = content b @ [c]"
begin

lemma appends_write: "n = length src \<Longrightarrow> appends ok content limit (put src n) src"
  using put_law by (simp add: appends_def)

lemma appends_putc: "appends ok content limit (putc c) [c]"
  using putc_law by (simp add: appends_def)

lemma appends_skip: "appends ok content limit Inr []"
  by (simp add: appends_def)

lemma appends_bind:
  assumes "appends ok content limit w xs" "appends ok content limit v ys"
  shows "appends ok content limit (\<lambda>b. bindR (w b) v) (xs @ ys)"
  unfolding appends_def
proof (intro allI impI)
  fix b assume b: "ok b" "length (content b) + length (xs @ ys) < limit"
  then obtain b1 where b1: "w b = Inr b1" "ok b1" "content b1 = content b @ xs"
    using assms(1) unfolding appends_def by fastforce
  with b obtain b2 where "v b1 = Inr b2" "ok b2" "content b2 = content b1 @ ys"
    using assms(2) unfolding appends_def by fastforce
  with b1 show "\<exists>b'. bindR (w b) v = Inr b' \<and> ok b' \<and> content b' = content b @ xs @ ys" by simp
qed

lemma appends_loop:
  assumes "\<And>x. x \<in> set xs \<Longrightarrow> appends ok content limit (w x) (f x)"
  shows "appends ok content limit (foldR w xs) (concat (map f xs))"
  using assms
proof (induction xs)
  case Nil
  show ?case by (simp add: appends_def)
next
  case (Cons x xs)
  then have "appends ok content limit (\<lambda>b. bindR (w x b) (foldR w xs)) (f x @ concat (map f xs))"
    by (intro appends_bind) auto
  then show ?case by (simp add: appends_def)
qed

lemma appends_run:
  assumes "appends ok content limit w bs" "ok b" "length (content b) + length bs < limit"
  obtains b' where "w b = Inr b'" "ok b'" "content b' = content b @ bs"
  using assms unfolding appends_def by blast

lemmas appends_intros = appends_write appends_putc appends_skip appends_bind appends_loop

end

lemma dbuf_sink: "byte_sink dynamic_buffer_write dynamic_buffer_putc dbuf_bytes dbuf_ok (2 ^ 31)"
  by (unfold_locales) (use dynamic_buffer_write_bytes dynamic_buffer_putc_bytes in blast)+

interpretation dbuf: byte_sink dynamic_buffer_write dynamic_buffer_putc dbuf_bytes dbuf_ok "2 ^ 31"
  by (rule dbuf_sink)

abbreviation writes :: "(dynamic_buffer_t \<Rightarrow> dynamic_buffer_t res) \<Rightarrow> byte list \<Rightarrow> bool" where
  "writes \<equiv> appends dbuf_ok dbuf_bytes (2 ^ 31)"

section \<open>Hexadecimal strings\<close>

definition hex_string :: "byte list \<Rightarrow> byte list" where
  "hex_string bs = concat (map hex_byte bs)"

lemma length_hex_byte [simp]: "length (hex_byte b) = 2"
  by (simp add: hex_byte_def)

lemma length_hex_string [simp]: "length (hex_string bs) = 2 * length bs"
  by (induction bs) (simp_all add: hex_string_def)

lemma unat_hex_digit: "n < 16 \<Longrightarrow> unat (hex_digit n) = (if n < 10 then 48 + n else 87 + n)"
  by (simp add: hex_digit_def del: of_nat_add of_nat_numeral)

lemma digit_value_hex_digit: "n < 16 \<Longrightarrow> digit_value (hex_digit n) = Some n"
  by (simp add: digit_value_def unat_hex_digit Let_def)

lemma hex_string_append: "hex_string (xs @ ys) = hex_string xs @ hex_string ys"
  by (simp add: hex_string_def)

lemma hex_string_Cons: "hex_string (x # xs) = hex_byte x @ hex_string xs"
  by (simp add: hex_string_def)

lemma unat_of_nat_u8: "n < 256 \<Longrightarrow> unat (of_nat n :: byte) = n"
  by simp

lemma arr_memcpy_replace:
  "length ys = length xs \<Longrightarrow>
     arr_memcpy (p @ ys @ q) (length p) xs = Inr (p @ map Some xs @ q)"
  by (simp add: arr_memcpy_def)

lemma to_hex_loop_result:
  assumes "i \<le> length bs" "length bs < 256" "length bs = unat len" "length bs - i < fuel"
  shows "to_hex_loop fuel (map Some bs) len (of_nat i)
      (map Some (hex_string (take i bs)) @ replicate (2 * (length bs - i) + 1) (Some 0))
    = Inr (map Some (hex_string bs @ [0]))"
  using assms(1,4)
proof (induction "length bs - i" arbitrary: i fuel)
  case 0
  then have "i = length bs" "fuel \<noteq> 0" by auto
  moreover have "unat (of_nat (length bs) :: byte) = length bs"
    using assms(2) by (rule unat_of_nat_u8)
  ultimately show ?case
    by (cases fuel) (simp_all add: assms(3) [symmetric])
next
  case (Suc k)
  then have i: "i < length bs" and n: "length bs - i = Suc k" by auto
  obtain f where f: "fuel = Suc f" using Suc.prems by (cases fuel) auto
  have ui: "unat (of_nat i :: byte) = i" using i assms(2) by (intro unat_of_nat_u8) simp
  let ?p = "map Some (hex_string (take i bs))"
  let ?q = "replicate (2 * k) (Some 0) :: byte arr"
  have r: "?p @ replicate (2 * (length bs - i) + 1) (Some 0) = ?p @ [Some 0, Some 0, Some 0] @ ?q"
    by (simp add: n)
  have c: "arr_memcpy (?p @ [Some 0, Some 0, Some 0] @ ?q) (2 * i) (hex_byte (bs ! i) @ [0])
      = Inr (?p @ map Some (hex_byte (bs ! i) @ [0]) @ ?q)"
    using arr_memcpy_replace [of "[Some 0, Some 0, Some 0]" "hex_byte (bs ! i) @ [0]" ?p ?q] i
    by (simp add: min_def)
  have t: "?p @ map Some (hex_byte (bs ! i) @ [0]) @ ?q =
      map Some (hex_string (take (Suc i) bs)) @ replicate (2 * (length bs - Suc i) + 1) (Some 0)"
    using i n by (simp add: take_Suc_conv_app_nth hex_string_append hex_string_Cons
        replicate_app_Cons_same hex_string_def Suc_diff_Suc)
  have "to_hex_loop f (map Some bs) len (of_nat (Suc i))
      (map Some (hex_string (take (Suc i) bs)) @ replicate (2 * (length bs - Suc i) + 1) (Some 0))
    = Inr (map Some (hex_string bs @ [0]))"
    using Suc f i by (intro Suc.hyps) auto
  moreover have "(of_nat (Suc i) :: byte) = of_nat i + 1" by simp
  moreover have "unat (of_nat i :: byte) < unat len" using i ui assms(3) by simp
  moreover have "arr_load (map Some bs) i = Inr (bs ! i)" using i by (simp add: arr_load_def)
  ultimately show ?case
    by (simp only: f r to_hex_loop.simps ui if_True bindR_simps c t)
qed

text \<open>The bytes a string of hexadecimal digits of either case stands for.\<close>

fun unhex :: "byte list \<Rightarrow> byte list" where
  "unhex (a # b # s) = of_nat (16 * the (digit_value a) + the (digit_value b)) # unhex s"
| "unhex _ = []"

lemma length_unhex [simp]: "length (unhex s) = length s div 2"
  by (induction s rule: unhex.induct) simp_all

lemma drop_unhex: "drop i (unhex s) = unhex (drop (2 * i) s)"
proof (induction s arbitrary: i rule: unhex.induct)
  case (1 a b s)
  then show ?case by (cases i) simp_all
qed (auto simp: drop_Cons')

lemma sscanf_digits:
  assumes "isxdigit a" "isxdigit b"
  shows "sscanf_02x (a # b # rest) = Some (of_nat (16 * the (digit_value a) + the (digit_value b)))"
proof -
  obtain x y where d: "digit_value a = Some x" "digit_value b = Some y"
    using assms by (auto simp: isxdigit_def)
  have "unat a \<in> {48..57} \<union> {97..102} \<union> {65..70}"
    using d(1) by (auto simp: digit_value_def Let_def split: if_splits)
  then have "\<not> isspace a" "a \<noteq> 43" "a \<noteq> 45"
    by (auto simp: isspace_def)
  moreover have "b \<noteq> 120" "b \<noteq> 88" using d(2) by (auto simp: digit_value_def)
  ultimately show ?thesis using d by (simp add: sscanf_02x_def numeral_2_eq_2)
qed

lemma from_hex_loop_digits:
  assumes "list_all isxdigit hex" "length hex = 2 * n" "n < 256" "i \<le> n" "n - i < fuel"
    and "length d = n - i + k"
  shows "\<exists>d'. from_hex_loop fuel hex n (of_nat i) (map Some (take i (unhex hex)) @ d) =
    Inr (map Some (unhex hex) @ d') \<and> d' = drop (n - i) d"
  using assms(4-6)
proof (induction "n - i" arbitrary: i fuel d)
  case 0
  then have "i = n" "fuel \<noteq> 0" by auto
  moreover have "unat (of_nat n :: byte) = n" using assms(3) by (intro unat_of_nat_u8) simp
  ultimately show ?case using assms(2) by (cases fuel) simp_all
next
  case (Suc m)
  then have i: "i < n" by auto
  obtain f where f: "fuel = Suc f" using Suc.prems by (cases fuel) auto
  have ui: "unat (of_nat i :: byte) = i" using i assms(3) by (intro unat_of_nat_u8) simp
  obtain x ds where d: "d = x # ds" using Suc by (cases d) auto
  have l: "2 * i < length hex" "Suc (2 * i) < length hex" using i assms(2) by simp_all
  have hex: "drop (2 * i) hex = hex ! (2 * i) # hex ! Suc (2 * i) # drop (2 * Suc i) hex"
    using l by (simp add: Cons_nth_drop_Suc)
  let ?b = "of_nat (16 * the (digit_value (hex ! (2 * i))) + the (digit_value (hex ! Suc (2 * i)))) :: byte"
  have s: "sscanf_02x (drop (2 * i) hex) = Some ?b"
    unfolding hex using assms(1) l by (intro sscanf_digits) (simp_all add: list_all_length)
  have "drop i (unhex hex) = ?b # unhex (drop (2 * Suc i) hex)" by (simp only: drop_unhex hex unhex.simps)
  then have b: "unhex hex ! i = ?b" using i assms(2) by (metis drop_eq_Nil hd_drop_conv_nth length_unhex list.sel(1) list.simps(3) nat_mult_div_cancel_disj not_less zero_neq_numeral)
  have st: "arr_store (map Some (take i (unhex hex)) @ d) i ?b = Inr (map Some (take (Suc i) (unhex hex)) @ ds)"
    using i assms(2) b by (simp add: arr_store_def d take_Suc_conv_app_nth list_update_append)
  have "\<exists>d'. from_hex_loop f hex n (of_nat (Suc i)) (map Some (take (Suc i) (unhex hex)) @ ds) =
      Inr (map Some (unhex hex) @ d') \<and> d' = drop (n - Suc i) ds"
    using Suc f d i by (intro Suc.hyps) auto
  moreover have "(of_nat (Suc i) :: byte) = of_nat i + 1" by simp
  moreover have "n - i = Suc (n - Suc i)" using i by simp
  ultimately show ?case
    using i ui s st by (simp add: f d del: of_nat_Suc)
qed

lemma hex_string_digits: "list_all isxdigit (hex_string bs)"
proof (induction bs)
  case (Cons b bs)
  have "unat b div 16 < 16" using unat_byte_less [of b] by linarith
  then show ?case using Cons by (simp add: hex_string_Cons hex_byte_def isxdigit_def digit_value_hex_digit)
qed (simp add: hex_string_def)

lemma unhex_hex_string [simp]: "unhex (hex_string bs) = bs"
proof (induction bs)
  case (Cons b bs)
  have "unat b div 16 < 16" using unat_byte_less [of b] by linarith
  then have "of_nat (16 * the (digit_value (hex_digit (unat b div 16))) + the (digit_value (hex_digit (unat b mod 16)))) = b"
    by (simp add: digit_value_hex_digit del: of_nat_add of_nat_mult)
  then show ?case using Cons by (simp add: hex_string_Cons hex_byte_def)
qed (simp add: hex_string_def)

lemma buffer_from_hex_digits:
  assumes "list_all isxdigit hex" "length hex = 2 * n" "n < 256" "n < fuel"
  shows "\<exists>d. buffer_from_hex fuel hex = Inr \<lparr>b_length = of_nat n, b_data = map Some (unhex hex) @ d\<rparr>"
  using from_hex_loop_digits [OF assms(1-3), of 0 fuel "arr_malloc (length hex)" n] assms
  by (simp add: buffer_from_hex_def)

lemma to_hex_loop_wraps:
  assumes "length data = unat len" "\<forall>i < length data. data ! i \<noteq> None" "256 \<le> unat len"
  shows "513 \<le> length r \<Longrightarrow> to_hex_loop fuel data len i r = Inl Out_of_fuel"
proof (induction fuel arbitrary: i r)
  case (Suc fuel)
  have i: "unat i < 256" by simp
  then have "unat i < length data" using assms(1,3) by linarith
  moreover from this assms(2) obtain c where "data ! unat i = Some c" by auto
  ultimately have c: "arr_load data (unat i) = Inr c" by (simp add: arr_load_def)
  obtain r' where "arr_memcpy r (2 * unat i) (hex_byte c @ [0]) = Inr r'" "length r' = length r"
    using i Suc.prems by (auto simp: arr_memcpy_def)
  moreover have "unat i < unat len" using i assms(3) by linarith
  ultimately show ?case using c Suc by simp
qed simp

section \<open>Decimal numbers\<close>

lemma decimal_no_nul: "c \<in> set (decimal n) \<Longrightarrow> 48 \<le> unat c \<and> unat c \<le> 57"
proof (induction n rule: decimal.induct)
  case (1 n)
  have d: "unat (of_nat (48 + k) :: byte) = 48 + k" if "k < 10" for k
    using that by (simp only: unat_of_nat_byte) simp
  show ?case
    using 1 d [of n] d [of "n mod 10"] by (subst (asm) (2) decimal.simps) (auto split: if_splits)
qed

lemma length_decimal: "n < 10 ^ k \<Longrightarrow> 0 < k \<Longrightarrow> length (decimal n) \<le> k"
proof (induction k arbitrary: n)
  case (Suc k)
  show ?case
  proof (cases "n < 10")
    case False
    then have "n div 10 < 10 ^ k" "0 < k" using Suc.prems by (auto intro!: Suc_lessI gr0I)
    then show ?thesis using Suc.IH [of "n div 10"] False by (subst decimal.simps) simp
  qed (subst decimal.simps, simp)
qed simp

lemma decimal_not_Nil [simp]: "decimal n \<noteq> []"
  by (subst decimal.simps) simp

lemma decimal_digits: "list_all is_digit (decimal n)"
  using decimal_no_nul by (auto simp: list_all_iff is_digit_def)

lemma number_of_decimal: "number_of_digits (decimal n) = n"
proof (induction n rule: decimal.induct)
  case (1 n)
  have d: "unat (of_nat (48 + k) :: byte) = 48 + k" if "k < 10" for k
    using that by (simp only: unat_of_nat_byte) simp
  show ?case
    using 1 d [of n] d [of "n mod 10"] by (subst decimal.simps) (auto simp: number_of_digits_def)
qed

section \<open>Properties\<close>

text \<open>
  Hexadecimal encoding is a round trip for buffers of fewer than 256 bytes: \<open>buffer_to_hex\<close>
  ends within one iteration per byte (plus the last test) and yields the 0-terminated lower-case
  encoding, and \<open>buffer_from_hex\<close> of that string yields the same length and bytes.
\<close>

lemma hex_round_trip:
  assumes "b_data b = map Some bs" and "length bs = unat (b_length b)" and "length bs < 256"
    and "length bs < fuel"
  shows "buffer_to_hex fuel b = Inr (map Some (hex_string bs @ [0])) \<and>
    (\<exists>b'. buffer_from_hex fuel (hex_string bs) = Inr b' \<and> b_length b' = b_length b \<and>
       take (length bs) (b_data b') = map Some bs)"
proof
  have len: "unat (b_length b * 2 + 1) = 2 * length bs + 1"
    using assms(2,3) by (simp add: unat_word_ariths)
  show "buffer_to_hex fuel b = Inr (map Some (hex_string bs @ [0]))"
    using to_hex_loop_result [of 0 bs "b_length b" fuel] assms len
    by (simp add: buffer_to_hex_def hex_string_def)
  show "\<exists>b'. buffer_from_hex fuel (hex_string bs) = Inr b' \<and> b_length b' = b_length b \<and>
      take (length bs) (b_data b') = map Some bs"
    using buffer_from_hex_digits [OF hex_string_digits, of bs "length bs" fuel] assms by auto
qed

lemma hex_round_trip_witness:
  "buffer_to_hex 3 \<lparr>b_length = 2, b_data = map Some [255, 10]\<rparr>
     = Inr (map Some (bytes_of ''ff0a'' @ [0]))"
proof -
  have "hex_string [255, 10] = bytes_of ''ff0a''"
    by (simp add: hex_string_def hex_byte_def hex_digit_def bytes_of_def of_char_def)
  then show ?thesis
    using hex_round_trip [of "\<lparr>b_length = 2, b_data = map Some [255, 10]\<rparr>" "[255, 10]" 3] by simp
qed

text \<open>
  The counter of \<open>buffer_to_hex\<close> has 8 bits, so on a buffer of 256 bytes or more (up to the
  length whose doubled size still fits in 32 bits) the loop never ends: no amount of fuel is
  enough.
\<close>

lemma buffer_to_hex_diverges:
  assumes "length (b_data b) = unat (b_length b)" and "\<forall>i < length (b_data b). b_data b ! i \<noteq> None"
    and "256 \<le> unat (b_length b)" and "unat (b_length b) < 2 ^ 31"
  shows "\<forall>fuel. buffer_to_hex fuel b = Inl Out_of_fuel"
proof
  fix fuel
  have "unat (b_length b * 2 + 1) = 2 * unat (b_length b) + 1"
    using assms(4) by (simp add: unat_word_ariths)
  then show "buffer_to_hex fuel b = Inl Out_of_fuel"
    unfolding buffer_to_hex_def using assms(3) by (intro to_hex_loop_wraps [OF assms(1-3)]) simp
qed

lemma buffer_to_hex_diverges_witness:
  "\<forall>fuel. buffer_to_hex fuel (buffer_create 256) = Inl Out_of_fuel"
  by (rule buffer_to_hex_diverges) (simp_all add: buffer_create_def)

text \<open>
  Appending to a dynamic buffer: while the contents stay below 2 GiB, a write of any bytes or
  of a character ends, does not leave the block, and appends exactly these bytes, whatever the
  initial capacity (even 0, or a negative one) and however often the block is doubled.
\<close>

lemma dynamic_buffer_appends:
  assumes "initial < 2 ^ 31" and "length (concat chunks) < 2 ^ 31"
  shows "\<exists>b. foldR (\<lambda>src. dynamic_buffer_write src (length src)) chunks (dynamic_buffer_create initial) = Inr b \<and>
    dbuf_bytes b = concat chunks \<and> unat (d_length b) = length (concat chunks)"
proof -
  have "writes (foldR (\<lambda>src. dynamic_buffer_write src (length src)) chunks) (concat (map id chunks))"
    by (rule dbuf.appends_loop, unfold id_apply, rule dbuf.appends_write, rule refl)
  then obtain b where b: "foldR (\<lambda>src. dynamic_buffer_write src (length src)) chunks (dynamic_buffer_create initial) = Inr b"
      "dbuf_ok b" "dbuf_bytes b = concat chunks"
    using dbuf.appends_run [OF _ dbuf_ok_create [OF assms(1)]] assms(2) by auto
  then show ?thesis using length_dbuf_bytes [OF b(2)] by auto
qed

lemma dynamic_buffer_appends_witness:
  "\<exists>b. foldR (\<lambda>src. dynamic_buffer_write src (length src)) [[1, 2, 3], [], [4]] (dynamic_buffer_create 0) = Inr b \<and>
     dbuf_bytes b = concat [[1, 2, 3], [], [4]] \<and> unat (d_length b) = length (concat [[1, 2, 3 :: byte], [], [4]])"
  by (rule dynamic_buffer_appends) simp_all

end
