(* ===== verification/Guid.thy ===== *)
theory Guid
  imports Prelude
begin

text \<open>
  Globally unique identifiers (\<open>src/util/guid.c\<close>): four 32-bit words, the most significant
  first. The random words of \<open>guid_new\<close> come from libsodium and are arguments of the model;
  \<open>guid_print\<close> is in the theory \<open>Print\<close>. \<open>guid_compare\<close> is shown to be the
  comparison of the library's order on identifiers.
\<close>

datatype guid_t = Guid (guid_0: u32) (guid_1: u32) (guid_2: u32) (guid_3: u32)

definition guid_words :: "guid_t \<Rightarrow> u32 list" where
  "guid_words g = [guid_0 g, guid_1 g, guid_2 g, guid_3 g]"

definition guid_new :: "u32 \<Rightarrow> u32 \<Rightarrow> u32 \<Rightarrow> u32 \<Rightarrow> guid_t" where
  "guid_new random0 random1 random2 random3 = Guid random0 random1 random2 random3"

text \<open>The loop over the words that are left.\<close>

fun guid_compare_loop :: "u32 list \<Rightarrow> u32 list \<Rightarrow> int" where
  "guid_compare_loop (x # xs) (y # ys) =
     (if x < y then -1 else if x > y then 1 else guid_compare_loop xs ys)"
| "guid_compare_loop _ _ = 0"

definition guid_compare :: "guid_t \<Rightarrow> guid_t \<Rightarrow> int" where
  "guid_compare g1 g2 = guid_compare_loop (guid_words g1) (guid_words g2)"

definition guid_null :: guid_t where
  "guid_null = Guid 0 0 0 0"

definition guid_is_null :: "guid_t \<Rightarrow> bool" where
  "guid_is_null g \<longleftrightarrow> guid_0 g = 0 \<and> guid_1 g = 0 \<and> guid_2 g = 0 \<and> guid_3 g = 0"

section \<open>The order\<close>

lemma guid_words_inject [simp]: "guid_words a = guid_words b \<longleftrightarrow> a = b"
  by (cases a; cases b) (simp add: guid_words_def)

lemma length_guid_words [simp]: "length (guid_words g) = 4"
  by (simp add: guid_words_def)

instantiation guid_t :: linorder
begin

definition less_eq_guid_t :: "guid_t \<Rightarrow> guid_t \<Rightarrow> bool" where
  "less_eq_guid_t a b \<longleftrightarrow> guid_words a \<le> guid_words b"

definition less_guid_t :: "guid_t \<Rightarrow> guid_t \<Rightarrow> bool" where
  "less_guid_t a b \<longleftrightarrow> guid_words a < guid_words b"

instance
  by standard
    (auto simp: less_eq_guid_t_def less_guid_t_def le_less, metis guid_words_inject linorder_neqE)

end

lemma guid_compare_loop_order:
  assumes "length xs = length ys"
  shows "guid_compare_loop xs ys = (if xs < ys then -1 else if xs = ys then 0 else 1)"
  using assms by (induction xs ys rule: list_induct2) auto

lemma guid_compare_order:
  "guid_compare a b = (if a < b then -1 else if a = b then 0 else 1)"
  by (simp add: guid_compare_def guid_compare_loop_order less_guid_t_def)

lemma guid_key_comparator: "key_comparator guid_compare (\<lambda>_. True)"
  by unfold_locales (auto simp: guid_compare_order split: if_splits)

interpretation guid_order: key_comparator guid_compare "\<lambda>_. True"
  by (rule guid_key_comparator)

lemma guid_is_null_iff: "guid_is_null g \<longleftrightarrow> g = guid_null"
  by (cases g) (simp add: guid_is_null_def guid_null_def)

section \<open>Properties\<close>

definition guid_value :: "guid_t \<Rightarrow> nat" where
  "guid_value g =
     ((unat (guid_0 g) * 2 ^ 32 + unat (guid_1 g)) * 2 ^ 32 + unat (guid_2 g)) * 2 ^ 32 + unat (guid_3 g)"

lemma digit_less:
  assumes "b < (k :: nat)" "d < k"
  shows "a * k + b < c * k + d \<longleftrightarrow> a < c \<or> a = c \<and> b < d"
proof (cases a c rule: linorder_cases)
  case less
  then have "(a + 1) * k \<le> c * k" by (intro mult_le_mono1) simp
  with less assms show ?thesis by (simp add: algebra_simps)
next
  case greater
  then have "(c + 1) * k \<le> a * k" by (intro mult_le_mono1) simp
  with greater assms show ?thesis by (simp add: algebra_simps)
qed simp

lemma digit_eq:
  assumes "b < (k :: nat)" "d < k"
  shows "a * k + b = c * k + d \<longleftrightarrow> a = c \<and> b = d"
  using digit_less [OF assms, of a c] digit_less [OF assms(2,1), of c a] by linarith

text \<open>
  \<open>guid_compare\<close> is the three-way comparison of a total order on identifiers, the numerical
  order of the 128-bit numbers they stand for (the first word is the most significant), so it
  returns 0 exactly on equal identifiers, and the null identifier is the least one.
\<close>

lemma guid_compare_numeric:
  "guid_compare a b =
     (if guid_value a < guid_value b then -1 else if guid_value a = guid_value b then 0 else 1) \<and>
   guid_compare a b = - guid_compare b a \<and> (guid_compare a b = 0 \<longleftrightarrow> a = b) \<and>
   guid_compare guid_null a \<le> 0"
proof -
  have lt: "guid_value x < guid_value y \<longleftrightarrow> x < y" for x y
  proof -
    have b: "unat (w :: u32) < 2 ^ 32" for w
      using unsigned_less [of w, where ?'a = nat] by simp
    show ?thesis
      unfolding guid_value_def digit_less [OF b b] digit_eq [OF b b]
      by (cases x; cases y)
        (auto simp: less_guid_t_def guid_words_def word_less_nat_alt word_unat_eq_iff)
  qed
  then have eq: "guid_value x = guid_value y \<longleftrightarrow> x = y" for x y
    by (metis linorder_neq_iff)
  have "\<not> a < guid_null"
    by (cases a) (auto simp: less_guid_t_def guid_words_def guid_null_def)
  then show ?thesis
    by (auto simp: guid_compare_order lt eq)
qed

end
