(* ===== verification/Message.thy ===== *)
theory Message
  imports Guid
begin

text \<open>
  The header of a network message (\<open>src/message.c\<close>): magic number, length of the body, identifier
  of the message and message type, 26 bytes in network byte order. The functions take a pointer
  into a block of memory: here the block and an offset.
\<close>

definition MESSAGE_MAGIC_NUMBER :: u32 where
  "MESSAGE_MAGIC_NUMBER = 0x54524a54"

definition MESSAGE_HEADER_SIZE :: nat where
  "MESSAGE_HEADER_SIZE = 2 * 4 + 16 + 2"

section \<open>Integers in memory\<close>

definition load_u16 :: "byte arr \<Rightarrow> nat \<Rightarrow> u16 res" where
  "load_u16 mem p = bindR (arr_load_n mem p 2) (\<lambda>bs. Inr (u16_of bs))"

definition load_u32 :: "byte arr \<Rightarrow> nat \<Rightarrow> u32 res" where
  "load_u32 mem p = bindR (arr_load_n mem p 4) (\<lambda>bs. Inr (u32_of bs))"

definition load_u64 :: "byte arr \<Rightarrow> nat \<Rightarrow> u64 res" where
  "load_u64 mem p = bindR (arr_load_n mem p 8) (\<lambda>bs. Inr (u64_of bs))"

section \<open>The fields of the header\<close>

definition message_get_guid :: "byte arr \<Rightarrow> nat \<Rightarrow> guid_t res" where
  "message_get_guid mem message =
     bindR (mapR (\<lambda>j. bindR (load_u32 mem (message + 4 * (2 + j))) (\<lambda>w. Inr (ntohl w))) [0..<4]) (\<lambda>ws.
       Inr (Guid (ws ! 0) (ws ! 1) (ws ! 2) (ws ! 3)))"

definition message_set_guid :: "byte arr \<Rightarrow> nat \<Rightarrow> guid_t \<Rightarrow> byte arr res" where
  "message_set_guid mem message guid =
     foldR (\<lambda>j mem. arr_memcpy mem (message + 4 * (2 + j)) (u32_bytes (htonl (guid_words guid ! j)))) [0..<4] mem"

definition message_get_length :: "byte arr \<Rightarrow> nat \<Rightarrow> u32 res" where
  "message_get_length mem message = bindR (load_u32 mem (message + 4)) (\<lambda>w. Inr (ntohl w))"

definition message_set_length :: "byte arr \<Rightarrow> nat \<Rightarrow> u32 \<Rightarrow> byte arr res" where
  "message_set_length mem message len = arr_memcpy mem (message + 4) (u32_bytes (htonl len))"

definition message_get_magic :: "byte arr \<Rightarrow> nat \<Rightarrow> u32 res" where
  "message_get_magic mem message = bindR (load_u32 mem message) (\<lambda>w. Inr (ntohl w))"

definition message_set_magic :: "byte arr \<Rightarrow> nat \<Rightarrow> u32 \<Rightarrow> byte arr res" where
  "message_set_magic mem message magic = arr_memcpy mem message (u32_bytes (htonl magic))"

definition message_get_type :: "byte arr \<Rightarrow> nat \<Rightarrow> u16 res" where
  "message_get_type mem message = bindR (load_u16 mem (message + 24)) (\<lambda>w. Inr (ntohs w))"

definition message_set_type :: "byte arr \<Rightarrow> nat \<Rightarrow> u16 \<Rightarrow> byte arr res" where
  "message_set_type mem message type = arr_memcpy mem (message + 24) (u16_bytes (htons type))"

text \<open>
  The four setters in the order in which \<open>network_broadcast\<close> and \<open>network_send\<close> call them.
\<close>

definition message_set_header :: "byte arr \<Rightarrow> nat \<Rightarrow> u32 \<Rightarrow> guid_t \<Rightarrow> u16 \<Rightarrow> byte arr res" where
  "message_set_header mem message len guid type =
     bindR (message_set_magic mem message MESSAGE_MAGIC_NUMBER) (\<lambda>mem.
     bindR (message_set_length mem message len) (\<lambda>mem.
     bindR (message_set_guid mem message guid) (\<lambda>mem.
     message_set_type mem message type)))"

section \<open>Layout\<close>

definition header_bytes :: "u32 \<Rightarrow> guid_t \<Rightarrow> u16 \<Rightarrow> byte list" where
  "header_bytes len guid type =
     u32_bytes (htonl MESSAGE_MAGIC_NUMBER) @ u32_bytes (htonl len) @
     concat (map (\<lambda>w. u32_bytes (htonl w)) (guid_words guid)) @ u16_bytes (htons type)"

lemma length_header_bytes [simp]: "length (header_bytes len guid type) = 26"
  by (simp add: header_bytes_def guid_words_def)

lemma memcpy_next:
  "length p = d \<Longrightarrow> length xs \<le> length q \<Longrightarrow>
     arr_memcpy (p @ q) d xs = Inr ((p @ map Some xs) @ drop (length xs) q)"
  by (auto simp: arr_memcpy_def)

lemma message_set_header_bytes:
  assumes "length p = message" "26 \<le> length q"
  shows "message_set_header (p @ q) message len guid type =
    Inr (p @ map Some (header_bytes len guid type) @ drop 26 q)"
proof -
  have u: "[0..<4] = [0, 1, 2, 3 :: nat]" by (simp add: upt_rec)
  show ?thesis
    using assms
    by (simp add: message_set_header_def message_set_magic_def message_set_length_def
        message_set_guid_def message_set_type_def u memcpy_next header_bytes_def guid_words_def
        numeral_2_eq_2 numeral_3_eq_3 del: append_assoc)
qed

lemma load_block:
  "length p = i \<Longrightarrow> load_u16 (p @ map Some (u16_bytes w16) @ r) i = Inr w16"
  "length p = i \<Longrightarrow> load_u32 (p @ map Some (u32_bytes w32) @ r) i = Inr w32"
  "length p = i \<Longrightarrow> load_u64 (p @ map Some (u64_bytes w64) @ r) i = Inr w64"
  by (simp_all add: load_u16_def load_u32_def load_u64_def arr_load_n_block)

lemma message_get_header:
  fixes p r :: "byte arr" and len :: u32 and guid :: guid_t and type :: u16
  assumes "length p = message"
  defines "mem \<equiv> p @ map Some (header_bytes len guid type) @ r"
  shows "message_get_magic mem message = Inr MESSAGE_MAGIC_NUMBER"
    and "message_get_length mem message = Inr len"
    and "message_get_guid mem message = Inr guid"
    and "message_get_type mem message = Inr type"
proof -
  let ?w = "\<lambda>w. map Some (u32_bytes (htonl w))"
  let ?t = "map Some (u16_bytes (htons type))"
  have w: "load_u32 (q @ ?w v @ s) i = Inr (htonl v)" if "length q = i" for q s i v
    using that by (simp add: load_block)
  have mem: "mem = p @ ?w MESSAGE_MAGIC_NUMBER @ ?w len @ ?w (guid_0 guid) @ ?w (guid_1 guid) @
      ?w (guid_2 guid) @ ?w (guid_3 guid) @ ?t @ r"
    by (simp add: mem_def header_bytes_def guid_words_def)
  show "message_get_magic mem message = Inr MESSAGE_MAGIC_NUMBER"
    using w [of p message] assms(1) by (simp add: message_get_magic_def mem)
  show "message_get_length mem message = Inr len"
    using w [of "p @ ?w MESSAGE_MAGIC_NUMBER" "message + 4"] assms(1)
    by (simp add: message_get_length_def mem)
  have u: "[0..<4] = [0, 1, 2, 3 :: nat]" by (simp add: upt_rec)
  have "load_u32 mem (message + 8) = Inr (htonl (guid_0 guid))"
    using w [of "p @ ?w MESSAGE_MAGIC_NUMBER @ ?w len" "message + 8"] assms(1) by (simp add: mem)
  moreover have "load_u32 mem (message + 12) = Inr (htonl (guid_1 guid))"
    using w [of "p @ ?w MESSAGE_MAGIC_NUMBER @ ?w len @ ?w (guid_0 guid)" "message + 12"] assms(1)
    by (simp add: mem)
  moreover have "load_u32 mem (message + 16) = Inr (htonl (guid_2 guid))"
    using w [of "p @ ?w MESSAGE_MAGIC_NUMBER @ ?w len @ ?w (guid_0 guid) @ ?w (guid_1 guid)" "message + 16"]
      assms(1) by (simp add: mem)
  moreover have "load_u32 mem (message + 20) = Inr (htonl (guid_3 guid))"
    using w [of "p @ ?w MESSAGE_MAGIC_NUMBER @ ?w len @ ?w (guid_0 guid) @ ?w (guid_1 guid) @ ?w (guid_2 guid)"
        "message + 20"] assms(1) by (simp add: mem)
  ultimately show "message_get_guid mem message = Inr guid"
    by (simp add: message_get_guid_def u)
  show "message_get_type mem message = Inr type"
    using load_block(1) [of "p @ ?w MESSAGE_MAGIC_NUMBER @ ?w len @ ?w (guid_0 guid) @ ?w (guid_1 guid) @
        ?w (guid_2 guid) @ ?w (guid_3 guid)" "message + 24"] assms(1)
    by (simp add: message_get_type_def mem)
qed

section \<open>Properties\<close>

text \<open>
  Reading back a header: setting the four fields of a message header in any block with 26 bytes
  left from the message's start succeeds, changes exactly these 26 bytes (all of which are then
  initialised), and the getters then return the magic number, length, identifier and type that
  were set.
\<close>

lemma message_header_round_trip:
  assumes "length p = message" and "26 \<le> length q"
  shows "\<exists>h. length h = 26 \<and>
    message_set_header (p @ q) message len guid type = Inr (p @ map Some h @ drop 26 q) \<and>
    message_get_magic (p @ map Some h @ drop 26 q) message = Inr MESSAGE_MAGIC_NUMBER \<and>
    message_get_length (p @ map Some h @ drop 26 q) message = Inr len \<and>
    message_get_guid (p @ map Some h @ drop 26 q) message = Inr guid \<and>
    message_get_type (p @ map Some h @ drop 26 q) message = Inr type"
  using message_set_header_bytes [OF assms] message_get_header [OF assms(1)]
  by (intro exI [of _ "header_bytes len guid type"]) simp

lemma message_header_round_trip_witness:
  "\<exists>h. length h = 26 \<and> message_set_header (arr_malloc 30) 0 7 (Guid 1 2 3 4) 9 = Inr (map Some h @ replicate 4 None) \<and>
     message_get_length (map Some h @ replicate 4 None) 0 = Inr 7"
  using message_header_round_trip [of "[]" 0 "arr_malloc 30" 7 "Guid 1 2 3 4" 9]
  by (auto simp: arr_malloc_def)

end
