(* ===== verification/Tuple.thy ===== *)
theory Tuple
  imports Buffer Message
begin

text \<open>
  The binary tuple format (\<open>src/tuple.c\<close>), in which every message, transaction and block is
  written. The writers append to a dynamic buffer. The parser works in place: an element of a
  parsed tuple is a pointer into the message (\<open>Ptr\<close>, an offset) or a parsed sub-tuple (\<open>Sub\<close>), and
  the accessors read the message memory again. The memory is a block that may be longer than the
  buffer that is parsed, as the receive buffer of a connection is, so reads beyond the buffer are
  faults only where they leave the block.

  The element list is the sequence of an array list that is created with capacity 1 and only
  appended to, which cannot fault (see \<open>list_appends_all\<close>); \<open>list_get\<close> is the check of the index.
  Floats are their IEEE 754 bit patterns. The pretty printer \<open>tuple_print\<close> is in the theory \<open>Print\<close>.
\<close>

definition TUPLE_START :: byte where [simp]: "TUPLE_START = 40"
definition TUPLE_END :: byte where [simp]: "TUPLE_END = 41"
definition TUPLE_I32 :: byte where [simp]: "TUPLE_I32 = 105"
definition TUPLE_I64 :: byte where [simp]: "TUPLE_I64 = 73"
definition TUPLE_U32 :: byte where [simp]: "TUPLE_U32 = 117"
definition TUPLE_U64 :: byte where [simp]: "TUPLE_U64 = 85"
definition TUPLE_F32 :: byte where [simp]: "TUPLE_F32 = 102"
definition TUPLE_F64 :: byte where [simp]: "TUPLE_F64 = 70"
definition TUPLE_BOOL :: byte where [simp]: "TUPLE_BOOL = 98"
definition TUPLE_BINARY :: byte where [simp]: "TUPLE_BINARY = 66"
definition TUPLE_STRING :: byte where [simp]: "TUPLE_STRING = 115"
definition TUPLE_NULL :: byte where [simp]: "TUPLE_NULL = 110"

section \<open>Writers\<close>

definition tuple_write_i32 :: "u32 \<Rightarrow> dynamic_buffer_t \<Rightarrow> dynamic_buffer_t res" where
  "tuple_write_i32 v file =
     bindR (dynamic_buffer_putc TUPLE_I32 file) (dynamic_buffer_write (u32_bytes (htonl v)) 4)"

definition tuple_write_i64 :: "u64 \<Rightarrow> dynamic_buffer_t \<Rightarrow> dynamic_buffer_t res" where
  "tuple_write_i64 v file =
     bindR (dynamic_buffer_putc TUPLE_I64 file) (dynamic_buffer_write (u64_bytes (htonll v)) 8)"

definition tuple_write_u32 :: "u32 \<Rightarrow> dynamic_buffer_t \<Rightarrow> dynamic_buffer_t res" where
  "tuple_write_u32 v file =
     bindR (dynamic_buffer_putc TUPLE_U32 file) (dynamic_buffer_write (u32_bytes (htonl v)) 4)"

definition tuple_write_u64 :: "u64 \<Rightarrow> dynamic_buffer_t \<Rightarrow> dynamic_buffer_t res" where
  "tuple_write_u64 v file =
     bindR (dynamic_buffer_putc TUPLE_U64 file) (dynamic_buffer_write (u64_bytes (htonll v)) 8)"

definition tuple_write_f32 :: "u32 \<Rightarrow> dynamic_buffer_t \<Rightarrow> dynamic_buffer_t res" where
  "tuple_write_f32 v file =
     bindR (dynamic_buffer_putc TUPLE_F32 file) (dynamic_buffer_write (u32_bytes v) 4)"

definition tuple_write_f64 :: "u64 \<Rightarrow> dynamic_buffer_t \<Rightarrow> dynamic_buffer_t res" where
  "tuple_write_f64 v file =
     bindR (dynamic_buffer_putc TUPLE_F64 file) (dynamic_buffer_write (u64_bytes v) 8)"

definition bool_byte :: "bool \<Rightarrow> byte" where
  "bool_byte v = (if v then 1 else 0)"

definition tuple_write_bool :: "bool \<Rightarrow> dynamic_buffer_t \<Rightarrow> dynamic_buffer_t res" where
  "tuple_write_bool v file =
     bindR (dynamic_buffer_putc TUPLE_BOOL file) (dynamic_buffer_write [bool_byte v] 1)"

text \<open>\<open>v\<close> is the string without its terminating 0.\<close>

definition tuple_write_string :: "byte list \<Rightarrow> dynamic_buffer_t \<Rightarrow> dynamic_buffer_t res" where
  "tuple_write_string v file =
     bindR (dynamic_buffer_putc TUPLE_STRING file) (dynamic_buffer_write (v @ [0]) (length v + 1))"

text \<open>
  The length is written as the first four bytes of a \<open>size_t\<close> in host order.
\<close>

definition tuple_write_binary :: "nat \<Rightarrow> byte list \<Rightarrow> dynamic_buffer_t \<Rightarrow> dynamic_buffer_t res" where
  "tuple_write_binary s v file =
     bindR (dynamic_buffer_putc TUPLE_BINARY file) (\<lambda>file.
     bindR (dynamic_buffer_write (u64_bytes (of_nat s)) 4 file) (\<lambda>file.
     dynamic_buffer_write v s file))"

definition tuple_write_start :: "dynamic_buffer_t \<Rightarrow> dynamic_buffer_t res" where
  "tuple_write_start file = dynamic_buffer_putc TUPLE_START file"

definition tuple_write_end :: "dynamic_buffer_t \<Rightarrow> dynamic_buffer_t res" where
  "tuple_write_end file = dynamic_buffer_putc TUPLE_END file"

section \<open>The parser\<close>

datatype tuple_t =
    Tuple (t_kind: byte) (t_elements: "telem list") (t_start: nat) (t_length: nat)
and telem =
    Ptr nat
  | Sub tuple_t

text \<open>
  The cases of the \<open>switch\<close> that append the current position and skip the payload: the new
  position, \<open>None\<close> for the other kinds.
\<close>

definition skip_scalar :: "byte arr \<Rightarrow> nat \<Rightarrow> byte \<Rightarrow> nat \<Rightarrow> nat option res" where
  "skip_scalar mem iter_end kind iter =
     (if kind = TUPLE_NULL then Inr (Some (iter + 1))
      else if kind = TUPLE_I32 then Inr (Some (iter + 1 + 4))
      else if kind = TUPLE_I64 then Inr (Some (iter + 1 + 8))
      else if kind = TUPLE_U32 then Inr (Some (iter + 1 + 4))
      else if kind = TUPLE_U64 then Inr (Some (iter + 1 + 8))
      else if kind = TUPLE_F32 then Inr (Some (iter + 1 + 4))
      else if kind = TUPLE_F64 then Inr (Some (iter + 1 + 8))
      else if kind = TUPLE_BOOL then Inr (Some (iter + 1 + 1))
      else if kind = TUPLE_STRING then
        bindR (strlen (drop (iter + 1) mem)) (\<lambda>n. Inr (Some (iter + 1 + n + 1)))
      else if kind = TUPLE_BINARY then
        bindR (load_u32 mem (iter + 1)) (\<lambda>binary_size.
        bindR (assertR (iter + 1 + 4 + unat binary_size < iter_end)) (\<lambda>_.
          Inr (Some (iter + 1 + 4 + unat binary_size))))
      else Inr None)"

text \<open>
  \<open>parse_elements\<close> is the loop of \<open>tuple_parse\<close>. The \<open>switch\<close> has no default case: on an unknown
  kind the position stays where it is and the loop goes round again. A result \<open>None\<close> is the
  \<open>NULL\<close> of the code.
\<close>

fun tuple_parse :: "nat \<Rightarrow> byte arr \<Rightarrow> nat option \<Rightarrow> nat \<Rightarrow> tuple_t option res"
  and parse_elements :: "nat \<Rightarrow> byte arr \<Rightarrow> nat \<Rightarrow> nat \<Rightarrow> nat \<Rightarrow> telem list \<Rightarrow> tuple_t option res" where
  "tuple_parse 0 mem data len = Inl Out_of_fuel"
| "tuple_parse (Suc fuel) mem data len =
     (case data of
        None \<Rightarrow> Inr None
      | Some start \<Rightarrow>
          if len < 2 then Inr None
          else
            bindR (arr_load mem start) (\<lambda>kind.
              if kind \<noteq> TUPLE_START then Inr None
              else parse_elements fuel mem start (start + len) (start + 1) []))"
| "parse_elements 0 mem start iter_end iter elements = Inl Out_of_fuel"
| "parse_elements (Suc fuel) mem start iter_end iter elements =
     (if iter < iter_end then
        bindR (arr_load mem iter) (\<lambda>kind.
        bindR (skip_scalar mem iter_end kind iter) (\<lambda>next.
          case next of
            Some iter' \<Rightarrow> parse_elements fuel mem start iter_end iter' (elements @ [Ptr iter])
          | None \<Rightarrow>
              if kind = TUPLE_START then
                bindR (tuple_parse fuel mem (Some iter) (iter_end - iter)) (\<lambda>sub.
                  case sub of
                    None \<Rightarrow> Inr None
                  | Some t \<Rightarrow>
                      parse_elements fuel mem start iter_end (iter + t_length t) (elements @ [Sub t]))
              else if kind = TUPLE_END then
                Inr (Some (Tuple TUPLE_START elements start (iter + 1 - start)))
              else parse_elements fuel mem start iter_end iter elements))
      else Inr None)"

declare tuple_parse.simps(2) [simp del] parse_elements.simps(2) [simp del]

section \<open>Accessors\<close>

definition tuple_size :: "tuple_t \<Rightarrow> nat" where
  "tuple_size t = length (t_elements t)"

definition tuple_element :: "tuple_t \<Rightarrow> nat \<Rightarrow> telem res" where
  "tuple_element t i =
     bindR (assertR (i < length (t_elements t))) (\<lambda>_. Inr (t_elements t ! i))"

text \<open>
  A parsed tuple starts with its kind, so the first byte at an element pointer is the kind of the
  element in both cases.
\<close>

definition elem_kind :: "byte arr \<Rightarrow> telem \<Rightarrow> byte res" where
  "elem_kind mem e = (case e of Ptr p \<Rightarrow> arr_load mem p | Sub t \<Rightarrow> Inr (t_kind t))"

definition tuple_get_type :: "byte arr \<Rightarrow> tuple_t \<Rightarrow> nat \<Rightarrow> byte res" where
  "tuple_get_type mem t i = bindR (tuple_element t i) (elem_kind mem)"

text \<open>The address \<open>element + 1\<close> of the payload, after the assertion on the kind.\<close>

definition tuple_value_ptr :: "byte arr \<Rightarrow> byte \<Rightarrow> tuple_t \<Rightarrow> nat \<Rightarrow> nat res" where
  "tuple_value_ptr mem kind t i =
     bindR (tuple_element t i) (\<lambda>e.
     bindR (elem_kind mem e) (\<lambda>k.
     bindR (assertR (k = kind)) (\<lambda>_.
       case e of Ptr p \<Rightarrow> Inr (p + 1) | Sub _ \<Rightarrow> Inl Out_of_bounds)))"

definition tuple_get_i32 :: "byte arr \<Rightarrow> tuple_t \<Rightarrow> nat \<Rightarrow> u32 res" where
  "tuple_get_i32 mem t i =
     bindR (tuple_value_ptr mem TUPLE_I32 t i) (\<lambda>p. bindR (load_u32 mem p) (\<lambda>v. Inr (ntohl v)))"

definition tuple_get_i64 :: "byte arr \<Rightarrow> tuple_t \<Rightarrow> nat \<Rightarrow> u64 res" where
  "tuple_get_i64 mem t i =
     bindR (tuple_value_ptr mem TUPLE_I64 t i) (\<lambda>p. bindR (load_u64 mem p) (\<lambda>v. Inr (ntohll v)))"

definition tuple_get_u32 :: "byte arr \<Rightarrow> tuple_t \<Rightarrow> nat \<Rightarrow> u32 res" where
  "tuple_get_u32 mem t i =
     bindR (tuple_value_ptr mem TUPLE_U32 t i) (\<lambda>p. bindR (load_u32 mem p) (\<lambda>v. Inr (ntohl v)))"

definition tuple_get_u64 :: "byte arr \<Rightarrow> tuple_t \<Rightarrow> nat \<Rightarrow> u64 res" where
  "tuple_get_u64 mem t i =
     bindR (tuple_value_ptr mem TUPLE_U64 t i) (\<lambda>p. bindR (load_u64 mem p) (\<lambda>v. Inr (ntohll v)))"

definition tuple_get_f32 :: "byte arr \<Rightarrow> tuple_t \<Rightarrow> nat \<Rightarrow> u32 res" where
  "tuple_get_f32 mem t i = bindR (tuple_value_ptr mem TUPLE_F32 t i) (load_u32 mem)"

definition tuple_get_f64 :: "byte arr \<Rightarrow> tuple_t \<Rightarrow> nat \<Rightarrow> u64 res" where
  "tuple_get_f64 mem t i = bindR (tuple_value_ptr mem TUPLE_F64 t i) (load_u64 mem)"

definition tuple_get_boolean :: "byte arr \<Rightarrow> tuple_t \<Rightarrow> nat \<Rightarrow> byte res" where
  "tuple_get_boolean mem t i = bindR (tuple_value_ptr mem TUPLE_BOOL t i) (arr_load mem)"

text \<open>The address of a 0-terminated string.\<close>

definition tuple_get_string :: "byte arr \<Rightarrow> tuple_t \<Rightarrow> nat \<Rightarrow> nat res" where
  "tuple_get_string mem t i = tuple_value_ptr mem TUPLE_STRING t i"

text \<open>The bytes of a string in memory, up to its 0.\<close>

definition cstring :: "byte arr \<Rightarrow> nat \<Rightarrow> byte list res" where
  "cstring mem p = bindR (strlen (drop p mem)) (arr_load_n mem p)"

text \<open>A \<open>buffer_t\<close> that points into the message: length and address.\<close>

definition tuple_get_binary :: "byte arr \<Rightarrow> tuple_t \<Rightarrow> nat \<Rightarrow> (u32 \<times> nat) res" where
  "tuple_get_binary mem t i =
     bindR (tuple_value_ptr mem TUPLE_BINARY t i) (\<lambda>p.
     bindR (load_u32 mem p) (\<lambda>size. Inr (size, p + 4)))"

definition tuple_get_tuple :: "byte arr \<Rightarrow> tuple_t \<Rightarrow> nat \<Rightarrow> tuple_t res" where
  "tuple_get_tuple mem t i =
     bindR (tuple_element t i) (\<lambda>e.
     bindR (elem_kind mem e) (\<lambda>k.
     bindR (assertR (k = TUPLE_START)) (\<lambda>_.
       case e of Ptr _ \<Rightarrow> Inl Out_of_bounds | Sub s \<Rightarrow> Inr s)))"

definition tuple_set_i32 :: "byte arr \<Rightarrow> tuple_t \<Rightarrow> nat \<Rightarrow> u32 \<Rightarrow> byte arr res" where
  "tuple_set_i32 mem t i v =
     bindR (tuple_value_ptr mem TUPLE_I32 t i) (\<lambda>p. arr_memcpy mem p (u32_bytes (htonl v)))"

definition tuple_set_i64 :: "byte arr \<Rightarrow> tuple_t \<Rightarrow> nat \<Rightarrow> u64 \<Rightarrow> byte arr res" where
  "tuple_set_i64 mem t i v =
     bindR (tuple_value_ptr mem TUPLE_I64 t i) (\<lambda>p. arr_memcpy mem p (u64_bytes (htonll v)))"

definition tuple_set_u32 :: "byte arr \<Rightarrow> tuple_t \<Rightarrow> nat \<Rightarrow> u32 \<Rightarrow> byte arr res" where
  "tuple_set_u32 mem t i v =
     bindR (tuple_value_ptr mem TUPLE_U32 t i) (\<lambda>p. arr_memcpy mem p (u32_bytes (htonl v)))"

definition tuple_set_u64 :: "byte arr \<Rightarrow> tuple_t \<Rightarrow> nat \<Rightarrow> u64 \<Rightarrow> byte arr res" where
  "tuple_set_u64 mem t i v =
     bindR (tuple_value_ptr mem TUPLE_U64 t i) (\<lambda>p. arr_memcpy mem p (u64_bytes (htonll v)))"

definition tuple_set_f32 :: "byte arr \<Rightarrow> tuple_t \<Rightarrow> nat \<Rightarrow> u32 \<Rightarrow> byte arr res" where
  "tuple_set_f32 mem t i v =
     bindR (tuple_value_ptr mem TUPLE_F32 t i) (\<lambda>p. arr_memcpy mem p (u32_bytes v))"

definition tuple_set_f64 :: "byte arr \<Rightarrow> tuple_t \<Rightarrow> nat \<Rightarrow> u64 \<Rightarrow> byte arr res" where
  "tuple_set_f64 mem t i v =
     bindR (tuple_value_ptr mem TUPLE_F64 t i) (\<lambda>p. arr_memcpy mem p (u64_bytes v))"

text \<open>As in the source, \<open>tuple_set_bool\<close> asserts the kind of a float.\<close>

definition tuple_set_bool :: "byte arr \<Rightarrow> tuple_t \<Rightarrow> nat \<Rightarrow> bool \<Rightarrow> byte arr res" where
  "tuple_set_bool mem t i v =
     bindR (tuple_value_ptr mem TUPLE_F32 t i) (\<lambda>p. arr_memcpy mem p [bool_byte v])"

text \<open>
  \<open>tuple_destroy\<close> reads the kind of every element again, so the message must still be there. The
  result is the number of tuples freed.
\<close>

fun tuple_free :: "byte arr \<Rightarrow> tuple_t \<Rightarrow> nat res" where
  "tuple_free mem (Tuple k es s l) =
     foldR (\<lambda>e n.
       case e of
         Ptr p \<Rightarrow> bindR (arr_load mem p) (\<lambda>_. Inr n)
       | Sub t \<Rightarrow> bindR (tuple_free mem t) (\<lambda>m. Inr (n + m))) es 1"

definition tuple_destroy :: "byte arr \<Rightarrow> tuple_t option \<Rightarrow> nat res" where
  "tuple_destroy mem t = bindR (assertR (t \<noteq> None)) (\<lambda>_. bindR (derefR t) (tuple_free mem))"


section \<open>The wire format\<close>

text \<open>
  A value of the format and its encoding. There is no writer for the kind \<open>TUPLE_NULL\<close>, so it has
  no constructor. \<open>write_tval\<close> is the sequence of writer calls that produces a value.
\<close>

datatype tval =
    T_i32 u32
  | T_i64 u64
  | T_u32 u32
  | T_u64 u64
  | T_f32 u32
  | T_f64 u64
  | T_bool bool
  | T_string "byte list"
  | T_binary "byte list"
  | T_tuple "tval list"

fun enc :: "tval \<Rightarrow> byte list" where
  "enc (T_i32 v) = TUPLE_I32 # u32_bytes (htonl v)"
| "enc (T_i64 v) = TUPLE_I64 # u64_bytes (htonll v)"
| "enc (T_u32 v) = TUPLE_U32 # u32_bytes (htonl v)"
| "enc (T_u64 v) = TUPLE_U64 # u64_bytes (htonll v)"
| "enc (T_f32 v) = TUPLE_F32 # u32_bytes v"
| "enc (T_f64 v) = TUPLE_F64 # u64_bytes v"
| "enc (T_bool v) = [TUPLE_BOOL, bool_byte v]"
| "enc (T_string s) = TUPLE_STRING # s @ [0]"
| "enc (T_binary d) = TUPLE_BINARY # u32_bytes (of_nat (length d)) @ d"
| "enc (T_tuple vs) = TUPLE_START # concat (map enc vs) @ [TUPLE_END]"

fun wf_tval :: "tval \<Rightarrow> bool" where
  "wf_tval (T_string s) \<longleftrightarrow> 0 \<notin> set s"
| "wf_tval (T_binary d) \<longleftrightarrow> length d < 2 ^ 32"
| "wf_tval (T_tuple vs) \<longleftrightarrow> (\<forall>v \<in> set vs. wf_tval v)"
| "wf_tval _ \<longleftrightarrow> True"

fun write_tval :: "tval \<Rightarrow> dynamic_buffer_t \<Rightarrow> dynamic_buffer_t res" where
  "write_tval (T_i32 v) b = tuple_write_i32 v b"
| "write_tval (T_i64 v) b = tuple_write_i64 v b"
| "write_tval (T_u32 v) b = tuple_write_u32 v b"
| "write_tval (T_u64 v) b = tuple_write_u64 v b"
| "write_tval (T_f32 v) b = tuple_write_f32 v b"
| "write_tval (T_f64 v) b = tuple_write_f64 v b"
| "write_tval (T_bool v) b = tuple_write_bool v b"
| "write_tval (T_string s) b = tuple_write_string s b"
| "write_tval (T_binary d) b = tuple_write_binary (length d) d b"
| "write_tval (T_tuple vs) b =
     bindR (tuple_write_start b) (\<lambda>b. bindR (foldR write_tval vs b) tuple_write_end)"

subsection \<open>The writers produce the format\<close>

lemma appends_two:
  "writes (\<lambda>b. bindR (dynamic_buffer_putc c b) (dynamic_buffer_write bs (length bs))) (c # bs)"
  using dbuf.appends_bind [OF dbuf.appends_putc dbuf.appends_write [OF refl], of c bs] by simp

lemma take4_u64_bytes: "take 4 (u64_bytes v) = u32_bytes (of_nat (unat v))"
proof -
  have t: "take k (le_bytes n x) = le_bytes k (x mod 256 ^ k)" if "k \<le> n" for k n x
    using that
  proof (induction k arbitrary: n x)
    case (Suc k)
    then obtain m where m: "n = Suc m" "k \<le> m" by (cases n) auto
    have e: "x mod (256 * 256 ^ k) = 256 * (x div 256 mod 256 ^ k) + x mod 256"
      by (simp add: mod_mult2_eq)
    have "(of_nat (x mod (256 * 256 ^ k)) :: byte) = of_nat x"
      by (simp only: word_unat_eq_iff unat_of_nat_byte e) simp
    moreover have "x mod (256 * 256 ^ k) div 256 = x div 256 mod 256 ^ k"
      by (simp add: e)
    ultimately show ?case using Suc.IH [OF m(2)] m by simp
  qed simp
  show ?thesis
    by (simp only: u64_bytes_def u32_bytes_def t unat_of_nat) simp
qed

lemma writes_scalar:
  "writes (tuple_write_i32 a) (enc (T_i32 a))"
  "writes (tuple_write_i64 b) (enc (T_i64 b))"
  "writes (tuple_write_u32 c) (enc (T_u32 c))"
  "writes (tuple_write_u64 d) (enc (T_u64 d))"
  "writes (tuple_write_f32 e) (enc (T_f32 e))"
  "writes (tuple_write_f64 f) (enc (T_f64 f))"
  "writes (tuple_write_bool g) (enc (T_bool g))"
  "writes (tuple_write_string h) (enc (T_string h))"
proof -
  note two = appends_two [of _ "u32_bytes _"] appends_two [of _ "u64_bytes _"]
    appends_two [of _ "[bool_byte _]"] appends_two [of _ "_ @ [0]"]
  note defs = tuple_write_i32_def [abs_def] tuple_write_i64_def [abs_def]
    tuple_write_u32_def [abs_def] tuple_write_u64_def [abs_def] tuple_write_f32_def [abs_def]
    tuple_write_f64_def [abs_def] tuple_write_bool_def [abs_def] tuple_write_string_def [abs_def]
  show "writes (tuple_write_i32 a) (enc (T_i32 a))" "writes (tuple_write_u32 c) (enc (T_u32 c))"
    "writes (tuple_write_f32 e) (enc (T_f32 e))"
    using two(1) by (simp_all add: defs)
  show "writes (tuple_write_i64 b) (enc (T_i64 b))" "writes (tuple_write_u64 d) (enc (T_u64 d))"
    "writes (tuple_write_f64 f) (enc (T_f64 f))"
    using two(2) by (simp_all add: defs)
  show "writes (tuple_write_bool g) (enc (T_bool g))"
    using two(3) by (simp add: defs)
  show "writes (tuple_write_string h) (enc (T_string h))"
    using two(4) by (simp add: defs)
qed

lemma writes_binary:
  assumes "n = length d" "length d < 2 ^ 32"
  shows "writes (tuple_write_binary n d) (enc (T_binary d))"
proof -
  have w4: "writes (dynamic_buffer_write (u64_bytes (of_nat n)) 4) (u32_bytes (of_nat n))"
  proof -
    have "n < 2 ^ 64" using assms by simp
    then have "take 4 (u64_bytes (of_nat n)) = u32_bytes (of_nat n)"
      by (simp add: take4_u64_bytes unat_of_nat)
    moreover have "dynamic_buffer_write (u64_bytes (of_nat n)) 4 =
        dynamic_buffer_write (take 4 (u64_bytes (of_nat n))) 4"
      by (simp add: dynamic_buffer_write_def fun_eq_iff)
    ultimately show ?thesis
      using dbuf.appends_write [of 4 "u32_bytes (of_nat n)"] by simp
  qed
  have "writes (\<lambda>b. bindR (dynamic_buffer_putc TUPLE_BINARY b) (\<lambda>b.
      bindR (dynamic_buffer_write (u64_bytes (of_nat n)) 4 b) (dynamic_buffer_write d n)))
    ([TUPLE_BINARY] @ u32_bytes (of_nat n) @ d)"
    using assms(1) by (intro dbuf.appends_bind dbuf.appends_putc w4 dbuf.appends_write)
  then show ?thesis using assms(1) by (simp add: tuple_write_binary_def [abs_def])
qed

lemma writes_start: "writes tuple_write_start [TUPLE_START]"
  and writes_end: "writes tuple_write_end [TUPLE_END]"
  using dbuf.appends_putc by (simp_all add: tuple_write_start_def [abs_def] tuple_write_end_def [abs_def])

lemma writes_tval: "wf_tval v \<Longrightarrow> writes (write_tval v) (enc v)"
proof (induction v)
  case (T_tuple vs)
  have "writes (\<lambda>b. bindR (tuple_write_start b) (\<lambda>b. bindR (foldR write_tval vs b) tuple_write_end))
    ([TUPLE_START] @ concat (map enc vs) @ [TUPLE_END])"
    using T_tuple by (intro dbuf.appends_bind dbuf.appends_loop writes_start writes_end) auto
  then show ?case by (simp add: appends_def)
qed (use writes_scalar writes_binary in \<open>simp_all add: appends_def\<close>)


subsection \<open>The parser reads the format\<close>

text \<open>What the parser returns for a value that is encoded at offset \<open>p\<close>.\<close>

fun expect :: "nat \<Rightarrow> tval \<Rightarrow> telem" and expects :: "nat \<Rightarrow> tval list \<Rightarrow> telem list" where
  "expect p (T_tuple vs) =
     Sub (Tuple TUPLE_START (expects (p + 1) vs) p (length (enc (T_tuple vs))))"
| "expect p v = Ptr p"
| "expects p [] = []"
| "expects p (v # vs) = expect p v # expects (p + length (enc v)) vs"

abbreviation parsed :: "nat \<Rightarrow> tval list \<Rightarrow> tuple_t" where
  "parsed p vs \<equiv> Tuple TUPLE_START (expects (p + 1) vs) p (length (enc (T_tuple vs)))"

lemma length_expects [simp]: "length (expects p vs) = length vs"
  by (induction vs arbitrary: p) auto

lemma nth_expects:
  "i < length vs \<Longrightarrow> expects p vs ! i = expect (p + length (concat (map enc (take i vs)))) (vs ! i)"
proof (induction vs arbitrary: p i)
  case (Cons v vs)
  then show ?case by (cases i) (auto simp: add.assoc)
qed simp

lemma enc_pos: "Suc 0 \<le> length (enc v)"
  by (cases v) auto

lemma length_enc_list: "length vs \<le> length (concat (map enc vs))"
proof (induction vs)
  case (Cons v vs)
  then show ?case using enc_pos [of v] by simp
qed simp

lemma mem_at_Cons_D: "mem_at mem p (x # xs) \<Longrightarrow> mem_at mem (Suc p) xs"
  using mem_at_Cons [of mem p x xs] by simp

lemma cstring_result: "mem_at mem p (bs @ [0]) \<Longrightarrow> 0 \<notin> set bs \<Longrightarrow> cstring mem p = Inr bs"
  using mem_at_load_n [of mem p bs] by (simp add: cstring_def mem_at_strlen mem_at_append)

lemma mem_at_u32: "mem_at mem p (u32_bytes w @ xs) \<Longrightarrow> load_u32 mem p = Inr w"
  using mem_at_load_n [of mem p "u32_bytes w"] by (simp add: mem_at_append load_u32_def)

lemma mem_at_u64: "mem_at mem p (u64_bytes w @ xs) \<Longrightarrow> load_u64 mem p = Inr w"
  using mem_at_load_n [of mem p "u64_bytes w"] by (simp add: mem_at_append load_u64_def)

lemma skip_scalar_enc:
  assumes "mem_at mem p (enc v)" "wf_tval v" "p + length (enc v) < iter_end"
    "\<And>vs. v \<noteq> T_tuple vs"
  shows "\<exists>k. arr_load mem p = Inr k \<and> skip_scalar mem iter_end k p = Inr (Some (p + length (enc v)))"
proof (cases v)
  case (T_string s)
  have "arr_load mem p = Inr TUPLE_STRING" using assms(1) mem_at_load T_string by simp
  moreover have "strlen (drop (Suc p) mem) = Inr (length s)"
    using mem_at_strlen [of mem "Suc p" s] assms(1,2) T_string mem_at_Cons_D by simp
  ultimately show ?thesis using T_string by (simp add: skip_scalar_def)
next
  case (T_binary d)
  have "arr_load mem p = Inr TUPLE_BINARY" using assms(1) mem_at_load T_binary by simp
  moreover have "load_u32 mem (Suc p) = Inr (of_nat (length d))"
    using mem_at_u32 mem_at_Cons_D assms(1) T_binary by fastforce
  moreover have "unat (of_nat (length d) :: u32) = length d"
    using assms(2) T_binary by (simp add: unat_of_nat)
  ultimately show ?thesis using T_binary assms(3)
    by (simp add: skip_scalar_def del: unat_of_nat)
next
  case (T_tuple vs)
  then show ?thesis using assms(4) by simp
qed (use assms(1) mem_at_load in \<open>auto simp: skip_scalar_def\<close>)

text \<open>Parsing a value takes one round of the loop, given enough fuel for a nested tuple.\<close>

definition parse_one :: "tval \<Rightarrow> bool" where
  "parse_one v \<longleftrightarrow> (\<forall>mem p iter_end start fuel es.
     wf_tval v \<longrightarrow> mem_at mem p (enc v) \<longrightarrow> p + length (enc v) < iter_end \<longrightarrow>
     length (enc v) \<le> fuel \<longrightarrow>
     parse_elements (Suc fuel) mem start iter_end p es =
       parse_elements fuel mem start iter_end (p + length (enc v)) (es @ [expect p v]))"

lemma parse_many:
  assumes "\<And>v. v \<in> set vs \<Longrightarrow> parse_one v" "\<And>v. v \<in> set vs \<Longrightarrow> wf_tval v"
    "mem_at mem p (concat (map enc vs) @ [TUPLE_END])"
    "p + length (concat (map enc vs)) < iter_end"
    "length (concat (map enc vs)) < fuel"
  shows "parse_elements fuel mem start iter_end p es =
    Inr (Some (Tuple TUPLE_START (es @ expects p vs) start
      (p + length (concat (map enc vs)) + 1 - start)))"
  using assms
proof (induction vs arbitrary: p fuel es)
  case Nil
  then obtain f where f: "fuel = Suc f" by (cases fuel) auto
  have "arr_load mem p = Inr TUPLE_END" using Nil.prems(3) mem_at_load by simp
  then show ?case using Nil.prems(4) f
    by (simp add: parse_elements.simps(2) skip_scalar_def)
next
  case (Cons v vs)
  then obtain f where f: "fuel = Suc f" by (cases fuel) auto
  have m: "mem_at mem p (enc v)" "mem_at mem (p + length (enc v)) (concat (map enc vs) @ [TUPLE_END])"
    using Cons.prems(3) by (simp_all add: mem_at_append)
  have "parse_elements fuel mem start iter_end p es =
      parse_elements f mem start iter_end (p + length (enc v)) (es @ [expect p v])"
    using Cons.prems(1) [of v] Cons.prems(2,4,5) m(1) f by (simp add: parse_one_def)
  also have "\<dots> = Inr (Some (Tuple TUPLE_START ((es @ [expect p v]) @ expects (p + length (enc v)) vs) start
      (p + length (enc v) + length (concat (map enc vs)) + 1 - start)))"
    using Cons.prems f m(2) enc_pos [of v] by (intro Cons.IH) auto
  finally show ?case by (simp add: add.assoc)
qed

lemma tuple_parse_from_elements:
  assumes "\<And>v. v \<in> set vs \<Longrightarrow> parse_one v" "wf_tval (T_tuple vs)"
    "mem_at mem p (enc (T_tuple vs))" "length (enc (T_tuple vs)) \<le> len"
    "length (enc (T_tuple vs)) \<le> fuel"
  shows "tuple_parse fuel mem (Some p) len = Inr (Some (parsed p vs))"
proof -
  obtain f where f: "fuel = Suc f" using assms(5) by (cases fuel) auto
  have "arr_load mem p = Inr TUPLE_START" using assms(3) mem_at_load by simp
  moreover have "mem_at mem (p + 1) (concat (map enc vs) @ [TUPLE_END])"
    using mem_at_Cons_D [of mem p TUPLE_START] assms(3) by simp
  ultimately show ?thesis
    using assms f parse_many [of vs mem "p + 1" "p + len" f p "[]"]
    by (simp add: tuple_parse.simps(2))
qed

lemma parse_one_all: "parse_one v"
proof (induction v)
  case (T_tuple vs)
  show ?case unfolding parse_one_def
  proof (intro allI impI)
    fix mem p iter_end start fuel es
    assume a: "wf_tval (T_tuple vs)" "mem_at mem p (enc (T_tuple vs))"
      "p + length (enc (T_tuple vs)) < iter_end" "length (enc (T_tuple vs)) \<le> fuel"
    have "arr_load mem p = Inr TUPLE_START" using a(2) mem_at_load by simp
    moreover have "tuple_parse fuel mem (Some p) (iter_end - p) = Inr (Some (parsed p vs))"
      using a T_tuple.IH by (intro tuple_parse_from_elements) auto
    moreover have "skip_scalar mem iter_end TUPLE_START p = Inr None" by (simp add: skip_scalar_def)
    ultimately show "parse_elements (Suc fuel) mem start iter_end p es =
       parse_elements fuel mem start iter_end (p + length (enc (T_tuple vs))) (es @ [expect p (T_tuple vs)])"
      using a(3) by (simp add: parse_elements.simps(2))
  qed
qed (use skip_scalar_enc in \<open>fastforce simp: parse_one_def parse_elements.simps(2) simp del: enc.simps\<close>)+

lemma tuple_parse_enc:
  assumes "wf_tval (T_tuple vs)" "mem_at mem p (enc (T_tuple vs))"
    "length (enc (T_tuple vs)) \<le> len" "length (enc (T_tuple vs)) \<le> fuel"
  shows "tuple_parse fuel mem (Some p) len = Inr (Some (parsed p vs))"
  by (rule tuple_parse_from_elements [OF parse_one_all assms])


subsection \<open>The accessors read the values\<close>

text \<open>
  Element \<open>i\<close> of a parsed tuple holds the value: the accessor of the value's kind returns it.
\<close>

lemma size_nth_list [termination_simp]: "i < length xs \<Longrightarrow> f (xs ! i) < Suc (size_list f xs)"
  using size_list_estimation' [of "xs ! i" xs "f (xs ! i)" f] by simp

fun reads :: "byte arr \<Rightarrow> tuple_t \<Rightarrow> nat \<Rightarrow> tval \<Rightarrow> bool" where
  "reads mem t i (T_i32 v) \<longleftrightarrow> tuple_get_i32 mem t i = Inr v"
| "reads mem t i (T_i64 v) \<longleftrightarrow> tuple_get_i64 mem t i = Inr v"
| "reads mem t i (T_u32 v) \<longleftrightarrow> tuple_get_u32 mem t i = Inr v"
| "reads mem t i (T_u64 v) \<longleftrightarrow> tuple_get_u64 mem t i = Inr v"
| "reads mem t i (T_f32 v) \<longleftrightarrow> tuple_get_f32 mem t i = Inr v"
| "reads mem t i (T_f64 v) \<longleftrightarrow> tuple_get_f64 mem t i = Inr v"
| "reads mem t i (T_bool v) \<longleftrightarrow> tuple_get_boolean mem t i = Inr (bool_byte v)"
| "reads mem t i (T_string s) \<longleftrightarrow> (\<exists>p. tuple_get_string mem t i = Inr p \<and> mem_at mem p (s @ [0]))"
| "reads mem t i (T_binary d) \<longleftrightarrow>
     (\<exists>p. tuple_get_binary mem t i = Inr (of_nat (length d), p) \<and> mem_at mem p d)"
| "reads mem t i (T_tuple us) \<longleftrightarrow>
     (\<exists>s. tuple_get_tuple mem t i = Inr s \<and> tuple_size s = length us \<and>
        (\<forall>j < length us. reads mem s j (us ! j)))"

lemma tuple_element_parsed:
  "i < length vs \<Longrightarrow> tuple_element (parsed p vs) i = Inr (expects (p + 1) vs ! i)"
  by (simp add: tuple_element_def)

lemma mem_at_nth_enc:
  assumes "mem_at mem p (enc (T_tuple vs))" "i < length vs"
  shows "mem_at mem (p + 1 + length (concat (map enc (take i vs)))) (enc (vs ! i))"
proof -
  have "concat (map enc vs) = concat (map enc (take i vs)) @ enc (vs ! i) @ concat (map enc (drop (Suc i) vs))"
    using id_take_nth_drop [OF assms(2)] by (metis concat.simps(2) concat_append list.simps(9) map_append)
  moreover have "mem_at mem (p + 1) (concat (map enc vs) @ [TUPLE_END])"
    using mem_at_Cons_D [of mem p TUPLE_START] assms(1) by simp
  ultimately show ?thesis by (simp add: mem_at_append)
qed

lemma value_ptr_scalar:
  assumes "tuple_element t i = Inr (Ptr p)" "mem_at mem p (kind # bs)"
  shows "tuple_value_ptr mem kind t i = Inr (p + 1)" "mem_at mem (p + 1) bs"
  using assms mem_at_load mem_at_Cons_D [OF assms(2)]
  by (auto simp: tuple_value_ptr_def elem_kind_def)

lemma reads_value:
  assumes "mem_at mem p (enc v)" "wf_tval v" "tuple_element t i = Inr (expect p v)"
  shows "reads mem t i v"
  using assms
proof (induction v arbitrary: p t i)
  case (T_tuple us)
  let ?s = "parsed p us"
  have "tuple_get_tuple mem t i = Inr ?s"
    using T_tuple.prems(3) by (simp add: tuple_get_tuple_def elem_kind_def)
  moreover have "reads mem ?s j (us ! j)" if "j < length us" for j
    using that T_tuple.prems mem_at_nth_enc [OF T_tuple.prems(1) that] tuple_element_parsed [OF that, of p]
    by (intro T_tuple.IH [of _ "p + 1 + length (concat (map enc (take j us)))"])
      (simp_all add: nth_expects)
  ultimately show ?case by (auto simp: tuple_size_def)
next
  case (T_string s)
  then show ?case using value_ptr_scalar [of t i p mem TUPLE_STRING "s @ [0]"]
    by (auto simp: tuple_get_string_def)
next
  case (T_binary d)
  let ?w = "of_nat (length d) :: u32"
  note V = value_ptr_scalar [of t i p mem TUPLE_BINARY "u32_bytes ?w @ d"]
  have "load_u32 mem (p + 1) = Inr ?w" "mem_at mem (p + 1 + 4) d"
    using V T_binary mem_at_u32 [of mem "p + 1" ?w d] by (simp_all add: mem_at_append)
  then show ?case using V T_binary by (auto simp: tuple_get_binary_def)
next
  case (T_bool b)
  then show ?case
    using value_ptr_scalar [of t i p mem TUPLE_BOOL "[bool_byte b]"] mem_at_load [of mem "p + 1"]
    by (simp add: tuple_get_boolean_def)
qed (use value_ptr_scalar mem_at_u32 [of _ _ _ "[]"] mem_at_u64 [of _ _ _ "[]"] in
    \<open>fastforce simp: tuple_get_i32_def tuple_get_i64_def tuple_get_u32_def tuple_get_u64_def
      tuple_get_f32_def tuple_get_f64_def\<close>)+

lemma reads_parsed:
  assumes "mem_at mem p (enc (T_tuple vs))" "wf_tval (T_tuple vs)" "i < length vs"
  shows "reads mem (parsed p vs) i (vs ! i)"
  using assms mem_at_nth_enc [OF assms(1,3)] tuple_element_parsed [OF assms(3), of p]
  by (intro reads_value [of _ "p + 1 + length (concat (map enc (take i vs)))"])
    (simp_all add: nth_expects)

section \<open>Elements lie within the message\<close>

text \<open>
  What a successful parse says about an element: a pointer is the start of a scalar whose payload
  ends in the tuple, a sub-tuple lies within the tuple.
\<close>

fun elem_in :: "byte arr \<Rightarrow> nat \<Rightarrow> nat \<Rightarrow> telem \<Rightarrow> bool" where
  "elem_in mem lo hi (Ptr p) \<longleftrightarrow> lo \<le> p \<and>
     (\<exists>k iter_end p'. arr_load mem p = Inr k \<and> skip_scalar mem iter_end k p = Inr (Some p') \<and> p' \<le> hi)"
| "elem_in mem lo hi (Sub (Tuple k es s l)) \<longleftrightarrow>
     k = TUPLE_START \<and> lo \<le> s \<and> s + l \<le> hi \<and> 2 \<le> l \<and> (\<forall>e \<in> set es. elem_in mem s (s + l) e)"

lemma elem_in_mono: "elem_in mem lo hi e \<Longrightarrow> lo' \<le> lo \<Longrightarrow> hi \<le> hi' \<Longrightarrow> elem_in mem lo' hi' e"
  by (cases "(mem, lo, hi, e)" rule: elem_in.cases) (auto, force)

lemma elem_in_append:
  "\<forall>e \<in> set es. elem_in mem lo hi e \<Longrightarrow> elem_in mem lo hi' e' \<Longrightarrow> hi \<le> hi' \<Longrightarrow>
     \<forall>e \<in> set (es @ [e']). elem_in mem lo hi' e"
  using elem_in_mono by auto

lemma skip_scalar_forward: "skip_scalar mem iter_end k p = Inr (Some p') \<Longrightarrow> p < p'"
  by (auto simp: skip_scalar_def res_simps split: if_splits)

lemma parse_in:
  "tuple_parse fuel mem data len = Inr (Some t) \<Longrightarrow>
     \<exists>p. data = Some p \<and> t_start t = p \<and> elem_in mem p (p + t_length t) (Sub t) \<and> t_length t \<le> len"
  "parse_elements fuel mem start iter_end iter es = Inr (Some t) \<Longrightarrow> start < iter \<Longrightarrow>
     \<forall>e \<in> set es. elem_in mem start iter e \<Longrightarrow>
     t_start t = start \<and> elem_in mem start (start + t_length t) (Sub t) \<and>
     iter < start + t_length t \<and> start + t_length t \<le> iter_end"
proof (induction fuel mem data len and fuel mem start iter_end iter es arbitrary: t and t
    rule: tuple_parse_parse_elements.induct)
  case (2 fuel mem data len)
  obtain p where p: "data = Some p" using "2.prems" by (cases data) (auto simp: tuple_parse.simps(2))
  have len: "\<not> len < 2" using "2.prems" p by (auto simp: tuple_parse.simps(2))
  obtain kind where kind: "arr_load mem p = Inr kind" "\<not> kind \<noteq> TUPLE_START"
      "parse_elements fuel mem p (p + len) (p + 1) [] = Inr (Some t)"
    using "2.prems" p len by (auto simp: tuple_parse.simps(2) res_simps split: if_splits)
  from "2.IH" [OF p len kind(1,2,3)] p show ?case by auto
next
  case (4 fuel mem start iter_end iter es)
  have lt: "iter < iter_end" using "4.prems"(1) by (auto simp: parse_elements.simps(2) split: if_splits)
  obtain kind r where kind: "arr_load mem iter = Inr kind"
      "skip_scalar mem iter_end kind iter = Inr r"
    using "4.prems"(1) lt by (auto simp: parse_elements.simps(2) res_simps)
  show ?case
  proof (cases r)
    case (Some iter')
    have "elem_in mem start iter' (Ptr iter)" using kind Some "4.prems"(2) by auto
    moreover have "iter < iter'" using kind(2) Some skip_scalar_forward by blast
    ultimately have "\<forall>e \<in> set (es @ [Ptr iter]). elem_in mem start iter' e"
      using elem_in_append [OF "4.prems"(3)] by (meson less_imp_le)
    moreover have "parse_elements fuel mem start iter_end iter' (es @ [Ptr iter]) = Inr (Some t)"
      using "4.prems"(1) lt kind Some by (simp add: parse_elements.simps(2))
    ultimately show ?thesis
      using "4.IH"(4) [OF lt kind Some, of t] \<open>iter < iter'\<close> "4.prems"(2) by auto
  next
    case None
    note none = None
    consider (sub) "kind = TUPLE_START" | (close) "kind = TUPLE_END" | (other) "kind \<noteq> TUPLE_START" "kind \<noteq> TUPLE_END"
      by blast
    then show ?thesis
    proof cases
      case sub
      then obtain u where u: "tuple_parse fuel mem (Some iter) (iter_end - iter) = Inr (Some u)"
          "parse_elements fuel mem start iter_end (iter + t_length u) (es @ [Sub u]) = Inr (Some t)"
        using "4.prems"(1) lt kind None
        by (auto simp: parse_elements.simps(2) res_simps split: option.splits)
      have "elem_in mem iter (iter + t_length u) (Sub u)"
        using "4.IH"(1) [OF lt kind None sub u(1)] by auto
      then have i: "elem_in mem start (iter + t_length u) (Sub u)" and p: "2 \<le> t_length u"
        using "4.prems"(2) by (auto intro: elem_in_mono) (cases u, auto)
      have "\<forall>e \<in> set (es @ [Sub u]). elem_in mem start (iter + t_length u) e"
        by (rule elem_in_append [OF "4.prems"(3) i]) simp
      then show ?thesis
        using "4.IH"(2) [OF lt kind None sub u(1) _ u(2)] p "4.prems"(2) by auto
    next
      case close
      then have "t = Tuple TUPLE_START es start (iter + 1 - start)"
        using "4.prems"(1) lt kind None by (simp add: parse_elements.simps(2))
      then show ?thesis using "4.prems"(2,3) lt elem_in_mono by fastforce
    next
      case other
      then have "parse_elements fuel mem start iter_end iter es = Inr (Some t)"
        using "4.prems"(1) lt kind None by (simp add: parse_elements.simps(2))
      then show ?thesis using "4.IH"(3) [OF lt kind None other] "4.prems"(2,3) by blast
    qed
  qed
qed simp_all


section \<open>Termination of the parser\<close>

text \<open>
  Every round of the loop moves forward, except one on an unknown kind. So a run that needs more
  than about two rounds per byte has met an unknown kind, and never returns.
\<close>

abbreviation returns :: "'a res \<Rightarrow> bool" where
  "returns r \<equiv> r \<noteq> Inl Out_of_fuel"

lemma mapR_returns: "(\<And>x. x \<in> set xs \<Longrightarrow> returns (f x)) \<Longrightarrow> returns (mapR f xs)"
  by (induction xs) (auto simp: bindR_eq_Inl)

lemma arr_load_returns: "returns (arr_load a i)"
  by (auto simp: arr_load_def split: option.splits)

lemma load_u32_returns: "returns (load_u32 mem p)"
  using mapR_returns [of "[p..<p + 4]" "arr_load mem"] arr_load_returns [of mem]
  by (auto simp: load_u32_def arr_load_n_def bindR_eq_Inl)

lemma strlen_returns: "returns (strlen cs)"
  by (induction cs rule: strlen.induct) (auto simp: bindR_eq_Inl)

lemma skip_scalar_returns: "returns (skip_scalar mem iter_end k p)"
  using strlen_returns [of "drop (p + 1) mem"] load_u32_returns [of mem "p + 1"]
  by (auto simp: skip_scalar_def bindR_eq_Inl assertR_def)

lemma bindR_more_fuel:
  "returns (bindR m f) \<Longrightarrow> (returns m \<Longrightarrow> m' = m) \<Longrightarrow>
     (\<And>x. m = Inr x \<Longrightarrow> returns (f x) \<Longrightarrow> f' x = f x) \<Longrightarrow> bindR m' f' = bindR m f"
  by (cases m) auto

lemma parse_more_fuel:
  "returns (tuple_parse fuel mem data len) \<Longrightarrow> fuel \<le> fuel' \<Longrightarrow>
     tuple_parse fuel' mem data len = tuple_parse fuel mem data len"
  "returns (parse_elements fuel mem start iter_end iter es) \<Longrightarrow> fuel \<le> fuel' \<Longrightarrow>
     parse_elements fuel' mem start iter_end iter es = parse_elements fuel mem start iter_end iter es"
proof (induction fuel mem data len and fuel mem start iter_end iter es arbitrary: fuel' and fuel'
    rule: tuple_parse_parse_elements.induct)
  case (2 fuel mem data len)
  obtain f where f: "fuel' = Suc f" "fuel \<le> f" using "2.prems"(2) by (cases fuel') auto
  show ?case
  proof (cases "\<exists>p. data = Some p \<and> \<not> len < 2 \<and> arr_load mem p = Inr TUPLE_START")
    case True
    then obtain p where p: "data = Some p" "\<not> len < 2" "arr_load mem p = Inr TUPLE_START" by blast
    have "returns (parse_elements fuel mem p (p + len) (p + 1) [])"
      using "2.prems"(1) p by (simp add: tuple_parse.simps(2))
    from "2.IH" [OF p _ this f(2)] show ?thesis using p f by (simp add: tuple_parse.simps(2))
  next
    case False
    then show ?thesis
    proof (cases data)
      case (Some p)
      with False show ?thesis
        by (cases "arr_load mem p") (auto simp: f(1) tuple_parse.simps(2))
    qed (simp add: f(1) tuple_parse.simps(2))
  qed
next
  case (4 fuel mem start iter_end iter es)
  obtain f where f: "fuel' = Suc f" "fuel \<le> f" using "4.prems"(2) by (cases fuel') auto
  let ?L = "arr_load mem iter" and ?S = "\<lambda>k. skip_scalar mem iter_end k iter"
  let ?P = "\<lambda>fuel. parse_elements (Suc fuel) mem start iter_end iter es"
  consider (stop) "\<not> iter < iter_end \<or> (\<exists>e. ?L = Inl e) \<or> (\<exists>k e. ?L = Inr k \<and> ?S k = Inl e)"
    | (go) k r where "iter < iter_end" "?L = Inr k" "?S k = Inr r"
    by (cases ?L) (blast, metis sum.exhaust)
  then have "?P f = ?P fuel"
  proof cases
    case stop
    then show ?thesis by (auto simp: parse_elements.simps(2))
  next
    case go
    show ?thesis
    proof (cases r)
      case (Some iter')
      then show ?thesis
        using "4.IH"(4) [OF go Some _ f(2)] "4.prems"(1) go by (simp add: parse_elements.simps(2))
    next
      case None
      note pre = go None
      consider (sub) "k = TUPLE_START" | (close) "k = TUPLE_END"
        | (other) "k \<noteq> TUPLE_START" "k \<noteq> TUPLE_END" by blast
      then show ?thesis
      proof cases
        case sub
        let ?T = "tuple_parse fuel mem (Some iter) (iter_end - iter)"
        have T: "returns ?T" using "4.prems"(1) pre sub by (auto simp: parse_elements.simps(2))
        note same = "4.IH"(1) [OF pre sub T f(2)]
        show ?thesis
        proof (cases "\<exists>t. ?T = Inr (Some t)")
          case True
          then obtain t where t: "?T = Inr (Some t)" by blast
          have "returns (parse_elements fuel mem start iter_end (iter + t_length t) (es @ [Sub t]))"
            using "4.prems"(1) pre sub t by (simp add: parse_elements.simps(2))
          from "4.IH"(2) [OF pre sub t refl this f(2)] show ?thesis
            using pre sub t same by (simp add: parse_elements.simps(2))
        next
          case False
          then show ?thesis
            using pre sub same by (cases ?T) (auto simp: parse_elements.simps(2) split: option.splits)
        qed
      next
        case close
        then show ?thesis using pre by (simp add: parse_elements.simps(2))
      next
        case other
        have "returns (parse_elements fuel mem start iter_end iter es)"
          using "4.prems"(1) pre other by (simp add: parse_elements.simps(2))
        from "4.IH"(3) [OF pre other this f(2)] show ?thesis
          using pre other by (simp add: parse_elements.simps(2))
      qed
    qed
  qed
  then show ?case by (simp only: f(1))
qed simp_all


text \<open>The loop either returns within the bound or for no fuel at all.\<close>

definition decided :: "nat \<Rightarrow> (nat \<Rightarrow> 'a res) \<Rightarrow> bool" where
  "decided n run \<longleftrightarrow> (\<forall>fuel. \<not> returns (run fuel)) \<or> (\<forall>fuel \<ge> n. returns (run fuel))"

lemma decidedI_at: "returns (run n) \<Longrightarrow> (\<And>f f'. returns (run f) \<Longrightarrow> f \<le> f' \<Longrightarrow> run f' = run f) \<Longrightarrow> decided n run"
  unfolding decided_def by metis

lemma decided_0: "\<not> returns (run 0) \<Longrightarrow> (\<And>f. run (Suc f) = run' f) \<Longrightarrow> decided n run' \<Longrightarrow> decided (Suc n) run"
  unfolding decided_def by (metis Suc_le_D Suc_le_mono old.nat.exhaust)

lemma decided_mono: "decided n run \<Longrightarrow> n \<le> n' \<Longrightarrow> decided n' run"
  unfolding decided_def by (meson le_trans)

lemma decided_bind:
  assumes m: "decided n m" and more: "\<And>f f'. returns (m f) \<Longrightarrow> f \<le> f' \<Longrightarrow> m f' = m f"
    and k: "\<And>f x. m f = Inr x \<Longrightarrow> decided n (k x)"
  shows "decided n (\<lambda>fuel. bindR (m fuel) (\<lambda>x. k x fuel))"
proof (cases "\<exists>f x. m f = Inr x")
  case False
  then have "bindR (m f) (\<lambda>x. k x f) = Inl (projl (m f)) \<and> m f = Inl (projl (m f))" for f
    by (cases "m f") auto
  then show ?thesis using m unfolding decided_def by (metis sum.inject(1))
next
  case True
  then obtain f x where x: "m f = Inr x" by blast
  have n: "m f' = Inr x" if "n \<le> f'" for f'
    using m more [of f "max f f'"] more [of f' "max f f'"] x that unfolding decided_def
    by (metis Inl_Inr_False max.cobounded1 max.cobounded2)
  have small: "m f' = Inr x \<or> \<not> returns (m f')" for f'
    using more [of f "max f f'"] more [of f' "max f f'"] x by (metis Inl_Inr_False max.cobounded1 max.cobounded2)
  show ?thesis
  proof (cases "\<forall>f. \<not> returns (k x f)")
    case True
    then show ?thesis unfolding decided_def using small by (metis bindR_simps)
  next
    case False
    then show ?thesis using k [OF x] n unfolding decided_def by auto
  qed
qed

lemma unknown_kind_diverges:
  assumes "iter < iter_end" "arr_load mem iter = Inr k" "skip_scalar mem iter_end k iter = Inr None"
    "k \<noteq> TUPLE_START" "k \<noteq> TUPLE_END"
  shows "\<not> returns (parse_elements fuel mem start iter_end iter es)"
  using assms by (induction fuel) (simp_all add: parse_elements.simps(2))

lemma tuple_parse_decided:
  assumes "\<And>start es. decided (2 * (len - 1) + 1) (\<lambda>fuel. parse_elements fuel mem start (p + len) (p + 1) es)"
  shows "decided (2 * (len - 1) + 2) (\<lambda>fuel. tuple_parse fuel mem (Some p) len)"
proof (cases "\<not> len < 2 \<and> arr_load mem p = Inr TUPLE_START")
  case True
  then show ?thesis
    using decided_0 [OF _ _ assms, of "\<lambda>fuel. tuple_parse fuel mem (Some p) len" p "[]"]
    by (simp add: tuple_parse.simps(2))
next
  case False
  have "returns (tuple_parse (2 * (len - 1) + 2) mem (Some p) len)"
    using False arr_load_returns [of mem p]
    by (cases "arr_load mem p") (auto simp: tuple_parse.simps(2))
  then show ?thesis by (rule decidedI_at) (rule parse_more_fuel(1))
qed

lemma parse_elements_decided:
  "decided (2 * (iter_end - iter) + 1) (\<lambda>fuel. parse_elements fuel mem start iter_end iter es)"
proof (induction "iter_end - iter" arbitrary: iter start es rule: less_induct)
  case less
  let ?run = "\<lambda>fuel. parse_elements fuel mem start iter_end iter es"
  let ?n = "iter_end - iter"
  have stop: "decided (2 * ?n + 1) ?run" if "returns (?run (Suc 0))"
  proof (rule decidedI_at)
    show "returns (?run (2 * ?n + 1))" using parse_more_fuel(2) [OF that, of "2 * ?n + 1"] that by simp
  qed (rule parse_more_fuel(2))
  have IH: "decided (2 * ?n) (\<lambda>fuel. parse_elements fuel mem start iter_end iter' es')"
    if "iter < iter'" "iter < iter_end" for iter' es' start
    using that by (intro decided_mono [OF less.hyps]) auto
  show ?case
  proof (cases "\<exists>k r. iter < iter_end \<and> arr_load mem iter = Inr k \<and> skip_scalar mem iter_end k iter = Inr r")
    case False
    then have "returns (?run (Suc 0))"
      using arr_load_returns [of mem iter] skip_scalar_returns [of mem iter_end _ iter]
      by (cases "arr_load mem iter"; cases "skip_scalar mem iter_end (projr (arr_load mem iter)) iter")
        (auto simp: parse_elements.simps(2))
    then show ?thesis by (rule stop)
  next
    case True
    then obtain k r where go: "iter < iter_end" "arr_load mem iter = Inr k"
      "skip_scalar mem iter_end k iter = Inr r" by blast
    note simps = parse_elements.simps(2) go
    show ?thesis
    proof (cases r)
      case (Some iter')
      then have "iter < iter'" using go(3) skip_scalar_forward by blast
      from decided_0 [of ?run, OF _ _ IH [OF this go(1)]] show ?thesis
        using Some by (simp add: simps)
    next
      case None
      consider (sub) "k = TUPLE_START" | (close) "k = TUPLE_END"
        | (other) "k \<noteq> TUPLE_START" "k \<noteq> TUPLE_END" by blast
      then show ?thesis
      proof cases
        case other
        then show ?thesis
          using unknown_kind_diverges [OF go(1,2) _ other] go(3) None by (simp add: decided_def)
      next
        case close
        then show ?thesis using None go by (intro stop) (simp add: parse_elements.simps(2))
      next
        case sub
        let ?T = "\<lambda>fuel. tuple_parse fuel mem (Some iter) ?n"
        have "decided (2 * (?n - 1) + 1) (\<lambda>fuel. parse_elements fuel mem start' (iter + ?n) (iter + 1) es')"
          for start' es'
          using less.hyps [of "iter + 1" start' es'] go(1) by simp
        from tuple_parse_decided [OF this] have T: "decided (2 * ?n) ?T"
          using go(1) by (simp add: decided_mono)
        have run: "?run (Suc f) = bindR (?T f) (\<lambda>sub. case sub of None \<Rightarrow> Inr None
            | Some t \<Rightarrow> parse_elements f mem start iter_end (iter + t_length t) (es @ [Sub t]))" for f
          using go None sub by (simp add: parse_elements.simps(2))
        have rest: "decided (2 * ?n)
            (\<lambda>fuel. parse_elements fuel mem start iter_end (iter + t_length t) (es @ [Sub t]))"
          if "?T f = Inr (Some t)" for f t
          using parse_in(1) [OF that] go(1) by (intro IH) (cases t, auto)+
        have "decided (2 * ?n) (\<lambda>fuel. bindR (?T fuel) (\<lambda>sub. case sub of None \<Rightarrow> Inr None
            | Some t \<Rightarrow> parse_elements fuel mem start iter_end (iter + t_length t) (es @ [Sub t])))"
          by (rule decided_bind [OF T parse_more_fuel(1)]) (use rest in \<open>auto split: option.splits simp: decided_def\<close>)
        from decided_0 [of ?run, OF _ run this] show ?thesis by simp
      qed
    qed
  qed
qed


section \<open>Safety of the accessors\<close>

definition readable :: "byte arr \<Rightarrow> nat \<Rightarrow> nat \<Rightarrow> bool" where
  "readable mem p n \<longleftrightarrow> p + n \<le> length mem \<and> (\<forall>i < n. mem ! (p + i) \<noteq> None)"

lemma readable_load:
  assumes "readable mem p n" "p \<le> q" "q < p + n"
  shows "\<exists>x. arr_load mem q = Inr x"
proof -
  from assms obtain i where "q = p + i" "i < n" using le_Suc_ex by force
  then show ?thesis using assms(1) by (auto simp: readable_def arr_load_def)
qed

lemma readable_whole: "readable (map Some bs) 0 (length bs)"
  by (simp add: readable_def)

lemma mapR_total: "(\<And>x. x \<in> set xs \<Longrightarrow> \<exists>y. f x = Inr y) \<Longrightarrow> \<exists>ys. mapR f xs = Inr ys"
proof (induction xs)
  case (Cons x xs)
  then obtain y ys where "f x = Inr y" "mapR f xs = Inr ys" by fastforce
  then show ?case by simp
qed simp

lemma readable_load_n:
  assumes "readable mem p n" "p \<le> q" "q + k \<le> p + n"
  shows "\<exists>xs. arr_load_n mem q k = Inr xs"
  unfolding arr_load_n_def by (rule mapR_total) (use readable_load [OF assms(1)] assms in auto)

inductive_set subtuples :: "tuple_t \<Rightarrow> tuple_t set" for t where
  self: "t \<in> subtuples t"
| inner: "s \<in> subtuples t \<Longrightarrow> Sub u \<in> set (t_elements s) \<Longrightarrow> u \<in> subtuples t"

lemma elem_in_Sub:
  "elem_in mem lo hi (Sub s) \<Longrightarrow> lo \<le> t_start s \<and> t_start s + t_length s \<le> hi \<and>
     (\<forall>e \<in> set (t_elements s). elem_in mem (t_start s) (t_start s + t_length s) e)"
  by (cases s) simp

lemma elem_in_element:
  "elem_in mem lo hi (Sub s) \<Longrightarrow> e \<in> set (t_elements s) \<Longrightarrow> elem_in mem lo hi e"
  using elem_in_Sub elem_in_mono by blast

lemma subtuple_in:
  "s \<in> subtuples t \<Longrightarrow> elem_in mem lo hi (Sub t) \<Longrightarrow> elem_in mem lo hi (Sub s)"
  by (induction rule: subtuples.induct) (use elem_in_element in blast)+

text \<open>What the caller of an accessor may do with an element of kind \<open>k\<close>.\<close>

definition accessible :: "byte arr \<Rightarrow> nat \<Rightarrow> tuple_t \<Rightarrow> nat \<Rightarrow> byte \<Rightarrow> bool" where
  "accessible mem hi t i k \<longleftrightarrow>
     (if k = TUPLE_NULL then True
      else if k = TUPLE_I32 then \<exists>v. tuple_get_i32 mem t i = Inr v
      else if k = TUPLE_I64 then \<exists>v. tuple_get_i64 mem t i = Inr v
      else if k = TUPLE_U32 then \<exists>v. tuple_get_u32 mem t i = Inr v
      else if k = TUPLE_U64 then \<exists>v. tuple_get_u64 mem t i = Inr v
      else if k = TUPLE_F32 then \<exists>v. tuple_get_f32 mem t i = Inr v
      else if k = TUPLE_F64 then \<exists>v. tuple_get_f64 mem t i = Inr v
      else if k = TUPLE_BOOL then \<exists>v. tuple_get_boolean mem t i = Inr v
      else if k = TUPLE_STRING then
        \<exists>q n. tuple_get_string mem t i = Inr q \<and> strlen (drop q mem) = Inr n \<and> q + n < hi
      else if k = TUPLE_BINARY then
        \<exists>n q d. tuple_get_binary mem t i = Inr (n, q) \<and> q + unat n \<le> hi \<and>
          arr_load_n mem q (unat n) = Inr d
      else k = TUPLE_START \<and> (\<exists>s. tuple_get_tuple mem t i = Inr s \<and> Sub s \<in> set (t_elements t)))"

lemma accessible_scalar:
  assumes "readable mem p n" "p \<le> q" "arr_load mem q = Inr k"
    "skip_scalar mem iter_end k q = Inr (Some q')" "q' \<le> p + n"
    "tuple_element t i = Inr (Ptr q)"
  shows "accessible mem (p + n) t i k"
proof -
  have ptr: "tuple_value_ptr mem k t i = Inr (q + 1)"
    using assms(3,6) by (simp add: tuple_value_ptr_def elem_kind_def)
  have u32: "\<exists>v. load_u32 mem (q + 1) = Inr v" if "q + 5 \<le> p + n"
    using readable_load_n [OF assms(1), of "q + 1" 4] assms(2) that by (auto simp: load_u32_def)
  have u64: "\<exists>v. load_u64 mem (q + 1) = Inr v" if "q + 9 \<le> p + n"
    using readable_load_n [OF assms(1), of "q + 1" 8] assms(2) that by (auto simp: load_u64_def)
  note gets = tuple_get_i32_def tuple_get_i64_def tuple_get_u32_def tuple_get_u64_def
    tuple_get_f32_def tuple_get_f64_def tuple_get_boolean_def tuple_get_string_def tuple_get_binary_def
  consider (w32) "k = TUPLE_I32 \<or> k = TUPLE_U32 \<or> k = TUPLE_F32"
    | (w64) "k = TUPLE_I64 \<or> k = TUPLE_U64 \<or> k = TUPLE_F64"
    | (null) "k = TUPLE_NULL" | (bool) "k = TUPLE_BOOL" | (str) "k = TUPLE_STRING" | (bin) "k = TUPLE_BINARY"
    using assms(4) unfolding skip_scalar_def by (metis Inr_inject option.distinct(1))
  then show ?thesis
  proof cases
    case w32
    then have "q + 5 \<le> p + n" using assms(4,5) by (elim disjE) (simp_all add: skip_scalar_def)
    from u32 [OF this] obtain v where "load_u32 mem (Suc q) = Inr v" by auto
    with w32 ptr show ?thesis by (elim disjE) (simp_all add: accessible_def gets)
  next
    case w64
    then have "q + 9 \<le> p + n" using assms(4,5) by (elim disjE) (simp_all add: skip_scalar_def)
    from u64 [OF this] obtain v where "load_u64 mem (Suc q) = Inr v" by auto
    with w64 ptr show ?thesis by (elim disjE) (simp_all add: accessible_def gets)
  next
    case null
    then show ?thesis by (simp add: accessible_def)
  next
    case bool
    then have "q + 2 \<le> p + n" using assms(4,5) by (auto simp: skip_scalar_def)
    with bool ptr readable_load [OF assms(1), of "q + 1"] assms(2) show ?thesis
      by (auto simp: accessible_def gets)
  next
    case str
    with assms(4) obtain m where "strlen (drop (q + 1) mem) = Inr m" "q' = q + 1 + m + 1"
      by (auto simp: skip_scalar_def res_simps)
    with str ptr assms(5) show ?thesis by (auto simp: accessible_def gets)
  next
    case bin
    with assms(4) obtain m where m: "load_u32 mem (q + 1) = Inr m" "q' = q + 1 + 4 + unat m"
      by (auto simp: skip_scalar_def res_simps)
    obtain d where "arr_load_n mem (q + 1 + 4) (unat m) = Inr d"
      using readable_load_n [OF assms(1), of "q + 1 + 4" "unat m"] assms(2,5) m(2) by auto
    with bin ptr m assms(5) show ?thesis by (auto simp: accessible_def gets)
  qed
qed

lemma tuple_get_tuple_sub:
  assumes "tuple_get_tuple mem t i = Inr u"
  shows "Sub u \<in> set (t_elements t)"
proof -
  have "i < length (t_elements t)" "t_elements t ! i = Sub u"
    using assms by (auto simp: tuple_get_tuple_def tuple_element_def res_simps split: telem.splits)
  then show ?thesis by (metis nth_mem)
qed

lemma elem_in_accessible:
  assumes "readable mem p n" "elem_in mem p (p + n) (Sub s)" "i < tuple_size s"
  shows "\<exists>k. tuple_get_type mem s i = Inr k \<and> accessible mem (p + n) s i k"
proof -
  let ?e = "t_elements s ! i"
  have mem: "?e \<in> set (t_elements s)" and el: "tuple_element s i = Inr ?e"
    using assms(3) by (simp_all add: tuple_size_def tuple_element_def)
  have e: "elem_in mem p (p + n) ?e"
    using assms(2) mem by (rule elem_in_element)
  show ?thesis
  proof (cases ?e)
    case (Ptr q)
    then show ?thesis
      using e el accessible_scalar [OF assms(1)] by (auto simp: tuple_get_type_def elem_kind_def)
  next
    case (Sub u)
    then have "tuple_get_type mem s i = Inr TUPLE_START" "tuple_get_tuple mem s i = Inr u"
      using e el by (cases u; simp add: tuple_get_type_def tuple_get_tuple_def elem_kind_def)+
    then show ?thesis using Sub mem by (auto simp: accessible_def)
  qed
qed

section \<open>Properties\<close>

text \<open>
  C37: The binary tuple format round trips. Writing a well-formed tuple value (strings without NUL,
  binaries below 4 GiB, less than 2 GiB in all) with the sequence of writer calls succeeds, and
  parsing the bytes written consumes them all and returns a tuple of the same size in which each
  accessor reads back the value that was written, nested tuples included.
\<close>

theorem tuple_round_trip:
  assumes "wf_tval (T_tuple vs)" "length (enc (T_tuple vs)) < 2 ^ 31" "capacity < 2 ^ 31"
  shows "\<exists>b t. write_tval (T_tuple vs) (dynamic_buffer_create capacity) = Inr b \<and>
    tuple_parse (unat (d_length b)) (d_data b) (Some 0) (unat (d_length b)) = Inr (Some t) \<and>
    t_length t = unat (d_length b) \<and> tuple_size t = length vs \<and>
    (\<forall>i < length vs. reads (d_data b) t i (vs ! i))"
proof -
  obtain b where b: "write_tval (T_tuple vs) (dynamic_buffer_create capacity) = Inr b" "dbuf_ok b"
      "dbuf_bytes b = enc (T_tuple vs)"
    using dbuf.appends_run [OF writes_tval [OF assms(1)] dbuf_ok_create [OF assms(3)]] assms(2)
    by (metis append_Nil dbuf_bytes_create list.size(3) add_0)
  have len: "unat (d_length b) = length (enc (T_tuple vs))"
    using length_dbuf_bytes [OF b(2)] b(3) by simp
  have mem: "mem_at (d_data b) 0 (enc (T_tuple vs))" using dbuf_mem_at [OF b(2)] b(3) by simp
  show ?thesis
    using b(1) tuple_parse_enc [OF assms(1) mem order_refl order_refl] len
      reads_parsed [OF mem assms(1)]
    by (intro exI [of _ b] exI [of _ "parsed 0 vs"]) (simp add: tuple_size_def del: enc.simps)
qed

theorem tuple_round_trip_witness:
  "\<exists>b t. write_tval (T_tuple [T_u64 7, T_tuple [T_string [104, 105]], T_binary [0, 255]])
        (dynamic_buffer_create 1) = Inr b \<and>
      tuple_parse (unat (d_length b)) (d_data b) (Some 0) (unat (d_length b)) = Inr (Some t) \<and>
      tuple_get_u64 (d_data b) t 0 = Inr 7 \<and> tuple_size t = 3"
  using tuple_round_trip [of "[T_u64 7, T_tuple [T_string [104, 105]], T_binary [0, 255]]" 1]
  by fastforce

text \<open>
  C31: Type safety of the accessors: in a tuple parsed from a readable buffer, and in all tuples nested
  in it, every element has a kind, and the accessor of that kind neither fails its assertion nor
  reads outside the buffer: strings are terminated and binaries end before the buffer does, and
  a nested tuple is again an element that was parsed. (The parser itself may read past the
  buffer; such a parse does not return a tuple with the element.)
\<close>

theorem tuple_accessors_safe:
  assumes "tuple_parse fuel mem (Some p) len = Inr (Some t)" "readable mem p len"
    and "s \<in> subtuples t" "i < tuple_size s"
  shows "\<exists>k. tuple_get_type mem s i = Inr k \<and> accessible mem (p + len) s i k"
proof -
  have "elem_in mem p (p + len) (Sub t)"
    using parse_in(1) [OF assms(1)] by (auto intro: elem_in_mono)
  from elem_in_accessible [OF assms(2) subtuple_in [OF assms(3) this] assms(4)] show ?thesis .
qed

theorem tuple_accessors_safe_witness:
  "\<exists>k. tuple_get_type (map Some [40, 98, 1, 41]) (Tuple 40 [Ptr 1] 0 4) 0 = Inr k \<and>
     accessible (map Some [40, 98, 1, 41]) 4 (Tuple 40 [Ptr 1] 0 4) 0 k"
proof -
  have "tuple_parse 4 (map Some [40, 98, 1, 41]) (Some 0) 4 = Inr (Some (Tuple 40 [Ptr 1] 0 4))"
    using tuple_parse_enc [of "[T_bool True]" "map Some [40, 98, 1, 41]" 0 4 4]
      mem_at_whole [of "[40, 98, 1, 41]"] by (simp add: bool_byte_def)
  moreover have "readable (map Some [40, 98, 1, 41]) 0 4"
    by (auto simp: readable_def nth_Cons split: nat.splits)
  ultimately show ?thesis
    using tuple_accessors_safe [OF _ _ subtuples.self, of 4 _ 0 4 "Tuple 40 [Ptr 1] 0 4" 0]
    by (simp add: tuple_size_def)
qed

text \<open>
  C39: Termination of the parser. On every memory and buffer, either the run with fuel for two rounds
  per byte returns, and then every larger run returns the same, or the loop never ends, whatever
  the fuel. The second case exists: a byte that is no kind of the format, as in \<open>"(x)"\<close>, makes
  the parser loop forever.
\<close>

theorem tuple_parse_terminates_or_diverges:
  "(tuple_parse (2 * len + 2) mem data len = Inl Out_of_fuel) =
     (\<forall>fuel. tuple_parse fuel mem data len = Inl Out_of_fuel) \<and>
   (\<forall>d. tuple_parse (2 * len + 2 + d) mem data len = tuple_parse (2 * len + 2) mem data len) \<and>
   (\<forall>fuel. tuple_parse fuel (map Some [40, 120, 41]) (Some 0) 3 = Inl Out_of_fuel)"
proof (intro conjI)
  have D: "decided (2 * len + 2) (\<lambda>fuel. tuple_parse fuel mem data len)"
  proof (cases data)
    case None
    then show ?thesis
      by (intro decidedI_at) (simp add: tuple_parse.simps(2), rule parse_more_fuel(1))
  next
    case (Some p)
    have "decided (2 * (len - 1) + 1) (\<lambda>fuel. parse_elements fuel mem start (p + len) (p + 1) es)"
      for start es
      using parse_elements_decided [of "p + len" "p + 1"] by (rule decided_mono) simp
    from tuple_parse_decided [OF this] show ?thesis
      unfolding Some by (rule decided_mono) simp
  qed
  then show "(tuple_parse (2 * len + 2) mem data len = Inl Out_of_fuel) =
      (\<forall>fuel. tuple_parse fuel mem data len = Inl Out_of_fuel)"
    unfolding decided_def by blast
  show "\<forall>d. tuple_parse (2 * len + 2 + d) mem data len = tuple_parse (2 * len + 2) mem data len"
  proof
    fix d
    show "tuple_parse (2 * len + 2 + d) mem data len = tuple_parse (2 * len + 2) mem data len"
    proof (cases "returns (tuple_parse (2 * len + 2) mem data len)")
      case True
      then show ?thesis by (rule parse_more_fuel(1)) simp
    next
      case False
      then have "\<forall>fuel. \<not> returns (tuple_parse fuel mem data len)"
        using D unfolding decided_def by blast
      then show ?thesis by metis
    qed
  qed
  show "\<forall>fuel. tuple_parse fuel (map Some [40, 120, 41]) (Some 0) 3 = Inl Out_of_fuel"
  proof
    fix fuel
    have "\<not> returns (parse_elements f (map Some [40, 120, 41]) 0 3 1 [])" for f
      by (rule unknown_kind_diverges [of _ _ _ 120]) (simp_all add: arr_load_def skip_scalar_def)
    then show "tuple_parse fuel (map Some [40, 120, 41]) (Some 0) 3 = Inl Out_of_fuel"
      by (cases fuel) (simp_all add: tuple_parse.simps(2) arr_load_def del: One_nat_def)
  qed
qed

end
