(* ===== verification/Sodium.thy ===== *)
theory Sodium
  imports Prelude
begin

text \<open>
  The parts of libsodium the program calls, as a parameter of every definition that uses them: the
  sizes of the objects (macros of \<open>sodium.h\<close>), the generic hash without a key, detached signatures
  and the verifiable random function. \<open>sodium_ok\<close> states the documented behaviour that theorems
  rely on: the sizes, that results have their size, that a signature verifies under the public key
  of its secret key, and that a VRF proof verifies, with the hash of the proof as its output.
  Nothing is assumed about collisions or forgery; a theorem that needs it names the two inputs
  that would collide.
\<close>

record sodium =
  generichash_BYTES :: nat
  sign_PUBLICKEYBYTES :: nat
  sign_BYTES :: nat
  vrf_PUBLICKEYBYTES :: nat
  vrf_PROOFBYTES :: nat
  vrf_OUTPUTBYTES :: nat
  generichash :: "byte list \<Rightarrow> byte list"
  sign_detached :: "byte list \<Rightarrow> byte list \<Rightarrow> byte list"
  sign_verify_detached :: "byte list \<Rightarrow> byte list \<Rightarrow> byte list \<Rightarrow> bool"
  vrf_prove :: "byte list \<Rightarrow> byte list \<Rightarrow> byte list"
  vrf_proof_to_hash :: "byte list \<Rightarrow> byte list"
  vrf_verify :: "byte list \<Rightarrow> byte list \<Rightarrow> byte list \<Rightarrow> byte list option"

text \<open>
  \<open>sign_detached S m sk\<close>, \<open>sign_verify_detached S sig m pk\<close> (whether 0 is returned),
  \<open>vrf_prove S sk m\<close>, \<open>vrf_verify S pk proof m\<close> (the output, if 0 is returned).
  \<open>keypair S pk sk\<close> is the relation between the two keys that \<open>crypto_vrf_keypair\<close> returns, the
  only source of keys in the program; the same keys sign blocks and transactions.
\<close>

definition sodium_ok :: "sodium \<Rightarrow> (byte list \<Rightarrow> byte list \<Rightarrow> bool) \<Rightarrow> bool" where
  "sodium_ok S keypair \<longleftrightarrow>
     generichash_BYTES S = 32 \<and> sign_PUBLICKEYBYTES S = 32 \<and> sign_BYTES S = 64 \<and>
     vrf_PUBLICKEYBYTES S = 32 \<and> vrf_PROOFBYTES S = 80 \<and> vrf_OUTPUTBYTES S = 64 \<and>
     (\<forall>m. length (generichash S m) = 32) \<and>
     (\<forall>m sk. length (sign_detached S m sk) = 64) \<and>
     (\<forall>sk m. length (vrf_prove S sk m) = 80) \<and>
     (\<forall>p. length (vrf_proof_to_hash S p) = 64) \<and>
     (\<forall>pk p m out. vrf_verify S pk p m = Some out \<longrightarrow> length out = 64) \<and>
     (\<forall>pk sk m. keypair pk sk \<longrightarrow>
        length pk = 32 \<and> sign_verify_detached S (sign_detached S m sk) m pk \<and>
        vrf_verify S pk (vrf_prove S sk m) m = Some (vrf_proof_to_hash S (vrf_prove S sk m)))"

lemma sodium_sizes:
  assumes "sodium_ok S keypair"
  shows "generichash_BYTES S = 32" "sign_PUBLICKEYBYTES S = 32" "sign_BYTES S = 64"
    "vrf_PUBLICKEYBYTES S = 32" "vrf_PROOFBYTES S = 80" "vrf_OUTPUTBYTES S = 64"
    "length (generichash S m) = 32" "length (sign_detached S m sk) = 64"
    "length (vrf_prove S sk m) = 80" "length (vrf_proof_to_hash S p) = 64"
  using assms by (simp_all add: sodium_ok_def)

lemma sodium_keypair:
  assumes "sodium_ok S keypair" "keypair pk sk"
  shows "length pk = 32" "sign_verify_detached S (sign_detached S m sk) m pk"
    "vrf_verify S pk (vrf_prove S sk m) m = Some (vrf_proof_to_hash S (vrf_prove S sk m))"
  using assms by (simp_all add: sodium_ok_def)

lemma vrf_verify_length: "sodium_ok S keypair \<Longrightarrow> vrf_verify S pk p m = Some out \<Longrightarrow> length out = 64"
  by (auto simp: sodium_ok_def)

text \<open>
  An instance for witnesses: a checksum and the first bytes instead of cryptography. The keys of a
  pair are equal, the signature is the key and the first bytes of the message.
\<close>

definition pad :: "nat \<Rightarrow> byte list \<Rightarrow> byte list" where
  "pad n xs = take n (xs @ replicate n 0)"

definition toy_hash :: "byte list \<Rightarrow> byte list" where
  "toy_hash m = pad 32 (u64_bytes (of_nat (fold (\<lambda>b h. h * 31 + unat b) m 7)) @ take 24 m)"

definition toy :: sodium where
  "toy = \<lparr>generichash_BYTES = 32, sign_PUBLICKEYBYTES = 32, sign_BYTES = 64,
     vrf_PUBLICKEYBYTES = 32, vrf_PROOFBYTES = 80, vrf_OUTPUTBYTES = 64,
     generichash = toy_hash,
     sign_detached = (\<lambda>m sk. pad 64 (pad 32 sk @ toy_hash m)),
     sign_verify_detached = (\<lambda>s m pk. s = pad 64 (pad 32 pk @ toy_hash m)),
     vrf_prove = (\<lambda>sk m. pad 80 (pad 32 sk @ toy_hash m)),
     vrf_proof_to_hash = (\<lambda>p. pad 64 p),
     vrf_verify = (\<lambda>pk p m. if p = pad 80 (pad 32 pk @ toy_hash m) then Some (pad 64 p) else None)\<rparr>"

definition toy_keypair :: "byte list \<Rightarrow> byte list \<Rightarrow> bool" where
  "toy_keypair pk sk \<longleftrightarrow> length pk = 32 \<and> sk = pk"

lemma length_pad [simp]: "length (pad n xs) = n"
  by (simp add: pad_def)

lemma toy_ok: "sodium_ok toy toy_keypair"
  by (auto simp: sodium_ok_def toy_def toy_keypair_def toy_hash_def)

end
