(* ===== verification/Transaction.thy ===== *)
theory Transaction
  imports Tuple Sodium
begin

text \<open>
  Transactions (\<open>src/transaction.c\<close>): creation and signing, the binary form, and the acceptance of
  a transaction from a parsed message. The JSON form is in \<open>Json\<close>. The fixed-size byte arrays of
  the struct are byte lists.
\<close>

record transaction_t =
  tsender :: "byte list"
  trecipient :: "byte list"
  tvalue :: u64
  tnonce :: u32
  tsignature :: "byte list"
  thash :: "byte list"

section \<open>Definitions\<close>

definition binary_of_size :: "byte arr \<Rightarrow> tuple_t \<Rightarrow> nat \<Rightarrow> nat \<Rightarrow> bool res" where
  "binary_of_size mem t i n =
     bindR (tuple_get_type mem t i) (\<lambda>k.
       if k \<noteq> TUPLE_BINARY then Inr False
       else bindR (tuple_get_binary mem t i) (\<lambda>(len, _). Inr (unat len = n)))"

definition transaction_is_valid :: "sodium \<Rightarrow> byte arr \<Rightarrow> tuple_t \<Rightarrow> bool res" where
  "transaction_is_valid S mem tuple =
     (if tuple_size tuple \<noteq> 2 then Inr False
      else
        bindR (tuple_get_type mem tuple 0) (\<lambda>k0.
        if k0 \<noteq> TUPLE_START then Inr False else
        bindR (binary_of_size mem tuple 1 (sign_BYTES S)) (\<lambda>ok.
        if \<not> ok then Inr False else
        bindR (tuple_get_tuple mem tuple 0) (\<lambda>txn.
        bindR (binary_of_size mem txn 0 (sign_PUBLICKEYBYTES S)) (\<lambda>ok.
        if \<not> ok then Inr False else
        bindR (binary_of_size mem txn 1 (sign_PUBLICKEYBYTES S)) (\<lambda>ok.
        if \<not> ok then Inr False else
        bindR (tuple_get_type mem txn 2) (\<lambda>k2.
        if k2 \<noteq> TUPLE_U64 then Inr False else
        bindR (tuple_get_type mem txn 3) (\<lambda>k3.
        Inr (k3 = TUPLE_U32)))))))))"

definition write_txn_body :: "sodium \<Rightarrow> transaction_t \<Rightarrow> dynamic_buffer_t \<Rightarrow> dynamic_buffer_t res" where
  "write_txn_body S txn buf =
     bindR (tuple_write_start buf) (\<lambda>buf.
     bindR (tuple_write_binary (sign_PUBLICKEYBYTES S) (tsender txn) buf) (\<lambda>buf.
     bindR (tuple_write_binary (sign_PUBLICKEYBYTES S) (trecipient txn) buf) (\<lambda>buf.
     bindR (tuple_write_u64 (tvalue txn) buf) (\<lambda>buf.
     bindR (tuple_write_u32 (tnonce txn) buf) tuple_write_end))))"

definition hash_buffer :: "sodium \<Rightarrow> dynamic_buffer_t \<Rightarrow> byte list res" where
  "hash_buffer S buf =
     bindR (arr_load_n (d_data buf) 0 (unat (d_length buf))) (\<lambda>bs. Inr (generichash S bs))"

definition transaction_compute_hash :: "sodium \<Rightarrow> transaction_t \<Rightarrow> transaction_t res" where
  "transaction_compute_hash S txn =
     bindR (write_txn_body S txn (dynamic_buffer_create 256)) (\<lambda>buf.
     bindR (hash_buffer S buf) (\<lambda>h. Inr (txn\<lparr>thash := h\<rparr>)))"

definition transaction_create ::
  "sodium \<Rightarrow> byte list \<Rightarrow> byte list \<Rightarrow> byte list \<Rightarrow> u64 \<Rightarrow> u32 \<Rightarrow> transaction_t res" where
  "transaction_create S public_key private_key recipient value nonce =
     bindR (transaction_compute_hash S
       \<lparr>tsender = take (sign_PUBLICKEYBYTES S) public_key,
        trecipient = take (sign_PUBLICKEYBYTES S) recipient,
        tvalue = value, tnonce = nonce,
        tsignature = replicate (sign_BYTES S) 0, thash = replicate (generichash_BYTES S) 0\<rparr>) (\<lambda>txn.
     Inr (txn\<lparr>tsignature := sign_detached S (thash txn) private_key\<rparr>))"

definition read_binary :: "byte arr \<Rightarrow> tuple_t \<Rightarrow> nat \<Rightarrow> byte list res" where
  "read_binary mem t i =
     bindR (tuple_get_binary mem t i) (\<lambda>(len, data). arr_load_n mem data (unat len))"

definition transaction_create_from_tuple ::
  "sodium \<Rightarrow> byte arr \<Rightarrow> tuple_t \<Rightarrow> transaction_t option res" where
  "transaction_create_from_tuple S mem tuple =
     bindR (transaction_is_valid S mem tuple) (\<lambda>valid.
     if \<not> valid then Inr None else
     bindR (tuple_get_tuple mem tuple 0) (\<lambda>txn.
     bindR (read_binary mem tuple 1) (\<lambda>signature.
     bindR (read_binary mem txn 0) (\<lambda>sender.
     bindR (read_binary mem txn 1) (\<lambda>recipient.
     bindR (tuple_get_u64 mem txn 2) (\<lambda>value.
     bindR (tuple_get_u32 mem txn 3) (\<lambda>nonce.
     bindR (transaction_compute_hash S
       \<lparr>tsender = sender, trecipient = recipient, tvalue = value, tnonce = nonce,
        tsignature = replicate (sign_BYTES S) 0, thash = replicate (generichash_BYTES S) 0\<rparr>) (\<lambda>result.
     let result = result\<lparr>tsignature := signature\<rparr> in
     if sign_verify_detached S (tsignature result) (take (sign_PUBLICKEYBYTES S) (thash result))
          (tsender result)
     then Inr (Some result) else Inr None))))))))"

definition transaction_write :: "sodium \<Rightarrow> transaction_t \<Rightarrow> dynamic_buffer_t \<Rightarrow> dynamic_buffer_t res" where
  "transaction_write S txn buf =
     bindR (tuple_write_start buf) (\<lambda>buf.
     bindR (write_txn_body S txn buf) (\<lambda>buf.
     bindR (tuple_write_binary (sign_BYTES S) (tsignature txn) buf) tuple_write_end))"

section \<open>The binary form\<close>

definition txn_body :: "transaction_t \<Rightarrow> tval list" where
  "txn_body txn = [T_binary (tsender txn), T_binary (trecipient txn), T_u64 (tvalue txn), T_u32 (tnonce txn)]"

definition txn_form :: "transaction_t \<Rightarrow> tval list" where
  "txn_form txn = [T_tuple (txn_body txn), T_binary (tsignature txn)]"

text \<open>
  A well-formed transaction: its fields have their sizes, the hash is that of its body, and the
  signature is one of the sender over the hash.
\<close>

definition txn_sized :: "transaction_t \<Rightarrow> bool" where
  "txn_sized txn \<longleftrightarrow> length (tsender txn) = 32 \<and> length (trecipient txn) = 32 \<and> length (tsignature txn) = 64"

definition txn_ok :: "sodium \<Rightarrow> transaction_t \<Rightarrow> bool" where
  "txn_ok S txn \<longleftrightarrow> txn_sized txn \<and>
     thash txn = generichash S (enc (T_tuple (txn_body txn))) \<and>
     sign_verify_detached S (tsignature txn) (thash txn) (tsender txn)"

lemma length_enc_body:
  "length (tsender txn) = 32 \<Longrightarrow> length (trecipient txn) = 32 \<Longrightarrow> length (enc (T_tuple (txn_body txn))) = 90"
  by (simp add: txn_body_def)

lemma length_enc_form: "txn_sized txn \<Longrightarrow> length (enc (T_tuple (txn_form txn))) = 161"
  by (simp add: txn_form_def txn_body_def txn_sized_def)

lemma wf_txn_body: "length (tsender txn) = 32 \<Longrightarrow> length (trecipient txn) = 32 \<Longrightarrow> wf_tval (T_tuple (txn_body txn))"
  by (simp add: txn_body_def)

lemma wf_txn_form: "txn_sized txn \<Longrightarrow> wf_tval (T_tuple (txn_form txn))"
  by (simp add: txn_form_def txn_body_def txn_sized_def)

lemma writes_txn_body:
  assumes "sign_PUBLICKEYBYTES S = 32" "length (tsender txn) = 32" "length (trecipient txn) = 32"
  shows "writes (write_txn_body S txn) (enc (T_tuple (txn_body txn)))"
proof -
  have "writes (\<lambda>buf. bindR (tuple_write_start buf) (\<lambda>buf.
     bindR (tuple_write_binary (sign_PUBLICKEYBYTES S) (tsender txn) buf) (\<lambda>buf.
     bindR (tuple_write_binary (sign_PUBLICKEYBYTES S) (trecipient txn) buf) (\<lambda>buf.
     bindR (tuple_write_u64 (tvalue txn) buf) (\<lambda>buf.
     bindR (tuple_write_u32 (tnonce txn) buf) tuple_write_end)))))
    ([TUPLE_START] @ enc (T_binary (tsender txn)) @ enc (T_binary (trecipient txn)) @
      enc (T_u64 (tvalue txn)) @ enc (T_u32 (tnonce txn)) @ [TUPLE_END])"
    using assms by (intro dbuf.appends_bind writes_start writes_end writes_binary writes_scalar) simp_all
  then show ?thesis by (simp add: write_txn_body_def [abs_def] txn_body_def)
qed

lemma writes_txn:
  assumes "sodium_ok S kp" "txn_sized txn"
  shows "writes (transaction_write S txn) (enc (T_tuple (txn_form txn)))"
proof -
  have "writes (\<lambda>buf. bindR (tuple_write_start buf) (\<lambda>buf.
     bindR (write_txn_body S txn buf) (\<lambda>buf.
     bindR (tuple_write_binary (sign_BYTES S) (tsignature txn) buf) tuple_write_end)))
    ([TUPLE_START] @ enc (T_tuple (txn_body txn)) @ enc (T_binary (tsignature txn)) @ [TUPLE_END])"
    using assms by (intro dbuf.appends_bind writes_start writes_end writes_binary writes_txn_body)
      (simp_all add: txn_sized_def sodium_sizes)
  then show ?thesis by (simp add: transaction_write_def [abs_def] txn_form_def del: enc.simps(9))
qed

lemma hash_buffer_bytes: "dbuf_ok b \<Longrightarrow> hash_buffer S b = Inr (generichash S (dbuf_bytes b))"
  using mem_at_load_n [OF dbuf_mem_at [of b]] length_dbuf_bytes [of b] by (simp add: hash_buffer_def)

text \<open>Hashing what a writer appends to a new buffer.\<close>

lemma hash_of_writer:
  assumes "writes w bs" "length bs < 2 ^ 31"
  shows "bindR (w (dynamic_buffer_create 256)) (hash_buffer S) = Inr (generichash S bs)"
proof -
  obtain b where "w (dynamic_buffer_create 256) = Inr b" "dbuf_ok b" "dbuf_bytes b = bs"
    using dbuf.appends_run [OF assms(1) dbuf_ok_create [of 256]] assms(2) by auto
  then show ?thesis by (simp add: hash_buffer_bytes)
qed

lemma transaction_compute_hash_result:
  assumes "sign_PUBLICKEYBYTES S = 32" "length (tsender txn) = 32" "length (trecipient txn) = 32"
  shows "transaction_compute_hash S txn = Inr (txn\<lparr>thash := generichash S (enc (T_tuple (txn_body txn)))\<rparr>)"
proof -
  have "bindR (write_txn_body S txn (dynamic_buffer_create 256)) (hash_buffer S) =
      Inr (generichash S (enc (T_tuple (txn_body txn))))"
    using length_enc_body [OF assms(2,3)] by (intro hash_of_writer writes_txn_body assms) simp
  then have "bindR (bindR (write_txn_body S txn (dynamic_buffer_create 256)) (hash_buffer S)) (\<lambda>h. Inr (txn\<lparr>thash := h\<rparr>))
      = Inr (txn\<lparr>thash := generichash S (enc (T_tuple (txn_body txn)))\<rparr>)"
    by simp
  then show ?thesis by (simp only: transaction_compute_hash_def bindR_assoc)
qed


section \<open>Creation and the round trip\<close>

lemma transaction_create_result:
  assumes "sodium_ok S kp" "length pk = 32" "length r = 32"
  shows "\<exists>txn. transaction_create S pk sk r v n = Inr txn \<and> txn_sized txn \<and>
    tsender txn = pk \<and> trecipient txn = r \<and> tvalue txn = v \<and> tnonce txn = n \<and>
    thash txn = generichash S (enc (T_tuple (txn_body txn))) \<and>
    tsignature txn = sign_detached S (thash txn) sk"
  using assms
  by (simp add: transaction_create_def sodium_sizes transaction_compute_hash_result txn_sized_def txn_body_def
      del: enc.simps)

text \<open>Where a transaction is encoded, the parts that the checks look at are there.\<close>

lemma reads_kind:
  assumes "mem_at mem p (enc v)" "tuple_element t i = Inr (expect p v)"
  shows "tuple_get_type mem t i = Inr (hd (enc v))"
proof -
  have "arr_load mem p = Inr (hd (enc v))"
    using assms(1) mem_at_load [of mem p "hd (enc v)" "tl (enc v)"] enc_pos [of v]
    by (cases "enc v") auto
  then show ?thesis
    using assms(2) by (cases v) (simp_all add: tuple_get_type_def elem_kind_def)
qed

lemma parsed_kind:
  assumes "mem_at mem p (enc (T_tuple vs))" "i < length vs"
  shows "tuple_get_type mem (parsed p vs) i = Inr (hd (enc (vs ! i)))"
  using mem_at_nth_enc [OF assms] tuple_element_parsed [OF assms(2), of p] assms(2)
  by (intro reads_kind) (simp_all add: nth_expects)

lemma parsed_binary:
  assumes "mem_at mem p (enc (T_tuple vs))" "wf_tval (T_tuple vs)" "i < length vs" "vs ! i = T_binary d"
  shows "binary_of_size mem (parsed p vs) i n = Inr (length d = n)"
    and "read_binary mem (parsed p vs) i = Inr d"
proof -
  have d: "length d < 2 ^ 32"
    using assms(2-4) by (metis nth_mem wf_tval.simps(2,3))
  then have u: "unat (of_nat (length d) :: u32) = length d" by (simp add: unat_of_nat)
  obtain q where q: "tuple_get_binary mem (parsed p vs) i = Inr (of_nat (length d), q)" "mem_at mem q d"
    using reads_parsed [OF assms(1-3)] assms(4) by auto
  show "binary_of_size mem (parsed p vs) i n = Inr (length d = n)"
    using parsed_kind [OF assms(1,3)] assms(4) q(1) u
    by (simp add: binary_of_size_def del: of_nat_unat unat_of_nat)
  show "read_binary mem (parsed p vs) i = Inr d"
    using q mem_at_load_n [OF q(2)] u by (simp add: read_binary_def del: unat_of_nat)
qed

lemma parsed_tuple:
  assumes "mem_at mem p (enc (T_tuple vs))" "i < length vs" "vs ! i = T_tuple us"
  obtains q where "tuple_get_tuple mem (parsed p vs) i = Inr (parsed q us)" "mem_at mem q (enc (T_tuple us))"
proof -
  let ?q = "p + 1 + length (concat (map enc (take i vs)))"
  have "tuple_element (parsed p vs) i = Inr (expect ?q (T_tuple us))"
    using tuple_element_parsed [OF assms(2), of p] assms(2,3) by (simp add: nth_expects)
  then have "tuple_get_tuple mem (parsed p vs) i = Inr (parsed ?q us)"
    by (simp add: tuple_get_tuple_def elem_kind_def)
  then show ?thesis using that mem_at_nth_enc [OF assms(1,2)] assms(3) by simp
qed

lemma create_from_encoded:
  assumes S: "sodium_ok S kp" and sz: "txn_sized txn"
    and mem: "mem_at mem p (enc (T_tuple (txn_form txn)))"
  shows "transaction_is_valid S mem (parsed p (txn_form txn)) = Inr True"
    and "transaction_create_from_tuple S mem (parsed p (txn_form txn)) =
      Inr (let h = generichash S (enc (T_tuple (txn_body txn))) in
           if sign_verify_detached S (tsignature txn) h (tsender txn) then Some (txn\<lparr>thash := h\<rparr>) else None)"
proof -
  let ?t = "parsed p (txn_form txn)"
  have l: "length (tsender txn) = 32" "length (trecipient txn) = 32" "length (tsignature txn) = 64"
    using sz by (simp_all add: txn_sized_def)
  have wf: "wf_tval (T_tuple (txn_form txn))" "wf_tval (T_tuple (txn_body txn))"
    using wf_txn_form [OF sz] wf_txn_body [OF l(1,2)] by blast+
  obtain q where q: "tuple_get_tuple mem ?t 0 = Inr (parsed q (txn_body txn))"
      "mem_at mem q (enc (T_tuple (txn_body txn)))"
    using parsed_tuple [OF mem, of 0 "txn_body txn"] by (auto simp: txn_form_def simp del: enc.simps)
  let ?b = "parsed q (txn_body txn)"
  have k: "tuple_get_type mem ?t 0 = Inr TUPLE_START" "tuple_get_type mem ?b 2 = Inr TUPLE_U64"
      "tuple_get_type mem ?b 3 = Inr TUPLE_U32"
    using parsed_kind [OF mem, of 0] parsed_kind [OF q(2), of 2] parsed_kind [OF q(2), of 3]
    by (simp_all add: txn_form_def txn_body_def)
  have b: "binary_of_size mem ?t 1 64 = Inr True" "read_binary mem ?t 1 = Inr (tsignature txn)"
      "binary_of_size mem ?b 0 32 = Inr True" "read_binary mem ?b 0 = Inr (tsender txn)"
      "binary_of_size mem ?b 1 32 = Inr True" "read_binary mem ?b 1 = Inr (trecipient txn)"
    using parsed_binary [OF mem wf(1), of 1 "tsignature txn"] parsed_binary [OF q(2) wf(2), of 0 "tsender txn"]
      parsed_binary [OF q(2) wf(2), of 1 "trecipient txn"] l
    by (simp_all add: txn_form_def txn_body_def del: enc.simps expects.simps)
  have v: "tuple_get_u64 mem ?b 2 = Inr (tvalue txn)" "tuple_get_u32 mem ?b 3 = Inr (tnonce txn)"
    using reads_parsed [OF q(2) wf(2), of 2] reads_parsed [OF q(2) wf(2), of 3]
    by (simp_all add: txn_body_def del: enc.simps expects.simps)
  show valid: "transaction_is_valid S mem ?t = Inr True"
    using k b q(1) sodium_sizes [OF S]
    by (simp add: transaction_is_valid_def tuple_size_def txn_form_def del: enc.simps expects.simps)
  have size: "transaction_compute_hash S
       \<lparr>tsender = tsender txn, trecipient = trecipient txn, tvalue = tvalue txn, tnonce = tnonce txn,
        tsignature = replicate 64 0, thash = replicate 32 0\<rparr> =
     Inr (txn\<lparr>thash := generichash S (enc (T_tuple (txn_body txn))), tsignature := replicate 64 0\<rparr>)"
    using l by (subst transaction_compute_hash_result) (simp_all add: sodium_sizes [OF S] txn_body_def del: enc.simps)
  show "transaction_create_from_tuple S mem ?t =
      Inr (let h = generichash S (enc (T_tuple (txn_body txn))) in
           if sign_verify_detached S (tsignature txn) h (tsender txn) then Some (txn\<lparr>thash := h\<rparr>) else None)"
    using q(1) b v valid size sodium_sizes [OF S]
    by (simp add: transaction_create_from_tuple_def Let_def del: enc.simps expects.simps)
qed


section \<open>Acceptance\<close>

lemma read_binary_size:
  "binary_of_size mem t i n = Inr True \<Longrightarrow> read_binary mem t i = Inr d \<Longrightarrow> length d = n"
  by (auto simp: binary_of_size_def read_binary_def res_simps split: if_splits dest: arr_load_n_length)

lemma transaction_is_validD:
  assumes "transaction_is_valid S mem t = Inr True"
  obtains u where "tuple_size t = 2" "tuple_get_tuple mem t 0 = Inr u"
    "binary_of_size mem t 1 (sign_BYTES S) = Inr True"
    "binary_of_size mem u 0 (sign_PUBLICKEYBYTES S) = Inr True"
    "binary_of_size mem u 1 (sign_PUBLICKEYBYTES S) = Inr True"
    "tuple_get_type mem u 2 = Inr TUPLE_U64" "tuple_get_type mem u 3 = Inr TUPLE_U32"
  using assms that by (auto simp: transaction_is_valid_def res_simps split: if_splits)

lemma create_from_tuple_ok:
  assumes S: "sodium_ok S kp" and "transaction_create_from_tuple S mem t = Inr (Some txn)"
  shows "txn_ok S txn"
proof -
  have valid: "transaction_is_valid S mem t = Inr True"
    using assms(2) by (auto simp: transaction_create_from_tuple_def res_simps split: if_splits)
  then obtain u where u: "tuple_get_tuple mem t 0 = Inr u"
    "binary_of_size mem t 1 64 = Inr True" "binary_of_size mem u 0 32 = Inr True"
    "binary_of_size mem u 1 32 = Inr True"
    by (rule transaction_is_validD) (simp add: sodium_sizes [OF S])
  obtain sg sd rc v n where r: "read_binary mem t 1 = Inr sg" "read_binary mem u 0 = Inr sd"
      "read_binary mem u 1 = Inr rc" "tuple_get_u64 mem u 2 = Inr v" "tuple_get_u32 mem u 3 = Inr n"
    using assms(2) valid u(1) by (auto simp: transaction_create_from_tuple_def res_simps split: if_splits)
  have l: "length sg = 64" "length sd = 32" "length rc = 32"
    using read_binary_size u r by blast+
  have "transaction_compute_hash S
       \<lparr>tsender = sd, trecipient = rc, tvalue = v, tnonce = n, tsignature = replicate 64 0, thash = replicate 32 0\<rparr> =
     Inr \<lparr>tsender = sd, trecipient = rc, tvalue = v, tnonce = n, tsignature = replicate 64 0,
       thash = generichash S (enc (T_tuple [T_binary sd, T_binary rc, T_u64 v, T_u32 n]))\<rparr>"
    using l by (subst transaction_compute_hash_result) (simp_all add: sodium_sizes [OF S] txn_body_def del: enc.simps)
  then show ?thesis
    using assms(2) valid u(1) r l sodium_sizes [OF S]
    by (auto simp: transaction_create_from_tuple_def Let_def txn_ok_def txn_sized_def txn_body_def
        split: if_splits simp del: enc.simps)
qed

text \<open>With enough elements in the inner tuple, the checks read inside the message.\<close>

lemma binary_of_size_total:
  assumes "readable mem p n" "elem_in mem p (p + n) (Sub t)" "i < tuple_size t"
  shows "\<exists>b. binary_of_size mem t i k = Inr b \<and> (b \<longrightarrow> (\<exists>d. read_binary mem t i = Inr d))"
proof -
  obtain kind where kind: "tuple_get_type mem t i = Inr kind" "accessible mem (p + n) t i kind"
    using elem_in_accessible [OF assms] by blast
  show ?thesis
  proof (cases "kind = TUPLE_BINARY")
    case True
    with kind(2) obtain len q d where "tuple_get_binary mem t i = Inr (len, q)" "arr_load_n mem q (unat len) = Inr d"
      by (auto simp: accessible_def)
    with kind(1) True show ?thesis by (auto simp: binary_of_size_def read_binary_def)
  next
    case False
    with kind(1) show ?thesis by (auto simp: binary_of_size_def)
  qed
qed

lemma accessible_u64: "accessible mem hi t i TUPLE_U64 \<Longrightarrow> \<exists>v. tuple_get_u64 mem t i = Inr v"
  and accessible_u32: "accessible mem hi t i TUPLE_U32 \<Longrightarrow> \<exists>v. tuple_get_u32 mem t i = Inr v"
  and accessible_sub: "accessible mem hi t i TUPLE_START \<Longrightarrow>
    \<exists>u. tuple_get_tuple mem t i = Inr u \<and> Sub u \<in> set (t_elements t)"
  by (simp_all add: accessible_def)

lemma transaction_is_valid_total:
  assumes "readable mem p n" "elem_in mem p (p + n) (Sub t)"
    and "\<And>u. Sub u \<in> set (t_elements t) \<Longrightarrow> 4 \<le> tuple_size u"
  shows "\<exists>b. transaction_is_valid S mem t = Inr b"
proof (cases "tuple_size t = 2")
  case True
  obtain k where k: "tuple_get_type mem t 0 = Inr k" "accessible mem (p + n) t 0 k"
    using elem_in_accessible [OF assms(1,2), of 0] True by auto
  obtain b where b: "binary_of_size mem t 1 (sign_BYTES S) = Inr b"
    using binary_of_size_total [OF assms(1,2), of 1] True by auto
  show ?thesis
  proof (cases "k = TUPLE_START \<and> b")
    case start: True
    then obtain u where u: "tuple_get_tuple mem t 0 = Inr u" "Sub u \<in> set (t_elements t)"
      using k accessible_sub by blast
    have ui: "elem_in mem p (p + n) (Sub u)" and sz: "4 \<le> tuple_size u"
      using elem_in_element [OF assms(2) u(2)] assms(3) [OF u(2)] by auto
    obtain b0 b1 k2 k3 where "binary_of_size mem u 0 (sign_PUBLICKEYBYTES S) = Inr b0"
        "binary_of_size mem u 1 (sign_PUBLICKEYBYTES S) = Inr b1"
        "tuple_get_type mem u 2 = Inr k2" "tuple_get_type mem u 3 = Inr k3"
      using binary_of_size_total [OF assms(1) ui, of 0] binary_of_size_total [OF assms(1) ui, of 1]
        elem_in_accessible [OF assms(1) ui, of 2] elem_in_accessible [OF assms(1) ui, of 3] sz by fastforce
    then show ?thesis using True k(1) b start u(1) by (auto simp: transaction_is_valid_def)
  next
    case False
    then show ?thesis using True k(1) b by (auto simp: transaction_is_valid_def)
  qed
qed (auto simp: transaction_is_valid_def)

lemma transaction_create_total:
  assumes S: "sodium_ok S keypair" and "readable mem p n" "elem_in mem p (p + n) (Sub t)"
    and "\<And>u. Sub u \<in> set (t_elements t) \<Longrightarrow> 4 \<le> tuple_size u"
  shows "\<exists>r. transaction_create_from_tuple S mem t = Inr r"
proof -
  obtain valid where valid: "transaction_is_valid S mem t = Inr valid"
    using transaction_is_valid_total [OF assms(2-4)] by blast
  show ?thesis
  proof (cases valid)
    case True
    then obtain u where u: "tuple_size t = 2" "tuple_get_tuple mem t 0 = Inr u"
      "binary_of_size mem t 1 64 = Inr True" "binary_of_size mem u 0 32 = Inr True"
      "binary_of_size mem u 1 32 = Inr True" "tuple_get_type mem u 2 = Inr TUPLE_U64"
      "tuple_get_type mem u 3 = Inr TUPLE_U32"
      using valid by (auto elim!: transaction_is_validD simp: sodium_sizes [OF S])
    have "Sub u \<in> set (t_elements t)"
      using tuple_get_tuple_sub [OF u(2)] .
    then have ui: "elem_in mem p (p + n) (Sub u)" and sz: "4 \<le> tuple_size u"
      using elem_in_element [OF assms(3)] assms(4) by auto
    obtain sg sd rc v w where r: "read_binary mem t 1 = Inr sg" "read_binary mem u 0 = Inr sd"
        "read_binary mem u 1 = Inr rc" "tuple_get_u64 mem u 2 = Inr v" "tuple_get_u32 mem u 3 = Inr w"
      using binary_of_size_total [OF assms(2,3), of 1 64] binary_of_size_total [OF assms(2) ui, of 0 32]
        binary_of_size_total [OF assms(2) ui, of 1 32] elem_in_accessible [OF assms(2) ui, of 2]
        elem_in_accessible [OF assms(2) ui, of 3] accessible_u64 accessible_u32 u sz by fastforce
    have "length sd = 32" "length rc = 32" using read_binary_size u r by blast+
    then show ?thesis
      using valid True u r
      by (simp add: transaction_create_from_tuple_def transaction_compute_hash_result sodium_sizes [OF S]
          Let_def txn_body_def del: enc.simps)
  qed (simp add: transaction_create_from_tuple_def valid)
qed

section \<open>Properties\<close>

text \<open>
  C14: A transaction made with a key pair survives the network: creating it, writing it, parsing the
  bytes and rebuilding it from the parsed tuple yields the same transaction (sender, recipient,
  value, nonce, hash and signature), which is well formed and signed by its sender.
\<close>

theorem transaction_round_trip:
  assumes "sodium_ok S keypair" "keypair pk sk" "length r = 32"
  shows "\<exists>txn buf t. transaction_create S pk sk r v n = Inr txn \<and> txn_ok S txn \<and>
    tsender txn = pk \<and> trecipient txn = r \<and> tvalue txn = v \<and> tnonce txn = n \<and>
    transaction_write S txn (dynamic_buffer_create 64) = Inr buf \<and>
    tuple_parse 161 (d_data buf) (Some 0) (unat (d_length buf)) = Inr (Some t) \<and>
    transaction_create_from_tuple S (d_data buf) t = Inr (Some txn)"
proof -
  have lpk: "length pk = 32" using sodium_keypair [OF assms(1,2)] by simp
  obtain txn where txn: "transaction_create S pk sk r v n = Inr txn" "txn_sized txn"
      "tsender txn = pk" "trecipient txn = r" "tvalue txn = v" "tnonce txn = n"
      "thash txn = generichash S (enc (T_tuple (txn_body txn)))"
      "tsignature txn = sign_detached S (thash txn) sk"
    using transaction_create_result [OF assms(1) lpk assms(3)] by blast
  have ver: "sign_verify_detached S (tsignature txn) (thash txn) (tsender txn)"
    using sodium_keypair(2) [OF assms(1,2)] txn by simp
  obtain buf where buf: "transaction_write S txn (dynamic_buffer_create 64) = Inr buf" "dbuf_ok buf"
      "dbuf_bytes buf = enc (T_tuple (txn_form txn))"
    using dbuf.appends_run [OF writes_txn [OF assms(1) txn(2)] dbuf_ok_create [of 64]]
      length_enc_form [OF txn(2)] by auto
  have len: "unat (d_length buf) = 161"
    using length_dbuf_bytes [OF buf(2)] buf(3) length_enc_form [OF txn(2)] by simp
  have mem: "mem_at (d_data buf) 0 (enc (T_tuple (txn_form txn)))"
    using dbuf_mem_at [OF buf(2)] buf(3) by simp
  have "tuple_parse 161 (d_data buf) (Some 0) (unat (d_length buf)) = Inr (Some (parsed 0 (txn_form txn)))"
    using tuple_parse_enc [OF wf_txn_form [OF txn(2)] mem] length_enc_form [OF txn(2)] len by simp
  moreover have "transaction_create_from_tuple S (d_data buf) (parsed 0 (txn_form txn)) = Inr (Some txn)"
    using create_from_encoded(2) [OF assms(1) txn(2) mem] ver txn(7) by (simp add: Let_def)
  ultimately show ?thesis using txn ver buf(1) by (auto simp: txn_ok_def)
qed

theorem transaction_round_trip_witness:
  "\<exists>txn buf t. transaction_create toy (replicate 32 1) (replicate 32 1) (replicate 32 2) 50 0 = Inr txn \<and>
    transaction_write toy txn (dynamic_buffer_create 64) = Inr buf \<and>
    tuple_parse 161 (d_data buf) (Some 0) (unat (d_length buf)) = Inr (Some t) \<and>
    transaction_create_from_tuple toy (d_data buf) t = Inr (Some txn) \<and> tvalue txn = 50"
  using transaction_round_trip [OF toy_ok, of "replicate 32 1" "replicate 32 1" "replicate 32 2" 50 0]
  by (fastforce simp: toy_keypair_def)

text \<open>
  C15: Only authentic transactions are accepted: whatever tuple a peer sends, a transaction that is
  built from it has a sender and a recipient of 32 bytes, carries the hash of its own body, and its
  signature verifies for that hash under the sender's key.
\<close>

theorem transaction_accepted_authentic:
  assumes "sodium_ok S keypair" "transaction_create_from_tuple S mem t = Inr (Some txn)"
  shows "length (tsender txn) = 32 \<and> length (trecipient txn) = 32 \<and>
    thash txn = generichash S (enc (T_tuple (txn_body txn))) \<and>
    sign_verify_detached S (tsignature txn) (thash txn) (tsender txn)"
  using create_from_tuple_ok [OF assms] unfolding txn_ok_def txn_sized_def by blast

theorem transaction_accepted_authentic_witness:
  "\<exists>mem t txn. transaction_create_from_tuple toy mem t = Inr (Some txn) \<and>
     sign_verify_detached toy (tsignature txn) (thash txn) (tsender txn)"
proof -
  define txn where "txn = \<lparr>tsender = replicate 32 1, trecipient = replicate 32 2, tvalue = 5, tnonce = 0,
     tsignature = pad 64 (pad 32 (replicate 32 1) @ toy_hash (generichash toy (enc (T_tuple
       [T_binary (replicate 32 1), T_binary (replicate 32 2), T_u64 5, T_u32 0])))), thash = []\<rparr>"
  have sz: "txn_sized txn" by (simp add: txn_sized_def txn_def)
  have "sign_verify_detached toy (tsignature txn) (generichash toy (enc (T_tuple (txn_body txn)))) (tsender txn)"
    by (simp add: toy_def txn_def txn_body_def del: enc.simps)
  with create_from_encoded(2) [OF toy_ok sz mem_at_whole]
  have "transaction_create_from_tuple toy (map Some (enc (T_tuple (txn_form txn)))) (parsed 0 (txn_form txn)) =
      Inr (Some (txn\<lparr>thash := generichash toy (enc (T_tuple (txn_body txn)))\<rparr>))"
    by (simp add: Let_def del: enc.simps)
  from this transaction_accepted_authentic [OF toy_ok this] show ?thesis by blast
qed

text \<open>
  C21: Handling a transaction message never fails an assertion, reads outside the message or reads an
  uninitialised byte, provided that every tuple nested directly in the message has at least four
  elements; the message is any tuple parsed from a readable buffer, or one nested in it.
\<close>

theorem transaction_message_safe:
  assumes "sodium_ok S keypair" "tuple_parse fuel mem (Some p) len = Inr (Some t)" "readable mem p len"
    and "s \<in> subtuples t" "\<forall>u. Sub u \<in> set (t_elements s) \<longrightarrow> 4 \<le> tuple_size u"
  shows "\<exists>r. transaction_create_from_tuple S mem s = Inr r"
proof -
  have "elem_in mem p (p + len) (Sub t)"
    using parse_in(1) [OF assms(2)] by (auto intro: elem_in_mono)
  then show ?thesis
    using transaction_create_total [OF assms(1,3) subtuple_in [OF assms(4)]] assms(5) by blast
qed

definition sample_txn :: transaction_t where
  "sample_txn = \<lparr>tsender = replicate 32 1, trecipient = replicate 32 2, tvalue = 5, tnonce = 0,
     tsignature = replicate 64 3, thash = []\<rparr>"

theorem transaction_message_safe_witness:
  "\<exists>r. transaction_create_from_tuple toy (map Some (enc (T_tuple (txn_form sample_txn))))
     (parsed 0 (txn_form sample_txn)) = Inr r"
proof (rule transaction_message_safe [OF toy_ok _ readable_whole subtuples.self])
  have sz: "txn_sized sample_txn" by (simp add: txn_sized_def sample_txn_def)
  show "tuple_parse (length (enc (T_tuple (txn_form sample_txn)))) (map Some (enc (T_tuple (txn_form sample_txn))))
     (Some 0) (length (enc (T_tuple (txn_form sample_txn)))) = Inr (Some (parsed 0 (txn_form sample_txn)))"
    by (rule tuple_parse_enc [OF wf_txn_form [OF sz] mem_at_whole]) simp_all
  show "\<forall>u. Sub u \<in> set (t_elements (parsed 0 (txn_form sample_txn))) \<longrightarrow> 4 \<le> tuple_size u"
    by (simp add: txn_form_def txn_body_def tuple_size_def)
qed

text \<open>
  The number of elements of the inner tuple is not checked before they are looked at: a
  message with a signature of the right size and a body of fewer than four elements (here: none)
  aborts the node.
\<close>

lemma transaction_short_body_aborts:
  assumes "sodium_ok S keypair" "length signature = 64"
    and "mem_at mem p (enc (T_tuple [T_tuple [], T_binary signature]))"
  shows "transaction_create_from_tuple S mem (parsed p [T_tuple [], T_binary signature]) = Inl Assert_failed"
proof -
  let ?vs = "[T_tuple [], T_binary signature]"
  have wf: "wf_tval (T_tuple ?vs)" using assms(2) by simp
  have "tuple_get_type mem (parsed p ?vs) 0 = Inr TUPLE_START"
    using parsed_kind [OF assms(3), of 0] by simp
  moreover have "binary_of_size mem (parsed p ?vs) 1 64 = Inr True"
    using parsed_binary(1) [OF assms(3) wf, of 1 signature] assms(2) by simp
  moreover obtain q where "tuple_get_tuple mem (parsed p ?vs) 0 = Inr (parsed q [])"
    using parsed_tuple [OF assms(3), of 0 "[]"] by auto
  moreover have "binary_of_size mem (parsed q []) 0 32 = Inl Assert_failed" for q
    by (simp add: binary_of_size_def tuple_get_type_def tuple_element_def)
  ultimately show ?thesis
    using sodium_sizes [OF assms(1)]
    by (simp add: transaction_create_from_tuple_def transaction_is_valid_def tuple_size_def
        del: enc.simps expects.simps expect.simps)
qed

lemma transaction_short_body_aborts_witness:
  "transaction_create_from_tuple toy (map Some (enc (T_tuple [T_tuple [], T_binary (replicate 64 0)])))
     (parsed 0 [T_tuple [], T_binary (replicate 64 0)]) = Inl Assert_failed"
  by (rule transaction_short_body_aborts [OF toy_ok _ mem_at_whole]) simp

end
