(* ===== verification/Store.thy ===== *)
theory Store
  imports CList CMap Transaction
begin

text \<open>
  The objects the program shares through pointers: blocks, accounts and transactions live in three
  heaps, and \<open>NULL\<close> is \<open>None\<close>. On top of this the structs of \<open>src/block.c\<close>, the accessors of
  blocks, accounts and transactions, and the walks along \<open>prev\<close> pointers
  (\<open>block_get_account\<close>, \<open>is_staking_allowed\<close>, \<open>block_has_ancestor\<close>).
\<close>

section \<open>Structs\<close>

record account_t =
  avalue :: u64
  aprev :: "addr option"
  ablock :: addr

record block_t =
  timestamp :: u64
  prev_block :: "addr option"
  bmerkle_root :: "byte list"
  public_key :: "byte list"
  sortition_proof :: "byte list"
  bsignature :: "byte list"
  delegate :: u32
  transactions :: "addr option list_t"
  bhash :: "byte list"
  sortition_seed :: "byte list"
  sortition_hash :: "byte list"
  sortition_priority :: "byte list"
  children :: "addr list_t"
  height :: u32
  accounts :: "(byte list, addr) map_t"

record store =
  s_blocks :: "block_t heap"
  s_accounts :: "account_t heap"
  s_txns :: "transaction_t heap"

definition N_ACCOUNT_BUCKETS :: nat where "N_ACCOUNT_BUCKETS = 16"
definition COINBASE_TRANSACTION :: u64 where "COINBASE_TRANSACTION = 1024"
definition DELEGATE_VALUE :: u64 where "DELEGATE_VALUE = 1024"
definition WAITING_PERIOD :: u32 where "WAITING_PERIOD = 16"

text \<open>The hash and comparison functions of the maps, on the bytes their keys point to.\<close>

definition key_hash :: "sodium \<Rightarrow> byte list \<Rightarrow> u64" where
  "key_hash S h = u64_of (take 8 (drop (generichash_BYTES S - 8) h))"

definition key_compare :: "sodium \<Rightarrow> byte list \<Rightarrow> byte list \<Rightarrow> int" where
  "key_compare S h1 h2 = memcmp h1 h2 (generichash_BYTES S)"

section \<open>Accessors and walks\<close>

definition account_get_value :: "store \<Rightarrow> addr option \<Rightarrow> u64 res" where
  "account_get_value st account =
     bindR (assertR (account \<noteq> None)) (\<lambda>_. bindR (heap_load (s_accounts st) (the account)) (\<lambda>a. Inr (avalue a)))"

definition account_get_block :: "store \<Rightarrow> addr option \<Rightarrow> addr res" where
  "account_get_block st account =
     bindR (assertR (account \<noteq> None)) (\<lambda>_. bindR (heap_load (s_accounts st) (the account)) (\<lambda>a. Inr (ablock a)))"

definition account_get_delegates :: "store \<Rightarrow> addr \<Rightarrow> u64 res" where
  "account_get_delegates st account =
     bindR (heap_load (s_accounts st) account) (\<lambda>a. Inr (avalue a div DELEGATE_VALUE))"

definition block_get_height :: "store \<Rightarrow> addr option \<Rightarrow> u32 res" where
  "block_get_height st block =
     (case block of None \<Rightarrow> Inr 0 | Some b \<Rightarrow> bindR (heap_load (s_blocks st) b) (\<lambda>blk. Inr (height blk)))"

definition block_get_prev :: "store \<Rightarrow> addr option \<Rightarrow> addr option res" where
  "block_get_prev st block =
     bindR (derefR block) (\<lambda>b. bindR (heap_load (s_blocks st) b) (\<lambda>blk. Inr (prev_block blk)))"

definition block_get_hash :: "sodium \<Rightarrow> store \<Rightarrow> addr option \<Rightarrow> byte list res" where
  "block_get_hash S st block =
     (case block of
        None \<Rightarrow> Inr (replicate (generichash_BYTES S) 0)
      | Some b \<Rightarrow> bindR (heap_load (s_blocks st) b) (\<lambda>blk. Inr (bhash blk)))"

definition block_get_priority :: "store \<Rightarrow> addr option \<Rightarrow> byte list res" where
  "block_get_priority st block =
     bindR (derefR block) (\<lambda>b. bindR (heap_load (s_blocks st) b) (\<lambda>blk. Inr (sortition_priority blk)))"

definition block_get_transaction :: "store \<Rightarrow> addr \<Rightarrow> nat \<Rightarrow> addr option res" where
  "block_get_transaction st block i =
     bindR (heap_load (s_blocks st) block) (\<lambda>blk. list_get (transactions blk) i)"

definition block_get_transaction_count :: "store \<Rightarrow> addr \<Rightarrow> nat res" where
  "block_get_transaction_count st block =
     bindR (heap_load (s_blocks st) block) (\<lambda>blk. Inr (list_size (transactions blk)))"

definition block_get_public_key :: "store \<Rightarrow> addr option \<Rightarrow> byte list res" where
  "block_get_public_key st block =
     bindR (derefR block) (\<lambda>b. bindR (heap_load (s_blocks st) b) (\<lambda>blk. Inr (public_key blk)))"

definition block_get_seed :: "store \<Rightarrow> addr option \<Rightarrow> byte list res" where
  "block_get_seed st block =
     bindR (derefR block) (\<lambda>b. bindR (heap_load (s_blocks st) b) (\<lambda>blk. Inr (sortition_seed blk)))"

definition block_get_timestamp :: "store \<Rightarrow> addr option \<Rightarrow> u64 res" where
  "block_get_timestamp st block =
     bindR (derefR block) (\<lambda>b. bindR (heap_load (s_blocks st) b) (\<lambda>blk. Inr (timestamp blk)))"

definition block_get_merkle_root :: "store \<Rightarrow> addr option \<Rightarrow> byte list res" where
  "block_get_merkle_root st block =
     bindR (derefR block) (\<lambda>b. bindR (heap_load (s_blocks st) b) (\<lambda>blk. Inr (bmerkle_root blk)))"

definition transaction_get_sender :: "store \<Rightarrow> addr option \<Rightarrow> byte list res" where
  "transaction_get_sender st txn =
     bindR (assertR (txn \<noteq> None)) (\<lambda>_. bindR (heap_load (s_txns st) (the txn)) (\<lambda>t. Inr (tsender t)))"

definition transaction_get_recipient :: "store \<Rightarrow> addr option \<Rightarrow> byte list res" where
  "transaction_get_recipient st txn =
     bindR (assertR (txn \<noteq> None)) (\<lambda>_. bindR (heap_load (s_txns st) (the txn)) (\<lambda>t. Inr (trecipient t)))"

definition transaction_get_value :: "store \<Rightarrow> addr option \<Rightarrow> u64 res" where
  "transaction_get_value st txn =
     bindR (assertR (txn \<noteq> None)) (\<lambda>_. bindR (heap_load (s_txns st) (the txn)) (\<lambda>t. Inr (tvalue t)))"

definition transaction_get_nonce :: "store \<Rightarrow> addr option \<Rightarrow> u32 res" where
  "transaction_get_nonce st txn =
     bindR (assertR (txn \<noteq> None)) (\<lambda>_. bindR (heap_load (s_txns st) (the txn)) (\<lambda>t. Inr (tnonce t)))"

definition transaction_get_signature :: "store \<Rightarrow> addr option \<Rightarrow> byte list res" where
  "transaction_get_signature st txn =
     bindR (assertR (txn \<noteq> None)) (\<lambda>_. bindR (heap_load (s_txns st) (the txn)) (\<lambda>t. Inr (tsignature t)))"

definition transaction_get_hash :: "store \<Rightarrow> addr option \<Rightarrow> byte list res" where
  "transaction_get_hash st txn =
     bindR (assertR (txn \<noteq> None)) (\<lambda>_. bindR (heap_load (s_txns st) (the txn)) (\<lambda>t. Inr (thash t)))"

text \<open>
  The loops follow \<open>prev\<close> pointers to the root. A chain never visits a block twice, so one more
  round than there are blocks (accounts) is enough.
\<close>

fun block_get_account_loop :: "nat \<Rightarrow> store \<Rightarrow> addr option \<Rightarrow> byte list \<Rightarrow> addr option res" where
  "block_get_account_loop 0 st block pk = Inl Out_of_fuel"
| "block_get_account_loop (Suc fuel) st block pk =
     (case block of
        None \<Rightarrow> Inr None
      | Some b \<Rightarrow>
          bindR (heap_load (s_blocks st) b) (\<lambda>blk.
          bindR (map_get (accounts blk) pk) (\<lambda>account.
            case account of
              Some a \<Rightarrow> Inr (Some a)
            | None \<Rightarrow> block_get_account_loop fuel st (prev_block blk) pk)))"

definition block_get_account :: "store \<Rightarrow> addr option \<Rightarrow> byte list \<Rightarrow> addr option res" where
  "block_get_account st block pk = block_get_account_loop (Suc (length (s_blocks st))) st block pk"

fun oldest_account :: "nat \<Rightarrow> store \<Rightarrow> addr \<Rightarrow> addr res" where
  "oldest_account 0 st account = Inl Out_of_fuel"
| "oldest_account (Suc fuel) st account =
     bindR (heap_load (s_accounts st) account) (\<lambda>a.
       case aprev a of None \<Rightarrow> Inr account | Some p \<Rightarrow> oldest_account fuel st p)"

definition is_staking_allowed :: "store \<Rightarrow> addr option \<Rightarrow> byte list \<Rightarrow> bool res" where
  "is_staking_allowed st block pk =
     (if block = None then Inr True
      else
        bindR (block_get_account st block pk) (\<lambda>account.
          case account of
            None \<Rightarrow> Inr False
          | Some a \<Rightarrow>
              bindR (account_get_delegates st a) (\<lambda>d.
              let delegates = ucast d :: u32 in
              if delegates = 0 then Inr False else
              bindR (block_get_height st block) (\<lambda>height.
              bindR (oldest_account (Suc (length (s_accounts st))) st a) (\<lambda>oldest.
              bindR (account_get_block st (Some oldest)) (\<lambda>account_block.
              bindR (block_get_height st (Some account_block)) (\<lambda>account_block_height.
                Inr (height \<le> WAITING_PERIOD \<or> account_block_height + WAITING_PERIOD \<le> height))))))))"

fun block_has_ancestor_loop :: "nat \<Rightarrow> store \<Rightarrow> addr option \<Rightarrow> addr option \<Rightarrow> bool res" where
  "block_has_ancestor_loop 0 st block ancestor = Inl Out_of_fuel"
| "block_has_ancestor_loop (Suc fuel) st block ancestor =
     (if block = ancestor then Inr True
      else if block = None then Inr False
      else if ancestor = None then Inr True
      else bindR (block_get_prev st block) (\<lambda>prev. block_has_ancestor_loop fuel st prev ancestor))"

definition block_has_ancestor :: "store \<Rightarrow> addr option \<Rightarrow> addr option \<Rightarrow> bool res" where
  "block_has_ancestor st block ancestor =
     block_has_ancestor_loop (Suc (length (s_blocks st))) st block ancestor"

end
