(* ===== verification/Ledger.thy ===== *)
theory Ledger
  imports Store
begin

text \<open>
  The ledger of a block (\<open>are_transactions_valid\<close> and the account lookups of \<open>src/block.c\<close>). The
  code keeps in each block a map of the accounts the block touched and walks back along the chain
  for the others; the specification is a function from keys to balances that is folded over the
  chain.
\<close>

section \<open>Crediting the accounts of a block\<close>

text \<open>
  \<open>open_account\<close> is the code that is written three times in \<open>are_transactions_valid\<close>: a new
  account whose value comes from the chain below the block.
\<close>

definition set_accounts :: "store \<Rightarrow> addr \<Rightarrow> (byte list, addr) map_t \<Rightarrow> store res" where
  "set_accounts st block m =
     bindR (heap_load (s_blocks st) block) (\<lambda>blk.
     bindR (heap_store (s_blocks st) block (blk\<lparr>accounts := m\<rparr>)) (\<lambda>bs. Inr (st\<lparr>s_blocks := bs\<rparr>)))"

definition open_account ::
  "store \<Rightarrow> addr \<Rightarrow> byte list \<Rightarrow> (u64 \<Rightarrow> u64) \<Rightarrow> (addr \<times> store) res" where
  "open_account st block key f =
     bindR (heap_load (s_blocks st) block) (\<lambda>blk.
     bindR (block_get_account st (prev_block blk) key) (\<lambda>prev.
     bindR (case prev of None \<Rightarrow> Inr 0
            | Some p \<Rightarrow> bindR (heap_load (s_accounts st) p) (\<lambda>a. Inr (avalue a))) (\<lambda>prev_value.
     let a = length (s_accounts st);
         st = st\<lparr>s_accounts := s_accounts st @ [Some \<lparr>avalue = f prev_value, aprev = prev, ablock = block\<rparr>]\<rparr> in
     bindR (map_set (accounts blk) key a) (\<lambda>(_, _, m).
     bindR (set_accounts st block m) (\<lambda>st. Inr (a, st))))))"

definition change_account ::
  "store \<Rightarrow> addr \<Rightarrow> byte list \<Rightarrow> (u64 \<Rightarrow> u64) \<Rightarrow> (addr \<times> store) res" where
  "change_account st block key f =
     bindR (heap_load (s_blocks st) block) (\<lambda>blk.
     bindR (map_get (accounts blk) key) (\<lambda>account.
       case account of
         Some a \<Rightarrow>
           bindR (heap_load (s_accounts st) a) (\<lambda>acc.
           bindR (heap_store (s_accounts st) a (acc\<lparr>avalue := f (avalue acc)\<rparr>)) (\<lambda>h.
             Inr (a, st\<lparr>s_accounts := h\<rparr>)))
       | None \<Rightarrow> open_account st block key f))"

definition load_txn :: "store \<Rightarrow> addr option \<Rightarrow> transaction_t res" where
  "load_txn st p = bindR (assertR (p \<noteq> None)) (\<lambda>_. heap_load (s_txns st) (the p))"

text \<open>
  The loop body asks for the sender, the recipient and the value one by one; \<open>load_txn\<close> is the one
  read behind the accessors.
\<close>

lemma transaction_getters:
  "transaction_get_sender st p = bindR (load_txn st p) (\<lambda>t. Inr (tsender t))"
  "transaction_get_recipient st p = bindR (load_txn st p) (\<lambda>t. Inr (trecipient t))"
  "transaction_get_value st p = bindR (load_txn st p) (\<lambda>t. Inr (tvalue t))"
  by (cases "p = None"; simp add: transaction_get_sender_def transaction_get_recipient_def
      transaction_get_value_def load_txn_def assertR_def bindR_def)+

text \<open>One round of the loop over the transactions; the result says whether to go on.\<close>

definition apply_txn :: "store \<Rightarrow> addr \<Rightarrow> nat \<Rightarrow> (bool \<times> store) res" where
  "apply_txn st block i =
     bindR (block_get_transaction st block i) (\<lambda>p.
     bindR (load_txn st p) (\<lambda>txn.
     bindR (change_account st block (tsender txn) (\<lambda>v. v - tvalue txn)) (\<lambda>(a, st).
     bindR (account_get_value st (Some a)) (\<lambda>v.
       if v < 0 then Inr (False, st)
       else bindR (change_account st block (trecipient txn) (\<lambda>v. v + tvalue txn)) (\<lambda>(_, st).
         Inr (True, st))))))"

fun apply_txns :: "nat list \<Rightarrow> store \<Rightarrow> addr \<Rightarrow> (bool \<times> store) res" where
  "apply_txns [] st block = Inr (True, st)"
| "apply_txns (i # is) st block =
     bindR (apply_txn st block i) (\<lambda>(ok, st).
       if \<not> ok then Inr (False, st) else apply_txns is st block)"

definition are_transactions_valid :: "store \<Rightarrow> addr \<Rightarrow> (bool \<times> store) res" where
  "are_transactions_valid st block =
     bindR (heap_load (s_blocks st) block) (\<lambda>blk.
     bindR (open_account st block (public_key blk) (\<lambda>v. v + COINBASE_TRANSACTION)) (\<lambda>(_, st).
     bindR (block_get_transaction_count st block) (\<lambda>n.
       apply_txns [0..<n] st block)))"

section \<open>The ledger as a function of the chain\<close>

type_synonym ledger = "byte list \<Rightarrow> u64 option"

record entry =
  creator :: "byte list"
  transfers :: "(byte list \<times> byte list \<times> u64) list"

definition credit :: "byte list \<Rightarrow> (u64 \<Rightarrow> u64) \<Rightarrow> ledger \<Rightarrow> ledger" where
  "credit k f L = L(k := Some (f (case L k of None \<Rightarrow> 0 | Some v \<Rightarrow> v)))"

definition transfer :: "byte list \<times> byte list \<times> u64 \<Rightarrow> ledger \<Rightarrow> ledger" where
  "transfer t L = (case t of (s, r, v) \<Rightarrow> credit r (\<lambda>x. x + v) (credit s (\<lambda>x. x - v) L))"

definition apply_entry :: "entry \<Rightarrow> ledger \<Rightarrow> ledger" where
  "apply_entry e L = fold transfer (transfers e) (credit (creator e) (\<lambda>x. x + 1024) L)"

text \<open>Chains are listed from the newest block to the root.\<close>

fun ledger_of :: "entry list \<Rightarrow> ledger" where
  "ledger_of [] = (\<lambda>_. None)"
| "ledger_of (e # es) = apply_entry e (ledger_of es)"

definition touched :: "entry \<Rightarrow> byte list set" where
  "touched e = insert (creator e) (\<Union>(s, r, v) \<in> set (transfers e). {s, r})"

text \<open>The height of the block in which a key appears first.\<close>

fun known_since :: "entry list \<Rightarrow> byte list \<Rightarrow> nat option" where
  "known_since [] k = None"
| "known_since (e # es) k =
     (case known_since es k of
        Some h \<Rightarrow> Some h
      | None \<Rightarrow> if k \<in> touched e then Some (Suc (length es)) else None)"

lemma credit_other [simp]: "k' \<noteq> k \<Longrightarrow> credit k f L k' = L k'"
  by (simp add: credit_def)

lemma dom_credit: "dom (credit k f L) = insert k (dom L)"
  by (auto simp: credit_def)

lemma dom_transfers: "dom (fold transfer ts L) = dom L \<union> (\<Union>(s, r, v) \<in> set ts. {s, r})"
proof (induction ts arbitrary: L)
  case (Cons t ts)
  then show ?case by (cases t) (auto simp: transfer_def dom_credit)
qed simp

lemma dom_apply_entry: "dom (apply_entry e L) = dom L \<union> touched e"
  by (auto simp: apply_entry_def dom_transfers dom_credit touched_def)

lemma known_since_ledger: "known_since es k = None \<longleftrightarrow> ledger_of es k = None"
proof (induction es)
  case (Cons e es)
  then show ?case using dom_apply_entry [of e "ledger_of es"] by (auto split: option.splits)
qed simp

lemma fold_transfer_other:
  "k \<notin> (\<Union>(s, r, v) \<in> set ts. {s, r}) \<Longrightarrow> fold transfer ts L k = L k"
proof (induction ts arbitrary: L)
  case (Cons t ts)
  then show ?case by (cases t) (auto simp: transfer_def)
qed simp

lemma apply_entry_other: "k \<notin> touched e \<Longrightarrow> apply_entry e L k = L k"
  unfolding apply_entry_def touched_def by (subst fold_transfer_other) auto

subsection \<open>Supply\<close>

definition total_supply :: "ledger \<Rightarrow> u64" where
  "total_supply L = (\<Sum>k \<in> dom L. the (L k))"

lemma total_supply_credit:
  assumes "finite (dom L)"
  shows "total_supply (credit k f L) = total_supply L - (case L k of None \<Rightarrow> 0 | Some v \<Rightarrow> v) + f (case L k of None \<Rightarrow> 0 | Some v \<Rightarrow> v)"
proof -
  have "total_supply (credit k f L) = the (credit k f L k) + (\<Sum>k' \<in> dom L - {k}. the (credit k f L k'))"
    using assms by (simp add: total_supply_def dom_credit sum.insert_remove)
  also have "(\<Sum>k' \<in> dom L - {k}. the (credit k f L k')) = (\<Sum>k' \<in> dom L - {k}. the (L k'))"
    by (rule sum.cong) simp_all
  also have "\<dots> = total_supply L - (case L k of None \<Rightarrow> 0 | Some v \<Rightarrow> v)"
  proof (cases "L k")
    case None
    then have "dom L - {k} = dom L" by auto
    then show ?thesis using None by (simp add: total_supply_def)
  next
    case (Some v)
    then have "total_supply L = v + (\<Sum>k' \<in> dom L - {k}. the (L k'))"
      using sum.remove [of "dom L" k "\<lambda>k. the (L k)"] assms by (auto simp: total_supply_def)
    then show ?thesis using Some by simp
  qed
  finally show ?thesis by (simp only: add.commute) (simp add: credit_def)
qed

lemma finite_transfers: "finite (dom L) \<Longrightarrow> finite (dom (fold transfer ts L))"
  by (auto simp: dom_transfers)

lemma total_supply_transfers: "finite (dom L) \<Longrightarrow> total_supply (fold transfer ts L) = total_supply L"
proof (induction ts arbitrary: L)
  case (Cons t ts)
  obtain s r v where t: "t = (s, r, v)" by (cases t) auto
  have fin: "finite (dom (credit s (\<lambda>x. x - v) L))" using Cons.prems by (simp add: dom_credit)
  then have "total_supply (transfer t L) = total_supply L"
    using Cons.prems by (simp add: t transfer_def total_supply_credit)
  moreover have "finite (dom (transfer t L))" using fin by (simp add: t transfer_def dom_credit)
  ultimately show ?case using Cons.IH by simp
qed simp

lemma finite_ledger: "finite (dom (ledger_of es))"
proof (induction es)
  case (Cons e es)
  have "finite (touched e)" by (auto simp: touched_def)
  then show ?case using Cons by (simp add: dom_apply_entry)
qed simp

lemma total_supply_ledger: "total_supply (ledger_of es) = 1024 * of_nat (length es)"
proof (induction es)
  case (Cons e es)
  have "total_supply (ledger_of (e # es)) = total_supply (credit (creator e) (\<lambda>x. x + 1024) (ledger_of es))"
    by (simp add: apply_entry_def total_supply_transfers dom_credit finite_ledger)
  also have "\<dots> = total_supply (ledger_of es) + 1024"
    by (simp add: total_supply_credit finite_ledger)
  finally show ?case using Cons by (simp add: algebra_simps)
qed (simp add: total_supply_def)


section \<open>Chains in the store\<close>

abbreviation blk :: "store \<Rightarrow> addr \<Rightarrow> block_t" where
  "blk st b \<equiv> obj (s_blocks st) b"

function chain_from :: "store \<Rightarrow> addr \<Rightarrow> addr list" where
  "chain_from st b =
     b # (case prev_block (blk st b) of
            None \<Rightarrow> []
          | Some p \<Rightarrow> if p < b then chain_from st p else [])"
  by pat_completeness auto
termination
  by (relation "measure snd") auto

declare chain_from.simps [simp del]

definition chain :: "store \<Rightarrow> addr option \<Rightarrow> addr list" where
  "chain st bo = (case bo of None \<Rightarrow> [] | Some b \<Rightarrow> chain_from st b)"

definition txn_entry :: "store \<Rightarrow> addr option \<Rightarrow> byte list \<times> byte list \<times> u64" where
  "txn_entry st p = (let t = obj (s_txns st) (the p) in (tsender t, trecipient t, tvalue t))"

definition block_entry :: "store \<Rightarrow> addr \<Rightarrow> entry" where
  "block_entry st b = \<lparr>creator = public_key (blk st b),
     transfers = map (txn_entry st) (list_elems (transactions (blk st b)))\<rparr>"

definition entries :: "store \<Rightarrow> addr option \<Rightarrow> entry list" where
  "entries st bo = map (block_entry st) (chain st bo)"

definition ledger :: "store \<Rightarrow> addr option \<Rightarrow> ledger" where
  "ledger st bo = ledger_of (entries st bo)"

fun lookup_in :: "store \<Rightarrow> addr list \<Rightarrow> byte list \<Rightarrow> addr option" where
  "lookup_in st [] k = None"
| "lookup_in st (b # bs) k =
     (case map_abs (accounts (blk st b)) k of Some a \<Rightarrow> Some a | None \<Rightarrow> lookup_in st bs k)"

definition lookup :: "store \<Rightarrow> addr option \<Rightarrow> byte list \<Rightarrow> addr option" where
  "lookup st bo k = lookup_in st (chain st bo) k"

definition key_ok :: "byte list \<Rightarrow> bool" where
  "key_ok k \<longleftrightarrow> length k = 32"

definition txn_ptr_ok :: "store \<Rightarrow> addr option \<Rightarrow> bool" where
  "txn_ptr_ok st p \<longleftrightarrow> (\<exists>q. p = Some q \<and> alive (s_txns st) q \<and> txn_sized (obj (s_txns st) q))"

text \<open>What holds of the transactions of a block before its accounts are built.\<close>

definition body_ok :: "store \<Rightarrow> addr \<Rightarrow> block_t \<Rightarrow> bool" where
  "body_ok st b x \<longleftrightarrow>
     (\<forall>p. prev_block x = Some p \<longrightarrow> p < b \<and> alive (s_blocks st) p) \<and>
     key_ok (public_key x) \<and> list_ok (children x) \<and> list_rd (transactions x) \<and>
     (\<forall>p \<in> set (list_elems (transactions x)). txn_ptr_ok st p) \<and>
     height x = of_nat (length (chain st (prev_block x))) + 1"

definition accounts_ok :: "store \<Rightarrow> addr \<Rightarrow> block_t \<Rightarrow> bool" where
  "accounts_ok st b x \<longleftrightarrow>
     map_ok key_ok (accounts x) \<and> dom (map_abs (accounts x)) = touched (block_entry st b) \<and>
     (\<forall>k a. map_abs (accounts x) k = Some a \<longrightarrow> alive (s_accounts st) a \<and>
        ablock (obj (s_accounts st) a) = b \<and>
        aprev (obj (s_accounts st) a) = lookup st (prev_block x) k \<and>
        (\<forall>p. aprev (obj (s_accounts st) a) = Some p \<longrightarrow> p < a) \<and>
        ledger st (Some b) k = Some (avalue (obj (s_accounts st) a))) \<and>
     (\<forall>k k' a. map_abs (accounts x) k = Some a \<longrightarrow> map_abs (accounts x) k' = Some a \<longrightarrow> k = k')"

definition blocks_ok :: "store \<Rightarrow> nat \<Rightarrow> bool" where
  "blocks_ok st n \<longleftrightarrow>
     (\<forall>b < n. alive (s_blocks st) b \<longrightarrow> body_ok st b (blk st b) \<and> accounts_ok st b (blk st b))"

definition store_ok :: "store \<Rightarrow> bool" where
  "store_ok st \<longleftrightarrow> blocks_ok st (length (s_blocks st))"

definition known :: "store \<Rightarrow> nat \<Rightarrow> addr option \<Rightarrow> bool" where
  "known st n bo \<longleftrightarrow> (\<forall>b. bo = Some b \<longrightarrow> b < n \<and> alive (s_blocks st) b)"

lemma known_simps [simp]:
  "known st n None" "known st n (Some b) \<longleftrightarrow> b < n \<and> alive (s_blocks st) b"
  by (auto simp: known_def)

lemma chain_None [simp]: "chain st None = []"
  by (simp add: chain_def)

lemma entries_None [simp]: "entries st None = []"
  by (simp add: entries_def)

lemma ledger_None [simp]: "ledger st None = (\<lambda>_. None)"
  by (simp add: ledger_def)

lemma lookup_None [simp]: "lookup st None k = None"
  by (simp add: lookup_def)

lemma blocks_okD:
  assumes "blocks_ok st n" "b < n" "alive (s_blocks st) b"
  shows "body_ok st b (blk st b)" "accounts_ok st b (blk st b)"
  using assms by (auto simp: blocks_ok_def)

lemma prev_known:
  assumes "body_ok st b x" "b \<le> n"
  shows "known st n (prev_block x)" "known st b (prev_block x)"
  using assms by (auto simp: body_ok_def known_def)

lemma chain_Some:
  assumes "\<forall>p. prev_block (blk st b) = Some p \<longrightarrow> p < b"
  shows "chain st (Some b) = b # chain st (prev_block (blk st b))"
  using assms by (simp add: chain_def chain_from.simps [of st b] split: option.splits)

lemma chain_ok:
  "blocks_ok st n \<Longrightarrow> b < n \<Longrightarrow> alive (s_blocks st) b \<Longrightarrow>
     chain st (Some b) = b # chain st (prev_block (blk st b))"
  using blocks_okD(1) [of st n b] by (intro chain_Some) (auto simp: body_ok_def)

lemma entries_Some:
  "\<forall>p. prev_block (blk st b) = Some p \<longrightarrow> p < b \<Longrightarrow>
     entries st (Some b) = block_entry st b # entries st (prev_block (blk st b))"
  by (simp add: entries_def chain_Some)

lemma ledger_Some:
  "\<forall>p. prev_block (blk st b) = Some p \<longrightarrow> p < b \<Longrightarrow>
     ledger st (Some b) = apply_entry (block_entry st b) (ledger st (prev_block (blk st b)))"
  by (simp add: ledger_def entries_Some)

lemma lookup_Some:
  "\<forall>p. prev_block (blk st b) = Some p \<longrightarrow> p < b \<Longrightarrow>
     lookup st (Some b) k =
       (case map_abs (accounts (blk st b)) k of Some a \<Rightarrow> Some a | None \<Rightarrow> lookup st (prev_block (blk st b)) k)"
  by (simp add: lookup_def chain_Some split: option.split)

text \<open>Induction along the chain of a known block.\<close>

lemma chain_induct [consumes 2, case_names root step]:
  assumes "blocks_ok st n" "known st n bo"
    and root: "P None"
    and step: "\<And>b. b < n \<Longrightarrow> alive (s_blocks st) b \<Longrightarrow> body_ok st b (blk st b) \<Longrightarrow>
      accounts_ok st b (blk st b) \<Longrightarrow> \<forall>p. prev_block (blk st b) = Some p \<longrightarrow> p < b \<Longrightarrow>
      known st n (prev_block (blk st b)) \<Longrightarrow> P (prev_block (blk st b)) \<Longrightarrow> P (Some b)"
  shows "P bo"
proof (cases bo)
  case (Some b)
  with assms(2) have "b < n" "alive (s_blocks st) b" by auto
  then have "P (Some b)"
  proof (induction b rule: less_induct)
    case (less b)
    note D = blocks_okD [OF assms(1) less.prems]
    have prev: "\<forall>p. prev_block (blk st b) = Some p \<longrightarrow> p < b \<and> alive (s_blocks st) p"
      using D(1) by (auto simp: body_ok_def)
    have "P (prev_block (blk st b))"
      using prev less.IH less.prems(1) root by (cases "prev_block (blk st b)") auto
    then show ?case
      using prev by (intro step [OF less.prems D]) (use less.prems(1) in \<open>auto simp: known_def\<close>)
  qed
  then show ?thesis by (simp add: Some)
qed (simp add: root)

lemma chain_length:
  assumes "blocks_ok st n" "known st n bo"
  shows "length (chain st bo) \<le> n" "\<forall>c \<in> set (chain st bo). c < n \<and> alive (s_blocks st) c"
proof -
  have "length (chain st bo) \<le> (case bo of None \<Rightarrow> 0 | Some b \<Rightarrow> Suc b) \<and>
      (\<forall>c \<in> set (chain st bo). c < n \<and> alive (s_blocks st) c)"
    using assms
  proof (induction rule: chain_induct)
    case (step b)
    have "(case prev_block (blk st b) of None \<Rightarrow> 0 | Some p \<Rightarrow> Suc p) \<le> b"
      using step(5) by (auto split: option.splits)
    then show ?case using step by (auto simp: chain_Some)
  qed simp
  then show "length (chain st bo) \<le> n" "\<forall>c \<in> set (chain st bo). c < n \<and> alive (s_blocks st) c"
    using assms(2) by (auto split: option.splits)
qed

section \<open>Account lookup\<close>

lemma get_account_loop:
  assumes "blocks_ok st n" "known st n bo" "key_ok k" "length (chain st bo) < fuel"
  shows "block_get_account_loop fuel st bo k = Inr (lookup st bo k)"
  using assms(1,2,4)
proof (induction arbitrary: fuel rule: chain_induct)
  case root
  then show ?case by (cases fuel) auto
next
  case (step b)
  then obtain f where f: "fuel = Suc f" by (cases fuel) auto
  have "map_get (accounts (blk st b)) k = Inr (map_abs (accounts (blk st b)) k)"
    using step(4) assms(3) by (intro map_get_abs [where valid = key_ok]) (auto simp: accounts_ok_def)
  then show ?case
    using step f by (auto simp: lookup_Some chain_Some split: option.splits)
qed

lemma block_get_account_lookup:
  assumes "blocks_ok st n" "known st n bo" "key_ok k" "n \<le> length (s_blocks st)"
  shows "block_get_account st bo k = Inr (lookup st bo k)"
  unfolding block_get_account_def
  using chain_length(1) [OF assms(1,2)] assms(4) by (intro get_account_loop [OF assms(1-3)]) simp

lemma lookup_account:
  assumes "blocks_ok st n" "known st n bo"
  shows "lookup st bo k = None \<Longrightarrow> ledger st bo k = None"
    and "lookup st bo k = Some a \<Longrightarrow> alive (s_accounts st) a \<and> ledger st bo k = Some (avalue (obj (s_accounts st) a))"
proof -
  have "(lookup st bo k = None \<longrightarrow> ledger st bo k = None) \<and>
    (\<forall>a. lookup st bo k = Some a \<longrightarrow>
       alive (s_accounts st) a \<and> ledger st bo k = Some (avalue (obj (s_accounts st) a)))"
    using assms
  proof (induction rule: chain_induct)
    case (step b)
    show ?case
    proof (cases "map_abs (accounts (blk st b)) k")
      case None
      then have "k \<notin> touched (block_entry st b)" using step(4) by (auto simp: accounts_ok_def)
      then show ?thesis using step None by (simp add: lookup_Some ledger_Some apply_entry_other)
    next
      case (Some a)
      then show ?thesis using step by (auto simp: lookup_Some accounts_ok_def)
    qed
  qed simp
  then show "lookup st bo k = None \<Longrightarrow> ledger st bo k = None"
    and "lookup st bo k = Some a \<Longrightarrow> alive (s_accounts st) a \<and> ledger st bo k = Some (avalue (obj (s_accounts st) a))"
    by blast+
qed


section \<open>The staking rule\<close>

definition delegates :: "u64 \<Rightarrow> u32" where
  "delegates v = ucast (v div 1024)"

definition may_stake :: "entry list \<Rightarrow> byte list \<Rightarrow> bool" where
  "may_stake es k \<longleftrightarrow> es = [] \<or>
     (\<exists>v h. ledger_of es k = Some v \<and> known_since es k = Some h \<and> delegates v \<noteq> 0 \<and>
        (length es \<le> 16 \<or> h + 16 \<le> length es))"

lemma height_chain:
  assumes "blocks_ok st n" "known st n bo"
  shows "block_get_height st bo = Inr (of_nat (length (chain st bo)))"
proof (cases bo)
  case (Some b)
  then have "body_ok st b (blk st b)" "b < n" "alive (s_blocks st) b"
    using assms blocks_okD(1) by auto
  then show ?thesis
    using Some chain_ok [OF assms(1)] by (simp add: block_get_height_def body_ok_def)
qed (simp add: block_get_height_def)

lemma oldest_account_since:
  assumes "blocks_ok st n" "known st n bo" "lookup st bo k = Some a" "a < fuel"
  shows "\<exists>a0 h. oldest_account fuel st a = Inr a0 \<and> alive (s_accounts st) a0 \<and>
    known st n (Some (ablock (obj (s_accounts st) a0))) \<and>
    known_since (entries st bo) k = Some h \<and> h \<le> length (entries st bo) \<and>
    block_get_height st (Some (ablock (obj (s_accounts st) a0))) = Inr (of_nat h)"
  using assms
proof (induction arbitrary: a fuel rule: chain_induct)
  case (step b)
  then obtain f where f: "fuel = Suc f" by (cases fuel) auto
  let ?prev = "prev_block (blk st b)"
  note E = entries_Some [OF step(5)] lookup_Some [OF step(5)]
  show ?case
  proof (cases "map_abs (accounts (blk st b)) k")
    case None
    then have "lookup st ?prev k = Some a" using step.prems(1) E by simp
    from step(7) [OF this step.prems(2)] show ?thesis by (auto simp: E)
  next
    case (Some a')
    then have a: "map_abs (accounts (blk st b)) k = Some a" using step.prems(1) E by simp
    then have A: "alive (s_accounts st) a" "ablock (obj (s_accounts st) a) = b"
      "aprev (obj (s_accounts st) a) = lookup st ?prev k"
      "\<forall>p. aprev (obj (s_accounts st) a) = Some p \<longrightarrow> p < a" "k \<in> touched (block_entry st b)"
      using step(4) by (auto simp: accounts_ok_def)
    show ?thesis
    proof (cases "lookup st ?prev k")
      case None
      then have "known_since (entries st ?prev) k = None"
        using lookup_account(1) [OF assms(1) step(6)] by (simp add: known_since_ledger ledger_def)
      moreover have "length (entries st ?prev) = length (chain st ?prev)" by (simp add: entries_def)
      moreover have "height (blk st b) = 1 + of_nat (length (chain st ?prev))"
        using step(3) by (simp add: body_ok_def)
      ultimately show ?thesis
        using A f None step(1,2) by (simp add: E(1) block_get_height_def)
    next
      case (Some p)
      then have "p < f" using A(3,4) step.prems(2) f by auto
      from step(7) [OF Some this] show ?thesis using A(1,3) f Some by (auto simp: E)
    qed
  qed
qed simp

lemma account_get_delegates_value:
  "alive (s_accounts st) a \<Longrightarrow>
     account_get_delegates st a = Inr (avalue (obj (s_accounts st) a) div 1024)"
  by (simp add: account_get_delegates_def DELEGATE_VALUE_def)

lemma word_height_le:
  assumes "m < 2 ^ 31" "n < 2 ^ 31"
  shows "(of_nat m :: u32) + 16 \<le> of_nat n \<longleftrightarrow> m + 16 \<le> n" "(of_nat n :: u32) \<le> 16 \<longleftrightarrow> n \<le> 16"
proof -
  have m: "unat ((of_nat m :: u32) + 16) = m + 16" "unat (of_nat n :: u32) = n"
    using assms by (simp_all add: unat_word_ariths unat_of_nat)
  show "(of_nat m :: u32) + 16 \<le> of_nat n \<longleftrightarrow> m + 16 \<le> n"
    by (simp only: word_le_nat_alt m)
  show "(of_nat n :: u32) \<le> 16 \<longleftrightarrow> n \<le> 16"
    by (simp only: word_le_nat_alt m) simp
qed

lemma is_staking_allowed_rule:
  assumes ok: "blocks_ok st n" "known st n bo" "key_ok k" "n \<le> length (s_blocks st)"
    and len: "length (chain st bo) < 2 ^ 31"
  shows "is_staking_allowed st bo k = Inr (may_stake (entries st bo) k)"
proof (cases bo)
  case (Some b)
  then have ne: "entries st bo \<noteq> []" using chain_ok [OF ok(1)] ok(2) by (simp add: entries_def)
  have len': "length (entries st bo) < 2 ^ 31" using len by (simp add: entries_def)
  have le: "length (chain st bo) = length (entries st bo)" by (simp add: entries_def)
  note G = block_get_account_lookup [OF ok] height_chain [OF ok(1,2), unfolded le]
  show ?thesis
  proof (cases "lookup st bo k")
    case None
    then have "ledger_of (entries st bo) k = None"
      using lookup_account(1) [OF ok(1,2)] by (simp add: ledger_def)
    then show ?thesis using G None ne Some by (simp add: is_staking_allowed_def may_stake_def)
  next
    case l: (Some a)
    have A: "alive (s_accounts st) a" "ledger_of (entries st bo) k = Some (avalue (obj (s_accounts st) a))"
      using lookup_account(2) [OF ok(1,2) l] by (simp_all add: ledger_def)
    obtain a0 h where o: "oldest_account (Suc (length (s_accounts st))) st a = Inr a0"
        "alive (s_accounts st) a0" "known_since (entries st bo) k = Some h" "h \<le> length (entries st bo)"
        "block_get_height st (Some (ablock (obj (s_accounts st) a0))) = Inr (of_nat h)"
      using oldest_account_since [OF ok(1,2) l, of "Suc (length (s_accounts st))"] alive_less [OF A(1)] by auto
    have h: "h < 2 ^ 31" using o(4) len' by simp
    show ?thesis
      using G l A o ne Some word_height_le [OF h len']
      by (simp add: is_staking_allowed_def may_stake_def account_get_delegates_value delegates_def
          account_get_block_def WAITING_PERIOD_def Let_def del: oldest_account.simps)
  qed
qed (simp add: is_staking_allowed_def may_stake_def)


section \<open>Changes that keep the blocks\<close>

text \<open>
  \<open>extends n st st'\<close>: the first \<open>n\<close> blocks are as before except for their lists of children, and
  no account or transaction has changed.
\<close>

definition extends :: "nat \<Rightarrow> store \<Rightarrow> store \<Rightarrow> bool" where
  "extends n st st' \<longleftrightarrow>
     (\<forall>b < n. (alive (s_blocks st') b \<longleftrightarrow> alive (s_blocks st) b) \<and>
        (alive (s_blocks st) b \<longrightarrow> list_ok (children (blk st' b)) \<and>
           (blk st' b)\<lparr>children := children (blk st b)\<rparr> = blk st b)) \<and>
     (\<forall>a. alive (s_accounts st) a \<longrightarrow> alive (s_accounts st') a \<and> s_accounts st' ! a = s_accounts st ! a) \<and>
     (\<forall>t. alive (s_txns st) t \<longrightarrow> alive (s_txns st') t \<and> s_txns st' ! t = s_txns st ! t)"

lemma extendsD:
  assumes "extends n st st'"
  shows "b < n \<Longrightarrow> alive (s_blocks st') b \<longleftrightarrow> alive (s_blocks st) b"
    "b < n \<Longrightarrow> alive (s_blocks st) b \<Longrightarrow> list_ok (children (blk st' b))"
    "b < n \<Longrightarrow> alive (s_blocks st) b \<Longrightarrow> (blk st' b)\<lparr>children := children (blk st b)\<rparr> = blk st b"
    "alive (s_accounts st) a \<Longrightarrow> alive (s_accounts st') a \<and> s_accounts st' ! a = s_accounts st ! a"
    "alive (s_txns st) t \<Longrightarrow> alive (s_txns st') t \<and> s_txns st' ! t = s_txns st ! t"
  using assms by (auto simp: extends_def)

lemma same_fields:
  assumes "x\<lparr>children := c\<rparr> = (y :: block_t)"
  shows "prev_block x = prev_block y" "public_key x = public_key y" "transactions x = transactions y"
    "height x = height y" "accounts x = accounts y" "bhash x = bhash y"
    "sortition_priority x = sortition_priority y" "sortition_seed x = sortition_seed y"
    "bmerkle_root x = bmerkle_root y" "sortition_proof x = sortition_proof y" "delegate x = delegate y"
    "timestamp x = timestamp y" "bsignature x = bsignature y"
  using assms by auto

lemma extends_refl:
  "\<forall>b < n. alive (s_blocks st) b \<longrightarrow> list_ok (children (blk st b)) \<Longrightarrow> extends n st st"
  by (simp add: extends_def)

lemma extends_mono: "n \<le> m \<Longrightarrow> extends m st st' \<Longrightarrow> extends n st st'"
  unfolding extends_def by auto

lemma blocks_ok_refl: "blocks_ok st n \<Longrightarrow> extends n st st"
  by (rule extends_refl) (auto simp: blocks_ok_def body_ok_def)

lemma extends_trans:
  assumes "extends n st1 st2" "extends n st2 st3"
  shows "extends n st1 st3"
proof -
  have "(blk st3 b)\<lparr>children := children (blk st1 b)\<rparr> = blk st1 b"
    if b: "b < n" "alive (s_blocks st1) b" for b
  proof -
    have "(blk st2 b)\<lparr>children := children (blk st1 b)\<rparr> = blk st1 b"
      using extendsD(3) [OF assms(1) b] .
    moreover have "(blk st3 b)\<lparr>children := children (blk st2 b)\<rparr> = blk st2 b"
      using extendsD(1) [OF assms(1) b(1)] extendsD(3) [OF assms(2) b(1)] b(2) by blast
    moreover have "(blk st3 b)\<lparr>children := children (blk st1 b)\<rparr> =
        ((blk st3 b)\<lparr>children := children (blk st2 b)\<rparr>)\<lparr>children := children (blk st1 b)\<rparr>" by simp
    ultimately show ?thesis by (simp only:)
  qed
  then show ?thesis
    unfolding extends_def
    using extendsD [OF assms(1)] extendsD [OF assms(2)] by simp
qed


lemma extends_fields:
  assumes "extends n st st'" "b < n" "alive (s_blocks st) b"
  shows "prev_block (blk st' b) = prev_block (blk st b)" "public_key (blk st' b) = public_key (blk st b)"
    "transactions (blk st' b) = transactions (blk st b)" "height (blk st' b) = height (blk st b)"
    "accounts (blk st' b) = accounts (blk st b)" "bhash (blk st' b) = bhash (blk st b)"
    "sortition_priority (blk st' b) = sortition_priority (blk st b)"
    "list_ok (children (blk st' b))" "alive (s_blocks st') b"
  using same_fields [OF extendsD(3) [OF assms]] extendsD(1,2) [OF assms(1,2)] assms(3) by simp_all

lemma txn_ptr_extends:
  assumes "extends n st st'" "txn_ptr_ok st p"
  shows "txn_ptr_ok st' p" "txn_entry st' p = txn_entry st p"
  using assms(2) extendsD(5) [OF assms(1)] by (auto simp: txn_ptr_ok_def txn_entry_def Let_def)

lemma block_entry_extends:
  assumes "extends n st st'" "b < n" "alive (s_blocks st) b" "body_ok st b (blk st b)"
  shows "block_entry st' b = block_entry st b"
proof -
  have "map (txn_entry st') (list_elems (transactions (blk st b))) =
      map (txn_entry st) (list_elems (transactions (blk st b)))"
    using assms(4) txn_ptr_extends(2) [OF assms(1)] by (simp add: body_ok_def)
  then show ?thesis using extends_fields [OF assms(1-3)] by (simp add: block_entry_def)
qed

lemma chain_extends:
  assumes "blocks_ok st n" "known st n bo" "extends n st st'"
  shows "chain st' bo = chain st bo" "entries st' bo = entries st bo" "ledger st' bo = ledger st bo"
    "lookup st' bo k = lookup st bo k" "known st' n bo"
proof -
  have "chain st' bo = chain st bo \<and> entries st' bo = entries st bo \<and> lookup st' bo k = lookup st bo k"
    using assms(1,2)
  proof (induction rule: chain_induct)
    case (step b)
    note F = extends_fields [OF assms(3) step(1,2)]
    have "\<forall>p. prev_block (blk st' b) = Some p \<longrightarrow> p < b" using step(5) F by simp
    note X = this chain_Some [OF this] entries_Some [OF this] lookup_Some [OF this]
    show ?case
      using step(7) F block_entry_extends [OF assms(3) step(1,2,3)] X(2-4)
        chain_Some [OF step(5)] entries_Some [OF step(5)] lookup_Some [OF step(5)]
      by (simp split: option.split)
  qed simp
  then show "chain st' bo = chain st bo" "entries st' bo = entries st bo" "ledger st' bo = ledger st bo"
    "lookup st' bo k = lookup st bo k"
    by (simp_all add: ledger_def)
  show "known st' n bo" using assms(2) extendsD(1) [OF assms(3)] by (auto simp: known_def)
qed

lemma body_ok_extends:
  assumes "blocks_ok st n" "extends n st st'" "b \<le> n" "body_ok st b x"
  shows "body_ok st' b x"
proof -
  have "known st n (prev_block x)" using prev_known(1) [OF assms(4,3)] .
  from chain_extends(1,5) [OF assms(1) this assms(2)] show ?thesis
    using assms(3,4) extendsD(1) [OF assms(2)] txn_ptr_extends(1) [OF assms(2)]
    by (auto simp: body_ok_def known_def)
qed

lemma blocks_ok_extends:
  assumes "blocks_ok st n" "extends n st st'"
  shows "blocks_ok st' n"
  unfolding blocks_ok_def
proof (intro allI impI)
  fix b assume b: "b < n" "alive (s_blocks st') b"
  then have al: "alive (s_blocks st) b" using extendsD(1) [OF assms(2)] by simp
  note D = blocks_okD [OF assms(1) b(1) al] and F = extends_fields [OF assms(2) b(1) al]
  have k: "known st n (prev_block (blk st b))" "known st n (Some b)"
    using prev_known(1) [OF D(1)] b(1) al by auto
  note C = chain_extends [OF assms(1) k(1) assms(2)] chain_extends [OF assms(1) k(2) assms(2)]
  have "body_ok st' b (blk st b)" using body_ok_extends [OF assms _ D(1)] b(1) by simp
  then have "body_ok st' b (blk st' b)" using F C by (simp add: body_ok_def)
  moreover have "accounts_ok st' b (blk st' b)"
    using D(2) F C block_entry_extends [OF assms(2) b(1) al D(1)] extendsD(4) [OF assms(2)]
    by (simp add: accounts_ok_def)
  ultimately show "body_ok st' b (blk st' b) \<and> accounts_ok st' b (blk st' b)" by simp
qed


section \<open>Building the accounts of a block\<close>

text \<open>
  \<open>building st0 b x T L st\<close>: from the store \<open>st0\<close>, in which the new block \<open>b\<close> is \<open>x\<close> and has no
  accounts yet, the loop has reached \<open>st\<close>, having touched the keys \<open>T\<close>; the balances are \<open>L\<close>.
\<close>

definition building :: "store \<Rightarrow> addr \<Rightarrow> block_t \<Rightarrow> byte list set \<Rightarrow> ledger \<Rightarrow> store \<Rightarrow> bool" where
  "building st0 b x T L st \<longleftrightarrow>
     (\<exists>m. s_blocks st = (s_blocks st0)[b := Some (x\<lparr>accounts := m\<rparr>)] \<and>
        s_txns st = s_txns st0 \<and> length (s_accounts st0) \<le> length (s_accounts st) \<and>
        (\<forall>a < length (s_accounts st0). s_accounts st ! a = s_accounts st0 ! a) \<and>
        map_ok key_ok m \<and> dom (map_abs m) = T \<and>
        (\<forall>k a. map_abs m k = Some a \<longrightarrow> length (s_accounts st0) \<le> a \<and> alive (s_accounts st) a \<and>
           ablock (obj (s_accounts st) a) = b \<and>
           aprev (obj (s_accounts st) a) = lookup st0 (prev_block x) k \<and>
           L k = Some (avalue (obj (s_accounts st) a))) \<and>
        (\<forall>k k' a. map_abs m k = Some a \<longrightarrow> map_abs m k' = Some a \<longrightarrow> k = k') \<and>
        (\<forall>k. k \<notin> T \<longrightarrow> L k = ledger st0 (prev_block x) k))"

text \<open>The new block, before its accounts are built.\<close>

definition fresh_block :: "store \<Rightarrow> addr \<Rightarrow> block_t \<Rightarrow> bool" where
  "fresh_block st b x \<longleftrightarrow>
     b < length (s_blocks st) \<and> s_blocks st ! b = Some x \<and> blocks_ok st b \<and> body_ok st b x \<and>
     map_ok key_ok (accounts x) \<and> map_abs (accounts x) = Map.empty"

lemma building_start:
  assumes "fresh_block st b x"
  shows "building st b x {} (ledger st (prev_block x)) st"
proof -
  have "s_blocks st = (s_blocks st)[b := Some (x\<lparr>accounts := accounts x\<rparr>)]"
    using assms list_update_id [of "s_blocks st" b] by (simp add: fresh_block_def)
  then show ?thesis
    using assms unfolding building_def fresh_block_def by (intro exI [of _ "accounts x"]) simp
qed

lemma buildingD:
  assumes "building st0 b x T L st" "fresh_block st0 b x"
  shows "alive (s_blocks st) b" "prev_block (blk st b) = prev_block x" "transactions (blk st b) = transactions x"
    "map_ok key_ok (accounts (blk st b))" "dom (map_abs (accounts (blk st b))) = T"
    "s_blocks st = (s_blocks st0)[b := Some (x\<lparr>accounts := accounts (blk st b)\<rparr>)]"
    "extends b st0 st" "length (s_blocks st) = length (s_blocks st0)"
proof -
  obtain m where m: "s_blocks st = (s_blocks st0)[b := Some (x\<lparr>accounts := m\<rparr>)]"
      "map_ok key_ok m" "dom (map_abs m) = T" "s_txns st = s_txns st0"
      "length (s_accounts st0) \<le> length (s_accounts st)"
      "\<forall>a < length (s_accounts st0). s_accounts st ! a = s_accounts st0 ! a"
    using assms(1) unfolding building_def by blast
  have b: "b < length (s_blocks st0)" using assms(2) by (simp add: fresh_block_def)
  then have blk: "blk st b = x\<lparr>accounts := m\<rparr>" by (simp add: m(1))
  then show "prev_block (blk st b) = prev_block x" "transactions (blk st b) = transactions x"
    "map_ok key_ok (accounts (blk st b))" "dom (map_abs (accounts (blk st b))) = T"
    "s_blocks st = (s_blocks st0)[b := Some (x\<lparr>accounts := accounts (blk st b)\<rparr>)]"
    using m by simp_all
  show "alive (s_blocks st) b" using b by (simp add: m(1))
  show "length (s_blocks st) = length (s_blocks st0)" by (simp add: m(1))
  have same: "s_blocks st ! c = s_blocks st0 ! c" if "c < b" for c using that by (simp add: m(1))
  have "list_ok (children (blk st0 c))" if "c < b" "alive (s_blocks st0) c" for c
    using assms(2) that by (auto simp: fresh_block_def body_ok_def dest: blocks_okD(1))
  then show "extends b st0 st"
    using same m(4-6) b by (auto simp: extends_def alive_def m(1))
qed

lemma building_prev_value:
  assumes "building st0 b x T L st" "fresh_block st0 b x" "key_ok k" "k \<notin> T"
  shows "block_get_account st (prev_block x) k = Inr (lookup st0 (prev_block x) k)"
    and "lookup st0 (prev_block x) k = None \<Longrightarrow> L k = None"
    and "lookup st0 (prev_block x) k = Some a \<Longrightarrow>
      alive (s_accounts st) a \<and> L k = Some (avalue (obj (s_accounts st) a))"
proof -
  note D = buildingD [OF assms(1,2)]
  have ok: "blocks_ok st0 b" "body_ok st0 b x" and b: "b < length (s_blocks st0)"
    using assms(2) by (auto simp: fresh_block_def)
  have kn: "known st0 b (prev_block x)" using prev_known(2) [OF ok(2) order_refl] .
  note C = chain_extends [OF ok(1) kn D(7)]
  show "block_get_account st (prev_block x) k = Inr (lookup st0 (prev_block x) k)"
    using block_get_account_lookup [OF blocks_ok_extends [OF ok(1) D(7)] C(5) assms(3)] C(4) b D(8) by simp
  have L: "L k = ledger st0 (prev_block x) k"
    using assms(1,4) unfolding building_def by blast
  show "lookup st0 (prev_block x) k = None \<Longrightarrow> L k = None"
    using lookup_account(1) [OF ok(1) kn] L by simp
  show "lookup st0 (prev_block x) k = Some a \<Longrightarrow>
      alive (s_accounts st) a \<and> L k = Some (avalue (obj (s_accounts st) a))"
    using lookup_account(2) [OF ok(1) kn] L extendsD(4) [OF D(7)] by simp
qed

lemma open_account_result:
  assumes bd: "building st0 b x T L st" and fr: "fresh_block st0 b x" and k: "key_ok k" "k \<notin> T"
  shows "\<exists>a st'. open_account st b k f = Inr (a, st') \<and> building st0 b x (insert k T) (credit k f L) st' \<and>
    alive (s_accounts st') a"
proof -
  note D = buildingD [OF bd fr] and P = building_prev_value [OF bd fr k]
  let ?m = "accounts (blk st b)" and ?a = "length (s_accounts st)"
  let ?v = "case L k of None \<Rightarrow> 0 | Some v \<Rightarrow> v"
  let ?acc = "\<lparr>avalue = f ?v, aprev = lookup st0 (prev_block x) k, ablock = b\<rparr>"
  let ?st = "st\<lparr>s_accounts := s_accounts st @ [Some ?acc]\<rparr>"
  obtain d m' where m': "map_set ?m k ?a = Inr (map_abs ?m k, d, m')" "map_ok key_ok m'"
      "map_abs m' = (map_abs ?m)(k \<mapsto> ?a)"
    using cmap.store_law [of key_ok ?m k ?a] D(4) k(1) by auto
  let ?st' = "?st\<lparr>s_blocks := (s_blocks st)[b := Some ((blk st b)\<lparr>accounts := m'\<rparr>)]\<rparr>"
  have v: "(case lookup st0 (prev_block x) k of None \<Rightarrow> Inr 0
        | Some p \<Rightarrow> bindR (heap_load (s_accounts st) p) (\<lambda>a. Inr (avalue a))) = Inr ?v"
    using P(2,3) by (cases "lookup st0 (prev_block x) k") auto
  have "set_accounts ?st b m' = Inr ?st'"
    using D(1) by (simp add: set_accounts_def)
  then have "open_account st b k f = Inr (?a, ?st')"
    using D(1,2) P(1) v m'(1) by (simp add: open_account_def Let_def)
  moreover have "building st0 b x (insert k T) (credit k f L) ?st'"
  proof -
    obtain m where m: "s_blocks st = (s_blocks st0)[b := Some (x\<lparr>accounts := m\<rparr>)]"
      "s_txns st = s_txns st0" "length (s_accounts st0) \<le> length (s_accounts st)"
      "\<forall>a < length (s_accounts st0). s_accounts st ! a = s_accounts st0 ! a" "dom (map_abs m) = T"
      "\<forall>k a. map_abs m k = Some a \<longrightarrow> length (s_accounts st0) \<le> a \<and> alive (s_accounts st) a \<and>
           ablock (obj (s_accounts st) a) = b \<and>
           aprev (obj (s_accounts st) a) = lookup st0 (prev_block x) k \<and>
           L k = Some (avalue (obj (s_accounts st) a))"
      "\<forall>k k' a. map_abs m k = Some a \<longrightarrow> map_abs m k' = Some a \<longrightarrow> k = k'"
      "\<forall>k. k \<notin> T \<longrightarrow> L k = ledger st0 (prev_block x) k"
      using bd unfolding building_def by blast
    have b: "b < length (s_blocks st0)" using fr by (simp add: fresh_block_def)
    then have blk: "blk st b = x\<lparr>accounts := m\<rparr>" by (simp add: m(1))
    have lt: "a < ?a" if "map_abs m k' = Some a" for k' a
      using m(6) that alive_less by blast
    have nk: "map_abs m k = None" using k(2) m(5) by auto
    have upd: "map_abs m' = (map_abs m)(k \<mapsto> ?a)" using m'(3) blk by simp
    show ?thesis
      unfolding building_def
    proof (intro exI [of _ m'] conjI allI impI)
      show "s_blocks ?st' = (s_blocks st0)[b := Some (x\<lparr>accounts := m'\<rparr>)]"
        using b by (simp add: m(1) blk)
      show "dom (map_abs m') = insert k T" using upd m(5) by simp
    next
      fix k' a assume a: "map_abs m' k' = Some a"
      show "length (s_accounts st0) \<le> a" "alive (s_accounts ?st') a"
        "ablock (obj (s_accounts ?st') a) = b"
        "aprev (obj (s_accounts ?st') a) = lookup st0 (prev_block x) k'"
        "credit k f L k' = Some (avalue (obj (s_accounts ?st') a))"
        using a upd m(3,6) lt [of k' a] by (auto simp: credit_def nth_append split: if_splits)
    next
      fix k1 k2 a assume "map_abs m' k1 = Some a" "map_abs m' k2 = Some a"
      then show "k1 = k2" using upd m(7) by (auto split: if_splits dest: lt)
    qed (use m m'(2) in \<open>auto simp: nth_append\<close>)
  qed
  ultimately show ?thesis by auto
qed


lemma change_account_result:
  assumes bd: "building st0 b x T L st" and fr: "fresh_block st0 b x" and k: "key_ok k"
  shows "\<exists>a st'. change_account st b k f = Inr (a, st') \<and> building st0 b x (insert k T) (credit k f L) st' \<and>
    alive (s_accounts st') a"
proof -
  note D = buildingD [OF bd fr]
  have get: "map_get (accounts (blk st b)) k = Inr (map_abs (accounts (blk st b)) k)"
    using D(4) k by (rule map_get_abs)
  show ?thesis
  proof (cases "map_abs (accounts (blk st b)) k")
    case None
    then have "k \<notin> T" using D(5) by auto
    from open_account_result [OF bd fr k this] show ?thesis
      using None get D(1) by (simp add: change_account_def)
  next
    case (Some a)
    obtain m where m: "s_blocks st = (s_blocks st0)[b := Some (x\<lparr>accounts := m\<rparr>)]"
      "s_txns st = s_txns st0" "length (s_accounts st0) \<le> length (s_accounts st)"
      "\<forall>a < length (s_accounts st0). s_accounts st ! a = s_accounts st0 ! a" "map_ok key_ok m" "dom (map_abs m) = T"
      "\<forall>k a. map_abs m k = Some a \<longrightarrow> length (s_accounts st0) \<le> a \<and> alive (s_accounts st) a \<and>
           ablock (obj (s_accounts st) a) = b \<and>
           aprev (obj (s_accounts st) a) = lookup st0 (prev_block x) k \<and>
           L k = Some (avalue (obj (s_accounts st) a))"
      "\<forall>k k' a. map_abs m k = Some a \<longrightarrow> map_abs m k' = Some a \<longrightarrow> k = k'"
      "\<forall>k. k \<notin> T \<longrightarrow> L k = ledger st0 (prev_block x) k"
      using bd unfolding building_def by blast
    have b: "b < length (s_blocks st0)" using fr by (simp add: fresh_block_def)
    then have a: "map_abs m k = Some a" using Some by (simp add: m(1))
    then have A: "alive (s_accounts st) a" "L k = Some (avalue (obj (s_accounts st) a))"
      "length (s_accounts st0) \<le> a" and T: "k \<in> T"
      using m(6,7) by auto
    let ?acc = "obj (s_accounts st) a"
    let ?h = "(s_accounts st)[a := Some (?acc\<lparr>avalue := f (avalue ?acc)\<rparr>)]"
    have lt: "a < length (s_accounts st)" using A(1) by (rule alive_less)
    have "change_account st b k f = Inr (a, st\<lparr>s_accounts := ?h\<rparr>)"
      using Some get D(1) A(1) by (simp add: change_account_def)
    moreover have "building st0 b x (insert k T) (credit k f L) (st\<lparr>s_accounts := ?h\<rparr>)"
      unfolding building_def
    proof (intro exI [of _ m] conjI allI impI)
      fix k' a' assume a': "map_abs m k' = Some a'"
      have eq: "a' = a \<longleftrightarrow> k' = k" using m(8) a a' by auto
      show "length (s_accounts st0) \<le> a'" "alive (s_accounts (st\<lparr>s_accounts := ?h\<rparr>)) a'"
        "ablock (obj (s_accounts (st\<lparr>s_accounts := ?h\<rparr>)) a') = b"
        "aprev (obj (s_accounts (st\<lparr>s_accounts := ?h\<rparr>)) a') = lookup st0 (prev_block x) k'"
        "credit k f L k' = Some (avalue (obj (s_accounts (st\<lparr>s_accounts := ?h\<rparr>)) a'))"
        using m(7) a' eq lt A(2) by (auto simp: credit_def nth_list_update)
    qed (use m T A(3) in \<open>auto simp: insert_absorb credit_def\<close>)
    ultimately show ?thesis using A(1) lt by auto
  qed
qed

lemma apply_txn_result:
  assumes bd: "building st0 b x T L st" and fr: "fresh_block st0 b x"
    and i: "i < length (list_elems (transactions x))" and t: "t = txn_entry st0 (list_elems (transactions x) ! i)"
  shows "\<exists>st'. apply_txn st b i = Inr (True, st') \<and>
    building st0 b x (T \<union> (case t of (s, r, v) \<Rightarrow> {s, r})) (transfer t L) st'"
proof -
  note D = buildingD [OF bd fr]
  have body: "body_ok st0 b x" using fr by (simp add: fresh_block_def)
  let ?p = "list_elems (transactions x) ! i"
  have "txn_ptr_ok st0 ?p" using body i by (simp add: body_ok_def)
  then obtain q where q: "?p = Some q" "alive (s_txns st) q" "txn_sized (obj (s_txns st) q)"
      "s_txns st ! q = s_txns st0 ! q"
    using extendsD(5) [OF D(7)] by (auto simp: txn_ptr_ok_def)
  let ?t = "obj (s_txns st) q"
  have te: "t = (tsender ?t, trecipient ?t, tvalue ?t)" using t q by (simp add: txn_entry_def Let_def)
  have keys: "key_ok (tsender ?t)" "key_ok (trecipient ?t)" using q(3) by (simp_all add: txn_sized_def key_ok_def)
  have "block_get_transaction st b i = Inr ?p"
    using D(1,3) body i by (simp add: block_get_transaction_def body_ok_def list_get_rd)
  moreover have "load_txn st ?p = Inr ?t" using q by (simp add: load_txn_def)
  moreover obtain a1 st1 where st1: "change_account st b (tsender ?t) (\<lambda>v. v - tvalue ?t) = Inr (a1, st1)"
      "building st0 b x (insert (tsender ?t) T) (credit (tsender ?t) (\<lambda>v. v - tvalue ?t) L) st1"
      "alive (s_accounts st1) a1"
    using change_account_result [OF bd fr keys(1), of "\<lambda>v. v - tvalue ?t"] by blast
  moreover obtain a2 st2 where st2: "change_account st1 b (trecipient ?t) (\<lambda>v. v + tvalue ?t) = Inr (a2, st2)"
      "building st0 b x (insert (trecipient ?t) (insert (tsender ?t) T))
         (credit (trecipient ?t) (\<lambda>v. v + tvalue ?t) (credit (tsender ?t) (\<lambda>v. v - tvalue ?t) L)) st2"
    using change_account_result [OF st1(2) fr keys(2), of "\<lambda>v. v + tvalue ?t"] by blast
  ultimately have "apply_txn st b i = Inr (True, st2)"
    by (simp add: apply_txn_def account_get_value_def)
  with st2(2) show ?thesis by (auto simp: te transfer_def insert_commute)
qed

lemma apply_txns_result:
  assumes "building st0 b x T L st" "fresh_block st0 b x" "\<forall>i \<in> set is. i < length (list_elems (transactions x))"
  defines "ts \<equiv> map (\<lambda>i. txn_entry st0 (list_elems (transactions x) ! i)) is"
  shows "\<exists>st'. apply_txns is st b = Inr (True, st') \<and>
    building st0 b x (T \<union> (\<Union>(s, r, v) \<in> set ts. {s, r})) (fold transfer ts L) st'"
  using assms(1,3) unfolding ts_def
proof (induction "is" arbitrary: T L st)
  case (Cons i "is")
  let ?t = "txn_entry st0 (list_elems (transactions x) ! i)"
  obtain st1 where st1: "apply_txn st b i = Inr (True, st1)"
      "building st0 b x (T \<union> (case ?t of (s, r, v) \<Rightarrow> {s, r})) (transfer ?t L) st1"
    using apply_txn_result [OF Cons.prems(1) assms(2) _ refl, of i] Cons.prems(2) by auto
  from Cons.IH [OF st1(2)] Cons.prems(2) st1(1) show ?case by (auto simp: Un_assoc)
qed auto


lemma txn_entry_cong: "s_txns st' = s_txns st \<Longrightarrow> txn_entry st' = txn_entry st"
  by (simp add: fun_eq_iff txn_entry_def)

text \<open>A block whose accounts are complete joins the well-formed blocks.\<close>

lemma building_done:
  assumes bd: "building st0 b x (touched e) (apply_entry e (ledger st0 (prev_block x))) st"
    and fr: "fresh_block st0 b x"
    and e: "e = \<lparr>creator = public_key x, transfers = map (txn_entry st0) (list_elems (transactions x))\<rparr>"
  shows "blocks_ok st (Suc b)" "block_entry st b = e"
    "ledger st (Some b) = apply_entry e (ledger st0 (prev_block x))"
proof -
  note D = buildingD [OF bd fr]
  have ok: "blocks_ok st0 b" "body_ok st0 b x" using fr by (auto simp: fresh_block_def)
  have kn: "known st0 b (prev_block x)" using prev_known(2) [OF ok(2) order_refl] .
  note C = chain_extends [OF ok(1) kn D(7)]
  obtain m where m: "s_blocks st = (s_blocks st0)[b := Some (x\<lparr>accounts := m\<rparr>)]" "s_txns st = s_txns st0"
      "length (s_accounts st0) \<le> length (s_accounts st)" "map_ok key_ok m" "dom (map_abs m) = touched e"
      "\<forall>k a. map_abs m k = Some a \<longrightarrow> length (s_accounts st0) \<le> a \<and> alive (s_accounts st) a \<and>
           ablock (obj (s_accounts st) a) = b \<and>
           aprev (obj (s_accounts st) a) = lookup st0 (prev_block x) k \<and>
           apply_entry e (ledger st0 (prev_block x)) k = Some (avalue (obj (s_accounts st) a))"
      "\<forall>k k' a. map_abs m k = Some a \<longrightarrow> map_abs m k' = Some a \<longrightarrow> k = k'"
    using bd unfolding building_def by blast
  have b: "b < length (s_blocks st0)" using fr by (simp add: fresh_block_def)
  then have blk: "blk st b = x\<lparr>accounts := m\<rparr>" by (simp add: m(1))
  show be: "block_entry st b = e"
    using txn_entry_cong [OF m(2)] by (simp add: block_entry_def blk e)
  have lt: "\<forall>p. prev_block (blk st b) = Some p \<longrightarrow> p < b" using ok(2) by (simp add: blk body_ok_def)
  show L: "ledger st (Some b) = apply_entry e (ledger st0 (prev_block x))"
    using ledger_Some [OF lt] C(3) be by (simp add: blk)
  have "body_ok st b x" by (rule body_ok_extends [OF ok(1) D(7) order_refl ok(2)])
  then have "body_ok st b (blk st b)" by (simp add: body_ok_def blk)
  moreover have "accounts_ok st b (blk st b)"
    unfolding accounts_ok_def
  proof (intro conjI allI impI)
    fix k a assume "map_abs (accounts (blk st b)) k = Some a"
    then have a: "map_abs m k = Some a" by (simp add: blk)
    then have A: "length (s_accounts st0) \<le> a" "alive (s_accounts st) a" "ablock (obj (s_accounts st) a) = b"
      "aprev (obj (s_accounts st) a) = lookup st0 (prev_block x) k"
      "apply_entry e (ledger st0 (prev_block x)) k = Some (avalue (obj (s_accounts st) a))"
      using m(6) by blast+
    then show "alive (s_accounts st) a" "ablock (obj (s_accounts st) a) = b"
      "aprev (obj (s_accounts st) a) = lookup st (prev_block (blk st b)) k"
      "ledger st (Some b) k = Some (avalue (obj (s_accounts st) a))"
      using C(4) L by (simp_all add: blk)
    fix p assume "aprev (obj (s_accounts st) a) = Some p"
    then have "alive (s_accounts st0) p" using A(4) lookup_account(2) [OF ok(1) kn] by simp
    then show "p < a" using A(1) alive_less [of "s_accounts st0" p] by simp
  qed (use m(7) in \<open>auto simp: blk m(4,5) be\<close>)
  ultimately show "blocks_ok st (Suc b)"
    using blocks_ok_extends [OF ok(1) D(7)] by (auto simp: blocks_ok_def less_Suc_eq)
qed

lemma are_transactions_valid_result:
  assumes fr: "fresh_block st0 b x"
  defines "e \<equiv> \<lparr>creator = public_key x, transfers = map (txn_entry st0) (list_elems (transactions x))\<rparr>"
  shows "\<exists>st. are_transactions_valid st0 b = Inr (True, st) \<and>
    building st0 b x (touched e) (apply_entry e (ledger st0 (prev_block x))) st"
proof -
  have x: "s_blocks st0 ! b = Some x" "alive (s_blocks st0) b" "body_ok st0 b x"
    using fr by (auto simp: fresh_block_def alive_def)
  obtain a st1 where st1: "open_account st0 b (public_key x) (\<lambda>v. v + 1024) = Inr (a, st1)"
      "building st0 b x {public_key x} (credit (public_key x) (\<lambda>v. v + 1024) (ledger st0 (prev_block x))) st1"
    using open_account_result [OF building_start [OF fr] fr, of "public_key x" "\<lambda>v. v + 1024"] x(3)
    by (auto simp: body_ok_def)
  let ?n = "length (list_elems (transactions x))"
  have n: "block_get_transaction_count st1 b = Inr ?n"
    using buildingD(1,3) [OF st1(2) fr] x(3)
    by (simp add: block_get_transaction_count_def body_ok_def list_size_rd)
  have ts: "map (\<lambda>i. txn_entry st0 (list_elems (transactions x) ! i)) [0..<?n] = transfers e"
    by (intro nth_equalityI) (simp_all add: e_def)
  obtain st where "apply_txns [0..<?n] st1 b = Inr (True, st)"
      "building st0 b x ({public_key x} \<union> (\<Union>(s, r, v) \<in> set (transfers e). {s, r}))
         (fold transfer (transfers e) (credit (public_key x) (\<lambda>v. v + 1024) (ledger st0 (prev_block x)))) st"
    using apply_txns_result [OF st1(2) fr, of "[0..<?n]"] unfolding ts by auto
  moreover have "{public_key x} \<union> (\<Union>(s, r, v) \<in> set (transfers e). {s, r}) = touched e"
    by (simp add: touched_def e_def)
  moreover have "fold transfer (transfers e) (credit (public_key x) (\<lambda>v. v + 1024) L) = apply_entry e L" for L
    by (simp add: apply_entry_def e_def)
  ultimately have "are_transactions_valid st0 b = Inr (True, st)"
    "building st0 b x (touched e) (apply_entry e (ledger st0 (prev_block x))) st"
    using x st1(1) n by (simp_all add: are_transactions_valid_def COINBASE_TRANSACTION_def)
  then show ?thesis by blast
qed


section \<open>A sample store\<close>

text \<open>A store that holds a genesis block with the given creator and transactions, for witnesses.\<close>

definition sample_genesis :: "byte list \<Rightarrow> transaction_t list \<Rightarrow> block_t" where
  "sample_genesis pk txns = \<lparr>timestamp = 0, prev_block = None, bmerkle_root = [], public_key = pk,
     sortition_proof = [], bsignature = [], delegate = 0,
     transactions = \<lparr>ldata = map (\<lambda>i. Some (Some i)) [0..<length txns], lsize = length txns,
       lcapacity = length txns\<rparr>,
     bhash = [], sortition_seed = [], sortition_hash = [], sortition_priority = [],
     children = list_create 1, height = 1,
     accounts = map_create N_ACCOUNT_BUCKETS (key_hash toy) False True (key_compare toy)\<rparr>"

definition sample_store :: "byte list \<Rightarrow> transaction_t list \<Rightarrow> store" where
  "sample_store pk txns = \<lparr>s_blocks = [Some (sample_genesis pk txns)], s_accounts = [], s_txns = map Some txns\<rparr>"

lemma new_accounts_map:
  assumes "sodium_ok S kp" "0 < n"
  shows "map_ok key_ok (map_create n (key_hash S) dk dv (key_compare S))"
    "map_abs (map_create n (key_hash S) dk dv (key_compare S)) = Map.empty"
proof -
  have "key_compare S x y = 0 \<longleftrightarrow> x = y" if "key_ok x" "key_ok y" for x y
    using that memcmp_order.cmp_eq [of x 32 y] by (simp add: key_compare_def key_ok_def sodium_sizes [OF assms(1)])
  then show "map_ok key_ok (map_create n (key_hash S) dk dv (key_compare S))"
    "map_abs (map_create n (key_hash S) dk dv (key_compare S)) = Map.empty"
    using map_create_ok [OF assms(2), of key_ok "key_compare S"] by blast+
qed

lemma sample_fresh:
  assumes "length pk = 32" "\<forall>t \<in> set txns. txn_sized t"
  shows "fresh_block (sample_store pk txns) 0 (sample_genesis pk txns)"
proof -
  have "list_elems (transactions (sample_genesis pk txns)) = map Some [0..<length txns]"
    by (simp add: list_elems_def sample_genesis_def take_map)
  moreover have "list_rd (transactions (sample_genesis pk txns))"
    by (simp add: list_rd_def sample_genesis_def)
  moreover have "accounts (sample_genesis pk txns) =
      map_create N_ACCOUNT_BUCKETS (key_hash toy) False True (key_compare toy)"
    by (simp add: sample_genesis_def)
  moreover have "(\<forall>p. prev_block (sample_genesis pk txns) \<noteq> Some p)" "height (sample_genesis pk txns) = 1"
    "public_key (sample_genesis pk txns) = pk" "children (sample_genesis pk txns) = list_create 1"
    "prev_block (sample_genesis pk txns) = None"
    by (simp_all add: sample_genesis_def)
  ultimately show ?thesis
    using assms new_accounts_map [OF toy_ok, of N_ACCOUNT_BUCKETS False True]
    by (auto simp: fresh_block_def blocks_ok_def body_ok_def sample_store_def key_ok_def list_ok_create
        txn_ptr_ok_def alive_def N_ACCOUNT_BUCKETS_def)
qed

lemma sample_entry:
  "map (txn_entry (sample_store pk txns)) (list_elems (transactions (sample_genesis pk txns))) =
     map (\<lambda>t. (tsender t, trecipient t, tvalue t)) txns"
  by (rule nth_equalityI) (simp_all add: list_elems_def sample_genesis_def sample_store_def txn_entry_def Let_def)

section \<open>Properties\<close>

text \<open>
  C1: The accounts of a block implement the ledger. For a new block on top of well-formed blocks,
  \<open>are_transactions_valid\<close> ends without a fault and returns true; afterwards looking up any key at
  the block (which walks back through the chain) gives exactly the balance of the specification:
  the balances of the previous block, the creator credited 1024, then each transaction in order
  moved from sender to recipient, all modulo \<open>2^64\<close>. The ledgers of all earlier blocks are as before.
\<close>

theorem ledger_of_new_block:
  assumes "fresh_block st b x"
    and "e = \<lparr>creator = public_key x, transfers = map (txn_entry st) (list_elems (transactions x))\<rparr>"
  shows "\<exists>st'. are_transactions_valid st b = Inr (True, st') \<and> blocks_ok st' (Suc b) \<and>
    (\<forall>k. key_ok k \<longrightarrow> (\<exists>a. block_get_account st' (Some b) k = Inr a \<and>
       map_option (\<lambda>a. avalue (obj (s_accounts st') a)) a = apply_entry e (ledger st (prev_block x)) k)) \<and>
    (\<forall>p < b. alive (s_blocks st) p \<longrightarrow> ledger st' (Some p) = ledger st (Some p))"
proof -
  obtain st' where st': "are_transactions_valid st b = Inr (True, st')"
      "building st b x (touched e) (apply_entry e (ledger st (prev_block x))) st'"
    using are_transactions_valid_result [OF assms(1)] unfolding assms(2) by blast
  note D = building_done [OF st'(2) assms] and B = buildingD [OF st'(2) assms(1)]
  have ok: "blocks_ok st b" "b < length (s_blocks st)" using assms(1) by (auto simp: fresh_block_def)
  have kn: "known st' (Suc b) (Some b)" using B(1) by simp
  have "\<exists>a. block_get_account st' (Some b) k = Inr a \<and>
       map_option (\<lambda>a. avalue (obj (s_accounts st') a)) a = apply_entry e (ledger st (prev_block x)) k"
    if "key_ok k" for k
    using block_get_account_lookup [OF D(1) kn that] lookup_account [OF D(1) kn, of k] B(8) ok(2) D(3)
    by (cases "lookup st' (Some b) k") auto
  moreover have "ledger st' (Some p) = ledger st (Some p)" if "p < b" "alive (s_blocks st) p" for p
    using chain_extends(3) [OF ok(1) _ B(7)] that by simp
  ultimately show ?thesis using st'(1) D(1) by blast
qed

theorem ledger_of_new_block_witness:
  "\<exists>st' a. are_transactions_valid (sample_store (replicate 32 7) [sample_txn]) 0 = Inr (True, st') \<and>
     block_get_account st' (Some 0) (replicate 32 2) = Inr (Some a) \<and> avalue (obj (s_accounts st') a) = 5"
proof -
  let ?x = "sample_genesis (replicate 32 7) [sample_txn]" and ?st = "sample_store (replicate 32 7) [sample_txn]"
  have fr: "fresh_block ?st 0 ?x"
    by (rule sample_fresh) (simp_all add: txn_sized_def sample_txn_def)
  obtain st' where st': "are_transactions_valid ?st 0 = Inr (True, st')"
    "\<forall>k. key_ok k \<longrightarrow> (\<exists>a. block_get_account st' (Some 0) k = Inr a \<and>
       map_option (\<lambda>a. avalue (obj (s_accounts st') a)) a =
       apply_entry \<lparr>creator = public_key ?x, transfers = map (txn_entry ?st) (list_elems (transactions ?x))\<rparr>
         (ledger ?st (prev_block ?x)) k)"
    using ledger_of_new_block [OF fr refl] by blast
  have k: "key_ok (replicate 32 2)" by (simp add: key_ok_def)
  have "apply_entry \<lparr>creator = public_key ?x, transfers = map (txn_entry ?st) (list_elems (transactions ?x))\<rparr>
         (ledger ?st (prev_block ?x)) (replicate 32 2) = Some 5"
    unfolding sample_entry
    by (simp add: apply_entry_def transfer_def sample_txn_def credit_def sample_genesis_def replicate_eq_replicate)
  then show ?thesis using st' k by fastforce
qed



lemma sample_built:
  obtains st' where "are_transactions_valid (sample_store (replicate 32 7) [sample_txn]) 0 = Inr (True, st')"
    "blocks_ok st' 1" "known st' 1 (Some 0)" "length (s_blocks st') = 1" "chain st' (Some 0) = [0]"
    "entries st' (Some 0) = [\<lparr>creator = replicate 32 7, transfers = [(replicate 32 1, replicate 32 2, 5)]\<rparr>]"
proof -
  let ?x = "sample_genesis (replicate 32 7) [sample_txn]" and ?st = "sample_store (replicate 32 7) [sample_txn]"
  have fr: "fresh_block ?st 0 ?x"
    by (rule sample_fresh) (simp_all add: txn_sized_def sample_txn_def)
  obtain st' where st': "are_transactions_valid ?st 0 = Inr (True, st')"
      "building ?st 0 ?x (touched \<lparr>creator = public_key ?x, transfers = map (txn_entry ?st) (list_elems (transactions ?x))\<rparr>)
        (apply_entry \<lparr>creator = public_key ?x, transfers = map (txn_entry ?st) (list_elems (transactions ?x))\<rparr>
          (ledger ?st (prev_block ?x))) st'"
    using are_transactions_valid_result [OF fr] by blast
  note D = building_done [OF st'(2) fr refl] and B = buildingD [OF st'(2) fr]
  have "prev_block (blk st' 0) = None" using B(2) by (simp add: sample_genesis_def)
  then have "chain st' (Some 0) = [0]" by (simp add: chain_Some)
  moreover from this have "entries st' (Some 0) = [block_entry st' 0]" by (simp add: entries_def)
  ultimately show ?thesis
    using that st'(1) D(1,2) B(1,8) unfolding sample_entry
    by (simp add: sample_store_def sample_genesis_def sample_txn_def)
qed




text \<open>
  C18: Overspending is not rejected. The check \<open>sender_account->value < 0\<close> compares an unsigned
  number, so a block in which a key without any balance sends \<open>v\<close> is valid, and its sender ends up
  with a balance of \<open>2^64 - v\<close>.
\<close>

theorem overspending_accepted:
  assumes "fresh_block st b x" "map (txn_entry st) (list_elems (transactions x)) = [(s, r, v)]"
    and "key_ok s" "ledger st (prev_block x) s = None" "s \<noteq> public_key x" "s \<noteq> r"
  shows "\<exists>st' a. are_transactions_valid st b = Inr (True, st') \<and>
    block_get_account st' (Some b) s = Inr (Some a) \<and> avalue (obj (s_accounts st') a) = - v"
proof -
  obtain st' where st': "are_transactions_valid st b = Inr (True, st')"
    "building st b x (touched \<lparr>creator = public_key x, transfers = map (txn_entry st) (list_elems (transactions x))\<rparr>)
       (apply_entry \<lparr>creator = public_key x, transfers = map (txn_entry st) (list_elems (transactions x))\<rparr>
         (ledger st (prev_block x))) st'"
    using are_transactions_valid_result [OF assms(1)] by blast
  note D = building_done [OF st'(2) assms(1) refl] and B = buildingD [OF st'(2) assms(1)]
  have kn: "known st' (Suc b) (Some b)" "Suc b \<le> length (s_blocks st')"
    using B(1) alive_less [OF B(1)] by auto
  have "ledger st' (Some b) s = Some (- v)"
    unfolding D(3) assms(2) using assms(4-6) by (simp add: apply_entry_def transfer_def credit_def)
  then show ?thesis
    using st'(1) block_get_account_lookup [OF D(1) kn(1) assms(3) kn(2)] lookup_account [OF D(1) kn(1), of s]
    by (cases "lookup st' (Some b) s") auto
qed

theorem overspending_accepted_witness:
  "\<exists>st' a. are_transactions_valid (sample_store (replicate 32 7) [sample_txn]) 0 = Inr (True, st') \<and>
     block_get_account st' (Some 0) (replicate 32 1) = Inr (Some a) \<and> avalue (obj (s_accounts st') a) = - 5"
proof (rule overspending_accepted)
  show "fresh_block (sample_store (replicate 32 7) [sample_txn]) 0 (sample_genesis (replicate 32 7) [sample_txn])"
    by (rule sample_fresh) (simp_all add: txn_sized_def sample_txn_def)
  show "map (txn_entry (sample_store (replicate 32 7) [sample_txn]))
      (list_elems (transactions (sample_genesis (replicate 32 7) [sample_txn]))) =
    [(replicate 32 1, replicate 32 2, 5)]"
    unfolding sample_entry by (simp add: sample_txn_def)
qed (simp_all add: key_ok_def sample_genesis_def replicate_eq_replicate)

end
