(* ===== verification/Merkle.thy ===== *)
theory Merkle
  imports Sodium
begin

text \<open>
  The Merkle root of a block (\<open>compute_merkle_root\<close> in \<open>src/block.c\<close>). The code hashes adjacent
  pairs in place in one array until one hash is left; the reference \<open>merkle_ref\<close> is the recursive
  definition of the tree. The array has one cell per hash of \<open>crypto_generichash_BYTES\<close> bytes, so
  two adjacent cells are the argument of a hash.
\<close>

section \<open>The loop\<close>

function merkle_pass :: "sodium \<Rightarrow> nat \<Rightarrow> nat \<Rightarrow> nat \<Rightarrow> byte list arr \<Rightarrow> (nat \<times> byte list arr) res" where
  "merkle_pass S n i j hashes =
     (if j < n then
        bindR (if j + 1 = n then arr_load hashes j
               else bindR (arr_load hashes j) (\<lambda>l. bindR (arr_load hashes (j + 1)) (\<lambda>r.
                      Inr (generichash S (l @ r))))) (\<lambda>h.
        bindR (arr_store hashes i h) (\<lambda>hashes.
          merkle_pass S n (i + 1) (j + 2) hashes))
      else Inr (i, hashes))"
  by pat_completeness auto
termination
  by (relation "measure (\<lambda>(S, n, i, j, hashes). n - j)") auto

declare merkle_pass.simps [simp del]

lemma merkle_pass_count:
  "merkle_pass S n i j hashes = Inr (i', hashes') \<Longrightarrow> i' = i + (n - j + 1) div 2"
proof (induction S n i j hashes rule: merkle_pass.induct)
  case (1 S n i j hashes)
  show ?case
  proof (cases "j < n")
    case True
    with "1.prems" obtain h a where a: "arr_store hashes i h = Inr a"
        "merkle_pass S n (i + 1) (j + 2) a = Inr (i', hashes')"
        "(if j + 1 = n then arr_load hashes j
          else bindR (arr_load hashes j) (\<lambda>l. bindR (arr_load hashes (j + 1)) (\<lambda>r. Inr (generichash S (l @ r))))) = Inr h"
      by (auto simp: merkle_pass.simps [of S n i j] bindR_eq_Inr)
    from "1.IH" [OF True a(3,1,2)] True show ?thesis by presburger
  next
    case False
    with "1.prems" show ?thesis by (simp add: merkle_pass.simps [of S n i j])
  qed
qed

function compute_merkle_root :: "sodium \<Rightarrow> byte list arr \<Rightarrow> nat \<Rightarrow> byte list arr res" where
  "compute_merkle_root S hashes n =
     (if n \<le> 1 then Inr hashes
      else bindR (merkle_pass S n 0 0 hashes) (\<lambda>(i, hashes). compute_merkle_root S hashes i))"
  by pat_completeness auto
termination
  by (relation "measure (\<lambda>(S, hashes, n). n)") (auto dest: merkle_pass_count)

declare compute_merkle_root.simps [simp del]

text \<open>The common end of \<open>merkle_root_from_list\<close> and \<open>merkle_root_from_tuple\<close>.\<close>

definition merkle_root :: "sodium \<Rightarrow> byte list list \<Rightarrow> byte list res" where
  "merkle_root S hashes =
     bindR (compute_merkle_root S (map Some hashes) (length hashes)) (\<lambda>a.
       if length hashes > 0 then arr_load a 0 else Inr (replicate (generichash_BYTES S) 0))"

section \<open>The reference\<close>

fun pair_up :: "sodium \<Rightarrow> byte list list \<Rightarrow> byte list list" where
  "pair_up S (l # r # hs) = generichash S (l @ r) # pair_up S hs"
| "pair_up S [] = []"
| "pair_up S [h] = [h]"

lemma length_pair_up: "length (pair_up S hs) = (length hs + 1) div 2"
  by (induction S hs rule: pair_up.induct) auto

function merkle_ref :: "sodium \<Rightarrow> byte list list \<Rightarrow> byte list" where
  "merkle_ref S [] = replicate (generichash_BYTES S) 0"
| "merkle_ref S [h] = h"
| "merkle_ref S (l # r # hs) = merkle_ref S (pair_up S (l # r # hs))"
  by pat_completeness auto
termination
  by (relation "measure (\<lambda>(S, hs). length hs)") (auto simp: length_pair_up)

declare merkle_ref.simps(3) [simp del]

lemma merkle_pass_result:
  assumes "take i a = map Some dn" "length dn = i" "i \<le> j" "n \<le> length a"
    "take (n - j) (drop j a) = map Some hs" "j \<le> n \<or> hs = []"
  shows "\<exists>a'. merkle_pass S n i j a = Inr (i + length (pair_up S hs), a') \<and> length a' = length a \<and>
    take (i + length (pair_up S hs)) a' = map Some (dn @ pair_up S hs)"
  using assms
proof (induction S hs arbitrary: a i j dn rule: pair_up.induct)
  case (1 S l r hs)
  have len: "n - j = length hs + 2" using arg_cong [OF "1.prems"(5), of length] "1.prems"(4,6) by auto
  have dj: "take (n - j) (drop j a) ! 0 = Some l" "take (n - j) (drop j a) ! 1 = Some r"
    unfolding "1.prems"(5) by simp_all
  then have ld: "arr_load a j = Inr l" "arr_load a (j + 1) = Inr r"
    using len "1.prems"(4) by (simp_all add: arr_load_def)
  let ?h = "generichash S (l @ r)"
  let ?a = "a[i := Some ?h]"
  have st: "arr_store a i ?h = Inr ?a" using len "1.prems"(3,4) by (simp add: arr_store_def)
  have i: "i < length a" using len "1.prems"(3,4) by simp
  have "\<exists>a'. merkle_pass S n (i + 1) (j + 2) ?a = Inr (i + 1 + length (pair_up S hs), a') \<and>
      length a' = length ?a \<and>
      take (i + 1 + length (pair_up S hs)) a' = map Some ((dn @ [?h]) @ pair_up S hs)"
  proof (rule "1.IH")
    show "take (i + 1) ?a = map Some (dn @ [?h])"
      using i "1.prems"(1) by (simp add: take_Suc_conv_app_nth)
    have "drop 2 (take (n - j) (drop j a)) = map Some hs" unfolding "1.prems"(5) by simp
    then show "take (n - (j + 2)) (drop (j + 2) ?a) = map Some hs"
      using "1.prems"(3) by (simp add: drop_take add.commute)
  qed (use "1.prems" len in auto)
  moreover have "j < n" "Suc j \<noteq> n" using len by linarith+
  then have "merkle_pass S n i j a = merkle_pass S n (i + 1) (j + 2) ?a"
    using ld st by (simp add: merkle_pass.simps [of S n i j])
  ultimately show ?case by auto
next
  case (2 S)
  then have "\<not> j < n" by auto
  then show ?case using 2 by (simp add: merkle_pass.simps [of S n i j])
next
  case (3 S h)
  have len: "n - j = 1" using arg_cong [OF "3.prems"(5), of length] "3.prems"(4,6) by auto
  have "take (n - j) (drop j a) ! 0 = Some h" unfolding "3.prems"(5) by simp
  then have ld: "arr_load a j = Inr h" using len "3.prems"(4) by (simp add: arr_load_def)
  have i: "i < length a" using len "3.prems"(3,4) by simp
  have "j < n" "Suc j = n" using len by linarith+
  then have "merkle_pass S n i j a = Inr (i + 1, a[i := Some h])"
    using ld i by (simp add: merkle_pass.simps [of S n i j] merkle_pass.simps [of S n "Suc i"] arr_store_def)
  then show ?case using i "3.prems"(1) by (simp add: take_Suc_conv_app_nth)
qed

lemma compute_merkle_root_result:
  assumes "take n a = map Some hs" "n = length hs"
  shows "\<exists>a'. compute_merkle_root S a n = Inr a' \<and> (hs \<noteq> [] \<longrightarrow> arr_load a' 0 = Inr (merkle_ref S hs))"
  using assms
proof (induction S hs arbitrary: a n rule: merkle_ref.induct)
  case (2 S h)
  then have "take 1 a = [Some h]" by simp
  then have "arr_load a 0 = Inr h" by (cases a) (simp_all add: arr_load_def)
  then show ?case using 2 by (simp add: compute_merkle_root.simps)
next
  case (3 S l r hs)
  let ?hs = "l # r # hs"
  have "n \<le> length a" using arg_cong [OF "3.prems"(1), of length] "3.prems"(2) by simp
  then obtain a' where a': "merkle_pass S n 0 0 a = Inr (length (pair_up S ?hs), a')"
      "take (length (pair_up S ?hs)) a' = map Some (pair_up S ?hs)"
    using merkle_pass_result [of 0 a "[]" 0 n ?hs S] "3.prems" by auto
  obtain a'' where "compute_merkle_root S a' (length (pair_up S ?hs)) = Inr a''"
      "arr_load a'' 0 = Inr (merkle_ref S (pair_up S ?hs))"
    using "3.IH" [OF a'(2) refl] by auto
  then show ?case
    using a'(1) "3.prems"(2)
    by (simp add: compute_merkle_root.simps [of S a "Suc (Suc (length hs))"] merkle_ref.simps(3)
        del: pair_up.simps)
qed (simp add: compute_merkle_root.simps)

lemma merkle_root_ref: "merkle_root S hs = Inr (merkle_ref S hs)"
  using compute_merkle_root_result [of "length hs" "map Some hs" hs S]
  by (cases hs) (auto simp: merkle_root_def)

section \<open>Binding\<close>

text \<open>
  The byte strings that are hashed on the way to the root. A collision between two of them is what
  two different sequences with the same root amount to.
\<close>

fun adjacent :: "byte list list \<Rightarrow> byte list list" where
  "adjacent (l # r # hs) = (l @ r) # adjacent hs"
| "adjacent [] = []"
| "adjacent [h] = []"

function merkle_inputs :: "sodium \<Rightarrow> byte list list \<Rightarrow> byte list list" where
  "merkle_inputs S [] = []"
| "merkle_inputs S [h] = []"
| "merkle_inputs S (l # r # hs) =
     adjacent (l # r # hs) @ merkle_inputs S (pair_up S (l # r # hs))"
  by pat_completeness auto
termination
  by (relation "measure (\<lambda>(S, hs). length hs)") (auto simp: length_pair_up)

definition collide :: "sodium \<Rightarrow> byte list list \<Rightarrow> byte list list \<Rightarrow> bool" where
  "collide S xs ys \<longleftrightarrow> (\<exists>x \<in> set xs. \<exists>y \<in> set ys. x \<noteq> y \<and> generichash S x = generichash S y)"

lemma pair_up_injective:
  assumes "\<forall>h \<in> set xs \<union> set ys. length h = 32" "length xs = length ys" "pair_up S xs = pair_up S ys"
  shows "xs = ys \<or> collide S (adjacent xs) (adjacent ys)"
  using assms
proof (induction S xs arbitrary: ys rule: pair_up.induct)
  case (1 S l r hs)
  then obtain l' r' hs' where ys: "ys = l' # r' # hs'"
    by (metis length_Suc_conv)
  show ?case
  proof (cases "l @ r = l' @ r'")
    case True
    moreover have "hs = hs' \<or> collide S (adjacent hs) (adjacent hs')"
      using "1.IH" [of hs'] "1.prems" ys by simp
    moreover have "l = l'" "r = r'" using True "1.prems"(1) ys by auto
    ultimately show ?thesis unfolding ys collide_def by auto
  next
    case False
    then show ?thesis using "1.prems"(3) ys by (auto simp: collide_def)
  qed
next
  case (3 S h)
  then show ?case by (cases ys) auto
qed auto

lemma pair_up_sized:
  "sodium_ok S kp \<Longrightarrow> \<forall>h \<in> set hs. length h = 32 \<Longrightarrow> \<forall>h \<in> set (pair_up S hs). length h = 32"
  by (induction S hs rule: pair_up.induct) (auto simp: sodium_sizes)

lemma length_merkle_ref:
  "sodium_ok S kp \<Longrightarrow> \<forall>h \<in> set hs. length h = 32 \<Longrightarrow> length (merkle_ref S hs) = 32"
proof (induction S hs rule: merkle_ref.induct)
  case (3 S l r hs)
  then show ?case using pair_up_sized [OF "3.prems"] by (simp add: merkle_ref.simps(3) del: pair_up.simps)
qed (simp_all add: sodium_sizes)

lemma merkle_ref_binding:
  assumes "sodium_ok S kp" "\<forall>h \<in> set xs \<union> set ys. length h = 32" "length xs = length ys"
    "merkle_ref S xs = merkle_ref S ys"
  shows "xs = ys \<or> collide S (merkle_inputs S xs) (merkle_inputs S ys)"
  using assms
proof (induction S xs arbitrary: ys rule: merkle_ref.induct)
  case (2 S h)
  then show ?case by (cases ys) auto
next
  case (3 S l r hs)
  then obtain l' r' hs' where ys: "ys = l' # r' # hs'" by (metis length_Suc_conv)
  have "pair_up S (l # r # hs) = pair_up S ys \<or>
      collide S (merkle_inputs S (pair_up S (l # r # hs))) (merkle_inputs S (pair_up S ys))"
  proof (rule "3.IH")
    show "\<forall>h \<in> set (pair_up S (l # r # hs)) \<union> set (pair_up S ys). length h = 32"
      using pair_up_sized [OF "3.prems"(1), of "l # r # hs"] pair_up_sized [OF "3.prems"(1), of ys]
        "3.prems"(2) by blast
    show "merkle_ref S (pair_up S (l # r # hs)) = merkle_ref S (pair_up S ys)"
      using "3.prems"(4) ys by (simp add: merkle_ref.simps(3) del: pair_up.simps)
  qed (use "3.prems" length_pair_up in auto)
  moreover have "merkle_inputs S (l # r # hs) = adjacent (l # r # hs) @ merkle_inputs S (pair_up S (l # r # hs))"
    "merkle_inputs S ys = adjacent ys @ merkle_inputs S (pair_up S ys)"
    by (simp_all only: ys merkle_inputs.simps(3))
  ultimately show ?case
    using pair_up_injective [OF "3.prems"(2,3)] unfolding collide_def by auto
qed auto

section \<open>Properties\<close>

text \<open>
  C17: The in-place computation of the Merkle root, which overwrites the array it reads from, ends for
  every number of hashes without leaving the array and returns the root of the tree in which
  adjacent hashes are paired level by level and an odd last hash is carried up unchanged (32 zero
  bytes for no hashes).
\<close>

theorem merkle_root_is_tree_root:
  "merkle_root S hashes = Inr (merkle_ref S hashes)"
  by (rule merkle_root_ref)

text \<open>
  C16: The Merkle root binds the transactions: if the code computes the same root for two sequences of
  the same number of 32-byte hashes, the sequences are equal, or two different ones among the strings
  that were hashed on the way have the same hash.
\<close>

theorem merkle_root_binding:
  assumes "sodium_ok S keypair" "\<forall>h \<in> set xs \<union> set ys. length h = 32" "length xs = length ys"
    and "merkle_root S xs = merkle_root S ys"
  shows "xs = ys \<or> (\<exists>x \<in> set (merkle_inputs S xs). \<exists>y \<in> set (merkle_inputs S ys).
     x \<noteq> y \<and> generichash S x = generichash S y)"
  using merkle_ref_binding [OF assms(1-3)] assms(4) by (simp add: merkle_root_ref collide_def)

theorem merkle_root_binding_witness:
  "\<exists>x \<in> {replicate 32 1 @ replicate 32 2}. \<exists>y \<in> {replicate 32 3 @ replicate 32 4}.
     x \<noteq> y \<and> generichash (toy\<lparr>generichash := \<lambda>_. replicate 32 0\<rparr>) x =
     generichash (toy\<lparr>generichash := \<lambda>_. replicate 32 0\<rparr>) y"
proof -
  let ?S = "toy\<lparr>generichash := \<lambda>_. replicate 32 0\<rparr>"
  have ok: "sodium_ok ?S toy_keypair"
    using toy_ok by (auto simp: sodium_ok_def)
  have i: "merkle_inputs ?S [h, g] = [h @ g]" for h g by (simp add: merkle_inputs.simps(3))
  have "merkle_root ?S [replicate 32 1, replicate 32 2] = merkle_root ?S [replicate 32 3, replicate 32 4]"
    by (simp add: merkle_root_ref merkle_ref.simps(3))
  from merkle_root_binding [OF ok _ _ this]
  have "[replicate 32 1, replicate 32 2] = [replicate 32 3, replicate 32 (4 :: byte)] \<or>
      (\<exists>x \<in> {replicate 32 1 @ replicate 32 2}. \<exists>y \<in> {replicate 32 3 @ replicate 32 4}.
        x \<noteq> y \<and> generichash ?S x = generichash ?S y)"
    unfolding i by simp
  moreover have "[replicate 32 1, replicate 32 2] \<noteq> [replicate 32 3, replicate 32 (4 :: byte)]"
    by (simp add: replicate_eq_replicate)
  ultimately show ?thesis by blast
qed

end
