(* ===== verification/Block.thy ===== *)
theory Block
  imports Ledger Merkle
begin

text \<open>
  Blocks (\<open>src/block.c\<close>): creation with the choice of the best delegate, the binary form, the checks
  on a received block, and destruction. The ledger part, \<open>are_transactions_valid\<close>, is in \<open>Ledger\<close>,
  the Merkle loop in \<open>Merkle\<close>, the JSON form in \<open>Json\<close>. \<open>time(NULL)\<close> is the argument \<open>now\<close>.
\<close>

section \<open>Header, hash and seed\<close>

definition block_write_header :: "sodium \<Rightarrow> store \<Rightarrow> block_t \<Rightarrow> dynamic_buffer_t \<Rightarrow> dynamic_buffer_t res" where
  "block_write_header S st block buf =
     bindR (block_get_hash S st (prev_block block)) (\<lambda>prev_hash.
     bindR (tuple_write_start buf) (\<lambda>buf.
     bindR (tuple_write_u64 (timestamp block) buf) (\<lambda>buf.
     bindR (tuple_write_binary (generichash_BYTES S) prev_hash buf) (\<lambda>buf.
     bindR (tuple_write_binary (generichash_BYTES S) (bmerkle_root block) buf) (\<lambda>buf.
     bindR (tuple_write_binary (vrf_PUBLICKEYBYTES S) (public_key block) buf) (\<lambda>buf.
     bindR (tuple_write_binary (vrf_PROOFBYTES S) (sortition_proof block) buf) (\<lambda>buf.
     bindR (tuple_write_u32 (delegate block) buf) (\<lambda>buf.
     bindR (tuple_write_u32 (of_nat (list_size (transactions block))) buf)
       tuple_write_end))))))))"

definition block_compute_hash :: "sodium \<Rightarrow> store \<Rightarrow> block_t \<Rightarrow> block_t res" where
  "block_compute_hash S st block =
     bindR (block_write_header S st block (dynamic_buffer_create 256)) (\<lambda>buf.
     bindR (hash_buffer S buf) (\<lambda>h. Inr (block\<lparr>bhash := h\<rparr>)))"

definition block_compute_seed :: "sodium \<Rightarrow> store \<Rightarrow> block_t \<Rightarrow> block_t res" where
  "block_compute_seed S st block =
     bindR (case prev_block block of
              None \<Rightarrow> Inr (replicate (generichash_BYTES S + vrf_PUBLICKEYBYTES S) 0)
            | Some p \<Rightarrow> bindR (heap_load (s_blocks st) p) (\<lambda>prev.
                Inr (take (generichash_BYTES S) (sortition_seed prev) @
                     take (vrf_PUBLICKEYBYTES S) (public_key prev)))) (\<lambda>buffer.
     Inr (block\<lparr>sortition_seed := generichash S buffer\<rparr>))"

section \<open>Merkle roots\<close>

definition merkle_root_from_list :: "sodium \<Rightarrow> store \<Rightarrow> addr option list_t \<Rightarrow> byte list res" where
  "merkle_root_from_list S st txns =
     bindR (mapR (\<lambda>i. bindR (list_get txns i) (\<lambda>p. bindR (load_txn st p) (\<lambda>t. Inr (thash t))))
        [0..<list_size txns]) (merkle_root S)"

definition merkle_root_from_tuple :: "sodium \<Rightarrow> byte arr \<Rightarrow> tuple_t \<Rightarrow> byte list res" where
  "merkle_root_from_tuple S mem txns =
     bindR (mapR (\<lambda>i.
        bindR (tuple_get_tuple mem txns i) (\<lambda>signed_txn.
        bindR (tuple_get_tuple mem signed_txn 0) (\<lambda>txn.
        bindR (arr_load_n mem (t_start txn) (t_length txn)) (\<lambda>bs. Inr (generichash S bs)))))
        [0..<tuple_size txns]) (merkle_root S)"

section \<open>Delegates\<close>

text \<open>The priority of a delegate is the hash of the sortition hash and its number.\<close>

definition delegate_priority :: "sodium \<Rightarrow> byte list \<Rightarrow> u32 \<Rightarrow> byte list" where
  "delegate_priority S sortition i =
     generichash S (take (vrf_OUTPUTBYTES S) sortition @ u32_bytes (htonl i))"

definition better_delegate :: "sodium \<Rightarrow> byte list \<Rightarrow> nat \<Rightarrow> u32 \<times> byte list \<Rightarrow> u32 \<times> byte list" where
  "better_delegate S sortition i best =
     (let tmp = delegate_priority S sortition (of_nat i) in
      if memcmp tmp (snd best) (generichash_BYTES S) < 0 then (of_nat i, tmp) else best)"

definition best_delegate :: "sodium \<Rightarrow> byte list \<Rightarrow> u32 \<Rightarrow> u32 \<times> byte list" where
  "best_delegate S sortition n_delegates =
     fold (better_delegate S sortition) [1..<unat n_delegates] (0, delegate_priority S sortition 0)"

section \<open>Difficulty\<close>

text \<open>
  The test of a hash against a difficulty in bits, left from the time of mining and called from
  nowhere now. A difficulty that is no multiple of eight compares the last byte with its mask.
\<close>

definition hash_satisfies_difficulty :: "sodium \<Rightarrow> byte list \<Rightarrow> u32 \<Rightarrow> bool" where
  "hash_satisfies_difficulty S h difficulty =
     (let d = unat difficulty in
      if 8 * generichash_BYTES S < d then False
      else if list_ex (\<lambda>i. h ! i \<noteq> 0) [0..<d div 8] then False
      else if d mod 8 = 0 then True
      else h ! (d div 8) < (drop_bit (d mod 8) 255 :: byte))"

lemma difficulty_mask: "uint (drop_bit k 255 :: byte) = 2 ^ (8 - k) - 1" if "k < 8"
proof -
  have "k \<in> {0, 1, 2, 3, 4, 5, 6, 7}" using that by auto
  then show ?thesis by (auto simp: unsigned_drop_bit_eq drop_bit_eq_div take_bit_eq_mod)
qed

text \<open>
  The comparison is strict, so the largest byte with the required zero bits, the mask itself, is
  refused: a hash of \<open>d\<close> zero bits followed by ones has difficulty \<open>d\<close> and fails the test.
\<close>

lemma hash_difficulty_boundary:
  assumes "unat d \<le> 8 * generichash_BYTES S" "\<forall>i<unat d div 8. h ! i = 0" "unat d mod 8 \<noteq> 0"
  shows "hash_satisfies_difficulty S h d \<longleftrightarrow> uint (h ! (unat d div 8)) < 2 ^ (8 - unat d mod 8) - 1"
  using assms difficulty_mask [of "unat d mod 8"]
  by (auto simp: hash_satisfies_difficulty_def Let_def list_ex_iff word_less_def)

section \<open>Destruction\<close>

definition free_ptr :: "addr option \<Rightarrow> 'a heap \<Rightarrow> 'a heap res" where
  "free_ptr p h = (case p of None \<Rightarrow> Inr h | Some a \<Rightarrow> heap_free h a)"

definition free_account :: "(byte list, addr) destructor_call \<Rightarrow> account_t heap \<Rightarrow> account_t heap res" where
  "free_account c h = (case c of Destroy_key _ \<Rightarrow> Inr h | Destroy_val v \<Rightarrow> free_ptr v h)"

definition block_destroy :: "store \<Rightarrow> addr option \<Rightarrow> store res" where
  "block_destroy st block =
     (case block of
        None \<Rightarrow> Inr st
      | Some b \<Rightarrow>
          bindR (heap_load (s_blocks st) b) (\<lambda>x.
          bindR (list_destroy (transactions x) True) (\<lambda>ptrs.
          bindR (foldR free_ptr ptrs (s_txns st)) (\<lambda>txns.
          bindR (map_destroy (accounts x)) (\<lambda>calls.
          bindR (foldR free_account calls (s_accounts st)) (\<lambda>accts.
          bindR (heap_free (s_blocks st) b) (\<lambda>blocks.
            Inr (st\<lparr>s_txns := txns, s_accounts := accts, s_blocks := blocks\<rparr>))))))))"

section \<open>Creation\<close>

definition new_block :: "sodium \<Rightarrow> u64 \<Rightarrow> addr option \<Rightarrow> byte list \<Rightarrow> addr option list_t \<Rightarrow> byte list \<Rightarrow> block_t" where
  "new_block S now prev merkle txns pk =
     \<lparr>timestamp = now, prev_block = prev, bmerkle_root = merkle, public_key = pk,
      sortition_proof = replicate (vrf_PROOFBYTES S) 0, bsignature = replicate (sign_BYTES S) 0,
      delegate = 0, transactions = txns, bhash = replicate (generichash_BYTES S) 0,
      sortition_seed = replicate (generichash_BYTES S) 0,
      sortition_hash = replicate (vrf_OUTPUTBYTES S) 0,
      sortition_priority = replicate (generichash_BYTES S) 0,
      children = list_create 1, height = 0,
      accounts = map_create N_ACCOUNT_BUCKETS (key_hash S) False True (key_compare S)\<rparr>"

text \<open>
  The common end of both constructors: the block gets its address and its accounts, and is destroyed
  if the transactions are not valid.
\<close>

definition place_block :: "store \<Rightarrow> block_t \<Rightarrow> (addr \<times> store)" where
  "place_block st x = (length (s_blocks st), st\<lparr>s_blocks := s_blocks st @ [Some x]\<rparr>)"

definition finish_block :: "store \<Rightarrow> addr \<Rightarrow> (addr option \<times> store) res" where
  "finish_block st b =
     bindR (are_transactions_valid st b) (\<lambda>(ok, st).
       if \<not> ok then bindR (block_destroy st (Some b)) (\<lambda>st. Inr (None, st))
       else Inr (Some b, st))"

definition count_delegates :: "store \<Rightarrow> addr option \<Rightarrow> byte list \<Rightarrow> u32 res" where
  "count_delegates st prev pk =
     bindR (block_get_account st prev pk) (\<lambda>account.
       case account of
         None \<Rightarrow> Inr (if prev = None then 1 else 0)
       | Some a \<Rightarrow> bindR (account_get_delegates st a) (\<lambda>d. Inr (ucast d)))"

definition block_create ::
  "sodium \<Rightarrow> u64 \<Rightarrow> store \<Rightarrow> byte list \<Rightarrow> byte list \<Rightarrow> addr option \<Rightarrow> addr option list_t \<Rightarrow>
     (addr option \<times> store) res" where
  "block_create S now st pk sk prev txns =
     bindR (is_staking_allowed st prev pk) (\<lambda>allowed.
     if \<not> allowed then Inr (None, st) else
     bindR (merkle_root_from_list S st txns) (\<lambda>merkle.
     bindR (block_compute_seed S st (new_block S now prev merkle txns (take (vrf_PUBLICKEYBYTES S) pk))) (\<lambda>x.
     let proof = vrf_prove S sk (sortition_seed x);
         x = x\<lparr>sortition_proof := proof, sortition_hash := vrf_proof_to_hash S proof\<rparr> in
     bindR (count_delegates st prev pk) (\<lambda>n_delegates.
     if n_delegates = 0 then Inr (None, st) else
     let best = best_delegate S (sortition_hash x) n_delegates;
         x = x\<lparr>delegate := fst best, sortition_priority := snd best\<rparr> in
     bindR (block_compute_hash S st x) (\<lambda>x.
     let x = x\<lparr>bsignature := sign_detached S (bhash x) sk\<rparr> in
     bindR (block_get_height st prev) (\<lambda>h.
     case place_block st (x\<lparr>height := 1 + h\<rparr>) of (b, st) \<Rightarrow> finish_block st b))))))"

section \<open>Received blocks\<close>

definition is_header_valid :: "sodium \<Rightarrow> byte arr \<Rightarrow> tuple_t \<Rightarrow> bool res" where
  "is_header_valid S mem t =
     (if tuple_size t \<noteq> 7 then Inr False else
      bindR (tuple_get_type mem t 0) (\<lambda>k.
      if k \<noteq> TUPLE_U64 then Inr False else
      bindR (binary_of_size mem t 1 (generichash_BYTES S)) (\<lambda>ok. if \<not> ok then Inr False else
      bindR (binary_of_size mem t 2 (generichash_BYTES S)) (\<lambda>ok. if \<not> ok then Inr False else
      bindR (binary_of_size mem t 3 (vrf_PUBLICKEYBYTES S)) (\<lambda>ok. if \<not> ok then Inr False else
      bindR (binary_of_size mem t 4 (vrf_PROOFBYTES S)) (\<lambda>ok. if \<not> ok then Inr False else
      bindR (tuple_get_type mem t 5) (\<lambda>k.
      if k \<noteq> TUPLE_U32 then Inr False else
      bindR (tuple_get_type mem t 6) (\<lambda>k. Inr (k = TUPLE_U32)))))))))"

fun txns_valid :: "sodium \<Rightarrow> byte arr \<Rightarrow> tuple_t \<Rightarrow> nat list \<Rightarrow> bool res" where
  "txns_valid S mem txns [] = Inr True"
| "txns_valid S mem txns (i # is) =
     bindR (tuple_get_type mem txns i) (\<lambda>k.
     if k \<noteq> TUPLE_START then Inr False else
     bindR (tuple_get_tuple mem txns i) (\<lambda>txn.
     bindR (transaction_is_valid S mem txn) (\<lambda>ok.
     if \<not> ok then Inr False else txns_valid S mem txns is)))"

text \<open>The first \<open>n\<close> bytes of a binary, whatever its length, as \<open>memcpy\<close> and \<open>memcmp\<close> read them.\<close>

definition binary_prefix :: "byte arr \<Rightarrow> tuple_t \<Rightarrow> nat \<Rightarrow> nat \<Rightarrow> byte list res" where
  "binary_prefix mem t i n = bindR (tuple_get_binary mem t i) (\<lambda>(_, data). arr_load_n mem data n)"

definition block_is_valid :: "sodium \<Rightarrow> byte arr \<Rightarrow> tuple_t \<Rightarrow> bool res" where
  "block_is_valid S mem tuple =
     (if tuple_size tuple \<noteq> 3 then Inr False else
      bindR (tuple_get_type mem tuple 0) (\<lambda>k.
      if k \<noteq> TUPLE_START then Inr False else
      bindR (tuple_get_type mem tuple 1) (\<lambda>k.
      if k \<noteq> TUPLE_BINARY then Inr False else
      bindR (tuple_get_type mem tuple 2) (\<lambda>k.
      if k \<noteq> TUPLE_START then Inr False else
      bindR (tuple_get_tuple mem tuple 0) (\<lambda>header.
      bindR (tuple_get_tuple mem tuple 2) (\<lambda>txns.
      bindR (is_header_valid S mem header) (\<lambda>ok. if \<not> ok then Inr False else
      bindR (tuple_get_u32 mem header 6) (\<lambda>n.
      if tuple_size txns \<noteq> unat n then Inr False else
      bindR (txns_valid S mem txns [0..<tuple_size txns]) (\<lambda>ok. if \<not> ok then Inr False else
      bindR (merkle_root_from_tuple S mem txns) (\<lambda>merkle_root.
      bindR (binary_prefix mem header 2 (generichash_BYTES S)) (\<lambda>merkle_root_header.
        Inr (memcmp merkle_root merkle_root_header (generichash_BYTES S) = 0))))))))))))"

text \<open>
  \<open>memcpy(result->signature, signature.data, signature.length)\<close>: the length is the sender's, and
  nothing has compared it with the size of the field.
\<close>

definition copy_signature :: "sodium \<Rightarrow> byte arr \<Rightarrow> tuple_t \<Rightarrow> byte list res" where
  "copy_signature S mem tuple =
     bindR (read_binary mem tuple 1) (\<lambda>sig.
       if length sig \<le> sign_BYTES S then Inr (sig @ replicate (sign_BYTES S - length sig) 0)
       else Inl Out_of_bounds)"

text \<open>One transaction of a received block; an invalid one is added to the list as \<open>NULL\<close>.\<close>

definition add_txn ::
  "sodium \<Rightarrow> byte arr \<Rightarrow> tuple_t \<Rightarrow> nat \<Rightarrow> addr option list_t \<times> store \<Rightarrow> (addr option list_t \<times> store) res" where
  "add_txn S mem txns i s =
     (case s of (l, st) \<Rightarrow>
        bindR (tuple_get_tuple mem txns i) (\<lambda>txn_tuple.
        bindR (transaction_create_from_tuple S mem txn_tuple) (\<lambda>t.
          case t of
            None \<Rightarrow> bindR (list_add l None) (\<lambda>l. Inr (l, st))
          | Some txn \<Rightarrow> bindR (list_add l (Some (length (s_txns st)))) (\<lambda>l.
              Inr (l, st\<lparr>s_txns := s_txns st @ [Some txn]\<rparr>)))))"

definition delegate_allowed :: "store \<Rightarrow> addr option \<Rightarrow> byte list \<Rightarrow> u32 \<Rightarrow> bool res" where
  "delegate_allowed st prev pk d =
     (if prev = None then Inr True
      else bindR (block_get_account st prev pk) (\<lambda>account.
        case account of
          None \<Rightarrow> Inr True
        | Some a \<Rightarrow> bindR (account_get_delegates st a) (\<lambda>n. Inr (d < ucast n))))"

text \<open>
  The checks and the construction once the fields of the message have been read:
  \<open>block_create_from_tuple\<close> from the staking check on.
\<close>

definition verify_and_finish :: "sodium \<Rightarrow> store \<Rightarrow> block_t \<Rightarrow> (addr option \<times> store) res" where
  "verify_and_finish S st x =
     bindR (block_compute_hash S st x) (\<lambda>x.
     case place_block st x of (b, st) \<Rightarrow>
     if \<not> sign_verify_detached S (bsignature x) (take (sign_PUBLICKEYBYTES S) (bhash x)) (public_key x)
     then bindR (block_destroy st (Some b)) (\<lambda>st. Inr (None, st))
     else finish_block st b)"

definition accept_block ::
  "sodium \<Rightarrow> store \<Rightarrow> byte arr \<Rightarrow> tuple_t \<Rightarrow> block_t \<Rightarrow> (addr option \<times> store) res" where
  "accept_block S st mem txns x =
     bindR (is_staking_allowed st (prev_block x) (public_key x)) (\<lambda>allowed.
     if \<not> allowed then Inr (None, st) else
     bindR (block_compute_seed S st x) (\<lambda>x.
     case vrf_verify S (public_key x) (sortition_proof x) (sortition_seed x) of
       None \<Rightarrow> Inr (None, st)
     | Some out \<Rightarrow>
     let x = x\<lparr>sortition_hash := out, sortition_priority := delegate_priority S out (delegate x)\<rparr> in
     bindR (delegate_allowed st (prev_block x) (public_key x) (delegate x)) (\<lambda>ok.
     if \<not> ok then Inr (None, st) else
     bindR (block_get_height st (prev_block x)) (\<lambda>h.
     bindR (foldR (add_txn S mem txns) [0..<tuple_size txns] (list_create (tuple_size txns), st)) (\<lambda>(l, st).
     verify_and_finish S st (x\<lparr>height := 1 + h, transactions := l\<rparr>))))))"

definition read_block ::
  "sodium \<Rightarrow> (byte list \<Rightarrow> addr option res) \<Rightarrow> byte arr \<Rightarrow> tuple_t \<Rightarrow> tuple_t \<Rightarrow> block_t res" where
  "read_block S find_block mem tuple header =
     bindR (tuple_get_u64 mem header 0) (\<lambda>timestamp.
     bindR (tuple_get_u32 mem header 5) (\<lambda>delegate.
     bindR (binary_prefix mem header 1 (generichash_BYTES S)) (\<lambda>prev_hash.
     bindR (find_block prev_hash) (\<lambda>prev.
     bindR (binary_prefix mem header 2 (generichash_BYTES S)) (\<lambda>merkle.
     bindR (binary_prefix mem header 3 (vrf_PUBLICKEYBYTES S)) (\<lambda>pk.
     bindR (binary_prefix mem header 4 (vrf_PROOFBYTES S)) (\<lambda>proof.
     bindR (copy_signature S mem tuple) (\<lambda>sig.
       Inr ((new_block S timestamp prev merkle (list_create 0) pk)
              \<lparr>delegate := delegate, sortition_proof := proof, bsignature := sig\<rparr>)))))))))"

definition block_create_from_tuple ::
  "sodium \<Rightarrow> (byte list \<Rightarrow> addr option res) \<Rightarrow> store \<Rightarrow> byte arr \<Rightarrow> tuple_t \<Rightarrow> (addr option \<times> store) res" where
  "block_create_from_tuple S find_block st mem tuple =
     bindR (block_is_valid S mem tuple) (\<lambda>valid.
     if \<not> valid then Inr (None, st) else
     bindR (tuple_get_tuple mem tuple 0) (\<lambda>header.
     bindR (tuple_get_tuple mem tuple 2) (\<lambda>txns.
     bindR (read_block S find_block mem tuple header) (\<lambda>x.
       accept_block S st mem txns x))))"

section \<open>Writing and tree links\<close>

definition block_write :: "sodium \<Rightarrow> store \<Rightarrow> addr \<Rightarrow> dynamic_buffer_t \<Rightarrow> dynamic_buffer_t res" where
  "block_write S st block buf =
     bindR (tuple_write_start buf) (\<lambda>buf.
     bindR (heap_load (s_blocks st) block) (\<lambda>x.
     bindR (block_write_header S st x buf) (\<lambda>buf.
     bindR (tuple_write_binary (sign_BYTES S) (bsignature x) buf) (\<lambda>buf.
     bindR (tuple_write_start buf) (\<lambda>buf.
     bindR (foldR (\<lambda>i buf. bindR (list_get (transactions x) i) (\<lambda>p.
              bindR (derefR p) (\<lambda>q. bindR (heap_load (s_txns st) q) (\<lambda>txn. transaction_write S txn buf))))
        [0..<list_size (transactions x)] buf) (\<lambda>buf.
     bindR (tuple_write_end buf) tuple_write_end))))))"

definition block_add_child :: "store \<Rightarrow> addr \<Rightarrow> addr \<Rightarrow> store res" where
  "block_add_child st block child =
     bindR (heap_load (s_blocks st) block) (\<lambda>x.
     bindR (list_add (children x) child) (\<lambda>l.
     bindR (heap_store (s_blocks st) block (x\<lparr>children := l\<rparr>)) (\<lambda>h. Inr (st\<lparr>s_blocks := h\<rparr>))))"

fun find_child :: "sodium \<Rightarrow> store \<Rightarrow> addr list_t \<Rightarrow> byte list \<Rightarrow> nat list \<Rightarrow> addr option res" where
  "find_child S st l pk [] = Inr None"
| "find_child S st l pk (i # is) =
     bindR (list_get l i) (\<lambda>child.
     bindR (heap_load (s_blocks st) child) (\<lambda>x.
       if memcmp (public_key x) pk (vrf_PUBLICKEYBYTES S) = 0 then Inr (Some child)
       else find_child S st l pk is))"

definition block_get_child_with_public_key :: "sodium \<Rightarrow> store \<Rightarrow> addr option \<Rightarrow> byte list \<Rightarrow> addr option res" where
  "block_get_child_with_public_key S st block pk =
     bindR (assertR (block \<noteq> None)) (\<lambda>_.
     bindR (heap_load (s_blocks st) (the block)) (\<lambda>x.
       find_child S st (children x) pk [0..<list_size (children x)]))"


section \<open>What a block says\<close>

definition hash_of :: "sodium \<Rightarrow> store \<Rightarrow> addr option \<Rightarrow> byte list" where
  "hash_of S st bo = (case bo of None \<Rightarrow> replicate (generichash_BYTES S) 0 | Some b \<Rightarrow> bhash (blk st b))"

definition seed_input :: "sodium \<Rightarrow> store \<Rightarrow> addr option \<Rightarrow> byte list" where
  "seed_input S st bo = (case bo of
     None \<Rightarrow> replicate 64 0 | Some b \<Rightarrow> sortition_seed (blk st b) @ public_key (blk st b))"

definition header_form :: "sodium \<Rightarrow> store \<Rightarrow> block_t \<Rightarrow> tval list" where
  "header_form S st x =
     [T_u64 (timestamp x), T_binary (hash_of S st (prev_block x)), T_binary (bmerkle_root x),
      T_binary (public_key x), T_binary (sortition_proof x), T_u32 (delegate x),
      T_u32 (of_nat (length (list_elems (transactions x))))]"

definition block_txns :: "store \<Rightarrow> block_t \<Rightarrow> transaction_t list" where
  "block_txns st x = map (\<lambda>p. obj (s_txns st) (the p)) (list_elems (transactions x))"

definition block_form :: "sodium \<Rightarrow> store \<Rightarrow> block_t \<Rightarrow> tval list" where
  "block_form S st x =
     [T_tuple (header_form S st x), T_binary (bsignature x),
      T_tuple (map (\<lambda>t. T_tuple (txn_form t)) (block_txns st x))]"

definition block_sized :: "block_t \<Rightarrow> bool" where
  "block_sized x \<longleftrightarrow> length (bmerkle_root x) = 32 \<and> length (public_key x) = 32 \<and>
     length (sortition_proof x) = 80 \<and> length (bsignature x) = 64 \<and> length (sortition_seed x) = 32"

text \<open>
  \<open>authentic S st x\<close>: the block is what the protocol asks for, relative to the store: its hash is
  that of its header, the signature is one of its creator over the hash, seed, sortition hash and
  priority follow from the previous block, the proof and the delegate, and the creator was allowed
  to stake with that delegate; all its transactions are well formed.
\<close>

definition txns_ok :: "sodium \<Rightarrow> store \<Rightarrow> block_t \<Rightarrow> bool" where
  "txns_ok S st x \<longleftrightarrow> (\<forall>p \<in> set (list_elems (transactions x)).
     \<exists>q. p = Some q \<and> alive (s_txns st) q \<and> txn_ok S (obj (s_txns st) q))"

definition authentic :: "sodium \<Rightarrow> store \<Rightarrow> block_t \<Rightarrow> bool" where
  "authentic S st x \<longleftrightarrow> block_sized x \<and> txns_ok S st x \<and>
     bhash x = generichash S (enc (T_tuple (header_form S st x))) \<and>
     sign_verify_detached S (bsignature x) (bhash x) (public_key x) \<and>
     sortition_seed x = generichash S (seed_input S st (prev_block x)) \<and>
     vrf_verify S (public_key x) (sortition_proof x) (sortition_seed x) = Some (sortition_hash x) \<and>
     sortition_priority x = delegate_priority S (sortition_hash x) (delegate x) \<and>
     may_stake (entries st (prev_block x)) (public_key x) \<and>
     (prev_block x \<noteq> None \<longrightarrow>
        (\<exists>v. ledger st (prev_block x) (public_key x) = Some v \<and> delegate x < delegates v))"

definition blocks_authentic :: "sodium \<Rightarrow> store \<Rightarrow> nat \<Rightarrow> bool" where
  "blocks_authentic S st n \<longleftrightarrow> (\<forall>b < n. alive (s_blocks st) b \<longrightarrow> authentic S st (blk st b))"

text \<open>A store of well-formed and authentic blocks.\<close>

definition good_store :: "sodium \<Rightarrow> store \<Rightarrow> bool" where
  "good_store S st \<longleftrightarrow> store_ok st \<and> blocks_authentic S st (length (s_blocks st))"

lemma good_storeD:
  assumes "good_store S st" "alive (s_blocks st) b"
  shows "body_ok st b (blk st b)" "accounts_ok st b (blk st b)" "authentic S st (blk st b)"
    "blocks_ok st (length (s_blocks st))"
  using assms alive_less [OF assms(2)]
  by (auto simp: good_store_def store_ok_def blocks_authentic_def dest: blocks_okD)

lemma good_known_lengths:
  assumes "sodium_ok S kp" "good_store S st" "known st (length (s_blocks st)) bo"
  shows "length (hash_of S st bo) = 32" "length (seed_input S st bo) = 64"
proof -
  have "length (bhash (blk st b)) = 32 \<and> length (sortition_seed (blk st b)) = 32 \<and> length (public_key (blk st b)) = 32"
    if "bo = Some b" for b
    using good_storeD(3) [OF assms(2), of b] assms(3) that
    by (auto simp: authentic_def block_sized_def sodium_sizes [OF assms(1)] simp del: enc.simps)
  then show "length (hash_of S st bo) = 32" "length (seed_input S st bo) = 64"
    by (auto simp: hash_of_def seed_input_def sodium_sizes [OF assms(1)] split: option.split)
qed

section \<open>Header and hash\<close>

lemma block_get_hash_of: "known st n bo \<Longrightarrow> block_get_hash S st bo = Inr (hash_of S st bo)"
  by (cases bo) (simp_all add: block_get_hash_def hash_of_def)

lemma length_header_form:
  assumes "block_sized x" "length (hash_of S st (prev_block x)) = 32"
  shows "length (enc (T_tuple (header_form S st x))) = 217" "wf_tval (T_tuple (header_form S st x))"
  using assms by (simp_all add: header_form_def block_sized_def)

lemma writes_header:
  assumes "sodium_ok S kp" "block_sized x" "known st n (prev_block x)"
    "length (hash_of S st (prev_block x)) = 32" "list_rd (transactions x)"
  shows "writes (block_write_header S st x) (enc (T_tuple (header_form S st x)))"
proof -
  have "writes (\<lambda>buf. bindR (tuple_write_start buf) (\<lambda>buf.
     bindR (tuple_write_u64 (timestamp x) buf) (\<lambda>buf.
     bindR (tuple_write_binary 32 (hash_of S st (prev_block x)) buf) (\<lambda>buf.
     bindR (tuple_write_binary 32 (bmerkle_root x) buf) (\<lambda>buf.
     bindR (tuple_write_binary 32 (public_key x) buf) (\<lambda>buf.
     bindR (tuple_write_binary 80 (sortition_proof x) buf) (\<lambda>buf.
     bindR (tuple_write_u32 (delegate x) buf) (\<lambda>buf.
     bindR (tuple_write_u32 (of_nat (list_size (transactions x))) buf) tuple_write_end))))))))
   ([TUPLE_START] @ enc (T_u64 (timestamp x)) @ enc (T_binary (hash_of S st (prev_block x))) @
    enc (T_binary (bmerkle_root x)) @ enc (T_binary (public_key x)) @ enc (T_binary (sortition_proof x)) @
    enc (T_u32 (delegate x)) @ enc (T_u32 (of_nat (list_size (transactions x)))) @ [TUPLE_END])"
    using assms(2,4) by (intro dbuf.appends_bind writes_start writes_end writes_binary writes_scalar)
      (simp_all add: block_sized_def)
  then show ?thesis
    by (simp add: block_write_header_def [abs_def] block_get_hash_of [OF assms(3)] sodium_sizes [OF assms(1)]
        header_form_def list_size_rd [OF assms(5)])
qed

lemma block_compute_hash_result:
  assumes "sodium_ok S kp" "block_sized x" "known st n (prev_block x)"
    "length (hash_of S st (prev_block x)) = 32" "list_rd (transactions x)"
  shows "block_compute_hash S st x = Inr (x\<lparr>bhash := generichash S (enc (T_tuple (header_form S st x)))\<rparr>)"
proof -
  have "bindR (block_write_header S st x (dynamic_buffer_create 256)) (hash_buffer S) =
      Inr (generichash S (enc (T_tuple (header_form S st x))))"
    using length_header_form(1) [OF assms(2,4)] by (intro hash_of_writer writes_header [OF assms]) simp
  then have "bindR (bindR (block_write_header S st x (dynamic_buffer_create 256)) (hash_buffer S))
      (\<lambda>h. Inr (x\<lparr>bhash := h\<rparr>)) = Inr (x\<lparr>bhash := generichash S (enc (T_tuple (header_form S st x)))\<rparr>)"
    by simp
  then show ?thesis by (simp only: block_compute_hash_def bindR_assoc)
qed

lemma block_compute_seed_result:
  assumes "sodium_ok S kp" "good_store S st" "known st (length (s_blocks st)) (prev_block x)"
  shows "block_compute_seed S st x =
    Inr (x\<lparr>sortition_seed := generichash S (seed_input S st (prev_block x))\<rparr>)"
proof (cases "prev_block x")
  case (Some p)
  then have "length (sortition_seed (blk st p)) = 32" "length (public_key (blk st p)) = 32" "alive (s_blocks st) p"
    using good_storeD(3) [OF assms(2), of p] assms(3) by (auto simp: authentic_def block_sized_def)
  then show ?thesis
    using Some by (simp add: block_compute_seed_def seed_input_def sodium_sizes [OF assms(1)])
qed (simp add: block_compute_seed_def seed_input_def sodium_sizes [OF assms(1)])

section \<open>The best delegate\<close>

lemma best_delegate_fold:
  assumes "sodium_ok S kp" "m < 2 ^ 32"
  shows "\<exists>i \<le> m. fold (better_delegate S h) [1..<Suc m] (0, delegate_priority S h 0) =
      (of_nat i, delegate_priority S h (of_nat i)) \<and>
    (\<forall>j \<le> m. delegate_priority S h (of_nat i) \<le> delegate_priority S h (of_nat j))"
  using assms(2)
proof (induction m)
  case (Suc m)
  have len: "length (delegate_priority S h j) = 32" for j
    by (simp add: delegate_priority_def sodium_sizes [OF assms(1)])
  obtain i where i: "i \<le> m" "fold (better_delegate S h) [1..<Suc m] (0, delegate_priority S h 0) =
      (of_nat i, delegate_priority S h (of_nat i))"
      "\<forall>j \<le> m. delegate_priority S h (of_nat i) \<le> delegate_priority S h (of_nat j)"
    using Suc by auto
  let ?p = "\<lambda>j. delegate_priority S h (of_nat j)"
  have c: "memcmp (?p (Suc m)) (?p i) (generichash_BYTES S) < 0 \<longleftrightarrow> ?p (Suc m) < ?p i"
    using memcmp_less [of 32 "?p (Suc m)" "?p i"] len by (simp add: sodium_sizes [OF assms(1)])
  have step: "fold (better_delegate S h) [1..<Suc (Suc m)] (0, delegate_priority S h 0) =
      (if ?p (Suc m) < ?p i then (of_nat (Suc m), ?p (Suc m)) else (of_nat i, ?p i))"
    using i(2) c by (simp add: better_delegate_def Let_def)
  show ?case
  proof (cases "?p (Suc m) < ?p i")
    case True
    then have "\<forall>j \<le> Suc m. ?p (Suc m) \<le> ?p j" using i(3) by (auto simp: le_Suc_eq intro: less_imp_le less_le_trans)
    then show ?thesis using step True by (intro exI [of _ "Suc m"]) simp
  next
    case False
    then have "\<forall>j \<le> Suc m. ?p i \<le> ?p j" using i(3) by (auto simp: le_Suc_eq)
    then show ?thesis using step False i(1) by (intro exI [of _ i]) simp
  qed
qed simp

lemma best_delegate_result:
  assumes "sodium_ok S kp" "0 < n"
  shows "\<exists>i < n. best_delegate S h n = (i, delegate_priority S h i) \<and>
    (\<forall>j < n. delegate_priority S h i \<le> delegate_priority S h j)"
proof -
  obtain m where m: "unat n = Suc m" using assms(2) by (metis unat_gt_0 gr0_implies_Suc word_gt_0)
  have "m < 2 ^ 32" using m unsigned_less [of n, where ?'a = nat] by simp
  then obtain i where i: "i \<le> m" "best_delegate S h n = (of_nat i, delegate_priority S h (of_nat i))"
      "\<forall>j \<le> m. delegate_priority S h (of_nat i) \<le> delegate_priority S h (of_nat j)"
    using best_delegate_fold [OF assms(1), of m h] unfolding best_delegate_def m by auto
  have "(of_nat i :: u32) < n"
    using i(1) m unsigned_less [of n, where ?'a = nat] by (simp add: word_less_nat_alt unat_of_nat)
  moreover have "delegate_priority S h (of_nat i) \<le> delegate_priority S h j" if "j < n" for j
  proof -
    have "unat j \<le> m" using that m by (simp add: word_less_nat_alt)
    then have "delegate_priority S h (of_nat i) \<le> delegate_priority S h (of_nat (unat j))" using i(3) by blast
    then show ?thesis by simp
  qed
  ultimately show ?thesis using i(2) by blast
qed


section \<open>Placing a block\<close>

lemma append_extends:
  assumes "blocks_ok st (length (s_blocks st))"
  shows "extends (length (s_blocks st)) st (st\<lparr>s_blocks := s_blocks st @ bs\<rparr>)"
  using blocks_ok_refl [OF assms] by (simp add: extends_def alive_def nth_append)

lemma hash_of_extends:
  assumes "known st n bo" "extends n st st'"
  shows "hash_of S st' bo = hash_of S st bo"
  using assms extends_fields(6) [OF assms(2)] by (auto simp: hash_of_def split: option.split)

lemma seed_input_extends:
  assumes "known st n bo" "extends n st st'"
  shows "seed_input S st' bo = seed_input S st bo"
  using assms same_fields(8) [OF extendsD(3) [OF assms(2)]] extends_fields(2) [OF assms(2)]
  by (auto simp: seed_input_def split: option.split)

lemma header_form_extends:
  "known st n (prev_block x) \<Longrightarrow> extends n st st' \<Longrightarrow> header_form S st' x = header_form S st x"
  by (simp add: header_form_def hash_of_extends)

lemma header_form_cong:
  "prev_block x = prev_block y \<Longrightarrow> timestamp x = timestamp y \<Longrightarrow> bmerkle_root x = bmerkle_root y \<Longrightarrow>
     public_key x = public_key y \<Longrightarrow> sortition_proof x = sortition_proof y \<Longrightarrow> delegate x = delegate y \<Longrightarrow>
     transactions x = transactions y \<Longrightarrow> header_form S st x = header_form S st y"
  by (simp add: header_form_def)

text \<open>Two blocks that differ in metadata only.\<close>

definition same_content :: "block_t \<Rightarrow> block_t \<Rightarrow> bool" where
  "same_content x y \<longleftrightarrow> (\<exists>c m h. x = y\<lparr>children := c, accounts := m, height := h\<rparr>)"

lemma authentic_extends:
  assumes "authentic S st x" "blocks_ok st n" "known st n (prev_block x)" "extends n st st'" "same_content y x"
  shows "authentic S st' y"
proof -
  obtain c m h where y: "y = x\<lparr>children := c, accounts := m, height := h\<rparr>"
    using assms(5) by (auto simp: same_content_def)
  note C = chain_extends [OF assms(2,3,4)]
  have "txns_ok S st' x"
    using assms(1) extendsD(5) [OF assms(4)] unfolding authentic_def txns_ok_def by fastforce
  then have t: "txns_ok S st' y" by (simp add: txns_ok_def y)
  have h: "header_form S st' y = header_form S st x"
    using header_form_extends [OF assms(3,4)] header_form_cong [of y x S st'] by (simp add: y)
  show ?thesis
    using assms(1) t h C(2,3) seed_input_extends [OF assms(3,4)] unfolding authentic_def
    by (auto simp: y block_sized_def simp del: enc.simps)
qed

lemma blocks_authentic_extends:
  assumes "blocks_authentic S st n" "blocks_ok st n" "extends n st st'"
  shows "blocks_authentic S st' n"
  unfolding blocks_authentic_def
proof (intro allI impI)
  fix b assume b: "b < n" "alive (s_blocks st') b"
  then have al: "alive (s_blocks st) b" using extendsD(1) [OF assms(3)] by simp
  have "blk st' b = (blk st b)\<lparr>children := children (blk st' b), accounts := accounts (blk st b), height := height (blk st b)\<rparr>"
  proof -
    have "(blk st' b)\<lparr>children := children (blk st b)\<rparr>\<lparr>children := children (blk st' b)\<rparr> =
        (blk st b)\<lparr>children := children (blk st' b)\<rparr>"
      using extendsD(3) [OF assms(3) b(1) al] by simp
    then have e: "blk st' b = (blk st b)\<lparr>children := children (blk st' b)\<rparr>" by simp
    have "x\<lparr>children := c, accounts := accounts x, height := height x\<rparr> = x\<lparr>children := c\<rparr>"
      for x :: block_t and c by simp
    then show ?thesis by (rule trans [OF e sym])
  qed
  then have "same_content (blk st' b) (blk st b)" unfolding same_content_def by blast
  moreover have "known st n (prev_block (blk st b))"
    using prev_known(1) [OF blocks_okD(1) [OF assms(2) b(1) al]] b(1) by simp
  ultimately show "authentic S st' (blk st' b)"
    using authentic_extends [OF _ assms(2) _ assms(3)] assms(1) b(1) al by (auto simp: blocks_authentic_def)
qed

lemma place_fresh:
  assumes ok: "store_ok st" and x: "body_ok st (length (s_blocks st)) x"
    "map_ok key_ok (accounts x)" "map_abs (accounts x) = Map.empty"
  shows "fresh_block (snd (place_block st x)) (length (s_blocks st)) x"
    and "extends (length (s_blocks st)) st (snd (place_block st x))"
proof -
  have ok': "blocks_ok st (length (s_blocks st))" using ok by (simp add: store_ok_def)
  show e: "extends (length (s_blocks st)) st (snd (place_block st x))"
    using append_extends [OF ok', of "[Some x]"] by (simp add: place_block_def)
  show "fresh_block (snd (place_block st x)) (length (s_blocks st)) x"
    using blocks_ok_extends [OF ok' e] body_ok_extends [OF ok' e order_refl x(1)] x
    by (simp add: fresh_block_def place_block_def)
qed

text \<open>The accounts of a block are its own: distinct and newer than the first \<open>n\<close>.\<close>

definition owned :: "nat \<Rightarrow> store \<Rightarrow> addr \<Rightarrow> bool" where
  "owned n st b \<longleftrightarrow> (\<forall>k a. map_abs (accounts (blk st b)) k = Some a \<longrightarrow> n \<le> a) \<and>
     (\<forall>k k' a. map_abs (accounts (blk st b)) k = Some a \<longrightarrow> map_abs (accounts (blk st b)) k' = Some a \<longrightarrow> k = k')"

lemma building_owned:
  assumes "building st0 b x T L st" "fresh_block st0 b x"
  shows "owned (length (s_accounts st0)) st b"
proof -
  obtain m where m: "s_blocks st = (s_blocks st0)[b := Some (x\<lparr>accounts := m\<rparr>)]"
      "\<forall>k a. map_abs m k = Some a \<longrightarrow> length (s_accounts st0) \<le> a"
      "\<forall>k k' a. map_abs m k = Some a \<longrightarrow> map_abs m k' = Some a \<longrightarrow> k = k'"
    using assms(1) unfolding building_def by blast
  have "b < length (s_blocks st0)" using assms(2) by (simp add: fresh_block_def)
  then have "accounts (blk st b) = m" by (simp add: m(1))
  then show ?thesis using m(2,3) unfolding owned_def by simp
qed

lemma finish_block_result:
  assumes ok: "good_store S st" and x: "body_ok st (length (s_blocks st)) x"
    "map_ok key_ok (accounts x)" "map_abs (accounts x) = Map.empty" "authentic S st x"
  defines "b \<equiv> length (s_blocks st)"
  shows "\<exists>st'. finish_block (snd (place_block st x)) b = Inr (Some b, st') \<and> good_store S st' \<and>
    extends b st st' \<and> alive (s_blocks st') b \<and> length (s_blocks st') = Suc b \<and>
    blk st' b = x\<lparr>accounts := accounts (blk st' b)\<rparr> \<and> s_txns st' = s_txns st \<and>
    owned (length (s_accounts st)) st' b \<and> take b (s_blocks st') = s_blocks st"
proof -
  let ?st1 = "snd (place_block st x)"
  have so: "store_ok st" and bo: "blocks_ok st b" and ba: "blocks_authentic S st b"
    using ok by (simp_all add: good_store_def store_ok_def b_def)
  have fr: "fresh_block ?st1 b x" and e1: "extends b st ?st1"
    using place_fresh [OF so x(1-3)] by (simp_all add: b_def)
  obtain st' where st': "are_transactions_valid ?st1 b = Inr (True, st')"
      "building ?st1 b x (touched \<lparr>creator = public_key x, transfers = map (txn_entry ?st1) (list_elems (transactions x))\<rparr>)
        (apply_entry \<lparr>creator = public_key x, transfers = map (txn_entry ?st1) (list_elems (transactions x))\<rparr>
          (ledger ?st1 (prev_block x))) st'"
    using are_transactions_valid_result [OF fr] by blast
  note D = building_done [OF st'(2) fr refl] and B = buildingD [OF st'(2) fr]
  have e: "extends b st st'" by (rule extends_trans [OF e1 B(7)])
  have len: "length (s_blocks st') = Suc b" using B(8) by (simp add: place_block_def b_def)
  have "b < length (s_blocks ?st1)" using fr by (simp add: fresh_block_def)
  then have blk: "blk st' b = x\<lparr>accounts := accounts (blk st' b)\<rparr>"
    using arg_cong [OF B(6), of "\<lambda>bs. obj bs b"] by simp
  have "s_txns st' = s_txns st"
    using st'(2) unfolding building_def by (auto simp: place_block_def)
  moreover have "good_store S st'"
  proof -
    have "x\<lparr>accounts := accounts (blk st' b)\<rparr> = x\<lparr>children := children x, accounts := accounts (blk st' b), height := height x\<rparr>"
      by simp
    then have "same_content (blk st' b) x" using blk unfolding same_content_def by metis
    moreover have "known st b (prev_block x)" using prev_known(2) [OF x(1) order_refl] by (simp add: b_def)
    ultimately have "authentic S st' (blk st' b)"
      using authentic_extends [OF x(4) bo _ e] by blast
    then have "blocks_authentic S st' (Suc b)"
      using blocks_authentic_extends [OF ba bo e] by (auto simp: blocks_authentic_def less_Suc_eq)
    then show ?thesis using D(1) len by (simp add: good_store_def store_ok_def)
  qed
  moreover have "owned (length (s_accounts st)) st' b"
    using building_owned [OF st'(2) fr] by (simp add: place_block_def)
  moreover have "take b (s_blocks st') = s_blocks st"
    by (subst B(6)) (simp add: place_block_def b_def)
  ultimately show ?thesis using st'(1) e B(1) len blk by (simp add: finish_block_def)
qed


section \<open>The constructors\<close>

lemma merkle_root_from_list_result:
  assumes "list_rd l" "\<forall>p \<in> set (list_elems l). \<exists>q. p = Some q \<and> alive (s_txns st) q"
  shows "merkle_root_from_list S st l =
    Inr (merkle_ref S (map (\<lambda>p. thash (obj (s_txns st) (the p))) (list_elems l)))"
proof -
  have "mapR (\<lambda>i. bindR (list_get l i) (\<lambda>p. bindR (load_txn st p) (\<lambda>t. Inr (thash t)))) [0..<length (list_elems l)]
    = Inr (map (\<lambda>i. thash (obj (s_txns st) (the (list_elems l ! i)))) [0..<length (list_elems l)])"
  proof (rule mapR_pure)
    fix i assume "i \<in> set [0..<length (list_elems l)]"
    then have i: "i < length (list_elems l)" by simp
    then obtain q where "list_elems l ! i = Some q" "alive (s_txns st) q" using assms(2) nth_mem by blast
    then show "bindR (list_get l i) (\<lambda>p. bindR (load_txn st p) (\<lambda>t. Inr (thash t))) =
        Inr (thash (obj (s_txns st) (the (list_elems l ! i))))"
      using i assms(1) by (simp add: list_get_rd load_txn_def)
  qed
  moreover have "map (\<lambda>i. thash (obj (s_txns st) (the (list_elems l ! i)))) [0..<length (list_elems l)] =
      map (\<lambda>p. thash (obj (s_txns st) (the p))) (list_elems l)"
    by (rule nth_equalityI) simp_all
  ultimately show ?thesis
    by (simp add: merkle_root_from_list_def list_size_rd [OF assms(1)] merkle_root_ref)
qed

lemma count_delegates_result:
  assumes "blocks_ok st n" "known st n prev" "key_ok pk" "n \<le> length (s_blocks st)"
  shows "count_delegates st prev pk =
    Inr (case ledger st prev pk of None \<Rightarrow> if prev = None then 1 else 0 | Some v \<Rightarrow> delegates v)"
  using block_get_account_lookup [OF assms] lookup_account [OF assms(1,2), of pk]
  by (cases "lookup st prev pk")
    (simp_all add: count_delegates_def account_get_delegates_value delegates_def)

definition txn_list_ok :: "sodium \<Rightarrow> store \<Rightarrow> addr option list_t \<Rightarrow> bool" where
  "txn_list_ok S st l \<longleftrightarrow> list_rd l \<and>
     (\<forall>p \<in> set (list_elems l). \<exists>q. p = Some q \<and> alive (s_txns st) q \<and> txn_ok S (obj (s_txns st) q))"

lemma txn_list_okD:
  assumes "txn_list_ok S st l"
  shows "list_rd l" "\<forall>p \<in> set (list_elems l). \<exists>q. p = Some q \<and> alive (s_txns st) q"
    "\<forall>p \<in> set (list_elems l). txn_ptr_ok st p"
  using assms by (auto simp: txn_list_ok_def txn_ptr_ok_def txn_ok_def)

lemma new_block_accounts:
  assumes "sodium_ok S kp"
  shows "map_ok key_ok (accounts (new_block S now prev merkle txns pk))"
    "map_abs (accounts (new_block S now prev merkle txns pk)) = Map.empty"
  using new_accounts_map [OF assms, of N_ACCOUNT_BUCKETS False True]
  by (simp_all add: new_block_def N_ACCOUNT_BUCKETS_def)

text \<open>What a creator gets: the block itself and that its priority is the least of its delegates'.\<close>

definition created ::
  "sodium \<Rightarrow> store \<Rightarrow> addr option \<Rightarrow> byte list \<Rightarrow> addr option list_t \<Rightarrow> store \<Rightarrow> block_t \<Rightarrow> bool" where
  "created S st prev pk txns st' x \<longleftrightarrow>
     prev_block x = prev \<and> public_key x = pk \<and> transactions x = txns \<and>
     bmerkle_root x = merkle_ref S (map thash (block_txns st' x)) \<and>
     (\<forall>i < (case ledger st prev pk of None \<Rightarrow> 1 | Some v \<Rightarrow> delegates v).
        sortition_priority x \<le> delegate_priority S (sortition_hash x) i)"

lemma created_accounts: "created S st prev pk txns st' (x\<lparr>accounts := m\<rparr>) \<longleftrightarrow> created S st prev pk txns st' x"
  by (simp add: created_def block_txns_def)

lemma block_create_result:
  assumes S: "sodium_ok S keypair" "keypair pk sk" and st: "good_store S st"
    and prev: "known st (length (s_blocks st)) prev" and len: "length (chain st prev) < 2 ^ 31"
    and txns: "txn_list_ok S st txns"
  shows "if may_stake (entries st prev) pk
    then \<exists>b st'. block_create S now st pk sk prev txns = Inr (Some b, st') \<and> b = length (s_blocks st) \<and>
      good_store S st' \<and> extends b st st' \<and> alive (s_blocks st') b \<and> length (s_blocks st') = Suc b \<and>
      s_txns st' = s_txns st \<and> created S st prev pk txns st' (blk st' b) \<and> timestamp (blk st' b) = now \<and>
      list_elems (children (blk st' b)) = [] \<and> owned (length (s_accounts st)) st' b \<and>
      take b (s_blocks st') = s_blocks st
    else block_create S now st pk sk prev txns = Inr (None, st)"
proof -
  let ?n = "length (s_blocks st)"
  have ok: "blocks_ok st ?n" using st by (simp add: good_store_def store_ok_def)
  have pk: "length pk = 32" "key_ok pk" using sodium_keypair(1) [OF S] by (simp_all add: key_ok_def)
  note Z = sodium_sizes [OF S(1)]
  have stake: "is_staking_allowed st prev pk = Inr (may_stake (entries st prev) pk)"
    using is_staking_allowed_rule [OF ok prev pk(2) order_refl len] .
  show ?thesis
  proof (cases "may_stake (entries st prev) pk")
    case True
    let ?merkle = "merkle_ref S (map (\<lambda>p. thash (obj (s_txns st) (the p))) (list_elems txns))"
    let ?x0 = "new_block S now prev ?merkle txns pk"
    let ?seed = "generichash S (seed_input S st prev)"
    let ?proof = "vrf_prove S sk ?seed"
    let ?hash = "vrf_proof_to_hash S ?proof"
    let ?x1 = "?x0\<lparr>sortition_seed := ?seed, sortition_proof := ?proof, sortition_hash := ?hash\<rparr>"
    let ?d = "case ledger st prev pk of None \<Rightarrow> 1 | Some v \<Rightarrow> delegates v"
    have prevx: "prev_block ?x0 = prev" "transactions ?x0 = txns" "public_key ?x0 = pk"
      by (simp_all add: new_block_def)
    note merkle = merkle_root_from_list_result [OF txn_list_okD(1,2) [OF txns]]
    have seed: "block_compute_seed S st ?x0 = Inr (?x0\<lparr>sortition_seed := ?seed\<rparr>)"
      using block_compute_seed_result [OF S(1) st, of ?x0] prev prevx by simp
    have has: "prev \<noteq> None \<Longrightarrow> \<exists>v. ledger st prev pk = Some v \<and> delegates v \<noteq> 0"
      using True chain_ok [OF ok] prev by (cases prev) (auto simp: may_stake_def entries_def ledger_def)
    have cnt: "count_delegates st prev pk = Inr ?d" and pos: "?d \<noteq> 0"
      using count_delegates_result [OF ok prev pk(2) order_refl] has by (cases prev; auto)+
    obtain i where i: "i < ?d" "best_delegate S ?hash ?d = (i, delegate_priority S ?hash i)"
        "\<forall>j < ?d. delegate_priority S ?hash i \<le> delegate_priority S ?hash j"
      using best_delegate_result [OF S(1)] pos by (metis word_gt_0)
    let ?x2 = "?x1\<lparr>delegate := i, sortition_priority := delegate_priority S ?hash i\<rparr>"
    have "\<forall>h \<in> set (map (\<lambda>p. thash (obj (s_txns st) (the p))) (list_elems txns)). length h = 32"
      using txns by (auto simp: txn_list_ok_def txn_ok_def Z simp del: enc.simps)
    then have ml: "length ?merkle = 32" by (rule length_merkle_ref [OF S(1)])
    have fields: "prev_block ?x2 = prev" "bmerkle_root ?x2 = ?merkle" "public_key ?x2 = pk"
      "sortition_proof ?x2 = ?proof" "bsignature ?x2 = replicate 64 0" "sortition_seed ?x2 = ?seed"
      "transactions ?x2 = txns"
      by (simp_all add: new_block_def Z)
    have sized: "block_sized ?x2" using ml pk(1) unfolding block_sized_def fields by (simp add: Z)
    have hl: "length (hash_of S st prev) = 32" using good_known_lengths(1) [OF S(1) st prev] .
    let ?h = "generichash S (enc (T_tuple (header_form S st ?x2)))"
    have hash: "block_compute_hash S st ?x2 = Inr (?x2\<lparr>bhash := ?h\<rparr>)"
      using block_compute_hash_result [OF S(1) sized, of st ?n] prev hl txn_list_okD(1) [OF txns]
      unfolding fields by simp
    let ?sig = "sign_detached S ?h sk"
    let ?x3 = "?x2\<lparr>bhash := ?h, bsignature := ?sig, height := 1 + of_nat (length (chain st prev))\<rparr>"
    have "header_form S st ?x3 = header_form S st ?x2" by (rule header_form_cong) simp_all
    moreover have del: "prev \<noteq> None \<Longrightarrow> \<exists>v. ledger st prev pk = Some v \<and> i < delegates v"
      using has i(1) by fastforce
    ultimately have auth: "authentic S st ?x3"
      using sized txns True sodium_keypair(2,3) [OF S] unfolding authentic_def
      by (simp add: block_sized_def txns_ok_def txn_list_ok_def prevx Z del: enc.simps)
    have body: "body_ok st ?n ?x3"
      using prev pk(2) txn_list_okD [OF txns]
      by (auto simp: body_ok_def new_block_def list_ok_create known_def)
    have acc: "map_ok key_ok (accounts ?x3)" "map_abs (accounts ?x3) = Map.empty"
      using new_block_accounts [OF S(1), of now prev ?merkle txns pk] by simp_all
    obtain st' where st': "finish_block (snd (place_block st ?x3)) ?n = Inr (Some ?n, st')" "good_store S st'"
        "extends ?n st st'" "alive (s_blocks st') ?n" "length (s_blocks st') = Suc ?n"
        "blk st' ?n = ?x3\<lparr>accounts := accounts (blk st' ?n)\<rparr>" "s_txns st' = s_txns st"
        "owned (length (s_accounts st)) st' ?n" "take ?n (s_blocks st') = s_blocks st"
      using finish_block_result [OF st body acc auth] by blast
    have "block_create S now st pk sk prev txns = Inr (Some ?n, st')"
      using stake True merkle seed cnt pos i(2) hash height_chain [OF ok prev] st'(1) pk(1)
      by (simp add: block_create_def Let_def Z place_block_def)
    moreover have "created S st prev pk txns st' (blk st' ?n)"
      by (subst st'(6), unfold created_accounts)
        (use i(3) st'(7) in \<open>simp add: created_def new_block_def block_txns_def comp_def\<close>)
    moreover have "timestamp (blk st' ?n) = now" by (subst st'(6)) (simp add: new_block_def)
    moreover have "list_elems (children (blk st' ?n)) = []" by (subst st'(6)) (simp add: new_block_def)
    ultimately show ?thesis using True st'(2-5,7-9) by auto
  next
    case False
    then show ?thesis using stake by (simp add: block_create_def)
  qed
qed


section \<open>Acceptance\<close>

text \<open>A block one of whose transactions is \<open>NULL\<close> does not get through \<open>are_transactions_valid\<close>.\<close>

lemma set_accounts_keeps:
  "set_accounts st b m = Inr st' \<Longrightarrow> alive (s_blocks st) b \<and> transactions (blk st' b) = transactions (blk st b)"
  by (auto simp: set_accounts_def bindR_eq_Inr heap_load_Inr heap_store_def alive_less)

lemma open_account_keeps:
  "open_account st b k f = Inr (a, st') \<Longrightarrow> transactions (blk st' b) = transactions (blk st b)"
  by (auto simp: open_account_def bindR_eq_Inr Let_def dest!: set_accounts_keeps)

lemma change_account_keeps:
  assumes "change_account st b k f = Inr (a, st')"
  shows "transactions (blk st' b) = transactions (blk st b)"
proof -
  obtain acc where acc: "alive (s_blocks st) b" "map_get (accounts (blk st b)) k = Inr acc"
    using assms by (auto simp: change_account_def bindR_eq_Inr heap_load_Inr)
  show ?thesis
  proof (cases acc)
    case None
    then have "open_account st b k f = Inr (a, st')" using assms acc by (simp add: change_account_def)
    then show ?thesis by (rule open_account_keeps)
  next
    case (Some a)
    then have "s_blocks st' = s_blocks st"
      using assms acc by (auto simp: change_account_def bindR_eq_Inr)
    then show ?thesis by simp
  qed
qed

lemma apply_txn_keeps:
  assumes "apply_txn st b i = Inr (ok, st')"
  shows "ok" "transactions (blk st' b) = transactions (blk st b)"
    "\<exists>q. list_get (transactions (blk st b)) i = Inr (Some q)"
proof -
  obtain p txn where p: "block_get_transaction st b i = Inr p" "load_txn st p = Inr txn"
    using assms by (auto simp: apply_txn_def bindR_eq_Inr)
  then obtain a1 st1 v where st1: "change_account st b (tsender txn) (\<lambda>v. v - tvalue txn) = Inr (a1, st1)"
      "account_get_value st1 (Some a1) = Inr v"
    using assms by (auto simp: apply_txn_def bindR_eq_Inr)
  then obtain a2 st2 where st2: "change_account st1 b (trecipient txn) (\<lambda>v. v + tvalue txn) = Inr (a2, st2)"
      "ok" "st' = st2"
    using assms p by (auto simp: apply_txn_def bindR_eq_Inr)
  show "ok" by (rule st2(2))
  show "transactions (blk st' b) = transactions (blk st b)"
    using change_account_keeps [OF st1(1)] change_account_keeps [OF st2(1)] st2(3) by simp
  show "\<exists>q. list_get (transactions (blk st b)) i = Inr (Some q)"
    using p by (auto simp: block_get_transaction_def load_txn_def bindR_eq_Inr assertR_eq_Inr heap_load_Inr)
qed

lemma apply_txns_ptrs:
  "apply_txns is st b = Inr r \<Longrightarrow> \<forall>i \<in> set is. \<exists>q. list_get (transactions (blk st b)) i = Inr (Some q)"
proof (induction "is" arbitrary: st)
  case (Cons i "is")
  then obtain ok st1 where st1: "apply_txn st b i = Inr (ok, st1)"
    by (auto simp: bindR_eq_Inr)
  with Cons.prems apply_txn_keeps [OF st1] have "apply_txns is st1 b = Inr r" by simp
  from Cons.IH [OF this] apply_txn_keeps [OF st1] show ?case by simp
qed simp

lemma finish_block_ptrs:
  assumes "finish_block st b = Inr r" "list_rd (transactions (blk st b))"
    "p \<in> set (list_elems (transactions (blk st b)))"
  shows "p \<noteq> None"
proof -
  obtain ok st' where "are_transactions_valid st b = Inr (ok, st')"
    using assms(1) by (auto simp: finish_block_def bindR_eq_Inr)
  then obtain a st1 n where st1: "open_account st b (public_key (blk st b)) (\<lambda>v. v + COINBASE_TRANSACTION) = Inr (a, st1)"
      "block_get_transaction_count st1 b = Inr n" "apply_txns [0..<n] st1 b = Inr (ok, st')"
    by (auto simp: are_transactions_valid_def bindR_eq_Inr heap_load_Inr)
  have tr: "transactions (blk st1 b) = transactions (blk st b)" by (rule open_account_keeps [OF st1(1)])
  then have "n = length (list_elems (transactions (blk st b)))"
    using st1(2) list_size_rd [OF assms(2)] by (auto simp: block_get_transaction_count_def bindR_eq_Inr heap_load_Inr)
  moreover obtain i where i: "i < length (list_elems (transactions (blk st b)))" "p = list_elems (transactions (blk st b)) ! i"
    using assms(3) by (metis in_set_conv_nth)
  ultimately obtain q where "list_get (transactions (blk st b)) i = Inr (Some q)"
    using bspec [OF apply_txns_ptrs [OF st1(3)], of i] tr by auto
  then show ?thesis using i list_get_rd [OF assms(2)] by simp
qed

text \<open>The loop that builds the transactions.\<close>

definition adding :: "sodium \<Rightarrow> store \<Rightarrow> addr option list_t \<times> store \<Rightarrow> bool" where
  "adding S st0 s \<longleftrightarrow> (case s of (l, st) \<Rightarrow>
     list_rd l \<and> s_blocks st = s_blocks st0 \<and> s_accounts st = s_accounts st0 \<and>
     distinct (filter (\<lambda>p. p \<noteq> None) (list_elems l)) \<and>
     (\<exists>new. s_txns st = s_txns st0 @ map Some new \<and> (\<forall>t \<in> set new. txn_ok S t) \<and>
        (\<forall>p \<in> set (list_elems l). p = None \<or>
           (\<exists>i < length new. p = Some (length (s_txns st0) + i)))))"

lemma add_txn_adding:
  assumes S: "sodium_ok S kp" and ok: "list_ok l" and ad: "adding S st0 (l, st)"
    and r: "add_txn S mem txns i (l, st) = Inr (l', st')"
  shows "list_ok l' \<and> adding S st0 (l', st')"
proof -
  obtain new where new: "s_txns st = s_txns st0 @ map Some new" "\<forall>t \<in> set new. txn_ok S t"
      "\<forall>p \<in> set (list_elems l). p = None \<or> (\<exists>i < length new. p = Some (length (s_txns st0) + i))"
      "s_blocks st = s_blocks st0" "s_accounts st = s_accounts st0"
      "distinct (filter (\<lambda>p. p \<noteq> None) (list_elems l))"
    using ad unfolding adding_def by auto
  have notin: "Some (length (s_txns st)) \<notin> set (list_elems l)" using new(1,3) by fastforce
  obtain tt t where t: "transaction_create_from_tuple S mem tt = Inr t" and tup: "tuple_get_tuple mem txns i = Inr tt"
    using r by (auto simp: add_txn_def bindR_eq_Inr)
  show ?thesis
  proof (cases t)
    case None
    then have "list_add l None = Inr l'" "st' = st" using r t tup by (auto simp: add_txn_def bindR_eq_Inr)
    then show ?thesis using clist.add_Inr [OF ok] new by (auto simp: adding_def list_ok_rd)
  next
    case (Some txn)
    then have l': "list_add l (Some (length (s_txns st))) = Inr l'"
      and st': "st' = st\<lparr>s_txns := s_txns st @ [Some txn]\<rparr>"
      using r t tup by (auto simp: add_txn_def bindR_eq_Inr)
    have L: "list_ok l'" "list_elems l' = list_elems l @ [Some (length (s_txns st))]"
      using clist.add_Inr [OF ok l'] by auto
    have "txn_ok S txn" using create_from_tuple_ok [OF S] t Some by simp
    then have "adding S st0 (l', st')"
      unfolding adding_def using L new notin
      by (auto simp: st' list_ok_rd intro!: exI [of _ "new @ [txn]"])
    then show ?thesis using L by simp
  qed
qed

lemma adding_start: "adding S st (list_create n, st)"
  unfolding adding_def using list_rd_create by (simp add: exI [of _ "[]"])

lemma add_txns_adding:
  assumes S: "sodium_ok S kp" and r: "foldR (add_txn S mem txns) [0..<n] (list_create n, st) = Inr (l, st')"
  shows "adding S st (l, st')"
proof (cases "n = 0")
  case True
  then have "l = list_create 0" "st' = st" using r by simp_all
  then show ?thesis using adding_start by simp
next
  case False
  have "list_ok (fst (l, st')) \<and> adding S st (l, st')"
  proof (rule foldR_invariant [OF r, where P = "\<lambda>s. list_ok (fst s) \<and> adding S st s"])
    show "list_ok (fst (list_create n, st)) \<and> adding S st (list_create n, st)"
      using False adding_start by (simp add: list_ok_create)
  next
    fix i s s' assume "list_ok (fst s) \<and> adding S st s" "add_txn S mem txns i s = Inr s'"
    then show "list_ok (fst s') \<and> adding S st s'"
      using add_txn_adding [OF S, of "fst s" st "snd s" mem txns i "fst s'" "snd s'"] by simp
  qed
  then show ?thesis by simp
qed


text \<open>Freeing the objects of a rejected block leaves all older objects alone.\<close>

lemma free_ptrs_frame:
  assumes "foldR free_ptr ps h = Inr h'" "\<forall>p \<in> set ps. \<forall>q. p = Some q \<longrightarrow> n \<le> q"
  shows "length h' = length h \<and> (\<forall>a < n. h' ! a = h ! a)"
proof (rule foldR_invariant [OF assms(1), where P = "\<lambda>g. length g = length h \<and> (\<forall>a < n. g ! a = h ! a)"])
  fix p g g' assume p: "p \<in> set ps" and g: "length g = length h \<and> (\<forall>a < n. g ! a = h ! a)"
    and r: "free_ptr p g = Inr g'"
  show "length g' = length h \<and> (\<forall>a < n. g' ! a = h ! a)"
  proof (cases p)
    case (Some q)
    then have "g' = g[q := None]" "n \<le> q"
      using r p assms(2) by (auto simp: free_ptr_def heap_free_def bindR_eq_Inr)
    then show ?thesis using g by simp
  qed (use r g in \<open>simp add: free_ptr_def\<close>)
qed simp

lemma empty_map_destroy:
  assumes ok: "map_ok valid m" and abs: "map_abs m = Map.empty"
  shows "map_destroy m = Inr []"
proof -
  have "concat (map bucket_entries (m_buckets m)) = []"
    using map_count_card [OF ok] abs by (simp add: map_count_def)
  then show ?thesis using map_destroy_calls [OF ok] by simp
qed

text \<open>Adding transactions leaves the blocks good.\<close>

lemma adding_good:
  assumes "good_store S st" "adding S st (l, st1)"
  shows "good_store S st1" "extends (length (s_blocks st)) st st1" "s_blocks st1 = s_blocks st"
    "s_accounts st1 = s_accounts st" "list_rd l" "length (s_txns st) \<le> length (s_txns st1)"
    "\<forall>p \<in> set (list_elems l). \<forall>q. p = Some q \<longrightarrow>
       length (s_txns st) \<le> q \<and> alive (s_txns st1) q \<and> txn_ok S (obj (s_txns st1) q)"
    "distinct (filter (\<lambda>p. p \<noteq> None) (list_elems l))"
proof -
  have bo: "blocks_ok st (length (s_blocks st))" and ba: "blocks_authentic S st (length (s_blocks st))"
    using assms(1) by (simp_all add: good_store_def store_ok_def)
  show same: "s_blocks st1 = s_blocks st" "s_accounts st1 = s_accounts st" "list_rd l"
    "distinct (filter (\<lambda>p. p \<noteq> None) (list_elems l))"
    using assms(2) by (auto simp: adding_def)
  obtain new where new: "s_txns st1 = s_txns st @ map Some new" "\<forall>t \<in> set new. txn_ok S t"
      "\<forall>p \<in> set (list_elems l). p = None \<or> (\<exists>i < length new. p = Some (length (s_txns st) + i))"
    using assms(2) by (auto simp: adding_def)
  show e: "extends (length (s_blocks st)) st st1"
    using blocks_ok_refl [OF bo] new(1) by (simp add: extends_def alive_def same nth_append)
  show "good_store S st1"
    using blocks_ok_extends [OF bo e] blocks_authentic_extends [OF ba bo e]
    by (simp add: good_store_def store_ok_def same)
  show "length (s_txns st) \<le> length (s_txns st1)" by (simp add: new(1))
  show "\<forall>p \<in> set (list_elems l). \<forall>q. p = Some q \<longrightarrow>
       length (s_txns st) \<le> q \<and> alive (s_txns st1) q \<and> txn_ok S (obj (s_txns st1) q)"
    using new(2,3) by (fastforce simp: new(1) alive_def nth_append)
qed

text \<open>A block that is destroyed again leaves a hole and takes its new transactions with it.\<close>

lemma block_destroy_new:
  assumes ok: "good_store S st" and ad: "adding S st (l, st1)"
    and x: "transactions x = l" "map_ok key_ok (accounts x)" "map_abs (accounts x) = Map.empty"
    and r: "block_destroy (snd (place_block st1 x)) (Some (length (s_blocks st))) = Inr st'"
  shows "good_store S st' \<and> extends (length (s_blocks st)) st st' \<and> s_blocks st' = s_blocks st @ [None] \<and>
    s_accounts st' = s_accounts st"
proof -
  note A = adding_good [OF ok ad]
  have bo: "blocks_ok st (length (s_blocks st))" and ba: "blocks_authentic S st (length (s_blocks st))"
    using ok by (simp_all add: good_store_def store_ok_def)
  obtain txns where txns: "foldR free_ptr (list_elems l) (s_txns st1) = Inr txns"
      "st' = st1\<lparr>s_txns := txns, s_blocks := s_blocks st @ [None]\<rparr>"
    using r x(1) list_destroy_rd [OF A(5)] empty_map_destroy [OF x(2,3)] A(3)
    by (auto simp: block_destroy_def place_block_def bindR_eq_Inr heap_load_Inr)
  have f: "length txns = length (s_txns st1) \<and> (\<forall>a < length (s_txns st). txns ! a = s_txns st1 ! a)"
    using A(7) by (intro free_ptrs_frame [OF txns(1)]) blast
  have t: "alive txns t \<and> txns ! t = s_txns st ! t" if "alive (s_txns st) t" for t
    using f extendsD(5) [OF A(2) that] alive_less [OF that] that unfolding alive_def by simp
  have e: "extends (length (s_blocks st)) st st'"
    using blocks_ok_refl [OF bo] t unfolding txns(2)
    by (simp add: extends_def alive_def nth_append A(4))
  have "\<not> alive (s_blocks st') (length (s_blocks st))" by (simp add: txns(2) alive_def nth_append)
  then have "blocks_ok st' (Suc (length (s_blocks st)))" "blocks_authentic S st' (Suc (length (s_blocks st)))"
    using blocks_ok_extends [OF bo e] blocks_authentic_extends [OF ba bo e]
    by (auto simp: blocks_ok_def blocks_authentic_def less_Suc_eq)
  then show ?thesis using e by (simp add: good_store_def store_ok_def txns(2) A(4))
qed

text \<open>The transactions of a received block are its own as well.\<close>

definition new_txns :: "nat \<Rightarrow> block_t \<Rightarrow> bool" where
  "new_txns n x \<longleftrightarrow> distinct (list_elems (transactions x)) \<and>
     (\<forall>p \<in> set (list_elems (transactions x)). \<exists>q. p = Some q \<and> n \<le> q)"

text \<open>The outcome of the last part of the constructor.\<close>

definition outcome :: "sodium \<Rightarrow> store \<Rightarrow> addr option \<Rightarrow> addr option \<times> store \<Rightarrow> bool" where
  "outcome S st prev r \<longleftrightarrow> good_store S (snd r) \<and> extends (length (s_blocks st)) st (snd r) \<and>
     length (s_blocks (snd r)) \<le> Suc (length (s_blocks st)) \<and>
     take (length (s_blocks st)) (s_blocks (snd r)) = s_blocks st \<and>
     (case fst r of
        None \<Rightarrow> s_blocks (snd r) = s_blocks st \<or> s_blocks (snd r) = s_blocks st @ [None]
      | Some b \<Rightarrow> b = length (s_blocks st) \<and> alive (s_blocks (snd r)) b \<and> list_elems (children (blk (snd r) b)) = [] \<and>
          prev_block (blk (snd r) b) = prev \<and> owned (length (s_accounts st)) (snd r) b \<and> new_txns (length (s_txns st)) (blk (snd r) b))"

lemma outcome_refl: "good_store S st \<Longrightarrow> outcome S st prev (None, st)"
  using blocks_ok_refl [of st] by (simp add: outcome_def good_store_def store_ok_def)

text \<open>What the checks before the last part have established of the block under construction.\<close>

definition checked :: "sodium \<Rightarrow> store \<Rightarrow> block_t \<Rightarrow> bool" where
  "checked S st x \<longleftrightarrow> block_sized x \<and> known st (length (s_blocks st)) (prev_block x) \<and>
     sortition_seed x = generichash S (seed_input S st (prev_block x)) \<and>
     vrf_verify S (public_key x) (sortition_proof x) (sortition_seed x) = Some (sortition_hash x) \<and>
     sortition_priority x = delegate_priority S (sortition_hash x) (delegate x) \<and>
     may_stake (entries st (prev_block x)) (public_key x) \<and>
     (prev_block x \<noteq> None \<longrightarrow>
        (\<exists>v. ledger st (prev_block x) (public_key x) = Some v \<and> delegate x < delegates v)) \<and>
     height x = of_nat (length (chain st (prev_block x))) + 1 \<and>
     children x = list_create 1 \<and> map_ok key_ok (accounts x) \<and> map_abs (accounts x) = Map.empty"

lemma verify_and_finish_outcome:
  assumes S: "sodium_ok S kp" and ok: "good_store S st" and ad: "adding S st (l, st1)"
    and x: "checked S st x" "transactions x = l"
    and r: "verify_and_finish S st1 x = Inr r"
  shows "outcome S st (prev_block x) r"
proof -
  note A = adding_good [OF ok ad] and Z = sodium_sizes [OF S]
  let ?n = "length (s_blocks st)"
  have bo: "blocks_ok st ?n" using ok by (simp add: good_store_def store_ok_def)
  have kn: "known st ?n (prev_block x)" using x(1) by (simp add: checked_def)
  note C = chain_extends [OF bo kn A(2)]
  have c1: "checked S st1 x"
    using x(1) C(5) unfolding checked_def A(3) C(1-3) seed_input_extends [OF kn A(2)] by blast
  have hl: "length (hash_of S st1 (prev_block x)) = 32"
    using good_known_lengths(1) [OF S A(1)] C(5) by (simp add: A(3))
  let ?h = "generichash S (enc (T_tuple (header_form S st1 x)))"
  let ?x = "x\<lparr>bhash := ?h\<rparr>"
  have "block_compute_hash S st1 x = Inr ?x"
    using block_compute_hash_result [OF S _ C(5) hl] c1 A(5) x(2) by (simp add: checked_def)
  then have r': "(if \<not> sign_verify_detached S (bsignature x) ?h (public_key x)
      then bindR (block_destroy (snd (place_block st1 ?x)) (Some ?n)) (\<lambda>st. Inr (None, st))
      else finish_block (snd (place_block st1 ?x)) ?n) = Inr r"
    using r Z by (simp add: verify_and_finish_def place_block_def A(3) split del: if_split cong: if_cong)
  have acc: "map_ok key_ok (accounts ?x)" "map_abs (accounts ?x) = Map.empty" "transactions ?x = l"
    using x by (simp_all add: checked_def)
  show ?thesis
  proof (cases "sign_verify_detached S (bsignature x) ?h (public_key x)")
    case False
    then obtain st' where st': "block_destroy (snd (place_block st1 ?x)) (Some ?n) = Inr st'" "r = (None, st')"
      using r' by (auto simp: bindR_eq_Inr)
    then show ?thesis using block_destroy_new [OF ok ad acc(3,1,2) st'(1)] by (simp add: outcome_def)
  next
    case True
    then have r': "finish_block (snd (place_block st1 ?x)) ?n = Inr r" using r' by simp
    have bx: "blk (snd (place_block st1 ?x)) ?n = ?x" by (simp add: place_block_def A(3) nth_append)
    have ptrs: "\<forall>p \<in> set (list_elems l). \<exists>q. p = Some q \<and> alive (s_txns st1) q \<and> txn_ok S (obj (s_txns st1) q)"
      using finish_block_ptrs [OF r', unfolded bx] A(5,7) acc(3) by fastforce
    then have tl: "txn_list_ok S st1 l" by (simp add: txn_list_ok_def A(5))
    have body: "body_ok st1 (length (s_blocks st1)) ?x"
      using c1 txn_list_okD [OF tl] x(2) C(5)
      by (auto simp: body_ok_def checked_def list_ok_create block_sized_def key_ok_def known_def A(3))
    have "header_form S st1 ?x = header_form S st1 x" by (rule header_form_cong) simp_all
    then have auth: "authentic S st1 ?x"
      using c1 True tl x(2) unfolding authentic_def checked_def
      by (auto simp: block_sized_def txns_ok_def txn_list_ok_def simp del: enc.simps)
    obtain st' where st': "finish_block (snd (place_block st1 ?x)) ?n = Inr (Some ?n, st')" "good_store S st'"
        "extends ?n st1 st'" "alive (s_blocks st') ?n" "length (s_blocks st') = Suc ?n"
        "blk st' ?n = ?x\<lparr>accounts := accounts (blk st' ?n)\<rparr>" "owned (length (s_accounts st)) st' ?n"
        "take ?n (s_blocks st') = s_blocks st"
      using finish_block_result [OF A(1) body acc(1,2) auth] unfolding A(3,4) by blast
    have "filter (\<lambda>p. p \<noteq> None) (list_elems l) = list_elems l" using ptrs by (intro filter_True) auto
    then have "new_txns (length (s_txns st)) ?x"
      using A(7,8) ptrs x(2) unfolding new_txns_def by (fastforce simp del: enc.simps)
    then have "new_txns (length (s_txns st)) (blk st' ?n)" by (subst st'(6)) (simp add: new_txns_def)
    moreover have "prev_block (blk st' ?n) = prev_block x" by (subst st'(6)) simp
    moreover have "list_elems (children (blk st' ?n)) = []"
      by (subst st'(6)) (use x(1) in \<open>simp add: checked_def\<close>)
    moreover have "r = (Some ?n, st')" using st'(1) r' by simp
    ultimately show ?thesis
      using st'(2-5,7,8) extends_trans [OF A(2) st'(3)] by (simp add: outcome_def)
  qed
qed

text \<open>What \<open>read_block\<close> has read of an accepted message.\<close>

lemma read_block_fields:
  assumes S: "sodium_ok S kp" and r: "read_block S find_block mem t header = Inr x"
  shows "length (bmerkle_root x) = 32" "length (public_key x) = 32" "length (sortition_proof x) = 80"
    "length (bsignature x) = 64" "children x = list_create 1" "map_ok key_ok (accounts x)"
    "map_abs (accounts x) = Map.empty" "\<exists>h. length h = 32 \<and> find_block h = Inr (prev_block x)"
proof -
  note Z = sodium_sizes [OF S]
  obtain ts d ph prev mr pk pr sg where f: "length ph = 32 \<and> find_block ph = Inr prev"
      "binary_prefix mem header 2 32 = Inr mr" "binary_prefix mem header 3 32 = Inr pk"
      "binary_prefix mem header 4 80 = Inr pr" "copy_signature S mem t = Inr sg"
      "x = (new_block S ts prev mr (list_create 0) pk)\<lparr>delegate := d, sortition_proof := pr, bsignature := sg\<rparr>"
    using r by (auto simp: read_block_def binary_prefix_def bindR_eq_Inr Z dest: arr_load_n_length)
  have l: "length mr = 32" "length pk = 32" "length pr = 80" "length sg = 64"
    using f(2-5) by (auto simp: binary_prefix_def copy_signature_def bindR_eq_Inr Z split: if_splits dest!: arr_load_n_length)
  show "length (bmerkle_root x) = 32" "length (public_key x) = 32" "length (sortition_proof x) = 80"
    "length (bsignature x) = 64" "children x = list_create 1" "\<exists>h. length h = 32 \<and> find_block h = Inr (prev_block x)"
    using l f(1) by (auto simp: f(6) new_block_def)
  show "map_ok key_ok (accounts x)" "map_abs (accounts x) = Map.empty"
    using new_block_accounts [OF S, of ts prev mr "list_create 0" pk] by (simp_all add: f(6))
qed

lemma accept_block_outcome:
  assumes S: "sodium_ok S kp" and ok: "good_store S st" and small: "length (s_blocks st) < 2 ^ 31"
    and x: "length (bmerkle_root x) = 32" "length (public_key x) = 32" "length (sortition_proof x) = 80"
    "length (bsignature x) = 64" "children x = list_create 1" "map_ok key_ok (accounts x)"
    "map_abs (accounts x) = Map.empty" "known st (length (s_blocks st)) (prev_block x)"
    and r: "accept_block S st mem txns x = Inr r"
  shows "outcome S st (prev_block x) r"
proof -
  note Z = sodium_sizes [OF S]
  let ?n = "length (s_blocks st)"
  have bo: "blocks_ok st ?n" using ok by (simp add: good_store_def store_ok_def)
  have key: "key_ok (public_key x)" using x(2) by (simp add: key_ok_def)
  have len: "length (chain st (prev_block x)) < 2 ^ 31" using chain_length(1) [OF bo x(8)] small by simp
  note stake = is_staking_allowed_rule [OF bo x(8) key order_refl len]
  let ?seed = "generichash S (seed_input S st (prev_block x))"
  let ?x1 = "x\<lparr>sortition_seed := ?seed\<rparr>"
  have seed: "block_compute_seed S st x = Inr ?x1" by (rule block_compute_seed_result [OF S ok x(8)])
  show ?thesis
  proof (cases "may_stake (entries st (prev_block x)) (public_key x) \<and> vrf_verify S (public_key x) (sortition_proof x) ?seed \<noteq> None")
    case False
    then have "r = (None, st)" using r stake seed by (auto simp: accept_block_def split: if_splits)
    then show ?thesis using outcome_refl [OF ok] by simp
  next
    case True
    then obtain out where out: "vrf_verify S (public_key x) (sortition_proof x) ?seed = Some out" by auto
    let ?x2 = "?x1\<lparr>sortition_hash := out, sortition_priority := delegate_priority S out (delegate x)\<rparr>"
    obtain okd where okd: "delegate_allowed st (prev_block x) (public_key x) (delegate x) = Inr okd"
      using r True stake seed out by (auto simp: accept_block_def Let_def bindR_eq_Inr)
    have led: "prev_block x \<noteq> None \<Longrightarrow> \<exists>v. ledger st (prev_block x) (public_key x) = Some v \<and> delegate x < delegates v"
      if okd
    proof -
      assume p: "prev_block x \<noteq> None"
      then have "entries st (prev_block x) \<noteq> []" using chain_ok [OF bo] x(8) by (auto simp: entries_def)
      then obtain v where v: "ledger st (prev_block x) (public_key x) = Some v"
        using True by (auto simp: may_stake_def ledger_def)
      then obtain a where a: "lookup st (prev_block x) (public_key x) = Some a"
        using lookup_account(1) [OF bo x(8), of "public_key x"] by fastforce
      then show ?thesis
        using lookup_account(2) [OF bo x(8) a] v okd p that block_get_account_lookup [OF bo x(8) key order_refl]
        by (auto simp: delegate_allowed_def account_get_delegates_value delegates_def)
    qed
    show ?thesis
    proof (cases okd)
      case False
      then have "r = (None, st)" using r stake seed True out okd by (simp add: accept_block_def Let_def)
      then show ?thesis using outcome_refl [OF ok] by simp
    next
      case okd': True
      let ?h = "1 + of_nat (length (chain st (prev_block x)))"
      obtain l st1 where l: "foldR (add_txn S mem txns) [0..<tuple_size txns] (list_create (tuple_size txns), st) = Inr (l, st1)"
          "verify_and_finish S st1 (?x2\<lparr>height := ?h, transactions := l\<rparr>) = Inr r"
        using r stake seed True out okd okd' height_chain [OF bo x(8)]
        by (auto simp: accept_block_def Let_def bindR_eq_Inr)
      have "checked S st (?x2\<lparr>height := ?h, transactions := l\<rparr>)"
        using x out True led [OF okd'] by (auto simp: checked_def block_sized_def Z)
      then show ?thesis
        using verify_and_finish_outcome [OF S ok add_txns_adding [OF S l(1)] _ _ l(2)] by simp
    qed
  qed
qed

section \<open>Destroying a complete block\<close>

lemma free_distinct:
  assumes "distinct ps" "\<forall>p \<in> set ps. alive h p"
  shows "\<exists>h'. foldR (\<lambda>p h. heap_free h p) ps h = Inr h' \<and> length h' = length h \<and>
    (\<forall>a. a \<notin> set ps \<longrightarrow> h' ! a = h ! a)"
  using assms
proof (induction ps arbitrary: h)
  case (Cons p ps)
  have "\<forall>q \<in> set ps. alive (h[p := None]) q"
  proof
    fix q assume "q \<in> set ps"
    then have "q \<noteq> p" "alive h q" using Cons.prems by auto
    then show "alive (h[p := None]) q" by (simp add: alive_def)
  qed
  then obtain h' where "foldR (\<lambda>p h. heap_free h p) ps (h[p := None]) = Inr h'" "length h' = length h"
      "\<forall>a. a \<notin> set ps \<longrightarrow> h' ! a = h[p := None] ! a"
    using Cons.IH [of "h[p := None]"] Cons.prems(1) by auto
  then show ?case using Cons.prems(2) by auto
qed simp

lemma free_ptrs_Some: "foldR free_ptr (map Some qs) h = foldR (\<lambda>p h. heap_free h p) qs h"
proof (induction qs arbitrary: h)
  case (Cons q qs)
  then show ?case by (cases "heap_free h q") (simp_all add: free_ptr_def)
qed simp

lemma free_accounts_calls:
  assumes "\<forall>e \<in> set es. eval e \<noteq> None"
  shows "foldR free_account (concat (map (entry_destroy m) es)) h =
    foldR (\<lambda>p h. heap_free h p) (if m_destroy_val m then map (\<lambda>e. the (eval e)) es else []) h"
  using assms
proof (induction es arbitrary: h)
  case (Cons e es)
  then obtain a where a: "eval e = Some a" by auto
  show ?case
    using Cons by (cases "m_destroy_key m"; cases "m_destroy_val m"; cases "heap_free h a")
      (simp_all add: entry_destroy_def free_account_def free_ptr_def a)
qed simp

text \<open>
  A received block that turns out to be known already is destroyed again; nothing that was there
  before it is touched.
\<close>

lemma block_destroy_own:
  assumes ok: "good_store S st" and e: "extends (length (s_blocks st)) st st'" and ok': "good_store S st'"
    and n: "s_blocks st' = s_blocks st @ [Some x]"
    and own: "owned (length (s_accounts st)) st' (length (s_blocks st))" "new_txns (length (s_txns st)) x"
  shows "\<exists>st2. block_destroy st' (Some (length (s_blocks st))) = Inr st2 \<and> good_store S st2 \<and>
    extends (length (s_blocks st)) st st2 \<and> s_blocks st2 = s_blocks st @ [None]"
proof -
  let ?n = "length (s_blocks st)"
  have bo: "blocks_ok st ?n" and ba: "blocks_authentic S st ?n" using ok by (simp_all add: good_store_def store_ok_def)
  have al: "alive (s_blocks st') ?n" and x: "blk st' ?n = x" by (simp_all add: n alive_def nth_append)
  have B: "body_ok st' ?n x" "accounts_ok st' ?n x" using good_storeD(1,2) [OF ok' al] x by simp_all
  have rd: "list_rd (transactions x)" using B(1) by (simp add: body_ok_def)
  have "map (Some \<circ> the) (list_elems (transactions x)) = list_elems (transactions x)"
    using own(2) by (intro map_idI) (auto simp: new_txns_def)
  then obtain qs where qs: "list_elems (transactions x) = map Some qs" by (metis map_map)
  have q: "distinct qs" "\<forall>q \<in> set qs. length (s_txns st) \<le> q \<and> alive (s_txns st') q"
    using own(2) B(1) unfolding new_txns_def body_ok_def qs by (auto simp: distinct_map txn_ptr_ok_def)
  obtain txns where txns: "foldR free_ptr (map Some qs) (s_txns st') = Inr txns" "length txns = length (s_txns st')"
      "\<forall>a. a \<notin> set qs \<longrightarrow> txns ! a = s_txns st' ! a"
    using free_distinct [OF q(1), of "s_txns st'"] q(2) unfolding free_ptrs_Some by blast
  have mo: "map_ok key_ok (accounts x)" using B(2) by (simp add: accounts_ok_def)
  obtain es where es: "map_destroy (accounts x) = Inr (concat (map (entry_destroy (accounts x)) es))"
      "distinct (map ekey es)" "ekey ` set es = dom (map_abs (accounts x))"
      "\<forall>e \<in> set es. eval e = map_abs (accounts x) (ekey e)"
    using map_destroy_entries [OF mo] by blast
  have ev: "\<forall>e \<in> set es. eval e \<noteq> None" using es(3,4) by auto
  let ?as = "if m_destroy_val (accounts x) then map (\<lambda>e. the (eval e)) es else []"
  have inj: "inj_on (\<lambda>e. the (eval e)) (set es)"
  proof (rule inj_onI)
    fix e1 e2 assume e12: "e1 \<in> set es" "e2 \<in> set es" "the (eval e1) = the (eval e2)"
    obtain a where a: "map_abs (accounts x) (ekey e1) = Some a" "map_abs (accounts x) (ekey e2) = Some a"
      using e12 es(4) ev by (metis option.collapse)
    then have "ekey e1 = ekey e2" using own(1) x unfolding owned_def by blast
    then show "e1 = e2" using es(2) e12(1,2) by (simp add: distinct_map inj_on_def)
  qed
  have "distinct es" using es(2) by (simp add: distinct_map)
  then have d: "distinct ?as" using inj by (simp add: distinct_map)
  have as: "\<forall>a \<in> set ?as. length (s_accounts st) \<le> a \<and> alive (s_accounts st') a"
  proof
    fix a assume "a \<in> set ?as"
    then obtain en where "en \<in> set es" "a = the (eval en)" by (auto split: if_splits)
    then have "map_abs (accounts x) (ekey en) = Some a" using es(4) ev by (metis option.collapse)
    then show "length (s_accounts st) \<le> a \<and> alive (s_accounts st') a"
      using own(1) x B(2) unfolding owned_def accounts_ok_def by blast
  qed
  obtain accts where accts: "foldR free_account (concat (map (entry_destroy (accounts x)) es)) (s_accounts st') = Inr accts"
      "length accts = length (s_accounts st')" "\<forall>a. a \<notin> set ?as \<longrightarrow> accts ! a = s_accounts st' ! a"
    using free_distinct [OF d, of "s_accounts st'"] as unfolding free_accounts_calls [OF ev] by blast
  let ?st = "st'\<lparr>s_txns := txns, s_accounts := accts, s_blocks := s_blocks st @ [None]\<rparr>"
  have run: "block_destroy st' (Some ?n) = Inr ?st"
    using al x list_destroy_rd [OF rd] txns(1) es(1) accts(1) by (simp add: block_destroy_def qs n)
  have t: "alive txns t \<and> txns ! t = s_txns st ! t" if "alive (s_txns st) t" for t
  proof -
    have "t \<notin> set qs" using q(2) alive_less [OF that] by fastforce
    then show ?thesis using extendsD(5) [OF e that] txns(2,3) that unfolding alive_def by simp
  qed
  have a: "alive accts t \<and> accts ! t = s_accounts st ! t" if "alive (s_accounts st) t" for t
  proof -
    have "t \<notin> set ?as" using as alive_less [OF that] by fastforce
    then show ?thesis using extendsD(4) [OF e that] accts(2,3) that unfolding alive_def by simp
  qed
  have e2: "extends ?n st ?st"
    using blocks_ok_refl [OF bo] t a by (simp add: extends_def alive_def nth_append)
  have "\<not> alive (s_blocks ?st) ?n" by (simp add: alive_def nth_append)
  then have "good_store S ?st"
    using blocks_ok_extends [OF bo e2] blocks_authentic_extends [OF ba bo e2]
    by (auto simp: good_store_def store_ok_def blocks_ok_def blocks_authentic_def less_Suc_eq)
  then show ?thesis using run e2 by (intro exI [of _ ?st]) simp
qed

end
