(* ===== verification/Json.thy ===== *)
theory Json
  imports Block Complex_Main
begin

text \<open>
  The JSON form of the program's objects: the writers of \<open>src/util/json.c\<close>, and what
  \<open>src/transaction.c\<close> and \<open>src/block.c\<close> write with them. The writers put a comma after every value;
  the end of an array or object overwrites the last one, and \<open>json_write_end\<close> drops it.

  \<open>json\<close> with \<open>render\<close> is the reference: the values of RFC 8259 the program needs and their text.
  The lemmas \<open>writes_...\<close> show that each writer appends the text of a value and a comma; the
  properties say which value that is, and that the text is read back as this value.

  A number is passed as a \<open>double\<close>, which is modelled by its (finite) value, a rational number; an
  integer argument is rounded to 53 significant bits first (\<open>double_of\<close>).
\<close>

section \<open>Numbers\<close>

text \<open>\<open>a / d\<close> rounded to an integer, halves to the even one.\<close>

definition rounded :: "nat \<Rightarrow> nat \<Rightarrow> nat" where
  "rounded a d =
     (let q = a div d; r = a mod d in if 2 * r < d \<or> 2 * r = d \<and> even q then q else q + 1)"

fun excess_bits :: "nat \<Rightarrow> nat" where
  "excess_bits n = (if n < 2 ^ 53 then 0 else Suc (excess_bits (n div 2)))"

declare excess_bits.simps [simp del]

text \<open>The conversion of an unsigned integer to \<open>double\<close>.\<close>

definition double_of :: "nat \<Rightarrow> nat" where
  "double_of n = (let k = excess_bits n in rounded n (2 ^ k) * 2 ^ k)"

text \<open>What \<open>printf\<close> writes for \<open>%lf\<close>: six digits after the point.\<close>

definition printf_lf :: "rat \<Rightarrow> byte list" where
  "printf_lf x =
     (let (a, d) = quotient_of (abs x); m = rounded (nat a * 10 ^ 6) (nat d); f = decimal (m mod 10 ^ 6) in
      (if x < 0 then [45] else []) @ decimal (m div 10 ^ 6) @ [46] @ replicate (6 - length f) 48 @ f)"

section \<open>The writers of util/json\<close>

text \<open>The bytes of a string literal, with the 0 at its end.\<close>

definition literal :: "string \<Rightarrow> byte arr" where
  "literal s = map Some (bytes_of s) @ [Some 0]"

definition last_char :: "dynamic_buffer_t \<Rightarrow> byte res" where
  "last_char res = arr_load (d_data res) (unat (d_length res - 1))"

definition json_write_end :: "dynamic_buffer_t \<Rightarrow> dynamic_buffer_t res" where
  "json_write_end res =
     bindR (last_char res) (\<lambda>c.
       if c = 44 then Inr (res\<lparr>d_length := d_length res - 1\<rparr>) else Inr res)"

definition json_close :: "byte \<Rightarrow> byte \<Rightarrow> dynamic_buffer_t \<Rightarrow> dynamic_buffer_t res" where
  "json_close opening closing res =
     bindR (last_char res) (\<lambda>c.
     bindR (if c \<noteq> opening then
              bindR (arr_store (d_data res) (unat (d_length res - 1)) closing) (\<lambda>d. Inr (res\<lparr>d_data := d\<rparr>))
            else dynamic_buffer_putc closing res) (dynamic_buffer_putc 44))"

definition json_write_object_start :: "dynamic_buffer_t \<Rightarrow> dynamic_buffer_t res" where
  "json_write_object_start res = dynamic_buffer_putc 123 res"

definition json_write_object_end :: "dynamic_buffer_t \<Rightarrow> dynamic_buffer_t res" where
  "json_write_object_end res = json_close 123 125 res"

definition json_write_array_start :: "dynamic_buffer_t \<Rightarrow> dynamic_buffer_t res" where
  "json_write_array_start res = dynamic_buffer_putc 91 res"

definition json_write_array_end :: "dynamic_buffer_t \<Rightarrow> dynamic_buffer_t res" where
  "json_write_array_end res = json_close 91 93 res"

text \<open>
  The text is built in a block of 64 characters. An integral \<open>double\<close> that no \<open>uint64_t\<close> can hold
  must not be converted.
\<close>

definition json_write_number :: "rat \<Rightarrow> dynamic_buffer_t \<Rightarrow> dynamic_buffer_t res" where
  "json_write_number n res =
     bindR (if of_int \<lfloor>n\<rfloor> = n then
              if 0 \<le> n \<and> n < 2 ^ 64 then Inr (decimal (nat \<lfloor>n\<rfloor>) @ [44]) else Inl Bad_conversion
            else Inr (printf_lf n @ [44])) (\<lambda>s.
     if length s < 64 then dynamic_buffer_write s (length s) res else Inl Out_of_bounds)"

definition write_cstring :: "byte arr \<Rightarrow> dynamic_buffer_t \<Rightarrow> dynamic_buffer_t res" where
  "write_cstring str res =
     bindR (strlen str) (\<lambda>n. bindR (arr_load_n str 0 n) (\<lambda>s. dynamic_buffer_write s n res))"

definition json_write_string :: "byte arr \<Rightarrow> dynamic_buffer_t \<Rightarrow> dynamic_buffer_t res" where
  "json_write_string str res =
     bindR (dynamic_buffer_putc 34 res) (\<lambda>res.
     bindR (write_cstring str res) (\<lambda>res.
     bindR (dynamic_buffer_putc 34 res) (dynamic_buffer_putc 44)))"

definition json_write_key :: "byte arr \<Rightarrow> dynamic_buffer_t \<Rightarrow> dynamic_buffer_t res" where
  "json_write_key str res =
     bindR (dynamic_buffer_putc 34 res) (\<lambda>res.
     bindR (write_cstring str res) (\<lambda>res.
     bindR (dynamic_buffer_putc 34 res) (dynamic_buffer_putc 58)))"

section \<open>Transactions and blocks\<close>

text \<open>A sequence of statements that write to the same buffer.\<close>

definition in_order :: "('b \<Rightarrow> 'b res) list \<Rightarrow> 'b \<Rightarrow> 'b res" where
  "in_order ws = foldR (\<lambda>w. w) ws"

text \<open>
  The loop of \<open>binary_to_hex\<close> has an 8-bit counter, like that of \<open>buffer_to_hex\<close>; all sizes it is
  called with are far below 256, and one more round than there are bytes is enough for them.
\<close>

definition binary_to_hex :: "byte list \<Rightarrow> nat \<Rightarrow> byte arr res" where
  "binary_to_hex data n =
     to_hex_loop (Suc n) (map Some data) (of_nat n) 0 (replicate (n * 2 + 1) (Some 0))"

definition hash_to_hex :: "sodium \<Rightarrow> byte list \<Rightarrow> byte arr res" where
  "hash_to_hex S data =
     to_hex_loop (Suc (generichash_BYTES S)) (map Some data) (of_nat (generichash_BYTES S)) 0
       (replicate (generichash_BYTES S * 2 + 1) (Some 0))"

definition public_key_to_hex :: "sodium \<Rightarrow> byte list \<Rightarrow> byte arr res" where
  "public_key_to_hex S data =
     to_hex_loop (Suc (sign_PUBLICKEYBYTES S)) (map Some data) (of_nat (sign_PUBLICKEYBYTES S)) 0
       (replicate (sign_PUBLICKEYBYTES S * 2 + 1) (Some 0))"

definition signature_to_hex :: "sodium \<Rightarrow> byte list \<Rightarrow> byte arr res" where
  "signature_to_hex S data =
     to_hex_loop (Suc (sign_BYTES S)) (map Some data) (of_nat (sign_BYTES S)) 0
       (replicate (sign_BYTES S * 2 + 1) (Some 0))"

definition transaction_write_json :: "sodium \<Rightarrow> transaction_t \<Rightarrow> dynamic_buffer_t \<Rightarrow> dynamic_buffer_t res" where
  "transaction_write_json S txn buf =
     bindR (public_key_to_hex S (tsender txn)) (\<lambda>sender.
     bindR (public_key_to_hex S (trecipient txn)) (\<lambda>recipient.
     bindR (hash_to_hex S (thash txn)) (\<lambda>hash.
     bindR (signature_to_hex S (tsignature txn)) (\<lambda>signature.
     bindR (json_write_object_start buf) (\<lambda>buf.
     bindR (in_order
       [json_write_key (literal ''hash''), json_write_string hash,
        json_write_key (literal ''sender''), json_write_string sender,
        json_write_key (literal ''recipient''), json_write_string recipient,
        json_write_key (literal ''value''), json_write_number (of_nat (double_of (unat (tvalue txn)))),
        json_write_key (literal ''nonce''), json_write_number (of_nat (double_of (unat (tnonce txn)))),
        json_write_key (literal ''signature''), json_write_string signature] buf) json_write_object_end)))))"

definition block_write_json_header :: "sodium \<Rightarrow> store \<Rightarrow> addr \<Rightarrow> dynamic_buffer_t \<Rightarrow> dynamic_buffer_t res" where
  "block_write_json_header S st block buf =
     bindR (block_get_prev st (Some block)) (\<lambda>prev.
     bindR (block_get_hash S st prev) (\<lambda>prev_hash.
     bindR (heap_load (s_blocks st) block) (\<lambda>x.
     bindR (binary_to_hex prev_hash (generichash_BYTES S)) (\<lambda>prev_block.
     bindR (binary_to_hex (bmerkle_root x) (generichash_BYTES S)) (\<lambda>merkle_root.
     bindR (binary_to_hex (block_t.public_key x) (vrf_PUBLICKEYBYTES S)) (\<lambda>public_key.
     bindR (binary_to_hex (block_t.sortition_proof x) (vrf_PROOFBYTES S)) (\<lambda>sortition_proof.
     bindR (binary_to_hex (block_t.sortition_priority x) (generichash_BYTES S)) (\<lambda>sortition_priority.
     bindR (binary_to_hex (block_t.sortition_hash x) (vrf_OUTPUTBYTES S)) (\<lambda>sortition_hash.
     bindR (binary_to_hex (block_t.sortition_seed x) (generichash_BYTES S)) (\<lambda>sortition_seed.
     bindR (binary_to_hex (bsignature x) (sign_BYTES S)) (\<lambda>signature.
     bindR (json_write_object_start buf) (\<lambda>buf.
     bindR (in_order
       [json_write_key (literal ''timestamp''), json_write_number (of_nat (double_of (unat (timestamp x)))),
        json_write_key (literal ''prev_block''), json_write_string prev_block,
        json_write_key (literal ''merkle_root''), json_write_string merkle_root,
        json_write_key (literal ''public_key''), json_write_string public_key,
        json_write_key (literal ''sortition_proof''), json_write_string sortition_proof,
        json_write_key (literal ''sortition_priority''), json_write_string sortition_priority,
        json_write_key (literal ''sortition_seed''), json_write_string sortition_seed,
        json_write_key (literal ''sortition_hash''), json_write_string sortition_hash,
        json_write_key (literal ''signature''), json_write_string signature,
        json_write_key (literal ''n_transactions''),
        json_write_number (of_nat (double_of (list_size (transactions x))))] buf) json_write_object_end))))))))))))"

definition write_siblings :: "sodium \<Rightarrow> store \<Rightarrow> addr \<Rightarrow> dynamic_buffer_t \<Rightarrow> dynamic_buffer_t res" where
  "write_siblings S st block buf =
     bindR (heap_load (s_blocks st) block) (\<lambda>x.
     case prev_block x of
       None \<Rightarrow> Inr buf
     | Some p \<Rightarrow>
         bindR (heap_load (s_blocks st) p) (\<lambda>prev.
         foldR (\<lambda>i buf. bindR (list_get (children prev) i) (\<lambda>sibling.
                  if sibling \<noteq> block then block_write_json_header S st sibling buf else Inr buf))
           [0..<list_size (children prev)] buf))"

definition write_transactions_json :: "sodium \<Rightarrow> store \<Rightarrow> addr \<Rightarrow> dynamic_buffer_t \<Rightarrow> dynamic_buffer_t res" where
  "write_transactions_json S st block buf =
     bindR (block_get_transaction_count st block) (\<lambda>n.
     foldR (\<lambda>i buf. bindR (block_get_transaction st block i) (\<lambda>p. bindR (derefR p) (\<lambda>q.
              bindR (heap_load (s_txns st) q) (\<lambda>txn. transaction_write_json S txn buf)))) [0..<n] buf)"

definition block_write_json :: "sodium \<Rightarrow> store \<Rightarrow> addr \<Rightarrow> dynamic_buffer_t \<Rightarrow> dynamic_buffer_t res" where
  "block_write_json S st block buf =
     bindR (block_get_hash S st (Some block)) (\<lambda>hash.
     bindR (binary_to_hex hash (generichash_BYTES S)) (\<lambda>block_hash.
     bindR (block_get_height st (Some block)) (\<lambda>height.
     bindR (json_write_object_start buf) (\<lambda>buf.
     bindR (in_order
       [json_write_key (literal ''hash''), json_write_string block_hash,
        json_write_key (literal ''height''), json_write_number (of_nat (double_of (unat height))),
        json_write_key (literal ''siblings''),
        (\<lambda>buf. bindR (json_write_array_start buf) (\<lambda>buf. bindR (write_siblings S st block buf) json_write_array_end)),
        json_write_key (literal ''header''), block_write_json_header S st block,
        json_write_key (literal ''transactions''),
        (\<lambda>buf. bindR (json_write_array_start buf) (\<lambda>buf.
           bindR (write_transactions_json S st block buf) json_write_array_end))] buf) json_write_object_end))))"

section \<open>JSON values and their text\<close>

datatype json = JNum nat | JStr "byte list" | JArr "json list" | JObj "(byte list \<times> json) list"

fun commas :: "byte list list \<Rightarrow> byte list" where
  "commas [] = []"
| "commas [x] = x"
| "commas (x # y # zs) = x @ [44] @ commas (y # zs)"

definition quoted :: "byte list \<Rightarrow> byte list" where
  "quoted s = [34] @ s @ [34]"

fun render :: "json \<Rightarrow> byte list" where
  "render (JNum n) = decimal n"
| "render (JStr s) = quoted s"
| "render (JArr js) = [91] @ commas (map render js) @ [93]"
| "render (JObj ms) = [123] @ commas (map (\<lambda>(k, v). quoted k @ [58] @ render v) ms) @ [125]"

definition member :: "byte list \<times> json \<Rightarrow> byte list" where
  "member m = quoted (fst m) @ [58] @ render (snd m)"

definition ended :: "byte list \<Rightarrow> byte list" where
  "ended x = x @ [44]"

lemma render_JObj: "render (JObj ms) = [123] @ commas (map member ms) @ [125]"
  by (simp add: member_def [abs_def] case_prod_beta' [abs_def])

lemma butlast_ended: "butlast (concat (map ended xs)) = commas xs"
  by (induction xs rule: commas.induct) (simp_all add: ended_def butlast_append)

lemma last_ended: "xs = [] \<or> last (concat (map ended xs)) = 44"
  by (induction xs rule: rev_induct) (simp_all add: ended_def)

lemma concat_ended_Nil: "concat (map ended xs) = [] \<longleftrightarrow> xs = []"
  by (cases xs) (simp_all add: ended_def)

section \<open>The writers append the text of a value\<close>

lemma in_order_simps [simp]:
  "in_order [] b = Inr b" "in_order (w # ws) b = bindR (w b) (in_order ws)"
  by (simp_all add: in_order_def)

lemma writes_in_order:
  "list_all2 writes ws bss \<Longrightarrow> writes (in_order ws) (concat bss)"
proof (induction ws bss rule: list_all2_induct)
  case Nil
  show ?case using dbuf.appends_skip by (simp add: appends_def)
next
  case (Cons w ws bs bss)
  then have "writes (\<lambda>b. bindR (w b) (in_order ws)) (bs @ concat bss)"
    by (intro dbuf.appends_bind)
  then show ?case by (simp add: appends_def)
qed

lemma dbuf_last_char:
  assumes "dbuf_ok b" "dbuf_bytes b = xs @ [c]"
  shows "last_char b = Inr c" "unat (d_length b - 1) = length xs" "length xs < length (d_data b)"
    "d_length b \<noteq> 0"
proof -
  have len: "unat (d_length b) = Suc (length xs)"
    using length_dbuf_bytes [OF assms(1)] assms(2) by simp
  then show n0: "d_length b \<noteq> 0" by auto
  show i: "unat (d_length b - 1) = length xs"
    using len n0 by (simp add: unat_minus_one)
  have "unat (d_length b) \<le> length (d_data b)" using dbuf_okD [OF assms(1)] by simp
  then show l: "length xs < length (d_data b)" using len by simp
  have "d_data b ! length xs \<noteq> None" using dbuf_okD(3) [OF assms(1)] len by simp
  moreover have "the (d_data b ! length xs) = dbuf_bytes b ! length xs"
    using len l by (simp add: dbuf_bytes_def)
  ultimately have "d_data b ! length xs = Some c" using assms(2) by auto
  then show "last_char b = Inr c" using l i by (simp add: last_char_def arr_load_def)
qed

lemma dbuf_set_last:
  assumes "dbuf_ok b" "dbuf_bytes b = xs @ [c]"
  shows "arr_store (d_data b) (unat (d_length b - 1)) e = Inr ((d_data b)[length xs := Some e])"
    "dbuf_ok (b\<lparr>d_data := (d_data b)[length xs := Some e]\<rparr>)"
    "dbuf_bytes (b\<lparr>d_data := (d_data b)[length xs := Some e]\<rparr>) = xs @ [e]"
proof -
  note L = dbuf_last_char [OF assms]
  have len: "unat (d_length b) = Suc (length xs)"
    using length_dbuf_bytes [OF assms(1)] assms(2) by simp
  show "arr_store (d_data b) (unat (d_length b - 1)) e = Inr ((d_data b)[length xs := Some e])"
    using L by (simp add: arr_store_def)
  show "dbuf_ok (b\<lparr>d_data := (d_data b)[length xs := Some e]\<rparr>)"
    using assms(1) L(3) by (auto simp: dbuf_ok_def nth_list_update)
  have "map the (take (length xs) (d_data b)) = xs"
    using assms(2) len L(3) by (simp add: dbuf_bytes_def take_Suc_conv_app_nth)
  then show "dbuf_bytes (b\<lparr>d_data := (d_data b)[length xs := Some e]\<rparr>) = xs @ [e]"
    using len L(3) by (simp add: dbuf_bytes_def take_Suc_conv_app_nth)
qed

lemma json_close_bytes:
  assumes "dbuf_ok b" "dbuf_bytes b = xs @ [c]" "length (dbuf_bytes b) + (if c = opening then 2 else 1) < 2 ^ 31"
  shows "\<exists>b'. json_close opening closing b = Inr b' \<and> dbuf_ok b' \<and>
    dbuf_bytes b' = xs @ (if c = opening then [c] else []) @ [closing, 44]"
proof (cases "c = opening")
  case True
  obtain b1 where b1: "dynamic_buffer_putc closing b = Inr b1" "dbuf_ok b1" "dbuf_bytes b1 = dbuf_bytes b @ [closing]"
    using dynamic_buffer_putc_bytes [OF assms(1), of closing] assms(3) True by auto
  obtain b2 where "dynamic_buffer_putc 44 b1 = Inr b2" "dbuf_ok b2" "dbuf_bytes b2 = dbuf_bytes b1 @ [44]"
    using dynamic_buffer_putc_bytes [OF b1(2), of 44] assms(3) True b1(3) by auto
  then show ?thesis
    using True b1 assms(2) dbuf_last_char(1) [OF assms(1,2)] by (simp add: json_close_def)
next
  case False
  note L = dbuf_set_last [OF assms(1,2), of closing]
  obtain b2 where "dynamic_buffer_putc 44 (b\<lparr>d_data := (d_data b)[length xs := Some closing]\<rparr>) = Inr b2" "dbuf_ok b2"
      "dbuf_bytes b2 = (xs @ [closing]) @ [44]"
    using dynamic_buffer_putc_bytes [OF L(2), of 44] assms(2,3) False L(3) by auto
  then show ?thesis
    using False L(1) dbuf_last_char(1) [OF assms(1,2)] by (simp add: json_close_def)
qed

lemma writes_closed:
  assumes w: "writes w (concat (map ended xs))" and "opening \<noteq> 44"
  shows "writes (\<lambda>b. bindR (dynamic_buffer_putc opening b) (\<lambda>b. bindR (w b) (json_close opening closing)))
    (ended ([opening] @ commas xs @ [closing]))"
  unfolding appends_def
proof (intro allI impI)
  fix b assume b: "dbuf_ok b" "length (dbuf_bytes b) + length (ended ([opening] @ commas xs @ [closing])) < 2 ^ 31"
  have len: "length (commas xs) = length (concat (map ended xs)) - 1"
    using butlast_ended [of xs] by (metis length_butlast)
  obtain b1 where b1: "dynamic_buffer_putc opening b = Inr b1" "dbuf_ok b1" "dbuf_bytes b1 = dbuf_bytes b @ [opening]"
    using dynamic_buffer_putc_bytes [OF b(1), of "opening"] b(2) by (auto simp: ended_def)
  have "length (dbuf_bytes b1) + length (concat (map ended xs)) < 2 ^ 31"
    using b(2) len b1(3) by (simp add: ended_def)
  then obtain b2 where b2: "w b1 = Inr b2" "dbuf_ok b2" "dbuf_bytes b2 = dbuf_bytes b1 @ concat (map ended xs)"
    by (rule dbuf.appends_run [OF w b1(2)])
  show "\<exists>b'. bindR (dynamic_buffer_putc opening b) (\<lambda>b. bindR (w b) (json_close opening closing)) = Inr b' \<and>
      dbuf_ok b' \<and> dbuf_bytes b' = dbuf_bytes b @ ended ([opening] @ commas xs @ [closing])"
  proof (cases "xs = []")
    case True
    then show ?thesis
      using json_close_bytes [OF b2(2), of "dbuf_bytes b" "opening" "opening" closing] b1 b2 b(2)
      by (auto simp: ended_def)
  next
    case False
    then have "concat (map ended xs) = commas xs @ [44]"
      using butlast_ended [of xs] last_ended [of xs] concat_ended_Nil [of xs] by (metis append_butlast_last_id)
    then show ?thesis
      using json_close_bytes [OF b2(2), of "dbuf_bytes b @ [opening] @ commas xs" 44 "opening" closing]
        b1 b2 b(2) assms(2) by (auto simp: ended_def)
  qed
qed

lemma writes_array:
  assumes "writes w (concat (map (\<lambda>j. ended (render j)) js))"
  shows "writes (\<lambda>b. bindR (json_write_array_start b) (\<lambda>b. bindR (w b) json_write_array_end)) (ended (render (JArr js)))"
  using writes_closed [of w "map render js" 91 93] assms
  by (simp add: json_write_array_start_def [abs_def] json_write_array_end_def [abs_def] comp_def)

lemma writes_object:
  assumes "writes w (concat (map (\<lambda>m. ended (member m)) ms))"
  shows "writes (\<lambda>b. bindR (json_write_object_start b) (\<lambda>b. bindR (w b) json_write_object_end)) (ended (render (JObj ms)))"
  using writes_closed [of w "map member ms" 123 125] assms
  by (simp add: json_write_object_start_def [abs_def] json_write_object_end_def [abs_def] comp_def render_JObj
      del: render.simps)

section \<open>Scalars\<close>

lemma double_of_exact: "n < 2 ^ 53 \<Longrightarrow> double_of n = n"
  by (subst double_of_def, subst excess_bits.simps) (simp add: rounded_def)

lemma double_of_u32 [simp]: "double_of (unat (v :: u32)) = unat v"
proof (rule double_of_exact)
  have "unat v < 2 ^ 32" using unsigned_less [of v, where 'a = nat] by simp
  then show "unat v < 2 ^ 53" by simp
qed

lemma writes_number:
  assumes "n < 2 ^ 64"
  shows "writes (json_write_number (of_nat n)) (ended (render (JNum n)))"
proof -
  have "length (decimal n) \<le> 20" using assms by (intro length_decimal) simp_all
  moreover have "(of_nat n :: rat) < 2 ^ 64"
    using assms by (metis of_nat_less_iff of_nat_numeral of_nat_power)
  ultimately have "json_write_number (of_nat n) = dynamic_buffer_write (ended (decimal n)) (length (ended (decimal n)))"
    by (intro ext) (simp add: json_write_number_def ended_def)
  then show ?thesis using dbuf.appends_write [OF refl, of "ended (decimal n)"] by simp
qed

text \<open>A string is passed as a block of memory; \<open>is_cstring\<close> says which bytes it stands for.\<close>

definition is_cstring :: "byte arr \<Rightarrow> byte list \<Rightarrow> bool" where
  "is_cstring str s \<longleftrightarrow> str = map Some (s @ [0]) \<and> 0 \<notin> set s"

lemma writes_cstring: "is_cstring str s \<Longrightarrow> writes (write_cstring str) s"
proof -
  assume c: "is_cstring str s"
  then have "strlen str = Inr (length s)" using strlen_string [of s "[]"] by (simp add: is_cstring_def)
  moreover have "arr_load_n str 0 (length s) = Inr s"
    using c arr_load_n_block [of "[]" 0 s "length s" "[Some 0]"] by (simp add: is_cstring_def)
  ultimately have "write_cstring str = dynamic_buffer_write s (length s)"
    by (intro ext) (simp add: write_cstring_def)
  then show ?thesis using dbuf.appends_write [OF refl, of s] by simp
qed

lemma writes_json_string:
  assumes "is_cstring str s"
  shows "writes (json_write_string str) (ended (render (JStr s)))"
proof -
  have "writes (\<lambda>res. bindR (dynamic_buffer_putc 34 res) (\<lambda>res. bindR (write_cstring str res) (\<lambda>res.
      bindR (dynamic_buffer_putc 34 res) (dynamic_buffer_putc 44)))) ([34] @ s @ [34] @ [44])"
    using assms by (intro dbuf.appends_bind dbuf.appends_putc writes_cstring)
  then show ?thesis by (simp add: json_write_string_def [abs_def] ended_def quoted_def)
qed

lemma writes_key:
  assumes "is_cstring str s"
  shows "writes (json_write_key str) (quoted s @ [58])"
proof -
  have "writes (\<lambda>res. bindR (dynamic_buffer_putc 34 res) (\<lambda>res. bindR (write_cstring str res) (\<lambda>res.
      bindR (dynamic_buffer_putc 34 res) (dynamic_buffer_putc 58)))) ([34] @ s @ [34] @ [58])"
    using assms by (intro dbuf.appends_bind dbuf.appends_putc writes_cstring)
  then show ?thesis by (simp add: json_write_key_def [abs_def] quoted_def)
qed

lemma writes_literal_key:
  "0 \<notin> set (bytes_of s) \<Longrightarrow> writes (json_write_key (literal s)) (quoted (bytes_of s) @ [58])"
  by (intro writes_key) (simp add: is_cstring_def literal_def)

lemma hex_string_chars: "c \<in> set (hex_string bs) \<Longrightarrow> unat c \<in> {48..57} \<union> {97..102}"
proof -
  have d: "unat (hex_digit n) \<in> {48..57} \<union> {97..102}" if "n < 16" for n
    using that by (simp add: unat_hex_digit)
  assume "c \<in> set (hex_string bs)"
  then obtain b where "b \<in> set bs" "c = hex_digit (unat b div 16) \<or> c = hex_digit (unat b mod 16)"
    by (auto simp: hex_string_def hex_byte_def)
  moreover have "unat b div 16 < 16" using unat_byte_less [of b] by linarith
  ultimately show ?thesis using d [of "unat b div 16"] d [of "unat b mod 16"] by auto
qed

lemma hex_string_no_nul: "0 \<notin> set (hex_string bs)"
  using hex_string_chars [of 0 bs] by auto

lemma binary_to_hex_result:
  assumes "length bs = n" "n < 256"
  shows "\<exists>str. binary_to_hex bs n = Inr str \<and> is_cstring str (hex_string bs)"
proof -
  have "unat (of_nat n :: u32) = n" using assms(2) by (simp add: unat_of_nat)
  then show ?thesis
    using to_hex_loop_result [of 0 bs "of_nat n" "Suc n"] assms hex_string_no_nul [of bs]
    by (simp add: binary_to_hex_def is_cstring_def hex_string_def mult.commute)
qed

section \<open>Transactions and blocks as JSON values\<close>

definition txn_json :: "transaction_t \<Rightarrow> json" where
  "txn_json txn = JObj
     [(bytes_of ''hash'', JStr (hex_string (thash txn))),
      (bytes_of ''sender'', JStr (hex_string (tsender txn))),
      (bytes_of ''recipient'', JStr (hex_string (trecipient txn))),
      (bytes_of ''value'', JNum (double_of (unat (tvalue txn)))),
      (bytes_of ''nonce'', JNum (unat (tnonce txn))),
      (bytes_of ''signature'', JStr (hex_string (tsignature txn)))]"

definition header_json :: "sodium \<Rightarrow> store \<Rightarrow> addr \<Rightarrow> json" where
  "header_json S st b = (let x = blk st b in JObj
     [(bytes_of ''timestamp'', JNum (double_of (unat (timestamp x)))),
      (bytes_of ''prev_block'', JStr (hex_string (hash_of S st (prev_block x)))),
      (bytes_of ''merkle_root'', JStr (hex_string (bmerkle_root x))),
      (bytes_of ''public_key'', JStr (hex_string (public_key x))),
      (bytes_of ''sortition_proof'', JStr (hex_string (sortition_proof x))),
      (bytes_of ''sortition_priority'', JStr (hex_string (sortition_priority x))),
      (bytes_of ''sortition_seed'', JStr (hex_string (sortition_seed x))),
      (bytes_of ''sortition_hash'', JStr (hex_string (sortition_hash x))),
      (bytes_of ''signature'', JStr (hex_string (bsignature x))),
      (bytes_of ''n_transactions'', JNum (double_of (length (list_elems (transactions x)))))])"

text \<open>The other blocks with the same previous block.\<close>

definition siblings :: "store \<Rightarrow> addr \<Rightarrow> addr list" where
  "siblings st b = (case prev_block (blk st b) of
     None \<Rightarrow> [] | Some p \<Rightarrow> filter (\<lambda>c. c \<noteq> b) (list_elems (children (blk st p))))"

definition block_json :: "sodium \<Rightarrow> store \<Rightarrow> addr \<Rightarrow> json" where
  "block_json S st b = JObj
     [(bytes_of ''hash'', JStr (hex_string (bhash (blk st b)))),
      (bytes_of ''height'', JNum (unat (height (blk st b)))),
      (bytes_of ''siblings'', JArr (map (header_json S st) (siblings st b))),
      (bytes_of ''header'', header_json S st b),
      (bytes_of ''transactions'', JArr (map txn_json (block_txns st (blk st b))))]"

lemma literal_keys:
  "0 \<notin> set (bytes_of ''hash'')" "0 \<notin> set (bytes_of ''sender'')" "0 \<notin> set (bytes_of ''recipient'')"
  "0 \<notin> set (bytes_of ''value'')" "0 \<notin> set (bytes_of ''nonce'')" "0 \<notin> set (bytes_of ''signature'')"
  "0 \<notin> set (bytes_of ''timestamp'')" "0 \<notin> set (bytes_of ''prev_block'')" "0 \<notin> set (bytes_of ''merkle_root'')"
  "0 \<notin> set (bytes_of ''public_key'')" "0 \<notin> set (bytes_of ''sortition_proof'')"
  "0 \<notin> set (bytes_of ''sortition_priority'')" "0 \<notin> set (bytes_of ''sortition_seed'')"
  "0 \<notin> set (bytes_of ''sortition_hash'')" "0 \<notin> set (bytes_of ''n_transactions'')"
  "0 \<notin> set (bytes_of ''height'')" "0 \<notin> set (bytes_of ''siblings'')" "0 \<notin> set (bytes_of ''header'')"
  "0 \<notin> set (bytes_of ''transactions'')"
  by (simp_all add: bytes_of_def of_char_def)

lemma writes_fields:
  assumes "list_all2 writes ws (concat (map (\<lambda>(k, v). [quoted k @ [58], ended (render v)]) ms))"
  shows "writes (\<lambda>b. bindR (json_write_object_start b) (\<lambda>b. bindR (in_order ws b) json_write_object_end))
    (ended (render (JObj ms)))"
proof (rule writes_object)
  have "concat (concat (map (\<lambda>(k, v). [quoted k @ [58], ended (render v)]) ms)) = concat (map (\<lambda>m. ended (member m)) ms)"
    by (induction ms) (auto simp: member_def ended_def)
  then show "writes (in_order ws) (concat (map (\<lambda>m. ended (member m)) ms))"
    using writes_in_order [OF assms] by simp
qed

lemma hex_functions:
  "hash_to_hex S data = binary_to_hex data (generichash_BYTES S)"
  "public_key_to_hex S data = binary_to_hex data (sign_PUBLICKEYBYTES S)"
  "signature_to_hex S data = binary_to_hex data (sign_BYTES S)"
  by (simp_all add: binary_to_hex_def hash_to_hex_def public_key_to_hex_def signature_to_hex_def)

lemma unat_u32_lt: "unat (v :: u32) < 2 ^ 64"
proof -
  have "unat v < 2 ^ 32" using unsigned_less [of v, where 'a = nat] by simp
  then show ?thesis by simp
qed

lemma writes_txn_json:
  assumes S: "sodium_ok S kp" and "txn_sized txn" "length (thash txn) = 32" and v: "double_of (unat (tvalue txn)) < 2 ^ 64"
  shows "writes (transaction_write_json S txn) (ended (render (txn_json txn)))"
proof -
  obtain sender where a: "binary_to_hex (tsender txn) 32 = Inr sender" "is_cstring sender (hex_string (tsender txn))"
    using binary_to_hex_result [of "tsender txn" 32] assms by (auto simp: txn_sized_def)
  obtain recipient where b: "binary_to_hex (trecipient txn) 32 = Inr recipient" "is_cstring recipient (hex_string (trecipient txn))"
    using binary_to_hex_result [of "trecipient txn" 32] assms by (auto simp: txn_sized_def)
  obtain hash where c: "binary_to_hex (thash txn) 32 = Inr hash" "is_cstring hash (hex_string (thash txn))"
    using binary_to_hex_result [of "thash txn" 32] assms by auto
  obtain sig where d: "binary_to_hex (tsignature txn) 64 = Inr sig" "is_cstring sig (hex_string (tsignature txn))"
    using binary_to_hex_result [of "tsignature txn" 64] assms by (auto simp: txn_sized_def)
  note strs = a(2) b(2) c(2) d(2)
  have "writes (\<lambda>buf. bindR (json_write_object_start buf) (\<lambda>buf.
     bindR (in_order
       [json_write_key (literal ''hash''), json_write_string hash,
        json_write_key (literal ''sender''), json_write_string sender,
        json_write_key (literal ''recipient''), json_write_string recipient,
        json_write_key (literal ''value''), json_write_number (of_nat (double_of (unat (tvalue txn)))),
        json_write_key (literal ''nonce''), json_write_number (of_nat (double_of (unat (tnonce txn)))),
        json_write_key (literal ''signature''), json_write_string sig] buf) json_write_object_end))
    (ended (render (txn_json txn)))"
    unfolding txn_json_def double_of_u32 list.map concat.simps prod.case append.simps
    by (rule writes_fields, simp only: list.map concat.simps prod.case append.simps list_all2_Cons list_all2_Nil simp_thms,
        intro conjI writes_literal_key writes_json_string writes_number literal_keys strs v unat_u32_lt)
  then show ?thesis
    using a b c d by (simp add: transaction_write_json_def [abs_def] hex_functions sodium_sizes [OF S])
qed

text \<open>The numbers a \<open>uint64_t\<close> can hold after the conversion to \<open>double\<close>.\<close>

definition header_printable :: "block_t \<Rightarrow> bool" where
  "header_printable x \<longleftrightarrow>
     double_of (unat (timestamp x)) < 2 ^ 64 \<and> double_of (length (list_elems (transactions x))) < 2 ^ 64"

definition printable :: "store \<Rightarrow> addr \<Rightarrow> bool" where
  "printable st b \<longleftrightarrow> header_printable (blk st b) \<and> (\<forall>c \<in> set (siblings st b). header_printable (blk st c)) \<and>
     (\<forall>t \<in> set (block_txns st (blk st b)). double_of (unat (tvalue t)) < 2 ^ 64)"

lemma good_block_lengths:
  assumes S: "sodium_ok S kp" and "good_store S st" "alive (s_blocks st) b"
  shows "length (bhash (blk st b)) = 32" "length (hash_of S st (prev_block (blk st b))) = 32"
    "length (bmerkle_root (blk st b)) = 32" "length (public_key (blk st b)) = 32"
    "length (sortition_proof (blk st b)) = 80" "length (sortition_priority (blk st b)) = 32"
    "length (sortition_hash (blk st b)) = 64" "length (sortition_seed (blk st b)) = 32"
    "length (bsignature (blk st b)) = 64"
proof -
  have a: "authentic S st (blk st b)" and o: "body_ok st b (blk st b)"
    using good_storeD [OF assms(2,3)] by simp_all
  show "length (bmerkle_root (blk st b)) = 32" "length (public_key (blk st b)) = 32"
    "length (sortition_proof (blk st b)) = 80" "length (sortition_seed (blk st b)) = 32"
    "length (bsignature (blk st b)) = 64"
    using a by (simp_all add: authentic_def block_sized_def sodium_sizes [OF S] del: enc.simps)
  show "length (bhash (blk st b)) = 32" "length (sortition_priority (blk st b)) = 32"
    using a by (simp_all add: authentic_def delegate_priority_def sodium_sizes [OF S] del: enc.simps)
  show "length (sortition_hash (blk st b)) = 64"
    using a S unfolding authentic_def sodium_ok_def by blast
  have "known st (length (s_blocks st)) (prev_block (blk st b))"
    using o alive_less [OF assms(3)] by (auto simp: body_ok_def known_def)
  then show "length (hash_of S st (prev_block (blk st b))) = 32"
    by (rule good_known_lengths(1) [OF assms(1,2)])
qed

lemma writes_header_json:
  assumes S: "sodium_ok S kp" and g: "good_store S st" and b: "alive (s_blocks st) b"
    and p: "header_printable (blk st b)"
  shows "writes (block_write_json_header S st b) (ended (render (header_json S st b)))"
proof -
  let ?x = "blk st b" and ?hex = "\<lambda>bs n s. binary_to_hex bs n = Inr s \<and> is_cstring s (hex_string bs)"
  note L = good_block_lengths [OF S g b]
  have kn: "known st (length (s_blocks st)) (prev_block ?x)" and rd: "list_rd (transactions ?x)"
    using good_storeD(1) [OF g b] alive_less [OF b] by (auto simp: body_ok_def known_def)
  have hex: "\<exists>s. ?hex bs n s" if "length bs = n" "n < 256" for bs n
    by (rule binary_to_hex_result [OF that])
  obtain prev where a1: "?hex (hash_of S st (prev_block ?x)) 32 prev" using hex [OF L(2)] by auto
  obtain root where a2: "?hex (bmerkle_root ?x) 32 root" using hex [OF L(3)] by auto
  obtain key where a3: "?hex (public_key ?x) 32 key" using hex [OF L(4)] by auto
  obtain pr where a4: "?hex (sortition_proof ?x) 80 pr" using hex [OF L(5)] by auto
  obtain pri where a5: "?hex (sortition_priority ?x) 32 pri" using hex [OF L(6)] by auto
  obtain h where a6: "?hex (sortition_hash ?x) 64 h" using hex [OF L(7)] by auto
  obtain seed where a7: "?hex (sortition_seed ?x) 32 seed" using hex [OF L(8)] by auto
  obtain sig where a8: "?hex (bsignature ?x) 64 sig" using hex [OF L(9)] by auto
  note strs = a1 [THEN conjunct2] a2 [THEN conjunct2] a3 [THEN conjunct2] a4 [THEN conjunct2]
    a5 [THEN conjunct2] a6 [THEN conjunct2] a7 [THEN conjunct2] a8 [THEN conjunct2]
  note nums = p [unfolded header_printable_def, THEN conjunct1] p [unfolded header_printable_def, THEN conjunct2]
  have "writes (\<lambda>buf. bindR (json_write_object_start buf) (\<lambda>buf.
     bindR (in_order
       [json_write_key (literal ''timestamp''), json_write_number (of_nat (double_of (unat (timestamp ?x)))),
        json_write_key (literal ''prev_block''), json_write_string prev,
        json_write_key (literal ''merkle_root''), json_write_string root,
        json_write_key (literal ''public_key''), json_write_string key,
        json_write_key (literal ''sortition_proof''), json_write_string pr,
        json_write_key (literal ''sortition_priority''), json_write_string pri,
        json_write_key (literal ''sortition_seed''), json_write_string seed,
        json_write_key (literal ''sortition_hash''), json_write_string h,
        json_write_key (literal ''signature''), json_write_string sig,
        json_write_key (literal ''n_transactions''),
        json_write_number (of_nat (double_of (length (list_elems (transactions ?x)))))] buf) json_write_object_end))
    (ended (render (header_json S st b)))"
    unfolding header_json_def Let_def
    by (rule writes_fields, simp only: list.map concat.simps prod.case append.simps list_all2_Cons list_all2_Nil simp_thms,
        intro conjI writes_literal_key writes_json_string writes_number literal_keys strs nums)
  then show ?thesis
    using a1 a2 a3 a4 a5 a6 a7 a8 b
    by (simp add: block_write_json_header_def [abs_def] block_get_prev_def block_get_hash_of [OF kn] sodium_sizes [OF S]
        list_size_rd [OF rd])
qed

text \<open>A loop over the indices of a list.\<close>

lemma writes_index_loop:
  assumes "\<And>i. i < length xs \<Longrightarrow> writes (w i) (f (xs ! i))"
  shows "writes (foldR w [0..<length xs]) (concat (map f xs))"
proof -
  have "writes (foldR w [0..<length xs]) (concat (map (\<lambda>i. f (xs ! i)) [0..<length xs]))"
    using assms by (intro dbuf.appends_loop) simp
  also have "map (\<lambda>i. f (xs ! i)) [0..<length xs] = map f xs"
    by (intro nth_equalityI) simp_all
  finally show ?thesis .
qed

lemma concat_map_if: "concat (map (\<lambda>x. if P x then f x else []) xs) = concat (map f (filter P xs))"
  by (induction xs) simp_all

lemma writes_siblings:
  assumes S: "sodium_ok S kp" and g: "good_store S st" and b: "alive (s_blocks st) b"
    and sib: "\<forall>c \<in> set (siblings st b). alive (s_blocks st) c \<and> header_printable (blk st c)"
  shows "writes (write_siblings S st b) (concat (map (\<lambda>j. ended (render j)) (map (header_json S st) (siblings st b))))"
proof (cases "prev_block (blk st b)")
  case None
  then have "write_siblings S st b = Inr" using b by (intro ext) (simp add: write_siblings_def)
  then show ?thesis using None dbuf.appends_skip by (simp add: siblings_def)
next
  case (Some p)
  let ?f = "\<lambda>c. ended (render (header_json S st c))" and ?l = "children (blk st p)"
  let ?w = "\<lambda>i buf. bindR (list_get ?l i) (\<lambda>sibling.
      if sibling \<noteq> b then block_write_json_header S st sibling buf else Inr buf)"
  have p: "alive (s_blocks st) p" using good_storeD(1) [OF g b] Some by (simp add: body_ok_def)
  have l: "list_rd ?l" using good_storeD(1) [OF g p] by (intro list_ok_rd) (simp add: body_ok_def)
  have "writes (?w i) (if list_elems ?l ! i \<noteq> b then ?f (list_elems ?l ! i) else [])" if i: "i < length (list_elems ?l)" for i
  proof (cases "list_elems ?l ! i = b")
    case True
    then have "?w i = Inr" using i by (intro ext) (simp add: list_get_rd [OF l])
    then show ?thesis using True dbuf.appends_skip by simp
  next
    case False
    then have w: "?w i = block_write_json_header S st (list_elems ?l ! i)"
      using i by (intro ext) (simp add: list_get_rd [OF l])
    have "list_elems ?l ! i \<in> set (siblings st b)" using False i Some by (simp add: siblings_def)
    then show ?thesis using False sib writes_header_json [OF S g] unfolding w by simp
  qed
  then have "writes (foldR ?w [0..<length (list_elems ?l)]) (concat (map (\<lambda>c. if c \<noteq> b then ?f c else []) (list_elems ?l)))"
    by (rule writes_index_loop)
  moreover have "write_siblings S st b = foldR ?w [0..<length (list_elems ?l)]"
    using b p Some by (intro ext) (simp add: write_siblings_def list_size_rd [OF l])
  ultimately show ?thesis using Some by (simp add: concat_map_if siblings_def comp_def)
qed

lemma writes_transactions_json:
  assumes S: "sodium_ok S kp" and g: "good_store S st" and b: "alive (s_blocks st) b"
    and v: "\<forall>t \<in> set (block_txns st (blk st b)). double_of (unat (tvalue t)) < 2 ^ 64"
  shows "writes (write_transactions_json S st b) (concat (map (\<lambda>j. ended (render j)) (map txn_json (block_txns st (blk st b)))))"
proof -
  let ?l = "transactions (blk st b)" and ?f = "\<lambda>p. ended (render (txn_json (obj (s_txns st) (the p))))"
  let ?w = "\<lambda>i buf. bindR (block_get_transaction st b i) (\<lambda>p. bindR (derefR p) (\<lambda>q.
      bindR (heap_load (s_txns st) q) (\<lambda>txn. transaction_write_json S txn buf)))"
  have l: "list_rd ?l" using good_storeD(1) [OF g b] by (simp add: body_ok_def)
  have ok: "txns_ok S st (blk st b)" using good_storeD(3) [OF g b] by (simp add: authentic_def)
  have "writes (?w i) (?f (list_elems ?l ! i))" if i: "i < length (list_elems ?l)" for i
  proof -
    obtain q where q: "list_elems ?l ! i = Some q" "alive (s_txns st) q" "txn_ok S (obj (s_txns st) q)"
      using ok i nth_mem unfolding txns_ok_def by blast
    have w: "?w i = transaction_write_json S (obj (s_txns st) q)"
      using b i q by (intro ext) (simp add: block_get_transaction_def list_get_rd [OF l])
    have "obj (s_txns st) q \<in> set (block_txns st (blk st b))"
      using q(1) i nth_mem [OF i] by (force simp: block_txns_def)
    then have "double_of (unat (tvalue (obj (s_txns st) q))) < 2 ^ 64" using v by blast
    moreover have "txn_sized (obj (s_txns st) q)" "length (thash (obj (s_txns st) q)) = 32"
      using q(3) by (simp_all add: txn_ok_def sodium_sizes [OF S] del: enc.simps)
    ultimately show ?thesis
      unfolding w q(1) option.sel by (intro writes_txn_json [OF S])
  qed
  then have "writes (foldR ?w [0..<length (list_elems ?l)]) (concat (map ?f (list_elems ?l)))"
    by (rule writes_index_loop)
  moreover have "write_transactions_json S st b = foldR ?w [0..<length (list_elems ?l)]"
    using b by (intro ext) (simp add: write_transactions_json_def block_get_transaction_count_def list_size_rd [OF l])
  ultimately show ?thesis by (simp add: block_txns_def comp_def)
qed

lemma writes_block_json:
  assumes S: "sodium_ok S kp" and g: "good_store S st" and b: "alive (s_blocks st) b"
    and sib: "\<forall>c \<in> set (siblings st b). alive (s_blocks st) c" and p: "printable st b"
  shows "writes (block_write_json S st b) (ended (render (block_json S st b)))"
proof -
  obtain h where h: "binary_to_hex (bhash (blk st b)) 32 = Inr h" "is_cstring h (hex_string (bhash (blk st b)))"
    using binary_to_hex_result [OF good_block_lengths(1) [OF S g b]] by auto
  have c: "\<forall>c \<in> set (siblings st b). alive (s_blocks st) c \<and> header_printable (blk st c)"
    using sib p by (simp add: printable_def)
  have t: "\<forall>t \<in> set (block_txns st (blk st b)). double_of (unat (tvalue t)) < 2 ^ 64" "header_printable (blk st b)"
    using p by (simp_all add: printable_def)
  have "writes (\<lambda>buf. bindR (json_write_object_start buf) (\<lambda>buf.
     bindR (in_order
       [json_write_key (literal ''hash''), json_write_string h,
        json_write_key (literal ''height''), json_write_number (of_nat (double_of (unat (height (blk st b))))),
        json_write_key (literal ''siblings''),
        (\<lambda>buf. bindR (json_write_array_start buf) (\<lambda>buf. bindR (write_siblings S st b buf) json_write_array_end)),
        json_write_key (literal ''header''), block_write_json_header S st b,
        json_write_key (literal ''transactions''),
        (\<lambda>buf. bindR (json_write_array_start buf) (\<lambda>buf.
           bindR (write_transactions_json S st b buf) json_write_array_end))] buf) json_write_object_end))
     (ended (render (block_json S st b)))"
    unfolding block_json_def double_of_u32
    by (rule writes_fields, simp only: list.map concat.simps prod.case append.simps list_all2_Cons list_all2_Nil simp_thms,
        intro conjI writes_literal_key writes_json_string writes_number literal_keys h(2) unat_u32_lt writes_array
          writes_siblings [OF S g b c] writes_header_json [OF S g b t(2)] writes_transactions_json [OF S g b t(1)])
  then show ?thesis
    using b h(1) by (simp add: block_write_json_def [abs_def] block_get_hash_def block_get_height_def sodium_sizes [OF S])
qed

section \<open>Reading the text back\<close>

text \<open>
  A reader for the values above, independent of the writers: digits, strings without escapes, and
  lists of items. It is what a client makes of the text.
\<close>

definition read_string :: "byte list \<Rightarrow> (byte list \<times> byte list) option" where
  "read_string s =
     (case s of [] \<Rightarrow> None | c # cs \<Rightarrow>
        if c \<noteq> 34 then None else
        case dropWhile (\<lambda>c. c \<noteq> 34) cs of [] \<Rightarrow> None | _ # r \<Rightarrow> Some (takeWhile (\<lambda>c. c \<noteq> 34) cs, r))"

fun read_value :: "nat \<Rightarrow> byte list \<Rightarrow> (json \<times> byte list) option"
  and read_items :: "nat \<Rightarrow> byte list \<Rightarrow> (json list \<times> byte list) option"
  and read_members :: "nat \<Rightarrow> byte list \<Rightarrow> ((byte list \<times> json) list \<times> byte list) option" where
  "read_value (Suc f) (c # cs) =
     (if is_digit c then Some (JNum (number_of_digits (takeWhile is_digit (c # cs))), dropWhile is_digit (c # cs))
      else if c = 34 then map_option (\<lambda>(s, r). (JStr s, r)) (read_string (c # cs))
      else if c = 91 then
        if take 1 cs = [93] then Some (JArr [], tl cs) else map_option (\<lambda>(js, r). (JArr js, r)) (read_items f cs)
      else if c = 123 then
        if take 1 cs = [125] then Some (JObj [], tl cs) else map_option (\<lambda>(ms, r). (JObj ms, r)) (read_members f cs)
      else None)"
| "read_value _ _ = None"
| "read_items (Suc f) s =
     (case read_value f s of
        Some (j, c # r) \<Rightarrow>
          if c = 93 then Some ([j], r)
          else if c = 44 then map_option (\<lambda>(js, r). (j # js, r)) (read_items f r) else None
      | _ \<Rightarrow> None)"
| "read_items 0 _ = None"
| "read_members (Suc f) s =
     (case read_string s of
        Some (k, c # s) \<Rightarrow>
          if c \<noteq> 58 then None else
          (case read_value f s of
             Some (j, c # r) \<Rightarrow>
               if c = 125 then Some ([(k, j)], r)
               else if c = 44 then map_option (\<lambda>(ms, r). ((k, j) # ms, r)) (read_members f r) else None
           | _ \<Rightarrow> None)
      | _ \<Rightarrow> None)"
| "read_members 0 _ = None"

text \<open>Every item takes at least one character, so the length of the text is fuel enough.\<close>

definition read_json :: "byte list \<Rightarrow> json option" where
  "read_json s = (case read_value (length s) s of Some (j, []) \<Rightarrow> Some j | _ \<Rightarrow> None)"

definition plain :: "byte list \<Rightarrow> bool" where
  "plain s \<longleftrightarrow> (\<forall>c \<in> set s. 32 \<le> unat c \<and> c \<noteq> 34 \<and> c \<noteq> 92)"

fun wf_json :: "json \<Rightarrow> bool" where
  "wf_json (JNum n) = True"
| "wf_json (JStr s) = plain s"
| "wf_json (JArr js) = (\<forall>j \<in> set js. wf_json j)"
| "wf_json (JObj ms) = (\<forall>(k, v) \<in> set ms. plain k \<and> wf_json v)"

lemma read_quoted: "plain s \<Longrightarrow> read_string (quoted s @ rest) = Some (s, rest)"
proof -
  assume "plain s"
  then have "\<forall>c \<in> set s. c \<noteq> 34" by (auto simp: plain_def)
  then have "dropWhile (\<lambda>c. c \<noteq> 34) (s @ 34 # rest) = 34 # rest" "takeWhile (\<lambda>c. c \<noteq> 34) (s @ 34 # rest) = s"
    by (simp_all add: dropWhile_append2 takeWhile_append2)
  then show ?thesis by (simp add: read_string_def quoted_def)
qed

lemma render_start: "render j = c # cs \<Longrightarrow> is_digit c \<and> (\<exists>n. j = JNum n) \<or> c \<in> {34, 91, 123}"
  using decimal_digits [of "case j of JNum n \<Rightarrow> n | _ \<Rightarrow> 0"] by (cases j) (auto simp: quoted_def)

lemma render_not_Nil [simp]: "render j \<noteq> []"
  by (cases j) (simp_all add: quoted_def)

definition no_digit_next :: "byte list \<Rightarrow> bool" where
  "no_digit_next s \<longleftrightarrow> (case s of [] \<Rightarrow> True | c # _ \<Rightarrow> \<not> is_digit c)"

lemma read_items_result:
  assumes "\<And>j f rest. j \<in> set js \<Longrightarrow> length (render j) \<le> f \<Longrightarrow> no_digit_next rest \<Longrightarrow>
      read_value f (render j @ rest) = Some (j, rest)"
    and "js \<noteq> []" "length (commas (map render js)) < f"
  shows "read_items f (commas (map render js) @ 93 # rest) = Some (js, rest)"
  using assms
proof (induction js arbitrary: f rule: induct_list012)
  case (2 j)
  then obtain g where "f = Suc g" by (cases f) auto
  then show ?case using 2 by (simp add: no_digit_next_def is_digit_def)
next
  case (3 j k js)
  then obtain g where g: "f = Suc g" by (cases f) auto
  have "read_value g (render j @ 44 # commas (map render (k # js)) @ 93 # rest) =
      Some (j, 44 # commas (map render (k # js)) @ 93 # rest)"
    using 3(5) g by (intro 3(3)) (auto simp: no_digit_next_def is_digit_def)
  moreover have "read_items g (commas (map render (k # js)) @ 93 # rest) = Some (k # js, rest)"
    using 3(5) g 3(3) by (intro 3(2)) auto
  ultimately show ?case using g by simp
qed simp

lemma read_members_result:
  assumes "\<And>k j f rest. (k, j) \<in> set ms \<Longrightarrow> length (render j) \<le> f \<Longrightarrow> no_digit_next rest \<Longrightarrow>
      read_value f (render j @ rest) = Some (j, rest)"
    and "\<forall>(k, j) \<in> set ms. plain k" "ms \<noteq> []" "length (commas (map member ms)) < f"
  shows "read_members f (commas (map member ms) @ 125 # rest) = Some (ms, rest)"
  using assms
proof (induction ms arbitrary: f rule: induct_list012)
  case (2 m)
  obtain k j where m: "m = (k, j)" by (cases m)
  obtain g where g: "f = Suc g" using 2 by (cases f) auto
  have "read_string (quoted k @ 58 # render j @ 125 # rest) = Some (k, 58 # render j @ 125 # rest)"
    using 2 m by (intro read_quoted) auto
  moreover have "read_value g (render j @ 125 # rest) = Some (j, 125 # rest)"
    using 2(4) g m by (intro 2(1)) (auto simp: member_def no_digit_next_def is_digit_def)
  ultimately show ?case using m g by (simp add: member_def)
next
  case (3 m m' ms)
  obtain k j where m: "m = (k, j)" by (cases m)
  obtain g where g: "f = Suc g" using 3 by (cases f) auto
  let ?r = "commas (map member (m' # ms)) @ 125 # rest"
  have "read_string (quoted k @ 58 # render j @ 44 # ?r) = Some (k, 58 # render j @ 44 # ?r)"
    using 3(4) m by (intro read_quoted) auto
  moreover have "read_value g (render j @ 44 # ?r) = Some (j, 44 # ?r)"
    using 3(6) g m by (intro 3(3)) (auto simp: member_def no_digit_next_def is_digit_def)
  moreover have "read_members g ?r = Some (m' # ms, rest)"
    using 3(6) g 3(4) 3(3) by (intro 3(2)) auto
  moreover have "member (k, j) = quoted k @ 58 # render j" by (simp add: member_def)
  ultimately show ?case using m g by simp
qed simp

lemma read_value_render:
  "wf_json j \<Longrightarrow> length (render j) \<le> f \<Longrightarrow> no_digit_next rest \<Longrightarrow> read_value f (render j @ rest) = Some (j, rest)"
proof (induction j arbitrary: f rest rule: render.induct)
  case (1 n)
  obtain c cs where c: "decimal n = c # cs" by (cases "decimal n") auto
  have d: "is_digit c" "list_all is_digit cs" using decimal_digits [of n] c by auto
  obtain g where g: "f = Suc g" using 1 c by (cases f) auto
  have "takeWhile is_digit (decimal n @ rest) = decimal n" "dropWhile is_digit (decimal n @ rest) = rest"
    using 1(3) decimal_digits [of n]
    by (auto simp: takeWhile_append2 dropWhile_append2 list_all_iff no_digit_next_def split: list.splits)
  then show ?case using d(1) g number_of_decimal [of n] by (simp add: c)
next
  case (2 s)
  then obtain g where "f = Suc g" by (cases f) (auto simp: quoted_def)
  moreover have "quoted s @ rest = 34 # s @ 34 # rest" by (simp add: quoted_def)
  ultimately show ?case using read_quoted [of s rest] 2 by (simp add: is_digit_def)
next
  case (3 js)
  obtain g where g: "f = Suc g" using 3 by (cases f) auto
  show ?case
  proof (cases "js = []")
    case False
    then obtain j k where "js = j # k" by (cases js) auto
    then obtain c cs where s: "commas (map render js) = c # cs" "\<exists>r. render j = c # r"
      by (cases k; cases "render j") auto
    then have "c \<noteq> 93" using render_start [of j c] by (auto simp: is_digit_def)
    moreover have "read_items g (commas (map render js) @ 93 # rest) = Some (js, rest)"
      using 3 False g by (intro read_items_result) auto
    ultimately show ?thesis using g s(1) by (simp add: is_digit_def)
  qed (use g in \<open>simp add: is_digit_def\<close>)
next
  case (4 ms)
  obtain g where g: "f = Suc g" using 4 by (cases f) auto
  show ?case
  proof (cases "ms = []")
    case False
    then obtain cs where s: "commas (map member ms) = 34 # cs"
      by (cases ms rule: remdups_adj.cases) (auto simp: member_def quoted_def)
    have "read_members g (commas (map member ms) @ 125 # rest) = Some (ms, rest)"
    proof (rule read_members_result)
      show "read_value f (render j @ rest) = Some (j, rest)"
        if "(k, j) \<in> set ms" "length (render j) \<le> f" "no_digit_next rest" for k j f rest
        using that 4(1) [OF that(1) refl] 4(2) by auto
    qed (use 4 g False in \<open>auto simp: render_JObj simp del: render.simps\<close>)
    then show ?thesis using g s by (simp add: render_JObj is_digit_def del: render.simps)
  qed (use g in \<open>simp add: is_digit_def\<close>)
qed

lemma read_json_render: "wf_json j \<Longrightarrow> read_json (render j) = Some j"
  using read_value_render [of j "length (render j)" "[]"] by (simp add: read_json_def no_digit_next_def)

lemma plain_hex [simp]: "plain (hex_string bs)"
  unfolding plain_def
proof
  fix c assume "c \<in> set (hex_string bs)"
  then have "unat c \<in> {48..57} \<union> {97..102}" by (rule hex_string_chars)
  then show "32 \<le> unat c \<and> c \<noteq> 34 \<and> c \<noteq> 92" by (auto simp: word_unat_eq_iff)
qed

lemma plain_keys [simp]:
  "plain (bytes_of ''hash'')" "plain (bytes_of ''sender'')" "plain (bytes_of ''recipient'')"
  "plain (bytes_of ''value'')" "plain (bytes_of ''nonce'')" "plain (bytes_of ''signature'')"
  "plain (bytes_of ''timestamp'')" "plain (bytes_of ''prev_block'')" "plain (bytes_of ''merkle_root'')"
  "plain (bytes_of ''public_key'')" "plain (bytes_of ''sortition_proof'')"
  "plain (bytes_of ''sortition_priority'')" "plain (bytes_of ''sortition_seed'')"
  "plain (bytes_of ''sortition_hash'')" "plain (bytes_of ''n_transactions'')"
  "plain (bytes_of ''height'')" "plain (bytes_of ''siblings'')" "plain (bytes_of ''header'')"
  "plain (bytes_of ''transactions'')"
  by (simp_all add: plain_def bytes_of_def of_char_def)

lemma wf_txn_json [simp]: "wf_json (txn_json txn)"
  by (simp add: txn_json_def)

lemma wf_header_json [simp]: "wf_json (header_json S st b)"
  by (simp add: header_json_def Let_def)

lemma wf_block_json [simp]: "wf_json (block_json S st b)"
  by (simp add: block_json_def)

lemma json_write_end_bytes:
  assumes "dbuf_ok b" "dbuf_bytes b = ended xs"
  shows "\<exists>b'. json_write_end b = Inr b' \<and> dbuf_ok b' \<and> dbuf_bytes b' = xs"
proof -
  note L = dbuf_last_char [OF assms(1) assms(2) [unfolded ended_def]]
  let ?b = "b\<lparr>d_length := d_length b - 1\<rparr>"
  have len: "unat (d_length b) = Suc (length xs)"
    using length_dbuf_bytes [OF assms(1)] assms(2) by (simp add: ended_def)
  have "dbuf_ok ?b" using assms(1) L(2) len by (auto simp: dbuf_ok_def)
  moreover have "dbuf_bytes ?b = butlast (dbuf_bytes b)"
    using L(2,3) len by (simp add: dbuf_bytes_def take_Suc_conv_app_nth)
  ultimately show ?thesis using L(1) assms(2) by (simp add: json_write_end_def ended_def)
qed

text \<open>A value written to a buffer and ended.\<close>

lemma writes_then_end:
  assumes "writes w (ended xs)" "dbuf_ok b" "dbuf_bytes b = []" "Suc (length xs) < 2 ^ 31"
  shows "\<exists>b'. bindR (w b) json_write_end = Inr b' \<and> dbuf_ok b' \<and> dbuf_bytes b' = xs"
proof -
  have "length (dbuf_bytes b) + length (ended xs) < 2 ^ 31" using assms(3,4) by (simp add: ended_def)
  then obtain b1 where "w b = Inr b1" "dbuf_ok b1" "dbuf_bytes b1 = dbuf_bytes b @ ended xs"
    by (rule dbuf.appends_run [OF assms(1,2)])
  then show ?thesis using json_write_end_bytes [of b1 xs] assms(3) by simp
qed

section \<open>Properties\<close>

lemma double_of_large:
  assumes "2 ^ 64 - 1024 \<le> n" "n < 2 ^ 64"
  shows "double_of n = 2 ^ 64"
proof -
  have e: "excess_bits n = 11"
  proof -
    have step: "excess_bits m = Suc (excess_bits (m div 2))" if "2 ^ 53 \<le> m" for m
      using that by (subst excess_bits.simps) simp
    have stop: "excess_bits (n div 2 ^ 11) = 0"
      using assms by (subst excess_bits.simps) simp
    have go: "excess_bits (n div 2 ^ k) = Suc (excess_bits (n div 2 ^ Suc k))" if "k < 11" for k
    proof -
      have "(2 :: nat) ^ k \<le> 2 ^ 10" using that by (intro power_increasing) auto
      then have "(2 :: nat) ^ 53 * 2 ^ k \<le> 2 ^ 63" by simp
      also have "\<dots> \<le> n" using assms by simp
      finally have "2 ^ 53 \<le> n div 2 ^ k" by (simp add: less_eq_div_iff_mult_less_eq)
      then show ?thesis using step [of "n div 2 ^ k"] by (simp add: div_mult2_eq [symmetric] mult.commute)
    qed
    have "excess_bits (n div 2 ^ (11 - k)) = k" if "k \<le> 11" for k
      using that
    proof (induction k)
      case (Suc k)
      then have "11 - k = Suc (10 - k)" by simp
      then show ?case using go [of "10 - k"] Suc by simp
    qed (use stop in simp)
    from this [of 11] show ?thesis by simp
  qed
  obtain m where m: "n = m + (2 ^ 53 - 1) * 2 ^ 11" "1024 \<le> m" "m < 2 ^ 11"
    using assms that [of "n - (2 ^ 53 - 1) * 2 ^ 11"] by simp
  have q: "n div 2 ^ 11 = 2 ^ 53 - 1" and r: "n mod 2 ^ 11 \<ge> 1024"
    using m(2,3) unfolding m(1) by (simp_all only: div_mult_self1 mod_mult_self1 div_less mod_less)
  have "rounded n (2 ^ 11) = 2 ^ 53"
    using r unfolding rounded_def q Let_def by simp
  then show ?thesis by (simp add: double_of_def e)
qed

lemma number_undefined: "n = 2 ^ 64 \<Longrightarrow> json_write_number (of_nat n) buf = Inl Bad_conversion"
  by (simp add: json_write_number_def)

text \<open>
  C35: A value is converted to \<open>double\<close> and back to \<open>uint64_t\<close>. A transaction with one of the 1024
  largest values rounds to \<open>2 ^ 64\<close>, which no \<open>uint64_t\<close> holds: printing it (any peer can send one,
  and any client can ask for it) is undefined.
\<close>

theorem json_large_value_undefined:
  assumes S: "sodium_ok S kp" and "txn_sized txn" and "length (thash txn) = 32"
    and "2 ^ 64 - 1024 \<le> unat (tvalue txn)"
    and "dbuf_ok buf" and "length (dbuf_bytes buf) < 2 ^ 30"
  shows "transaction_write_json S txn buf = Inl Bad_conversion"
proof -
  obtain sender where a: "binary_to_hex (tsender txn) 32 = Inr sender" "is_cstring sender (hex_string (tsender txn))"
    using binary_to_hex_result [of "tsender txn" 32] assms by (auto simp: txn_sized_def)
  obtain recipient where b: "binary_to_hex (trecipient txn) 32 = Inr recipient" "is_cstring recipient (hex_string (trecipient txn))"
    using binary_to_hex_result [of "trecipient txn" 32] assms by (auto simp: txn_sized_def)
  obtain hash where c: "binary_to_hex (thash txn) 32 = Inr hash" "is_cstring hash (hex_string (thash txn))"
    using binary_to_hex_result [of "thash txn" 32] assms by auto
  obtain sig where d: "binary_to_hex (tsignature txn) 64 = Inr sig" "is_cstring sig (hex_string (tsignature txn))"
    using binary_to_hex_result [of "tsignature txn" 64] assms by (auto simp: txn_sized_def)
  let ?ws = "[json_write_object_start, json_write_key (literal ''hash''), json_write_string hash,
        json_write_key (literal ''sender''), json_write_string sender,
        json_write_key (literal ''recipient''), json_write_string recipient, json_write_key (literal ''value'')]"
  let ?bs = "[[123], quoted (bytes_of ''hash'') @ [58], ended (render (JStr (hex_string (thash txn)))),
        quoted (bytes_of ''sender'') @ [58], ended (render (JStr (hex_string (tsender txn)))),
        quoted (bytes_of ''recipient'') @ [58], ended (render (JStr (hex_string (trecipient txn)))),
        quoted (bytes_of ''value'') @ [58]]"
  have start: "writes json_write_object_start [123]"
    using dbuf.appends_putc [of 123] by (simp add: json_write_object_start_def [abs_def])
  have "writes (in_order ?ws) (concat ?bs)"
    by (rule writes_in_order, simp only: list_all2_Cons list_all2_Nil simp_thms,
        intro conjI start writes_literal_key writes_json_string literal_keys a(2) b(2) c(2))
  moreover have "length (dbuf_bytes buf) + length (concat ?bs) < 2 ^ 31"
    using assms(2,3,6) by (simp add: quoted_def ended_def bytes_of_def txn_sized_def)
  ultimately obtain b1 where b1: "in_order ?ws buf = Inr b1"
    using dbuf.appends_run [OF _ assms(5)] by blast
  have "unat (tvalue txn) < 2 ^ 64" using unsigned_less [of "tvalue txn", where 'a = nat] by simp
  then have "json_write_number (of_nat (double_of (unat (tvalue txn)))) b1 = Inl Bad_conversion"
    using assms(4) by (intro number_undefined double_of_large)
  then show ?thesis
    using a(1) b(1) c(1) d(1) b1
    by (auto simp: transaction_write_json_def hex_functions sodium_sizes [OF S] bindR_eq_Inr)
qed

definition large_txn :: transaction_t where
  "large_txn = \<lparr>tsender = replicate 32 1, trecipient = replicate 32 2, tvalue = - 1, tnonce = 0,
     tsignature = replicate 64 0, thash = replicate 32 3\<rparr>"

theorem json_large_value_undefined_witness:
  "transaction_write_json toy large_txn (dynamic_buffer_create 32) = Inl Bad_conversion"
proof -
  have "unat (- 1 :: u64) = 2 ^ 64 - 1" by (simp add: unsigned_minus_1_eq_mask mask_eq_exp_minus_1)
  then show ?thesis
    by (intro json_large_value_undefined [OF toy_ok] dbuf_ok_create)
      (simp_all add: large_txn_def txn_sized_def)
qed

end
