(* ===== verification/Http.thy ===== *)
theory Http
  imports Buffer CList
begin

text \<open>
  The HTTP server of \<open>src/util/http.c\<close>: patterns of URLs and their handlers, matching a URL and
  taking out its parameters, reading requests from a client's socket, and the text of a response.

  C strings that the code only reads (patterns, URLs, parameters) are lists of bytes without the
  terminating 0. A handler is named by a value of type \<open>'h\<close> and run by a function that is an
  argument. libuv is outside the model: what is handed to it is recorded (\<open>http_out\<close>). The block
  libuv fills has been allocated with \<open>malloc\<close>, so behind the bytes read it holds whatever was in
  memory; it is an argument.

  \<open>fills\<close> is the specification of a match; \<open>response_text\<close> that of an answer.
\<close>

record 'h http_t =
  http_patterns :: "byte list list_t"
  http_handlers :: "'h list_t"

record request_t =
  req_url :: "byte list"
  req_params :: "byte list list_t"

record response_t =
  res_buf :: dynamic_buffer_t
  res_code :: int

record client_context_t =
  cl_buf :: dynamic_buffer_t

datatype http_out = Http_write "byte list" | Http_close

type_synonym 'h http_caller = "'h \<Rightarrow> request_t \<Rightarrow> response_t \<Rightarrow> response_t res"

section \<open>Patterns\<close>

function resolve_pattern ::
  "byte list list_t \<Rightarrow> byte list \<Rightarrow> byte list \<Rightarrow> (bool \<times> byte list list_t) res" where
  "resolve_pattern params pattern url =
     (if pattern = [] \<and> url = [] then Inr (True, params)
      else if pattern = [] \<and> url = [47] then Inr (True, params)
      else if url = [] \<and> pattern = [47] then Inr (True, params)
      else if pattern = [] then Inr (False, params)
      else if url \<noteq> [] \<and> hd pattern = hd url then resolve_pattern params (tl pattern) (tl url)
      else if hd pattern = 58 then
        bindR (list_add params (takeWhile (\<lambda>c. c \<noteq> 47) url)) (\<lambda>params.
          resolve_pattern params (tl pattern) (dropWhile (\<lambda>c. c \<noteq> 47) url))
      else Inr (False, params))"
  by pat_completeness auto
termination
  by (relation "measure (\<lambda>(params, pattern, url). length pattern)") auto

declare resolve_pattern.simps [simp del]

definition request_create :: "byte list \<Rightarrow> byte list \<Rightarrow> request_t option res" where
  "request_create pattern url =
     bindR (resolve_pattern (list_create 2) pattern url) (\<lambda>(match, params).
       if match then Inr (Some \<lparr>req_url = url, req_params = params\<rparr>)
       else bindR (list_destroy params True) (\<lambda>_. Inr None))"

definition request_get_url :: "request_t \<Rightarrow> byte list" where
  "request_get_url req = req_url req"

definition request_get_param :: "request_t \<Rightarrow> nat \<Rightarrow> byte list res" where
  "request_get_param req i = list_get (req_params req) i"

definition request_destroy :: "request_t \<Rightarrow> byte list list res" where
  "request_destroy req = list_destroy (req_params req) True"

section \<open>Responses\<close>

definition response_create :: response_t where
  "response_create = \<lparr>res_buf = dynamic_buffer_create 32, res_code = 200\<rparr>"

definition response_set_code :: "response_t \<Rightarrow> int \<Rightarrow> response_t" where
  "response_set_code res code = res\<lparr>res_code := code\<rparr>"

definition response_get_code :: "response_t \<Rightarrow> int" where
  "response_get_code res = res_code res"

definition response_get_body :: "response_t \<Rightarrow> dynamic_buffer_t" where
  "response_get_body res = res_buf res"

definition http_reason_phrase :: "int \<Rightarrow> byte list" where
  "http_reason_phrase status_code = bytes_of
     (if status_code = 200 then ''OK''
      else if status_code = 201 then ''Created''
      else if status_code = 202 then ''Accepted''
      else if status_code = 204 then ''No Content''
      else if status_code = 301 then ''Moved Permanently''
      else if status_code = 302 then ''Moved Temporarily''
      else if status_code = 304 then ''Not Modified''
      else if status_code = 400 then ''Bad Request''
      else if status_code = 401 then ''Unauthorized''
      else if status_code = 403 then ''Forbidden''
      else if status_code = 404 then ''Not Found''
      else if status_code = 500 then ''Internal Server Error''
      else if status_code = 501 then ''Not Implemented''
      else if status_code = 502 then ''Bad Gateway''
      else if status_code = 503 then ''Service Unavailable''
      else ''Unknown'')"

definition CRLF :: "byte list" where
  "CRLF = [13, 10]"

definition write_status_line :: "int \<Rightarrow> dynamic_buffer_t \<Rightarrow> dynamic_buffer_t res" where
  "write_status_line status_code buf =
     (let reason = http_reason_phrase status_code;
          line = bytes_of ''HTTP/1.0 '' @ printf_d status_code @ [32] @ reason @ CRLF in
      bindR (assertR (length reason < 64)) (\<lambda>_. dynamic_buffer_write line (length line) buf))"

definition write_header :: "byte list \<Rightarrow> byte list \<Rightarrow> dynamic_buffer_t \<Rightarrow> dynamic_buffer_t res" where
  "write_header key val buf =
     (let line = key @ [58, 32] @ val @ CRLF in dynamic_buffer_write line (length line) buf)"

definition write_end :: "dynamic_buffer_t \<Rightarrow> dynamic_buffer_t res" where
  "write_end buf = dynamic_buffer_write CRLF (length CRLF) buf"

section \<open>Requests\<close>

text \<open>
  \<open>sscanf(data, "%7s %2047s ", method, url)\<close>, character by character on the bytes of the buffer.
  There is no 0 at their end: reading past them leaves the block. The result is \<open>None\<close> when fewer
  than two strings were found.
\<close>

fun skip_space :: "byte list \<Rightarrow> byte list res" where
  "skip_space [] = Inl Out_of_bounds"
| "skip_space (c # cs) = (if isspace c then skip_space cs else Inr (c # cs))"

fun scan_word :: "nat \<Rightarrow> byte list \<Rightarrow> (byte list \<times> byte list) res" where
  "scan_word 0 s = Inr ([], s)"
| "scan_word (Suc n) [] = Inl Out_of_bounds"
| "scan_word (Suc n) (c # cs) =
     (if isspace c \<or> c = 0 then Inr ([], c # cs)
      else bindR (scan_word n cs) (\<lambda>(w, r). Inr (c # w, r)))"

definition sscanf_request :: "byte list \<Rightarrow> (byte list \<times> byte list) option res" where
  "sscanf_request s =
     bindR (skip_space s) (\<lambda>s.
     bindR (scan_word 7 s) (\<lambda>(verb, s).
     if verb = [] then Inr None else
     bindR (skip_space s) (\<lambda>s.
     bindR (scan_word 2047 s) (\<lambda>(url, s).
     if url = [] then Inr None else
     bindR (skip_space s) (\<lambda>_. Inr (Some (verb, url)))))))"

text \<open>The response of a handler, written out. The content length is printed with \<open>%d\<close>.\<close>

definition buffer_contents :: "dynamic_buffer_t \<Rightarrow> byte list res" where
  "buffer_contents b = arr_load_n (d_data b) 0 (unat (d_length b))"

definition write_response :: "response_t \<Rightarrow> byte list res" where
  "write_response res =
     bindR (write_status_line (response_get_code res) (dynamic_buffer_create 32)) (\<lambda>message.
     bindR (write_header (bytes_of ''Content-Type'') (bytes_of ''application/json'') message) (\<lambda>message.
     bindR (write_header (bytes_of ''Content-Length'') (printf_d (sint (d_length (response_get_body res)))) message) (\<lambda>message.
     bindR (write_header (bytes_of ''Access-Control-Allow-Origin'') (bytes_of ''*'') message) (\<lambda>message.
     bindR (write_end message) (\<lambda>message.
     bindR (buffer_contents (response_get_body res)) (\<lambda>body.
     bindR (dynamic_buffer_write body (length body) message) buffer_contents))))))"

definition write_not_found :: "byte list res" where
  "write_not_found =
     bindR (write_status_line 404 (dynamic_buffer_create 32)) (\<lambda>message.
     bindR (write_header (bytes_of ''Content-Length'') (bytes_of ''0'') message) (\<lambda>message.
     bindR (write_header (bytes_of ''Access-Control-Allow-Origin'') (bytes_of ''*'') message) (\<lambda>message.
     bindR (write_end message) buffer_contents)))"

fun try_patterns :: "'h http_caller \<Rightarrow> 'h http_t \<Rightarrow> byte list \<Rightarrow> nat list \<Rightarrow> byte list res" where
  "try_patterns call http url [] = write_not_found"
| "try_patterns call http url (i # is) =
     bindR (list_get (http_patterns http) i) (\<lambda>pattern.
     bindR (list_get (http_handlers http) i) (\<lambda>handler.
     bindR (request_create pattern url) (\<lambda>req.
     case req of
       None \<Rightarrow> try_patterns call http url is
     | Some req \<Rightarrow>
         bindR (call handler req response_create) (\<lambda>res.
         bindR (write_response res) (\<lambda>message.
         bindR (request_destroy req) (\<lambda>_. Inr message))))))"

definition on_request :: "'h http_caller \<Rightarrow> 'h http_t \<Rightarrow> byte list \<Rightarrow> byte list option res" where
  "on_request call http data =
     bindR (sscanf_request data) (\<lambda>r.
       case r of
         None \<Rightarrow> Inr None
       | Some (verb, url) \<Rightarrow>
           bindR (try_patterns call http url [0..<list_size (http_patterns http)]) (\<lambda>message. Inr (Some message)))"

section \<open>Sockets\<close>

function find_end_from :: "dynamic_buffer_t \<Rightarrow> nat \<Rightarrow> nat res" where
  "find_end_from buf i =
     (if i < unat (d_length buf - 3) then
        bindR (arr_load_n (d_data buf) i 4) (\<lambda>bs.
          if memcmp bs (CRLF @ CRLF) 4 = 0 then Inr (i + 4) else find_end_from buf (Suc i))
      else Inr 0)"
  by pat_completeness auto
termination
  by (relation "measure (\<lambda>(buf, i). unat (d_length buf - 3) - i)") auto

declare find_end_from.simps [simp del]

definition find_header_end :: "dynamic_buffer_t \<Rightarrow> nat res" where
  "find_header_end buf = (if d_length buf < 4 then Inr 0 else find_end_from buf 0)"

text \<open>
  \<open>block\<close> is the whole block of \<open>buf->len\<close> bytes: the first \<open>nread\<close> are from the socket, but all
  of them are appended to the buffer of the client.
\<close>

definition http_on_read ::
  "'h http_caller \<Rightarrow> 'h http_t \<Rightarrow> int \<Rightarrow> byte list \<Rightarrow> client_context_t \<Rightarrow> (http_out list \<times> client_context_t) res" where
  "http_on_read call http nread block ctx =
     (if nread < 0 then Inr ([Http_close], ctx) else
      bindR (dynamic_buffer_write block (length block) (cl_buf ctx)) (\<lambda>buf.
      bindR (find_header_end buf) (\<lambda>end.
      if end = 0 then Inr ([], ctx\<lparr>cl_buf := buf\<rparr>) else
      bindR (buffer_contents buf) (\<lambda>data.
      bindR (on_request call http data) (\<lambda>message.
      bindR (arr_memmove (d_data buf) 0 end (unat (d_length buf) - end)) (\<lambda>d.
        Inr (case message of None \<Rightarrow> [] | Some m \<Rightarrow> [Http_write m],
             ctx\<lparr>cl_buf := buf\<lparr>d_data := d, d_length := of_nat (unat (d_length buf) - end)\<rparr>\<rparr>)))))))"

text \<open>The context of a new client, and whether reading starts (\<open>uv_accept\<close> returned 0).\<close>

definition http_on_connection :: "int \<Rightarrow> int \<Rightarrow> (client_context_t \<times> http_out list) option" where
  "http_on_connection status accepted =
     (if status < 0 then None
      else Some (\<lparr>cl_buf = dynamic_buffer_create 32\<rparr>, if accepted = 0 then [] else [Http_close]))"

definition http_create :: "'h http_t" where
  "http_create = \<lparr>http_patterns = list_create 4, http_handlers = list_create 4\<rparr>"

definition http_destroy :: "'h http_t \<Rightarrow> (byte list list \<times> 'h list) res" where
  "http_destroy http =
     bindR (list_destroy (http_patterns http) False) (\<lambda>ps.
     bindR (list_destroy (http_handlers http) False) (\<lambda>hs. Inr (ps, hs)))"

definition http_register :: "'h http_t \<Rightarrow> byte list \<Rightarrow> 'h \<Rightarrow> 'h http_t res" where
  "http_register http pattern handler =
     bindR (list_add (http_patterns http) pattern) (\<lambda>ps.
     bindR (list_add (http_handlers http) handler) (\<lambda>hs.
       Inr (http\<lparr>http_patterns := ps, http_handlers := hs\<rparr>)))"

section \<open>What a pattern means\<close>

text \<open>
  \<open>fills p u ps\<close>: \<open>u\<close> is \<open>p\<close> with the strings \<open>ps\<close>, none with a slash, in place of its colons. A slash
  at the end of either is optional.
\<close>

inductive fills :: "byte list \<Rightarrow> byte list \<Rightarrow> byte list list \<Rightarrow> bool" where
  fills_end: "fills [] [] []"
| fills_char: "c \<noteq> 58 \<Longrightarrow> fills p u ps \<Longrightarrow> fills (c # p) (c # u) ps"
| fills_param: "47 \<notin> set s \<Longrightarrow> fills p u ps \<Longrightarrow> fills (58 # p) (s @ u) (s # ps)"

inductive_simps fills_Nil [simp]: "fills [] u ps"
inductive_simps fills_Cons: "fills (c # p) u ps"

definition url_matches :: "byte list \<Rightarrow> byte list \<Rightarrow> byte list list \<Rightarrow> bool" where
  "url_matches p u ps \<longleftrightarrow>
     fills p u ps \<or> (\<exists>u'. u = u' @ [47] \<and> fills p u' ps) \<or> (\<exists>p'. p = p' @ [47] \<and> fills p' u ps)"

text \<open>A colon stands for a whole segment of the path.\<close>

fun wf_pattern :: "byte list \<Rightarrow> bool" where
  "wf_pattern [] = True"
| "wf_pattern (c # p) \<longleftrightarrow> (c = 58 \<longrightarrow> p = [] \<or> hd p = 47) \<and> wf_pattern p"

lemma fills_char_iff: "c \<noteq> 58 \<Longrightarrow> fills (c # p) u ps \<longleftrightarrow> (\<exists>u'. u = c # u' \<and> fills p u' ps)"
  by (auto simp: fills_Cons)

lemma fills_param_iff: "fills (58 # p) u ps \<longleftrightarrow> (\<exists>s u' ps'. u = s @ u' \<and> ps = s # ps' \<and> 47 \<notin> set s \<and> fills p u' ps')"
  by (auto simp: fills_Cons)

lemma segment_split:
  assumes "47 \<notin> set s" "r = [] \<or> hd r = 47"
  shows "takeWhile (\<lambda>c. c \<noteq> 47) (s @ r) = s" "dropWhile (\<lambda>c. c \<noteq> 47) (s @ r) = r"
proof -
  have "\<forall>c \<in> set s. c \<noteq> 47" using assms(1) by auto
  then show "takeWhile (\<lambda>c. c \<noteq> 47) (s @ r) = s" "dropWhile (\<lambda>c. c \<noteq> 47) (s @ r) = r"
    using assms(2) by (cases r, simp_all add: takeWhile_append2 dropWhile_append2)+
qed

lemma fills_start: "fills p u ps \<Longrightarrow> p = [] \<or> hd p = 47 \<Longrightarrow> u = [] \<or> hd u = 47"
  by (auto elim: fills.cases)

lemma url_matches_char:
  assumes "c \<noteq> 58"
  shows "url_matches (c # p) (c # u) ps \<longleftrightarrow> url_matches p u ps"
  using assms by (auto simp: url_matches_def fills_char_iff Cons_eq_append_conv)

lemma url_matches_param:
  assumes "p = [] \<or> hd p = 47"
  shows "url_matches (58 # p) u ps \<longleftrightarrow>
    (\<exists>ps'. ps = takeWhile (\<lambda>c. c \<noteq> 47) u # ps' \<and> url_matches p (dropWhile (\<lambda>c. c \<noteq> 47) u) ps')"
  (is "?l \<longleftrightarrow> ?r")
proof
  assume ?l
  then consider (exact) "fills (58 # p) u ps" | (url) u' where "u = u' @ [47]" "fills (58 # p) u' ps"
    | (pattern) p' where "58 # p = p' @ [47]" "fills p' u ps"
    by (auto simp: url_matches_def)
  then show ?r
  proof cases
    case exact
    then obtain s r ps' where f: "u = s @ r" "ps = s # ps'" "47 \<notin> set s" "fills p r ps'" by (auto simp: fills_param_iff)
    then show ?thesis using segment_split [OF f(3) fills_start [OF f(4) assms]] by (auto simp: url_matches_def)
  next
    case url
    then obtain s r ps' where f: "u = s @ r @ [47]" "ps = s # ps'" "47 \<notin> set s" "fills p r ps'" by (auto simp: fills_param_iff)
    have "r @ [47] = [] \<or> hd (r @ [47]) = 47" using fills_start [OF f(4) assms] by (cases r) auto
    then show ?thesis using segment_split [OF f(3)] f by (auto simp: url_matches_def)
  next
    case pattern
    then obtain q where q: "p' = 58 # q" "p = q @ [47]" by (cases p') auto
    then have q47: "q = [] \<or> hd q = 47" using assms by (cases q) auto
    obtain s r ps' where f: "u = s @ r" "ps = s # ps'" "47 \<notin> set s" "fills q r ps'"
      using pattern q(1) by (auto simp: fills_param_iff)
    then show ?thesis using segment_split [OF f(3) fills_start [OF f(4) q47]] q(2) by (auto simp: url_matches_def)
  qed
next
  let ?s = "takeWhile (\<lambda>c. c \<noteq> 47) u" and ?t = "dropWhile (\<lambda>c. c \<noteq> 47) u"
  assume ?r
  then obtain ps' where ps: "ps = ?s # ps'" "url_matches p ?t ps'" by blast
  have s: "47 \<notin> set ?s" by (auto dest: set_takeWhileD)
  have u: "u = ?s @ ?t" by simp
  from ps(2) consider (exact) "fills p ?t ps'" | (url) u' where "?t = u' @ [47]" "fills p u' ps'"
    | (pattern) p' where "p = p' @ [47]" "fills p' ?t ps'"
    by (auto simp: url_matches_def)
  then show ?l
  proof cases
    case exact
    have "fills (58 # p) (?s @ ?t) ps" unfolding ps(1) by (rule fills_param [OF s exact])
    then show ?thesis by (simp add: url_matches_def)
  next
    case url
    have "fills (58 # p) (?s @ u') ps" unfolding ps(1) by (rule fills_param [OF s url(2)])
    moreover have "u = (?s @ u') @ [47]" using u url(1) by simp
    ultimately show ?thesis unfolding url_matches_def by blast
  next
    case pattern
    have "fills (58 # p') (?s @ ?t) ps" unfolding ps(1) by (rule fills_param [OF s pattern(2)])
    moreover have "58 # p = (58 # p') @ [47]" using pattern(1) by simp
    ultimately show ?thesis unfolding url_matches_def using u by metis
  qed
qed

lemma url_matches_fails:
  assumes "c \<noteq> 58" "u = [] \<or> hd u \<noteq> c" "\<not> (u = [] \<and> c = 47 \<and> p = [])"
  shows "\<not> url_matches (c # p) u ps"
  using assms by (auto simp: url_matches_def fills_char_iff Cons_eq_append_conv)

lemma url_matches_Nil: "url_matches [] u ps \<longleftrightarrow> (u = [] \<or> u = [47]) \<and> ps = []"
  by (auto simp: url_matches_def)

lemma url_matches_slash: "url_matches [47] [] ps \<longleftrightarrow> ps = []"
  by (auto simp: url_matches_def fills_char_iff)

lemma resolve_pattern_result:
  assumes "wf_pattern pattern" "58 \<notin> set url" "list_ok params"
  shows "\<exists>b params'. resolve_pattern params pattern url = Inr (b, params') \<and> list_ok params' \<and>
    (\<exists>qs. list_elems params' = list_elems params @ qs) \<and>
    (\<forall>ps. url_matches pattern url ps \<longleftrightarrow> b \<and> list_elems params' = list_elems params @ ps)"
  using assms
proof (induction params pattern url rule: resolve_pattern.induct)
  case (1 params pattern url)
  consider (empty) "pattern = []" | (slash) "url = []" "pattern = [47]"
    | (char) c p u where "pattern = c # p" "url = c # u"
    | (param) p where "pattern = 58 # p" "url = [] \<or> hd url \<noteq> 58"
    | (differ) c p where "pattern = c # p" "c \<noteq> 58" "url = [] \<or> hd url \<noteq> c" "\<not> (url = [] \<and> c = 47 \<and> p = [])"
    by (cases pattern; cases url) auto
  then show ?case
  proof cases
    case empty
    then show ?thesis
      using 1(5) by (subst resolve_pattern.simps) (auto simp: url_matches_Nil)
  next
    case slash
    then show ?thesis
      using 1(5) by (subst resolve_pattern.simps) (auto simp: url_matches_slash)
  next
    case char
    then have "c \<noteq> 58" using 1(4) by auto
    moreover have "\<exists>b params'. resolve_pattern params (tl pattern) (tl url) = Inr (b, params') \<and> list_ok params' \<and>
        (\<exists>qs. list_elems params' = list_elems params @ qs) \<and>
        (\<forall>ps. url_matches (tl pattern) (tl url) ps \<longleftrightarrow> b \<and> list_elems params' = list_elems params @ ps)"
      using char 1(3,4,5) by (intro 1(1)) auto
    ultimately show ?thesis
      using char by (subst resolve_pattern.simps) (auto simp: url_matches_char)
  next
    case param
    let ?s = "takeWhile (\<lambda>c. c \<noteq> 47) url" and ?t = "dropWhile (\<lambda>c. c \<noteq> 47) url"
    obtain l where l: "list_add params ?s = Inr l" "list_ok l" "list_elems l = list_elems params @ [?s]"
      using list_add_elems [OF 1(5)] by blast
    have "58 \<notin> set ?t" using 1(4) set_dropWhileD by metis
    then have "\<exists>b params'. resolve_pattern l (tl pattern) ?t = Inr (b, params') \<and> list_ok params' \<and>
        (\<exists>qs. list_elems params' = list_elems l @ qs) \<and>
        (\<forall>ps. url_matches (tl pattern) ?t ps \<longleftrightarrow> b \<and> list_elems params' = list_elems l @ ps)"
      using param 1(3,4) l by (intro 1(2)) (auto simp: hd_conv_nth)
    moreover have "p = [] \<or> hd p = 47" using param 1(3) by simp
    moreover have "resolve_pattern params pattern url = resolve_pattern l (tl pattern) ?t"
      using param l(1) by (subst resolve_pattern.simps) auto
    ultimately show ?thesis
      using param l(3) by (auto simp: url_matches_param)
  next
    case differ
    then have "resolve_pattern params pattern url = Inr (False, params)"
      by (subst resolve_pattern.simps) auto
    then show ?thesis using differ url_matches_fails [OF differ(2-4)] 1(5) by auto
  qed
qed

lemma request_create_result:
  assumes "wf_pattern pattern" "58 \<notin> set url"
  shows "\<exists>r. request_create pattern url = Inr r \<and> (r = None \<longleftrightarrow> (\<forall>ps. \<not> url_matches pattern url ps)) \<and>
    (\<forall>q. r = Some q \<longrightarrow> req_url q = url \<and> list_ok (req_params q) \<and>
       (\<forall>ps. url_matches pattern url ps \<longleftrightarrow> ps = list_elems (req_params q)))"
proof -
  obtain b l where l: "resolve_pattern (list_create 2) pattern url = Inr (b, l)" "list_ok l"
      "\<forall>ps. url_matches pattern url ps \<longleftrightarrow> b \<and> list_elems l = ps"
    using resolve_pattern_result [OF assms list_ok_create [of 2]] by auto
  then show ?thesis
    using list_destroy_rd [OF list_ok_rd [OF l(2)]] by (cases b) (auto simp: request_create_def)
qed

section \<open>The text of a response\<close>

definition header_line :: "byte list \<Rightarrow> byte list \<Rightarrow> byte list" where
  "header_line key val = key @ [58, 32] @ val @ CRLF"

definition status_line :: "int \<Rightarrow> byte list" where
  "status_line code = bytes_of ''HTTP/1.0 '' @ printf_d code @ [32] @ http_reason_phrase code @ CRLF"

definition response_text :: "int \<Rightarrow> byte list \<Rightarrow> byte list" where
  "response_text code body =
     status_line code @ header_line (bytes_of ''Content-Type'') (bytes_of ''application/json'') @
     header_line (bytes_of ''Content-Length'') (decimal (length body)) @
     header_line (bytes_of ''Access-Control-Allow-Origin'') (bytes_of ''*'') @ CRLF @ body"

definition not_found_text :: "byte list" where
  "not_found_text =
     status_line 404 @ header_line (bytes_of ''Content-Length'') (bytes_of ''0'') @
     header_line (bytes_of ''Access-Control-Allow-Origin'') (bytes_of ''*'') @ CRLF"

lemma length_reason: "length (http_reason_phrase code) < 64"
  by (simp add: http_reason_phrase_def bytes_of_def)

lemma length_printf_d: "0 \<le> n \<Longrightarrow> n < 1000 \<Longrightarrow> length (printf_d n) \<le> 3"
  by (simp add: printf_d_def length_decimal)

lemma length_status_line: "0 \<le> n \<Longrightarrow> n < 1000 \<Longrightarrow> length (status_line n) < 100"
  using length_reason [of n] length_printf_d [of n] by (simp add: status_line_def bytes_of_def CRLF_def)

lemma writes_status_line: "writes (write_status_line code) (status_line code)"
  using dbuf.appends_write [OF refl, of "status_line code"] length_reason [of code]
  by (simp add: write_status_line_def [abs_def] status_line_def Let_def)

lemma writes_header_line: "writes (write_header key val) (header_line key val)"
  using dbuf.appends_write [OF refl, of "header_line key val"]
  by (simp add: write_header_def [abs_def] header_line_def Let_def)

lemma writes_crlf: "writes write_end CRLF"
  using dbuf.appends_write [OF refl, of CRLF] by (simp add: write_end_def [abs_def])

lemma buffer_contents_bytes: "dbuf_ok b \<Longrightarrow> buffer_contents b = Inr (dbuf_bytes b)"
  using mem_at_load_n [OF dbuf_mem_at [of b]] length_dbuf_bytes [of b] by (simp add: buffer_contents_def)

lemma contents_of_writer:
  assumes "writes w bs" "length bs < 2 ^ 31"
  shows "bindR (w (dynamic_buffer_create 32)) buffer_contents = Inr bs"
proof -
  obtain b where "w (dynamic_buffer_create 32) = Inr b" "dbuf_ok b" "dbuf_bytes b = bs"
    using dbuf.appends_run [OF assms(1) dbuf_ok_create [of 32]] assms(2) by auto
  then show ?thesis by (simp add: buffer_contents_bytes)
qed

lemma content_length:
  assumes "dbuf_ok b" "length (dbuf_bytes b) < 2 ^ 31"
  shows "printf_d (sint (d_length b)) = decimal (length (dbuf_bytes b))"
proof -
  have u: "unat (d_length b) = length (dbuf_bytes b)" using length_dbuf_bytes [OF assms(1)] by simp
  have "d_length b = of_int (int (unat (d_length b)))" by simp
  then have "d_length b = of_int (int (length (dbuf_bytes b)))" unfolding u .
  then have "sint (d_length b) = int (length (dbuf_bytes b))" using assms(2) by (simp only:, intro sint_of_int32) simp_all
  then show ?thesis by (simp add: printf_d_def)
qed

lemma length_content_field: "n < 2 ^ 31 \<Longrightarrow> length (decimal n) \<le> 10"
  by (rule length_decimal) simp_all

lemma write_response_result:
  assumes "dbuf_ok (res_buf res)" "length (dbuf_bytes (res_buf res)) < 2 ^ 30" "0 \<le> res_code res" "res_code res < 1000"
  shows "write_response res = Inr (response_text (res_code res) (dbuf_bytes (res_buf res)))"
proof -
  let ?body = "dbuf_bytes (res_buf res)"
  have n: "length ?body < 2 ^ 31" using assms(2) by simp
  have "writes (\<lambda>message. bindR (write_status_line (res_code res) message) (\<lambda>message.
     bindR (write_header (bytes_of ''Content-Type'') (bytes_of ''application/json'') message) (\<lambda>message.
     bindR (write_header (bytes_of ''Content-Length'') (decimal (length ?body)) message) (\<lambda>message.
     bindR (write_header (bytes_of ''Access-Control-Allow-Origin'') (bytes_of ''*'') message) (\<lambda>message.
     bindR (write_end message) (dynamic_buffer_write ?body (length ?body)))))))
     (response_text (res_code res) ?body)"
    unfolding response_text_def
    by (intro dbuf.appends_bind writes_status_line writes_header_line writes_crlf dbuf.appends_write refl)
  moreover have "length (response_text (res_code res) ?body) < 2 ^ 31"
    using length_status_line [OF assms(3,4)] length_content_field [OF n] assms(2)
    by (simp add: response_text_def header_line_def bytes_of_def CRLF_def)
  ultimately have "bindR ((\<lambda>message. bindR (write_status_line (res_code res) message) (\<lambda>message.
     bindR (write_header (bytes_of ''Content-Type'') (bytes_of ''application/json'') message) (\<lambda>message.
     bindR (write_header (bytes_of ''Content-Length'') (decimal (length ?body)) message) (\<lambda>message.
     bindR (write_header (bytes_of ''Access-Control-Allow-Origin'') (bytes_of ''*'') message) (\<lambda>message.
     bindR (write_end message) (dynamic_buffer_write ?body (length ?body))))))) (dynamic_buffer_create 32)) buffer_contents =
     Inr (response_text (res_code res) ?body)"
    by (rule contents_of_writer)
  then show ?thesis
    by (simp add: write_response_def response_get_code_def response_get_body_def content_length [OF assms(1) n]
        buffer_contents_bytes [OF assms(1)] bindR_assoc)
qed

lemma write_not_found_result: "write_not_found = Inr not_found_text"
proof -
  have "writes (\<lambda>message. bindR (write_status_line 404 message) (\<lambda>message.
     bindR (write_header (bytes_of ''Content-Length'') (bytes_of ''0'') message) (\<lambda>message.
     bindR (write_header (bytes_of ''Access-Control-Allow-Origin'') (bytes_of ''*'') message) write_end))) not_found_text"
    unfolding not_found_text_def
    by (intro dbuf.appends_bind writes_status_line writes_header_line writes_crlf)
  moreover have "length not_found_text < 2 ^ 31"
    using length_status_line [of 404] by (simp add: not_found_text_def header_line_def bytes_of_def CRLF_def)
  ultimately show ?thesis
    using contents_of_writer by (fastforce simp: write_not_found_def bindR_assoc)
qed

section \<open>Reading a request\<close>

text \<open>The position behind the first empty line.\<close>

fun header_end :: "byte list \<Rightarrow> nat option" where
  "header_end [] = None"
| "header_end (c # cs) = (if take 4 (c # cs) = CRLF @ CRLF then Some 4 else map_option Suc (header_end cs))"

lemma header_end_bound: "header_end s = Some e \<Longrightarrow> 4 \<le> e \<and> e \<le> length s"
proof (induction s arbitrary: e)
  case (Cons c cs)
  have "4 \<le> length (c # cs)" if "take 4 (c # cs) = CRLF @ CRLF"
    using arg_cong [OF that, of length] by (simp add: CRLF_def min_def split: if_splits)
  then show ?case using Cons by (auto split: if_splits)
qed simp

lemma find_end_from_result:
  assumes ok: "dbuf_ok buf" and n: "4 \<le> length (dbuf_bytes buf)" and i: "i \<le> length (dbuf_bytes buf) - 3"
  shows "find_end_from buf i =
    Inr (case header_end (drop i (dbuf_bytes buf)) of None \<Rightarrow> 0 | Some e \<Rightarrow> i + e)"
  using i
proof (induction "length (dbuf_bytes buf) - 3 - i" arbitrary: i)
  case 0
  have u: "unat (d_length buf) = length (dbuf_bytes buf)" using length_dbuf_bytes [OF ok] by simp
  then have "unat (d_length buf - 3) = length (dbuf_bytes buf) - 3" using n by (subst unat_sub) (simp_all add: word_le_nat_alt)
  moreover have "header_end (drop i (dbuf_bytes buf)) = None"
    using header_end_bound [of "drop i (dbuf_bytes buf)"] 0 n by (cases "header_end (drop i (dbuf_bytes buf))") auto
  moreover have "\<not> i < length (dbuf_bytes buf) - 3" using 0(1) by linarith
  ultimately show ?case by (subst find_end_from.simps) simp
next
  case (Suc k)
  let ?c = "dbuf_bytes buf"
  have u: "unat (d_length buf) = length ?c" using length_dbuf_bytes [OF ok] by simp
  then have l: "unat (d_length buf - 3) = length ?c - 3" using n by (subst unat_sub) (simp_all add: word_le_nat_alt)
  have lt: "i < length ?c - 3" using Suc by simp
  have "mem_at (d_data buf) i (take 4 (drop i ?c))"
    using lt by (intro mem_at_slice [OF dbuf_mem_at [OF ok]]) simp
  from mem_at_load_n [OF this] have load: "arr_load_n (d_data buf) i 4 = Inr (take 4 (drop i ?c))"
    using lt by (simp add: min_absorb1)
  have eq: "memcmp (take 4 (drop i ?c)) (CRLF @ CRLF) 4 = 0 \<longleftrightarrow> take 4 (drop i ?c) = CRLF @ CRLF"
    using lt by (subst memcmp_eq_0) (simp_all add: CRLF_def)
  have d: "drop i ?c = ?c ! i # drop (Suc i) ?c" using lt by (simp add: Cons_nth_drop_Suc)
  have he: "header_end (drop i ?c) =
      (if take 4 (drop i ?c) = CRLF @ CRLF then Some 4 else map_option Suc (header_end (drop (Suc i) ?c)))"
    using header_end.simps(2) [of "?c ! i" "drop (Suc i) ?c"] unfolding d [symmetric] .
  have rec: "find_end_from buf (Suc i) = Inr (case header_end (drop (Suc i) ?c) of None \<Rightarrow> 0 | Some e \<Rightarrow> Suc i + e)"
    using Suc lt by (intro Suc.hyps) simp_all
  have step: "find_end_from buf i = (if take 4 (drop i ?c) = CRLF @ CRLF then Inr (i + 4) else find_end_from buf (Suc i))"
    using l lt load eq by (subst find_end_from.simps) simp
  show ?case
    by (simp add: step rec he split: option.split)
qed

lemma find_header_end_result:
  assumes "dbuf_ok buf"
  shows "find_header_end buf = Inr (case header_end (dbuf_bytes buf) of None \<Rightarrow> 0 | Some e \<Rightarrow> e)"
proof (cases "length (dbuf_bytes buf) < 4")
  case True
  then have "d_length buf < 4" using length_dbuf_bytes [OF assms] by (simp add: word_less_nat_alt)
  moreover have "header_end (dbuf_bytes buf) = None"
    using True header_end_bound [of "dbuf_bytes buf"] by (cases "header_end (dbuf_bytes buf)") auto
  ultimately show ?thesis by (simp add: find_header_end_def)
next
  case False
  then have "\<not> d_length buf < 4" using length_dbuf_bytes [OF assms] by (simp add: word_less_nat_alt)
  then show ?thesis using False find_end_from_result [OF assms, of 0] by (simp add: find_header_end_def split: option.splits)
qed

text \<open>Dropping the front of a buffer.\<close>

lemma splice_front:
  assumes ok: "dbuf_ok buf" and e: "e \<le> length (dbuf_bytes buf)"
  shows "\<exists>d. arr_memmove (d_data buf) 0 e (unat (d_length buf) - e) = Inr d \<and>
    dbuf_ok (buf\<lparr>d_data := d, d_length := of_nat (unat (d_length buf) - e)\<rparr>) \<and>
    dbuf_bytes (buf\<lparr>d_data := d, d_length := of_nat (unat (d_length buf) - e)\<rparr>) = drop e (dbuf_bytes buf)"
proof -
  let ?n = "unat (d_length buf)" and ?a = "d_data buf"
  let ?d = "take (?n - e) (drop e ?a) @ drop (?n - e) ?a"
  have u: "?n = length (dbuf_bytes buf)" using length_dbuf_bytes [OF ok] by simp
  have l: "?n \<le> length ?a" using ok by (auto simp: dbuf_ok_def)
  have "arr_memmove ?a 0 e (?n - e) = Inr ?d"
    using l e u by (simp add: arr_memmove_def)
  moreover have "unat (of_nat (?n - e) :: u32) = ?n - e"
    using unsigned_less [of "d_length buf", where 'a = nat] by (simp add: unat_of_nat)
  moreover have "length ?d = length ?a" using l e u by simp
  moreover have "take (?n - e) ?d = drop e (take ?n ?a)"
    using l e u by (simp add: drop_take)
  moreover have "?d ! i \<noteq> None" if "i < ?n - e" for i
    using that l ok by (auto simp: nth_append dbuf_ok_def)
  ultimately show ?thesis
    using ok by (intro exI [of _ ?d]) (auto simp: dbuf_ok_def dbuf_bytes_def drop_map)
qed

lemma http_on_read_result:
  assumes ok: "dbuf_ok (cl_buf ctx)" and "0 \<le> nread"
    and data: "data = dbuf_bytes (cl_buf ctx) @ block" "length data < 2 ^ 31"
  shows "header_end data = None \<Longrightarrow> \<exists>ctx'. http_on_read call http nread block ctx = Inr ([], ctx') \<and>
      dbuf_ok (cl_buf ctx') \<and> dbuf_bytes (cl_buf ctx') = data"
    and "header_end data = Some e \<Longrightarrow> \<exists>ctx'. dbuf_ok (cl_buf ctx') \<and> dbuf_bytes (cl_buf ctx') = drop e data \<and>
      http_on_read call http nread block ctx = bindR (on_request call http data)
        (\<lambda>message. Inr (case message of None \<Rightarrow> [] | Some m \<Rightarrow> [Http_write m], ctx'))"
proof -
  obtain buf where buf: "dynamic_buffer_write block (length block) (cl_buf ctx) = Inr buf" "dbuf_ok buf" "dbuf_bytes buf = data"
    using dynamic_buffer_write_bytes [OF ok, of block] data by auto
  note f = find_header_end_result [OF buf(2), unfolded buf(3)]
  show "\<exists>ctx'. http_on_read call http nread block ctx = Inr ([], ctx') \<and>
      dbuf_ok (cl_buf ctx') \<and> dbuf_bytes (cl_buf ctx') = data" if "header_end data = None"
    using that buf f assms(2) by (simp add: http_on_read_def)
  show "\<exists>ctx'. dbuf_ok (cl_buf ctx') \<and> dbuf_bytes (cl_buf ctx') = drop e data \<and>
      http_on_read call http nread block ctx = bindR (on_request call http data)
        (\<lambda>message. Inr (case message of None \<Rightarrow> [] | Some m \<Rightarrow> [Http_write m], ctx'))" if e: "header_end data = Some e"
  proof -
    obtain d where d: "arr_memmove (d_data buf) 0 e (unat (d_length buf) - e) = Inr d"
        "dbuf_ok (buf\<lparr>d_data := d, d_length := of_nat (unat (d_length buf) - e)\<rparr>)"
        "dbuf_bytes (buf\<lparr>d_data := d, d_length := of_nat (unat (d_length buf) - e)\<rparr>) = drop e data"
      using splice_front [OF buf(2), of e] header_end_bound [OF e] buf(3) by auto
    let ?ctx = "ctx\<lparr>cl_buf := buf\<lparr>d_data := d, d_length := of_nat (unat (d_length buf) - e)\<rparr>\<rparr>"
    have "http_on_read call http nread block ctx = bindR (on_request call http data)
        (\<lambda>message. Inr (case message of None \<Rightarrow> [] | Some m \<Rightarrow> [Http_write m], ?ctx))"
      using assms(2) buf f e header_end_bound [OF e] d(1) buffer_contents_bytes [OF buf(2)]
      by (simp add: http_on_read_def)
    then show ?thesis using d(2,3) by (intro exI [of _ ?ctx]) simp
  qed
qed

definition word_chars :: "nat \<Rightarrow> byte list \<Rightarrow> bool" where
  "word_chars n w \<longleftrightarrow> w \<noteq> [] \<and> length w \<le> n \<and> (\<forall>c \<in> set w. \<not> isspace c \<and> c \<noteq> 0)"

lemma scan_word_result:
  "length w \<le> n \<Longrightarrow> \<forall>c \<in> set w. \<not> isspace c \<and> c \<noteq> 0 \<Longrightarrow> isspace c \<Longrightarrow> scan_word n (w @ c # r) = Inr (w, c # r)"
proof (induction w arbitrary: n)
  case Nil
  then show ?case by (cases n) auto
next
  case (Cons x xs)
  then obtain k where "n = Suc k" by (cases n) auto
  then show ?case using Cons by simp
qed

lemma sscanf_request_result:
  assumes "word_chars 7 m" "word_chars 2047 u" "\<not> isspace c"
  shows "sscanf_request (m @ 32 # u @ 32 # c # v) = Inr (Some (m, u))"
proof -
  have sp: "isspace 32" by (simp add: isspace_def)
  have skip: "skip_space (w @ r) = Inr (w @ r)" if "word_chars n w" for n w r
    using that by (cases w) (auto simp: word_chars_def)
  have skip1: "skip_space (32 # r) = skip_space r" for r using sp by simp
  have "scan_word 7 (m @ 32 # u @ 32 # c # v) = Inr (m, 32 # u @ 32 # c # v)"
    "scan_word 2047 (u @ 32 # c # v) = Inr (u, 32 # c # v)"
    using assms sp by (auto intro!: scan_word_result simp: word_chars_def)
  then show ?thesis
    using assms by (simp add: sscanf_request_def skip [OF assms(1)] skip [OF assms(2)] skip1 word_chars_def del: skip_space.simps(2))
      (simp add: assms(3))
qed

text \<open>A table of patterns and handlers.\<close>

definition http_ok :: "'h http_t \<Rightarrow> bool" where
  "http_ok http \<longleftrightarrow> list_ok (http_patterns http) \<and> list_ok (http_handlers http) \<and>
     length (list_elems (http_handlers http)) = length (list_elems (http_patterns http)) \<and>
     (\<forall>p \<in> set (list_elems (http_patterns http)). wf_pattern p)"

lemma http_okD:
  assumes "http_ok http"
  shows "list_size (http_patterns http) = length (list_elems (http_patterns http))"
    "i < length (list_elems (http_patterns http)) \<Longrightarrow> list_get (http_patterns http) i = Inr (list_elems (http_patterns http) ! i)"
    "i < length (list_elems (http_patterns http)) \<Longrightarrow> list_get (http_handlers http) i = Inr (list_elems (http_handlers http) ! i)"
    "i < length (list_elems (http_patterns http)) \<Longrightarrow> wf_pattern (list_elems (http_patterns http) ! i)"
  using assms by (auto simp: http_ok_def list_size_elems list_get_elems)

lemma http_ok_create: "http_ok http_create"
  by (simp add: http_ok_def http_create_def list_ok_create)

lemma http_register_result:
  assumes "http_ok http" "wf_pattern pattern"
  shows "\<exists>http'. http_register http pattern handler = Inr http' \<and> http_ok http' \<and>
    list_elems (http_patterns http') = list_elems (http_patterns http) @ [pattern] \<and>
    list_elems (http_handlers http') = list_elems (http_handlers http) @ [handler]"
proof -
  obtain ps where ps: "list_add (http_patterns http) pattern = Inr ps" "list_ok ps"
      "list_elems ps = list_elems (http_patterns http) @ [pattern]"
    using list_add_elems [of "http_patterns http" pattern] assms(1) by (auto simp: http_ok_def)
  obtain hs where hs: "list_add (http_handlers http) handler = Inr hs" "list_ok hs"
      "list_elems hs = list_elems (http_handlers http) @ [handler]"
    using list_add_elems [of "http_handlers http" handler] assms(1) by (auto simp: http_ok_def)
  show ?thesis using ps hs assms by (auto simp: http_register_def http_ok_def)
qed

lemma try_patterns_skip:
  assumes http: "http_ok http" and "58 \<notin> set u" and i: "i < length (list_elems (http_patterns http))"
    and no: "\<forall>qs. \<not> url_matches (list_elems (http_patterns http) ! i) u qs"
  shows "try_patterns call http u (i # is) = try_patterns call http u is"
proof -
  note D = http_okD [OF http]
  obtain r where "request_create (list_elems (http_patterns http) ! i) u = Inr r" "r = None"
    using request_create_result [OF D(4) [OF i] assms(2)] no by auto
  then show ?thesis using D(2,3) [OF i] by simp
qed

lemma try_patterns_none:
  assumes "http_ok http" "58 \<notin> set u"
    and "\<forall>i \<in> set is. i < length (list_elems (http_patterns http)) \<and> (\<forall>qs. \<not> url_matches (list_elems (http_patterns http) ! i) u qs)"
  shows "try_patterns call http u is = Inr not_found_text"
  using assms(3) by (induction "is") (simp_all add: write_not_found_result try_patterns_skip [OF assms(1,2)] del: try_patterns.simps(2))

section \<open>The contract of the handlers\<close>

text \<open>
  What the server relies on: for the URLs and parameters it answers, a handler fills a new response
  with a body and sets a code.
\<close>

locale http_service =
  fixes call :: "'h http_caller"
    and answer :: "'h \<Rightarrow> byte list list \<Rightarrow> (int \<times> byte list) option"
  assumes call_law: "list_ok (req_params req) \<Longrightarrow> answer h (list_elems (req_params req)) = Some (code, body) \<Longrightarrow>
      \<exists>res. call h req response_create = Inr res \<and> dbuf_ok (res_buf res) \<and>
        dbuf_bytes (res_buf res) = body \<and> res_code res = code"
    and answer_law: "answer h ps = Some (code, body) \<Longrightarrow> 0 \<le> code \<and> code < 1000 \<and> length body < 2 ^ 30"
begin

lemma try_patterns_first:
  assumes http: "http_ok http" and u: "58 \<notin> set u" and i: "i < length (list_elems (http_patterns http))"
    and m: "url_matches (list_elems (http_patterns http) ! i) u ps"
    and a: "answer (list_elems (http_handlers http) ! i) ps = Some (code, body)"
  shows "try_patterns call http u (i # is) = Inr (response_text code body)"
proof -
  note D = http_okD [OF http]
  obtain req where r: "request_create (list_elems (http_patterns http) ! i) u = Inr (Some req)" "req_url req = u"
      "list_ok (req_params req)" "list_elems (req_params req) = ps"
    using request_create_result [OF D(4) [OF i] u] m by (metis (no_types, lifting) not_None_eq)
  obtain res where res: "call (list_elems (http_handlers http) ! i) req response_create = Inr res"
      "dbuf_ok (res_buf res)" "dbuf_bytes (res_buf res) = body" "res_code res = code"
    using call_law [of req "list_elems (http_handlers http) ! i" code body] r(3,4) a by auto
  have "write_response res = Inr (response_text code body)"
    using write_response_result [OF res(2)] res(3,4) answer_law [OF a] by simp
  moreover have "request_destroy req = Inr ps"
    using list_destroy_rd [OF list_ok_rd [OF r(3)]] r(4) by (simp add: request_destroy_def)
  ultimately show ?thesis using D(2,3) [OF i] r(1) res(1) by simp
qed

lemma try_patterns_match:
  assumes http: "http_ok http" and u: "58 \<notin> set u" and i: "i < length (list_elems (http_patterns http))"
    and m: "url_matches (list_elems (http_patterns http) ! i) u ps"
    and first: "\<forall>j < i. \<forall>qs. \<not> url_matches (list_elems (http_patterns http) ! j) u qs"
    and a: "answer (list_elems (http_handlers http) ! i) ps = Some (code, body)"
    and k: "k \<le> i"
  shows "try_patterns call http u [k..<length (list_elems (http_patterns http))] = Inr (response_text code body)"
  using k
proof (induction "i - k" arbitrary: k)
  case 0
  then have "k = i" by simp
  then show ?case using try_patterns_first [OF http u i m a] i by (simp add: upt_conv_Cons del: try_patterns.simps)
next
  case (Suc d)
  then have k: "k < i" by simp
  then have "try_patterns call http u [Suc k..<length (list_elems (http_patterns http))] = Inr (response_text code body)"
    using Suc by (intro Suc.hyps) simp_all
  moreover have "[k..<length (list_elems (http_patterns http))] = k # [Suc k..<length (list_elems (http_patterns http))]"
    using k i by (simp add: upt_conv_Cons)
  ultimately show ?case
    using try_patterns_skip [OF http u less_trans [OF k i] first [rule_format, OF k, THEN allI]]
    by (simp del: try_patterns.simps)
qed

text \<open>
  A request that arrives in one read on a fresh connection, whatever follows it in the block, gets
  the answer of the first handler whose pattern its URL matches.
\<close>

lemma request_answered:
  assumes http: "http_ok http" and u: "58 \<notin> set u" "word_chars 2047 u" and verb: "word_chars 7 verb" and c: "\<not> isspace c"
    and block: "block = verb @ 32 # u @ 32 # c # v" "length block < 2 ^ 30" "header_end block = Some e" "0 \<le> nread"
    and i: "i < length (list_elems (http_patterns http))" "url_matches (list_elems (http_patterns http) ! i) u ps"
      "\<forall>j < i. \<forall>qs. \<not> url_matches (list_elems (http_patterns http) ! j) u qs"
    and a: "answer (list_elems (http_handlers http) ! i) ps = Some (code, body)"
  shows "\<exists>ctx'. http_on_read call http nread block \<lparr>cl_buf = dynamic_buffer_create 32\<rparr> =
      Inr ([Http_write (response_text code body)], ctx') \<and> dbuf_bytes (cl_buf ctx') = drop e block"
proof -
  have "on_request call http block = Inr (Some (response_text code body))"
    using try_patterns_match [OF http u(1) i a, of 0] sscanf_request_result [OF verb u(2) c, of v]
    by (simp add: on_request_def block(1) http_okD(1) [OF http])
  then show ?thesis
    using http_on_read_result(2) [of "\<lparr>cl_buf = dynamic_buffer_create 32\<rparr>" nread block block e call http]
      dbuf_ok_create [of 32] block(2-4) by auto
qed

end

section \<open>Properties\<close>

text \<open>
  C28: Matching a URL against a pattern of the table: for a URL without colons \<open>request_create\<close>
  returns a request exactly when the URL is the pattern with strings without slashes in place of
  its colons (a slash at the end is optional on either side), and the parameters of the request are
  these strings, in order.
\<close>

theorem request_create_matches:
  assumes "wf_pattern pattern" and "58 \<notin> set url"
  shows "\<exists>r. request_create pattern url = Inr r \<and> (r = None \<longleftrightarrow> (\<forall>ps. \<not> url_matches pattern url ps)) \<and>
    (\<forall>q. r = Some q \<longrightarrow> req_url q = url \<and> list_ok (req_params q) \<and>
       (\<forall>ps. url_matches pattern url ps \<longleftrightarrow> ps = list_elems (req_params q)))"
  by (rule request_create_result [OF assms])

theorem request_create_matches_witness:
  "\<exists>q. request_create (bytes_of ''/block/:/'') (bytes_of ''/block/ab'') = Inr (Some q) \<and>
     list_elems (req_params q) = [bytes_of ''ab'']"
proof -
  have "fills (bytes_of ''/block/:'') (bytes_of ''/block/ab'') [bytes_of ''ab'']"
    using fills_param [OF _ fills_end, of "bytes_of ''ab''"]
    by (simp add: bytes_of_def of_char_def fills_char_iff)
  moreover have "bytes_of ''/block/:/'' = bytes_of ''/block/:'' @ [47]" by (simp add: bytes_of_def of_char_def)
  ultimately have "url_matches (bytes_of ''/block/:/'') (bytes_of ''/block/ab'') [bytes_of ''ab'']"
    unfolding url_matches_def by blast
  moreover have "wf_pattern (bytes_of ''/block/:/'')" "58 \<notin> set (bytes_of ''/block/ab'')"
    by (simp_all add: bytes_of_def of_char_def)
  ultimately show ?thesis using request_create_matches [of "bytes_of ''/block/:/''" "bytes_of ''/block/ab''"] by fastforce
qed

end
