(* ===== verification/Cli.thy ===== *)
theory Cli
  imports Buffer CList
begin

text \<open>
  The command line of \<open>src/cli.c\<close>: the table of commands, splitting a line into words, and calling
  the handler of a command. A handler is named by a value of type \<open>'h\<close> and run by a function that
  is an argument; it returns its result, what it prints and the state. What goes to the terminal is
  a list of bytes.
\<close>

record 'h cli_t =
  cli_command :: "byte list list_t"
  cli_usage :: "byte list list_t"
  cli_handler :: "'h list_t"

type_synonym ('h, 's) command_caller = "'h \<Rightarrow> byte list list_t \<Rightarrow> 's \<Rightarrow> (int \<times> byte list \<times> 's) res"

definition cli_create :: "'h cli_t" where
  "cli_create = \<lparr>cli_command = list_create 4, cli_usage = list_create 4, cli_handler = list_create 4\<rparr>"

definition cli_add_command :: "'h cli_t \<Rightarrow> byte list \<Rightarrow> byte list \<Rightarrow> 'h \<Rightarrow> 'h cli_t res" where
  "cli_add_command self cmd usage handler =
     bindR (list_add (cli_command self) cmd) (\<lambda>cs.
     bindR (list_add (cli_usage self) usage) (\<lambda>us.
     bindR (list_add (cli_handler self) handler) (\<lambda>hs.
       Inr \<lparr>cli_command = cs, cli_usage = us, cli_handler = hs\<rparr>)))"

definition cli_destroy :: "'h cli_t option \<Rightarrow> (byte list list \<times> byte list list \<times> 'h list) res" where
  "cli_destroy self =
     (case self of None \<Rightarrow> Inr ([], [], []) | Some self \<Rightarrow>
        bindR (list_destroy (cli_command self) False) (\<lambda>cs.
        bindR (list_destroy (cli_usage self) False) (\<lambda>us.
        bindR (list_destroy (cli_handler self) False) (\<lambda>hs. Inr (cs, us, hs)))))"

section \<open>Words\<close>

text \<open>The tokens \<open>strtok\<close> finds with a space as the only delimiter.\<close>

function strtok_all :: "byte list \<Rightarrow> byte list list" where
  "strtok_all s =
     (let t = dropWhile (\<lambda>c. c = 32) s in
      if t = [] then [] else takeWhile (\<lambda>c. c \<noteq> 32) t # strtok_all (dropWhile (\<lambda>c. c \<noteq> 32) t))"
  by pat_completeness auto
termination
proof (relation "measure length", simp)
  fix s t :: "byte list"
  assume t: "t = dropWhile (\<lambda>c. c = 32) s" "t \<noteq> []"
  then have "hd t \<noteq> 32" using hd_dropWhile [of "\<lambda>c. c = 32" s] by simp
  then have "length (dropWhile (\<lambda>c. c \<noteq> 32) t) < length t"
    using t(2) by (cases t) (simp_all add: le_imp_less_Suc length_dropWhile_le)
  also have "\<dots> \<le> length s" using t(1) by (simp add: length_dropWhile_le)
  finally show "(dropWhile (\<lambda>c. c \<noteq> 32) t, s) \<in> measure length" by simp
qed

declare strtok_all.simps [simp del]

definition split :: "byte list \<Rightarrow> byte list list_t res" where
  "split str = foldR (\<lambda>token res. list_add res token) (strtok_all str) (list_create 4)"

section \<open>A line of input\<close>

text \<open>\<open>printf("   %-12s%s\n", cmd, usage)\<close>\<close>

definition usage_line :: "byte list \<Rightarrow> byte list \<Rightarrow> byte list" where
  "usage_line cmd usage = replicate 3 32 @ cmd @ replicate (12 - length cmd) 32 @ usage @ [10]"

definition print_usage :: "'h cli_t \<Rightarrow> byte list res" where
  "print_usage self =
     bindR (mapR (\<lambda>i. bindR (list_get (cli_command self) i) (\<lambda>cmd.
              bindR (list_get (cli_usage self) i) (\<lambda>usage. Inr (usage_line cmd usage))))
        [0..<list_size (cli_command self)]) (\<lambda>lines.
     Inr (bytes_of ''Use the following commands: '' @ [10] @ concat lines))"

definition try_command ::
  "('h, 's) command_caller \<Rightarrow> 'h cli_t \<Rightarrow> byte list list_t \<Rightarrow> nat \<Rightarrow> bool \<times> byte list \<times> 's \<Rightarrow> (bool \<times> byte list \<times> 's) res" where
  "try_command call self args i r =
     (case r of (handled, out, s) \<Rightarrow>
        bindR (list_get (cli_command self) i) (\<lambda>cmd.
        bindR (list_get (cli_handler self) i) (\<lambda>handler.
        bindR (list_get args 0) (\<lambda>name.
        if cmd = name then
          bindR (call handler args s) (\<lambda>(result, text, s). Inr (handled \<or> result = 0, out @ text, s))
        else Inr (handled, out, s)))))"

text \<open>
  \<open>block\<close> holds the bytes read, \<open>nread\<close> of them; the last one is overwritten by the 0 that ends the
  line. The message on a read error goes to another stream and is left out.
\<close>

definition read_stdin ::
  "('h, 's) command_caller \<Rightarrow> 'h cli_t \<Rightarrow> int \<Rightarrow> byte list \<Rightarrow> 's \<Rightarrow> (byte list \<times> 's) res" where
  "read_stdin call self nread block s =
     (if nread \<le> 0 then Inr ([], s)
      else if length block < nat nread then Inl Out_of_bounds
      else
        bindR (split (takeWhile (\<lambda>c. c \<noteq> 0) (take (nat nread - 1) block))) (\<lambda>args.
        bindR (if 1 \<le> list_size args then
                 foldR (try_command call self args) [0..<list_size (cli_command self)] (False, [], s)
               else Inr (False, [], s)) (\<lambda>(handled, out, s).
        bindR (if handled then Inr [] else print_usage self) (\<lambda>usage.
          Inr (out @ usage @ bytes_of ''>>> '', s)))))"

section \<open>The table of commands\<close>

definition cli_ok :: "'h cli_t \<Rightarrow> bool" where
  "cli_ok self \<longleftrightarrow> list_ok (cli_command self) \<and> list_ok (cli_usage self) \<and> list_ok (cli_handler self) \<and>
     length (list_elems (cli_usage self)) = length (list_elems (cli_command self)) \<and>
     length (list_elems (cli_handler self)) = length (list_elems (cli_command self)) \<and>
     distinct (list_elems (cli_command self))"

lemma cli_ok_create: "cli_ok cli_create"
  by (simp add: cli_ok_def cli_create_def list_ok_create)

lemma cli_add_command_result:
  assumes "cli_ok self" "cmd \<notin> set (list_elems (cli_command self))"
  shows "\<exists>self'. cli_add_command self cmd usage handler = Inr self' \<and> cli_ok self' \<and>
    list_elems (cli_command self') = list_elems (cli_command self) @ [cmd] \<and>
    list_elems (cli_usage self') = list_elems (cli_usage self) @ [usage] \<and>
    list_elems (cli_handler self') = list_elems (cli_handler self) @ [handler]"
proof -
  have ok: "list_ok (cli_command self)" "list_ok (cli_usage self)" "list_ok (cli_handler self)"
    using assms(1) by (simp_all add: cli_ok_def)
  obtain cs where cs: "list_add (cli_command self) cmd = Inr cs" "list_ok cs" "list_elems cs = list_elems (cli_command self) @ [cmd]"
    using list_add_elems [OF ok(1), of cmd] by auto
  obtain us where us: "list_add (cli_usage self) usage = Inr us" "list_ok us" "list_elems us = list_elems (cli_usage self) @ [usage]"
    using list_add_elems [OF ok(2), of usage] by auto
  obtain hs where hs: "list_add (cli_handler self) handler = Inr hs" "list_ok hs" "list_elems hs = list_elems (cli_handler self) @ [handler]"
    using list_add_elems [OF ok(3), of handler] by auto
  show ?thesis using cs us hs assms by (simp add: cli_add_command_def cli_ok_def)
qed

lemma split_result: "\<exists>args. split str = Inr args \<and> list_ok args \<and> list_elems args = strtok_all str"
proof -
  have "\<exists>l'. foldR (\<lambda>token res. list_add res token) ts l = Inr l' \<and> list_ok l' \<and> list_elems l' = list_elems l @ ts"
    if "list_ok l" for ts and l :: "byte list list_t"
    using that
  proof (induction ts arbitrary: l)
    case (Cons t ts)
    obtain l1 where "list_add l t = Inr l1" "list_ok l1" "list_elems l1 = list_elems l @ [t]"
      using list_add_elems [OF Cons.prems, of t] by auto
    then show ?case using Cons.IH [of l1] by auto
  qed simp
  from this [of "list_create 4" "strtok_all str"] show ?thesis
    using list_ok_create [of 4] by (simp add: split_def)
qed

definition usage_text :: "'h cli_t \<Rightarrow> byte list" where
  "usage_text self = bytes_of ''Use the following commands: '' @ [10] @
     concat (map2 usage_line (list_elems (cli_command self)) (list_elems (cli_usage self)))"

lemma print_usage_result:
  assumes "cli_ok self"
  shows "print_usage self = Inr (usage_text self)"
proof -
  let ?cs = "list_elems (cli_command self)" and ?us = "list_elems (cli_usage self)"
  have ok: "list_ok (cli_command self)" "list_ok (cli_usage self)" "length ?us = length ?cs"
    using assms by (simp_all add: cli_ok_def)
  have "mapR (\<lambda>i. bindR (list_get (cli_command self) i) (\<lambda>cmd.
      bindR (list_get (cli_usage self) i) (\<lambda>usage. Inr (usage_line cmd usage)))) [0..<length ?cs]
    = Inr (map (\<lambda>i. usage_line (?cs ! i) (?us ! i)) [0..<length ?cs])"
    using ok by (intro mapR_pure) (simp add: list_get_elems)
  moreover have "map (\<lambda>i. usage_line (?cs ! i) (?us ! i)) [0..<length ?cs] = map2 usage_line ?cs ?us"
    using ok(3) by (intro nth_equalityI) simp_all
  ultimately show ?thesis by (simp add: print_usage_def usage_text_def list_size_elems [OF ok(1)])
qed

text \<open>Only the handler of the command is called, since the names are different.\<close>

lemma other_commands:
  assumes "cli_ok self" "list_ok args" "list_elems args = name # rest"
    and "\<forall>i \<in> set is. i < length (list_elems (cli_command self)) \<and> list_elems (cli_command self) ! i \<noteq> name"
  shows "foldR (try_command call self args) is r = Inr r"
  using assms(4)
proof (induction "is")
  case (Cons i "is")
  have "try_command call self args i r = Inr r"
    using Cons.prems assms(1-3) by (cases r) (simp add: try_command_def cli_ok_def list_get_elems)
  then show ?case using Cons by simp
qed simp

lemma foldR_try_commands:
  assumes ok: "cli_ok self" "list_ok args" "list_elems args = name # rest"
    and i: "i < length (list_elems (cli_command self))" "list_elems (cli_command self) ! i = name"
  shows "foldR (try_command call self args) [0..<length (list_elems (cli_command self))] (False, [], s) =
    bindR (call (list_elems (cli_handler self) ! i) args s) (\<lambda>(result, text, s'). Inr (result = 0, text, s'))"
proof -
  let ?cs = "list_elems (cli_command self)" and ?f = "try_command call self args"
  have d: "distinct ?cs" "list_ok (cli_command self)" "list_ok (cli_handler self)"
      "length (list_elems (cli_handler self)) = length ?cs"
    using ok(1) by (simp_all add: cli_ok_def)
  have "[0..<length ?cs] = [0..<i] @ i # [Suc i..<length ?cs]"
    using i(1) by (metis le_add1 less_imp_le_nat add_0 upt_add_eq_append upt_conv_Cons le_add_diff_inverse)
  moreover have "foldR ?f (i # is) = (\<lambda>r. bindR (?f i r) (foldR ?f is))" for "is"
    by (rule ext) simp
  ultimately have "foldR ?f [0..<length ?cs] (False, [], s) =
      bindR (foldR ?f [0..<i] (False, [], s)) (\<lambda>r. bindR (?f i r) (foldR ?f [Suc i..<length ?cs]))"
    by (simp only: foldR_append)
  also have "foldR ?f [0..<i] (False, [], s) = Inr (False, [], s)"
    using i d(1) by (intro other_commands [OF ok]) (auto simp: nth_eq_iff_index_eq)
  also have "(\<lambda>r. foldR ?f [Suc i..<length ?cs] r) = Inr"
    using i d(1) by (intro ext other_commands [OF ok]) (auto simp: nth_eq_iff_index_eq)
  also have "bindR (Inr (False, [], s)) (\<lambda>r. bindR (?f i r) Inr) =
      bindR (call (list_elems (cli_handler self) ! i) args s) (\<lambda>(result, text, s'). Inr (result = 0, text, s'))"
    using i ok d by (simp add: try_command_def list_get_elems)
  finally show ?thesis .
qed

section \<open>A line runs one command\<close>

lemma read_stdin_result:
  assumes "cli_ok self" and "0 \<notin> set line" and "block = line @ 10 # rest" and "strtok_all line = name # words"
  shows "(\<forall>i < length (list_elems (cli_command self)). list_elems (cli_command self) ! i = name \<longrightarrow>
      (\<exists>args. list_ok args \<and> list_elems args = name # words \<and>
        read_stdin call self (int (length line) + 1) block s =
          bindR (call (list_elems (cli_handler self) ! i) args s) (\<lambda>(result, text, s').
            Inr (text @ (if result = 0 then [] else usage_text self) @ bytes_of ''>>> '', s')))) \<and>
    (name \<notin> set (list_elems (cli_command self)) \<longrightarrow>
      read_stdin call self (int (length line) + 1) block s = Inr (usage_text self @ bytes_of ''>>> '', s))"
proof -
  have n: "nat (int (length line) + 1) = Suc (length line)" by simp
  have line: "takeWhile (\<lambda>c. c \<noteq> 0) line = line" using assms(2) by (auto simp: takeWhile_eq_all_conv)
  obtain args where args: "split line = Inr args" "list_ok args" "list_elems args = name # words"
    using split_result [of line] assms(4) by auto
  have sizes: "list_size args = Suc (length words)" "list_size (cli_command self) = length (list_elems (cli_command self))"
    using args(2,3) assms(1) by (simp_all add: list_size_elems cli_ok_def)
  have run: "read_stdin call self (int (length line) + 1) block s =
      bindR (foldR (try_command call self args) [0..<length (list_elems (cli_command self))] (False, [], s)) (\<lambda>(handled, out, s').
      bindR (if handled then Inr [] else print_usage self) (\<lambda>usage. Inr (out @ usage @ bytes_of ''>>> '', s')))"
    using args(1) sizes by (simp add: read_stdin_def n assms(3) line)
  show ?thesis
  proof (intro conjI allI impI)
    fix i assume i: "i < length (list_elems (cli_command self))" "list_elems (cli_command self) ! i = name"
    show "\<exists>args. list_ok args \<and> list_elems args = name # words \<and>
        read_stdin call self (int (length line) + 1) block s =
          bindR (call (list_elems (cli_handler self) ! i) args s) (\<lambda>(result, text, s').
            Inr (text @ (if result = 0 then [] else usage_text self) @ bytes_of ''>>> '', s'))"
      using args(2,3) unfolding run foldR_try_commands [OF assms(1) args(2,3) i]
      by (intro exI [of _ args])
        (auto simp: bindR_assoc print_usage_result [OF assms(1)] split: prod.split intro!: bindR_cong)
  next
    assume "name \<notin> set (list_elems (cli_command self))"
    then have "foldR (try_command call self args) [0..<length (list_elems (cli_command self))] (False, [], s) = Inr (False, [], s)"
      by (intro other_commands [OF assms(1) args(2,3)]) (auto simp: in_set_conv_nth)
    then show "read_stdin call self (int (length line) + 1) block s = Inr (usage_text self @ bytes_of ''>>> '', s)"
      by (simp add: run print_usage_result [OF assms(1)])
  qed
qed

section \<open>Properties\<close>

text \<open>
  A line typed at the prompt. If its first word is one of the (different) commands, exactly the
  handler of this command is called, with all words of the line; its output is printed, followed by
  the list of commands when it fails, and by the prompt. A line with no known command prints the list
  of commands and changes nothing.
\<close>

lemma read_stdin_calls_command:
  assumes "cli_ok self" and "0 \<notin> set line" and "block = line @ 10 # rest" and "strtok_all line = name # words"
  shows "(\<forall>i < length (list_elems (cli_command self)). list_elems (cli_command self) ! i = name \<longrightarrow>
      (\<exists>args. list_ok args \<and> list_elems args = name # words \<and>
        read_stdin call self (int (length line) + 1) block s =
          bindR (call (list_elems (cli_handler self) ! i) args s) (\<lambda>(result, text, s').
            Inr (text @ (if result = 0 then [] else usage_text self) @ bytes_of ''>>> '', s')))) \<and>
    (name \<notin> set (list_elems (cli_command self)) \<longrightarrow>
      read_stdin call self (int (length line) + 1) block s = Inr (usage_text self @ bytes_of ''>>> '', s))"
  by (rule read_stdin_result [OF assms])

lemma read_stdin_calls_command_witness:
  "\<exists>self. cli_ok self \<and>
     read_stdin (\<lambda>h args s. Inr (h, bytes_of ''7'', Suc s)) self 6 (bytes_of ''value'' @ [10]) 0 =
       Inr (bytes_of ''7'' @ bytes_of ''>>> '', 1)"
proof -
  let ?call = "\<lambda>h args s. Inr (h, bytes_of ''7'', Suc s)" and ?line = "bytes_of ''value''"
  obtain self :: "int cli_t" where self: "cli_ok self" "list_elems (cli_command self) = [?line]"
      "list_elems (cli_handler self) = [0]"
    using cli_add_command_result [OF cli_ok_create, of ?line "[]" 0] by (auto simp: cli_create_def)
  have "strtok_all ?line = ?line # []"
    by (subst strtok_all.simps) (simp add: bytes_of_def of_char_def strtok_all.simps)
  moreover have "0 \<notin> set ?line" "length ?line = 5" by (simp_all add: bytes_of_def of_char_def)
  ultimately have "read_stdin ?call self 6 (?line @ [10]) 0 = Inr (bytes_of ''7'' @ bytes_of ''>>> '', 1)"
    using read_stdin_calls_command [OF self(1), of ?line "?line @ 10 # []" "[]" ?line "[]" ?call 0] self(2,3) by auto
  then show ?thesis using self(1) by blast
qed

end
