(* ===== verification/Settings.thy ===== *)
theory Settings
  imports Buffer
begin

text \<open>
  The command line arguments of the program (\<open>src/settings.c\<close>). The global struct is an argument and
  a result; the string in a cell of \<open>peer_addresses\<close> is the list of its characters up to the 0. The
  arguments for which an error message is printed come back as a list.

  \<open>%d\<close> of a number that no \<open>int\<close> holds is undefined.
\<close>

definition DEFAULT_PORT :: int where "DEFAULT_PORT = 1960"
definition DEFAULT_SHOULD_LISTEN :: int where "DEFAULT_SHOULD_LISTEN = 1"
definition DEFAULT_BACKLOG :: int where "DEFAULT_BACKLOG = 128"
definition MAX_INITIAL_CONNECTIONS :: nat where "MAX_INITIAL_CONNECTIONS = 64"

record settings_t =
  set_port :: int
  set_backlog :: int
  set_should_listen :: int
  set_peer_addresses :: "byte list list"
  set_peer_ports :: "int list"
  set_n_peer_connections :: nat

text \<open>A global object starts with zeros.\<close>

definition settings_zero :: settings_t where
  "settings_zero = \<lparr>set_port = 0, set_backlog = 0, set_should_listen = 0,
     set_peer_addresses = replicate MAX_INITIAL_CONNECTIONS [],
     set_peer_ports = replicate MAX_INITIAL_CONNECTIONS 0, set_n_peer_connections = 0\<rparr>"

section \<open>Conversions of sscanf\<close>

fun scan_literal :: "byte list \<Rightarrow> byte list \<Rightarrow> byte list option" where
  "scan_literal [] s = Some s"
| "scan_literal (c # cs) (d # s) = (if c = d then scan_literal cs s else None)"
| "scan_literal (c # cs) [] = None"

text \<open>\<open>%d\<close> and \<open>atoll\<close>: white space, a sign, digits; the value must lie in \<open>[- bound, bound)\<close>.\<close>

definition signed_digits :: "byte list \<Rightarrow> int \<times> byte list \<times> byte list" where
  "signed_digits s =
     (let t = dropWhile isspace s;
          (sign, u) = (case t of [] \<Rightarrow> (1, []) | c # cs \<Rightarrow> if c = 45 then (- 1, cs) else if c = 43 then (1, cs) else (1, t))
      in (sign, takeWhile is_digit u, dropWhile is_digit u))"

definition scan_int :: "int \<Rightarrow> byte list \<Rightarrow> (int \<times> byte list) option res" where
  "scan_int bound s =
     (case signed_digits s of (sign, ds, r) \<Rightarrow>
        let v = sign * int (number_of_digits ds) in
        if ds = [] then Inr None
        else if - bound \<le> v \<and> v < bound then Inr (Some (v, r)) else Inl Bad_conversion)"

text \<open>\<open>%15[^':']\<close>: up to 15 characters other than a quote and a colon.\<close>

definition scan_address :: "byte list \<Rightarrow> (byte list \<times> byte list) option" where
  "scan_address s =
     (let w = take 15 (takeWhile (\<lambda>c. c \<noteq> 39 \<and> c \<noteq> 58) s) in
      if w = [] then None else Some (w, drop (length w) s))"

text \<open>\<open>sscanf(arg, "<prefix>%d", &x)\<close>: the number, if the call returns 1.\<close>

definition sscanf_option :: "string \<Rightarrow> byte list \<Rightarrow> int option res" where
  "sscanf_option prefix arg =
     (case scan_literal (bytes_of prefix) arg of
        None \<Rightarrow> Inr None
      | Some s \<Rightarrow> bindR (scan_int (2 ^ 31) s) (\<lambda>r. Inr (map_option fst r)))"

text \<open>
  \<open>sscanf(arg, "-connect=%15[^':']:%d", address, port)\<close>: what is written to the two objects, and
  whether the call returns 2. The address is written even if no port follows.
\<close>

definition sscanf_connect :: "byte list \<Rightarrow> (byte list option \<times> int option) res" where
  "sscanf_connect arg =
     (case scan_literal (bytes_of ''-connect='') arg of
        None \<Rightarrow> Inr (None, None)
      | Some s \<Rightarrow>
          (case scan_address s of
             None \<Rightarrow> Inr (None, None)
           | Some (address, s) \<Rightarrow>
               (case scan_literal [58] s of
                  None \<Rightarrow> Inr (Some address, None)
                | Some s \<Rightarrow> bindR (scan_int (2 ^ 31) s) (\<lambda>r. Inr (Some address, map_option fst r)))))"

section \<open>Parsing\<close>

definition write_cell :: "'a list \<Rightarrow> nat \<Rightarrow> 'a option \<Rightarrow> 'a list res" where
  "write_cell xs i v =
     (case v of None \<Rightarrow> Inr xs | Some x \<Rightarrow> if i < length xs then Inr (xs[i := x]) else Inl Out_of_bounds)"

definition try_connect :: "byte list \<Rightarrow> settings_t \<Rightarrow> (bool \<times> settings_t) res" where
  "try_connect arg st =
     (let n = set_n_peer_connections st in
      if n < MAX_INITIAL_CONNECTIONS then
        bindR (sscanf_connect arg) (\<lambda>(address, port).
        bindR (write_cell (set_peer_addresses st) n address) (\<lambda>as.
        bindR (write_cell (set_peer_ports st) n port) (\<lambda>ps.
        let st = st\<lparr>set_peer_addresses := as, set_peer_ports := ps\<rparr> in
        if port \<noteq> None then Inr (True, st\<lparr>set_n_peer_connections := n + 1\<rparr>) else Inr (False, st))))
      else Inr (False, st))"

definition parse_argument :: "byte list \<Rightarrow> settings_t \<times> byte list list \<Rightarrow> (settings_t \<times> byte list list) res" where
  "parse_argument arg r =
     (case r of (st, unknown) \<Rightarrow>
        bindR (sscanf_option ''-port='' arg) (\<lambda>v. case v of Some p \<Rightarrow> Inr (st\<lparr>set_port := p\<rparr>, unknown) | None \<Rightarrow>
        bindR (sscanf_option ''-backlog='' arg) (\<lambda>v. case v of Some b \<Rightarrow> Inr (st\<lparr>set_backlog := b\<rparr>, unknown) | None \<Rightarrow>
        bindR (sscanf_option ''-should-listen='' arg) (\<lambda>v.
          case v of Some l \<Rightarrow> Inr (st\<lparr>set_should_listen := l\<rparr>, unknown) | None \<Rightarrow>
        bindR (try_connect arg st) (\<lambda>(done, st).
          Inr (st, if done then unknown else unknown @ [arg]))))))"

text \<open>\<open>args\<close> is \<open>argv[1]\<close>, \<open>argv[2]\<close>, ...\<close>

definition parse_arguments :: "byte list list \<Rightarrow> settings_t \<Rightarrow> (settings_t \<times> byte list list) res" where
  "parse_arguments args st =
     foldR parse_argument args
       (st\<lparr>set_port := DEFAULT_PORT, set_backlog := DEFAULT_BACKLOG, set_should_listen := DEFAULT_SHOULD_LISTEN\<rparr>, [])"

definition settings_peers :: "settings_t \<Rightarrow> (byte list \<times> int) list" where
  "settings_peers st = take (set_n_peer_connections st) (zip (set_peer_addresses st) (set_peer_ports st))"

section \<open>The cells are never left\<close>

definition settings_ok :: "settings_t \<Rightarrow> bool" where
  "settings_ok st \<longleftrightarrow> length (set_peer_addresses st) = MAX_INITIAL_CONNECTIONS \<and>
     length (set_peer_ports st) = MAX_INITIAL_CONNECTIONS \<and>
     set_n_peer_connections st \<le> MAX_INITIAL_CONNECTIONS \<and>
     (\<forall>a \<in> set (set_peer_addresses st). length a \<le> 15)"

lemma settings_ok_zero: "settings_ok settings_zero"
  by (simp add: settings_ok_def settings_zero_def)

lemma settings_ok_numbers [simp]:
  "settings_ok (st\<lparr>set_port := p\<rparr>) \<longleftrightarrow> settings_ok st"
  "settings_ok (st\<lparr>set_backlog := p\<rparr>) \<longleftrightarrow> settings_ok st"
  "settings_ok (st\<lparr>set_should_listen := p\<rparr>) \<longleftrightarrow> settings_ok st"
  by (simp_all add: settings_ok_def)

text \<open>Results that are either fine or the undefined conversion of a number that is too large.\<close>

definition fine :: "('a \<Rightarrow> bool) \<Rightarrow> 'a res \<Rightarrow> bool" where
  "fine P m \<longleftrightarrow> m = Inl Bad_conversion \<or> (\<exists>x. m = Inr x \<and> P x)"

lemma fine_Inr [simp]: "fine P (Inr x) \<longleftrightarrow> P x"
  by (simp add: fine_def)

lemma fine_bind: "fine P m \<Longrightarrow> (\<And>x. P x \<Longrightarrow> fine Q (f x)) \<Longrightarrow> fine Q (bindR m f)"
  unfolding fine_def by (elim disjE exE conjE) simp_all

lemma fine_foldR:
  assumes "\<And>x s. P s \<Longrightarrow> fine P (f x s)"
  shows "P s \<Longrightarrow> fine P (foldR f xs s)"
proof (induction xs arbitrary: s)
  case (Cons x xs)
  have "fine P (f x s)" by (rule assms [OF Cons.prems])
  then have "fine P (bindR (f x s) (foldR f xs))" by (rule fine_bind) (rule Cons.IH)
  then show ?case by simp
qed simp

lemma fine_scan_int: "fine (\<lambda>_. True) (scan_int b s)"
  by (simp add: fine_def scan_int_def Let_def split: prod.split)

lemma fine_sscanf_option: "fine (\<lambda>_. True) (sscanf_option p arg)"
proof (cases "scan_literal (bytes_of p) arg")
  case (Some s)
  have "fine (\<lambda>_. True) (bindR (scan_int (2 ^ 31) s) (\<lambda>r. Inr (map_option fst r)))"
    by (rule fine_bind [OF fine_scan_int]) simp
  then show ?thesis using Some by (simp add: sscanf_option_def)
qed (simp add: sscanf_option_def)

lemma scan_address_length: "scan_address s = Some (w, r) \<Longrightarrow> length w \<le> 15"
  by (auto simp: scan_address_def Let_def split: if_splits)

lemma fine_sscanf_connect: "fine (\<lambda>(a, p). \<forall>w. a = Some w \<longrightarrow> length w \<le> 15) (sscanf_connect arg)"
proof (cases "scan_literal (bytes_of ''-connect='') arg")
  case 1: (Some s)
  show ?thesis
  proof (cases "scan_address s")
    case 2: (Some wr)
    obtain w r where wr: "wr = (w, r)" by (cases wr)
    have len: "length w \<le> 15" using scan_address_length 2 unfolding wr by blast
    show ?thesis
    proof (cases "scan_literal [58] r")
      case 3: (Some t)
      have "fine (\<lambda>(a, p). \<forall>w. a = Some w \<longrightarrow> length w \<le> 15)
          (bindR (scan_int (2 ^ 31) t) (\<lambda>x. Inr (Some w, map_option fst x)))"
        by (rule fine_bind [OF fine_scan_int]) (simp add: len)
      then show ?thesis unfolding sscanf_connect_def 1 2 wr option.case prod.case 3 .
    qed (use len in \<open>simp add: sscanf_connect_def 1 2 wr\<close>)
  qed (simp add: sscanf_connect_def 1)
qed (simp add: sscanf_connect_def)

lemma fine_try_connect:
  assumes "settings_ok st"
  shows "fine (\<lambda>(d, st). settings_ok st) (try_connect arg st)"
proof (cases "set_n_peer_connections st < MAX_INITIAL_CONNECTIONS")
  case True
  let ?n = "set_n_peer_connections st"
  have l: "?n < length (set_peer_addresses st)" "?n < length (set_peer_ports st)"
    "\<forall>a \<in> set (set_peer_addresses st). length a \<le> 15"
    using assms True by (simp_all add: settings_ok_def)
  have new: "\<forall>a \<in> set ((set_peer_addresses st)[?n := w]). length a \<le> 15" if "length w \<le> 15" for w
    using that l(3) set_update_subset_insert [of "set_peer_addresses st" ?n w] by blast
  show ?thesis
    unfolding try_connect_def Let_def if_P [OF True]
  proof (rule fine_bind [OF fine_sscanf_connect], unfold split_paired_all prod.case)
    fix a :: "byte list option" and p :: "int option" assume a: "\<forall>w. a = Some w \<longrightarrow> length w \<le> 15"
    show "fine (\<lambda>(d, st). settings_ok st)
        (bindR (write_cell (set_peer_addresses st) ?n a) (\<lambda>as. bindR (write_cell (set_peer_ports st) ?n p) (\<lambda>ps.
           if p \<noteq> None
           then Inr (True, st\<lparr>set_peer_addresses := as, set_peer_ports := ps, set_n_peer_connections := ?n + 1\<rparr>)
           else Inr (False, st\<lparr>set_peer_addresses := as, set_peer_ports := ps\<rparr>))))"
      using True assms l a new by (cases a; cases p) (simp_all add: write_cell_def settings_ok_def)
  qed
qed (use assms in \<open>simp add: try_connect_def\<close>)

lemma fine_parse_argument:
  assumes "settings_ok (fst r)"
  shows "fine (\<lambda>r. settings_ok (fst r)) (parse_argument arg r)"
proof -
  obtain st u where r: "r = (st, u)" by (cases r)
  have ok: "settings_ok st" using assms r by simp
  have last: "fine (\<lambda>r. settings_ok (fst r)) (bindR (try_connect arg st) (\<lambda>(done, st).
      Inr (st, if done then u else u @ [arg])))"
    by (rule fine_bind [OF fine_try_connect [OF ok]]) auto
  show ?thesis
    unfolding parse_argument_def r prod.case
    by (intro fine_bind [OF fine_sscanf_option]) (auto simp: ok last split: option.split intro!: fine_bind [OF fine_sscanf_option])
qed

section \<open>Arguments that name peers\<close>

definition connect_arg :: "byte list \<times> int \<Rightarrow> byte list" where
  "connect_arg peer = bytes_of ''-connect='' @ fst peer @ [58] @ decimal (nat (snd peer))"

definition peer_arg_ok :: "byte list \<times> int \<Rightarrow> bool" where
  "peer_arg_ok peer \<longleftrightarrow> fst peer \<noteq> [] \<and> length (fst peer) \<le> 15 \<and> 39 \<notin> set (fst peer) \<and> 58 \<notin> set (fst peer) \<and>
     0 \<le> snd peer \<and> snd peer < 2 ^ 31"

lemma scan_literal_append: "scan_literal p (p @ s) = Some s"
  by (induction p) simp_all

lemma scan_address_result:
  assumes "w \<noteq> []" "length w \<le> 15" "39 \<notin> set w" "58 \<notin> set w"
  shows "scan_address (w @ 58 # r) = Some (w, 58 # r)"
proof -
  have "\<forall>c \<in> set w. c \<noteq> 39 \<and> c \<noteq> 58" using assms(3,4) by auto
  then have "takeWhile (\<lambda>c. c \<noteq> 39 \<and> c \<noteq> 58) (w @ 58 # r) = w" by (simp add: takeWhile_append2)
  then show ?thesis using assms(1,2) by (simp add: scan_address_def)
qed

lemma is_digit_no_sign: "is_digit c \<Longrightarrow> \<not> isspace c \<and> c \<noteq> 45 \<and> c \<noteq> 43"
  by (auto simp: is_digit_def isspace_def)

lemma scan_int_decimal:
  assumes "int n < bound"
  shows "scan_int bound (decimal n) = Inr (Some (int n, []))"
proof -
  have all: "\<forall>c \<in> set (decimal n). is_digit c" using decimal_digits [of n] by (simp add: list_all_iff)
  obtain c cs where c: "decimal n = c # cs" by (cases "decimal n") auto
  have "takeWhile is_digit (decimal n) = decimal n" "dropWhile is_digit (decimal n) = []"
    using all by (simp_all add: takeWhile_eq_all_conv dropWhile_eq_Nil_conv)
  then have "signed_digits (decimal n) = (1, decimal n, [])"
    using is_digit_no_sign [of c] all unfolding signed_digits_def c by simp
  then show ?thesis using assms number_of_decimal [of n] by (simp add: scan_int_def)
qed

lemma sscanf_connect_arg:
  assumes "peer_arg_ok peer"
  shows "sscanf_connect (connect_arg peer) = Inr (Some (fst peer), Some (snd peer))"
proof -
  have "scan_int (2 ^ 31) (decimal (nat (snd peer))) = Inr (Some (int (nat (snd peer)), []))"
    using assms by (intro scan_int_decimal) (simp add: peer_arg_ok_def)
  then show ?thesis
    using assms scan_address_result [of "fst peer" "decimal (nat (snd peer))"]
    by (simp add: sscanf_connect_def connect_arg_def scan_literal_append peer_arg_ok_def)
qed

lemma no_option: "sscanf_option ''-port='' (connect_arg peer) = Inr None"
  "sscanf_option ''-backlog='' (connect_arg peer) = Inr None"
  "sscanf_option ''-should-listen='' (connect_arg peer) = Inr None"
  by (simp_all add: sscanf_option_def connect_arg_def bytes_of_def of_char_def)

lemma parse_connect_arg:
  assumes "settings_ok st" "peer_arg_ok peer" "set_n_peer_connections st < MAX_INITIAL_CONNECTIONS"
  shows "\<exists>st'. parse_argument (connect_arg peer) (st, unknown) = Inr (st', unknown) \<and> settings_ok st' \<and>
    settings_peers st' = settings_peers st @ [peer] \<and>
    set_n_peer_connections st' = Suc (set_n_peer_connections st) \<and> set_port st' = set_port st \<and>
    set_backlog st' = set_backlog st \<and> set_should_listen st' = set_should_listen st"
proof -
  let ?n = "set_n_peer_connections st"
  let ?as = "(set_peer_addresses st)[?n := fst peer]" and ?ps = "(set_peer_ports st)[?n := snd peer]"
  let ?st = "st\<lparr>set_peer_addresses := ?as, set_peer_ports := ?ps, set_n_peer_connections := Suc ?n\<rparr>"
  have l: "?n < length (set_peer_addresses st)" "?n < length (set_peer_ports st)"
    using assms(1,3) by (simp_all add: settings_ok_def)
  have run: "parse_argument (connect_arg peer) (st, unknown) = Inr (?st, unknown)"
    using assms(3) l
    by (simp add: parse_argument_def no_option try_connect_def sscanf_connect_arg [OF assms(2)] write_cell_def Let_def)
  have "fine (\<lambda>r. settings_ok (fst r)) (parse_argument (connect_arg peer) (st, unknown))"
    by (rule fine_parse_argument) (simp add: assms(1))
  then have "settings_ok ?st" by (simp add: run)
  moreover have "take (Suc ?n) (zip ?as ?ps) = take ?n (zip (set_peer_addresses st) (set_peer_ports st)) @ [peer]"
    using l by (simp add: take_Suc_conv_app_nth update_zip [symmetric])
  ultimately show ?thesis using run by (simp add: settings_peers_def)
qed

lemma parse_connect_args:
  assumes "settings_ok st" "\<forall>peer \<in> set peers. peer_arg_ok peer"
    "set_n_peer_connections st + length peers \<le> MAX_INITIAL_CONNECTIONS"
  shows "\<exists>st'. foldR parse_argument (map connect_arg peers) (st, unknown) = Inr (st', unknown) \<and>
    settings_peers st' = settings_peers st @ peers \<and> set_port st' = set_port st \<and>
    set_backlog st' = set_backlog st \<and> set_should_listen st' = set_should_listen st"
  using assms
proof (induction peers arbitrary: st)
  case (Cons p ps)
  have p: "peer_arg_ok p" "set_n_peer_connections st < MAX_INITIAL_CONNECTIONS" using Cons.prems by simp_all
  obtain st1 where st1: "parse_argument (connect_arg p) (st, unknown) = Inr (st1, unknown)" "settings_ok st1"
      "settings_peers st1 = settings_peers st @ [p]" "set_n_peer_connections st1 = Suc (set_n_peer_connections st)"
      "set_port st1 = set_port st" "set_backlog st1 = set_backlog st" "set_should_listen st1 = set_should_listen st"
    using parse_connect_arg [OF Cons.prems(1) p] by auto
  have "\<exists>st'. foldR parse_argument (map connect_arg ps) (st1, unknown) = Inr (st', unknown) \<and>
      settings_peers st' = settings_peers st1 @ ps \<and> set_port st' = set_port st1 \<and>
      set_backlog st' = set_backlog st1 \<and> set_should_listen st' = set_should_listen st1"
    using Cons.prems st1 by (intro Cons.IH) auto
  then show ?case using st1 by auto
qed simp

section \<open>Properties\<close>

text \<open>
  C34: Whatever the arguments of the program are, parsing them ends, and unless a number is too large
  for an \<open>int\<close> it stays within the arrays of the settings: at most 64 connections are taken, and
  every address fits into its 16 characters.
\<close>

theorem parse_arguments_in_bounds:
  assumes "settings_ok st"
  shows "parse_arguments args st = Inl Bad_conversion \<or>
    (\<exists>st' unknown. parse_arguments args st = Inr (st', unknown) \<and> settings_ok st' \<and>
       length (settings_peers st') = set_n_peer_connections st' \<and> set_n_peer_connections st' \<le> 64)"
proof -
  have "fine (\<lambda>r. settings_ok (fst r)) (parse_arguments args st)"
    unfolding parse_arguments_def by (rule fine_foldR [OF fine_parse_argument]) (simp_all add: assms)
  then show ?thesis
    by (auto simp: fine_def settings_peers_def settings_ok_def MAX_INITIAL_CONNECTIONS_def)
qed

theorem parse_arguments_in_bounds_witness:
  "\<forall>args. parse_arguments args settings_zero = Inl Bad_conversion \<or>
     (\<exists>st' unknown. parse_arguments args settings_zero = Inr (st', unknown) \<and> settings_ok st' \<and>
        length (settings_peers st') = set_n_peer_connections st' \<and> set_n_peer_connections st' \<le> 64)"
  using parse_arguments_in_bounds [OF settings_ok_zero] by (rule allI)

text \<open>
  The peers named on the command line: up to 64 arguments \<open>-connect=<address>:<port>\<close> (addresses
  of at most 15 characters) are all accepted, none is reported as unknown, and the program connects
  to exactly these peers, in this order; the numbers keep their defaults.
\<close>

lemma command_line_peers:
  assumes "length peers \<le> 64" and "\<forall>peer \<in> set peers. peer_arg_ok peer"
  shows "\<exists>st. parse_arguments (map connect_arg peers) settings_zero = Inr (st, []) \<and>
    settings_peers st = peers \<and> set_port st = 1960 \<and> set_backlog st = 128 \<and> set_should_listen st = 1"
proof -
  let ?st = "settings_zero\<lparr>set_port := DEFAULT_PORT, set_backlog := DEFAULT_BACKLOG, set_should_listen := DEFAULT_SHOULD_LISTEN\<rparr>"
  have "settings_ok ?st" using settings_ok_zero by simp
  moreover have "set_n_peer_connections ?st + length peers \<le> MAX_INITIAL_CONNECTIONS"
    using assms(1) by (simp add: settings_zero_def MAX_INITIAL_CONNECTIONS_def)
  moreover have "settings_peers ?st = []" by (simp add: settings_peers_def settings_zero_def)
  ultimately show ?thesis
    using parse_connect_args [of ?st peers "[]"] assms(2) by (auto simp: parse_arguments_def DEFAULT_PORT_def DEFAULT_BACKLOG_def DEFAULT_SHOULD_LISTEN_def)
qed

end
