(* ===== verification/Pool.thy ===== *)
theory Pool
  imports Block
begin

text \<open>
  The pool of pending transactions (\<open>src/pool.c\<close>): a list of addresses of transactions, without two
  of the same hash. The pool owns what it is given: a transaction whose hash it already has is freed.
\<close>

section \<open>Operations\<close>

type_synonym pool_t = "addr list_t"

definition transaction_compare :: "sodium \<Rightarrow> store \<Rightarrow> addr \<Rightarrow> addr \<Rightarrow> int res" where
  "transaction_compare S st txn1 txn2 =
     bindR (heap_load (s_txns st) txn1) (\<lambda>t1.
     bindR (heap_load (s_txns st) txn2) (\<lambda>t2.
       Inr (memcmp (thash t1) (thash t2) (generichash_BYTES S))))"

definition pool_create :: pool_t where
  "pool_create = list_create 64"

definition pool_destroy :: "store \<Rightarrow> pool_t \<Rightarrow> store res" where
  "pool_destroy st pool =
     bindR (list_destroy pool True) (\<lambda>ptrs.
     bindR (foldR (\<lambda>p h. heap_free h p) ptrs (s_txns st)) (\<lambda>h. Inr (st\<lparr>s_txns := h\<rparr>)))"

definition pool_size :: "pool_t \<Rightarrow> nat" where
  "pool_size pool = list_size pool"

definition pool_add :: "sodium \<Rightarrow> store \<Rightarrow> pool_t \<Rightarrow> addr option \<Rightarrow> (pool_t \<times> store) res" where
  "pool_add S st pool txn =
     bindR (assertR (txn \<noteq> None)) (\<lambda>_.
     bindR (list_find pool (the txn) (Some (transaction_compare S st))) (\<lambda>i.
       if i \<noteq> list_size pool then
         bindR (heap_free (s_txns st) (the txn)) (\<lambda>h. Inr (pool, st\<lparr>s_txns := h\<rparr>))
       else bindR (list_add pool (the txn)) (\<lambda>l. Inr (l, st))))"

definition pool_get :: "pool_t \<Rightarrow> nat \<Rightarrow> addr res" where
  "pool_get pool i = list_get pool i"

definition pool_remove :: "pool_t \<Rightarrow> nat \<Rightarrow> (addr \<times> pool_t) res" where
  "pool_remove pool i = list_remove pool i"

section \<open>Abstraction and invariant\<close>

definition pool_txns :: "store \<Rightarrow> pool_t \<Rightarrow> transaction_t list" where
  "pool_txns st pool = map (obj (s_txns st)) (list_elems pool)"

definition pool_ok :: "sodium \<Rightarrow> store \<Rightarrow> pool_t \<Rightarrow> bool" where
  "pool_ok S st pool \<longleftrightarrow> list_ok pool \<and>
     (\<forall>a \<in> set (list_elems pool). alive (s_txns st) a \<and> txn_ok S (obj (s_txns st) a)) \<and>
     distinct (map thash (pool_txns st pool))"

lemma pool_ok_create: "pool_ok S st pool_create"
  by (simp add: pool_ok_def pool_create_def list_ok_create pool_txns_def)

lemma txn_ok_hash: "sodium_ok S kp \<Longrightarrow> txn_ok S t \<Longrightarrow> length (thash t) = 32"
  by (auto simp: txn_ok_def sodium_sizes simp del: enc.simps)

lemma transaction_compare_eq:
  assumes "sodium_ok S kp" "alive (s_txns st) a" "alive (s_txns st) b"
    "txn_ok S (obj (s_txns st) a)" "txn_ok S (obj (s_txns st) b)"
  shows "elem_matches (Some (transaction_compare S st)) a b =
    Inr (thash (obj (s_txns st) a) = thash (obj (s_txns st) b))"
  using assms txn_ok_hash [OF assms(1,4)] txn_ok_hash [OF assms(1,5)]
  by (simp add: transaction_compare_def sodium_sizes memcmp_eq_0)

lemma takeWhile_length: "length (takeWhile P xs) = length xs \<longleftrightarrow> (\<forall>x \<in> set xs. P x)"
  by (induction xs) auto

lemma pool_find:
  assumes S: "sodium_ok S kp" and ok: "pool_ok S st pool" and a: "alive (s_txns st) a" "txn_ok S (obj (s_txns st) a)"
  shows "\<exists>i. list_find pool a (Some (transaction_compare S st)) = Inr i \<and>
    (i \<noteq> list_size pool \<longleftrightarrow> thash (obj (s_txns st) a) \<in> thash ` set (pool_txns st pool))"
proof -
  let ?P = "\<lambda>x. thash (obj (s_txns st) x) = thash (obj (s_txns st) a)"
  have l: "list_ok pool" using ok by (simp add: pool_ok_def)
  have "list_find pool a (Some (transaction_compare S st)) =
      Inr (length (takeWhile (\<lambda>x. \<not> ?P x) (list_elems pool)))"
    using ok by (intro list_find_first [OF l] transaction_compare_eq [OF S _ a(1) _ a(2)]) (auto simp: pool_ok_def)
  moreover have "thash (obj (s_txns st) a) \<in> thash ` set (pool_txns st pool) \<longleftrightarrow> (\<exists>x \<in> set (list_elems pool). ?P x)"
    by (auto simp: pool_txns_def image_iff eq_commute)
  ultimately show ?thesis
    using list_size_elems [OF l] takeWhile_length [of "\<lambda>x. \<not> ?P x" "list_elems pool"] by auto
qed

text \<open>Adding: a transaction with a new hash is appended, any other is freed.\<close>

lemma pool_add_result:
  assumes S: "sodium_ok S kp" and ok: "pool_ok S st pool"
    and a: "alive (s_txns st) a" "txn_ok S (obj (s_txns st) a)"
  shows "if thash (obj (s_txns st) a) \<in> thash ` set (pool_txns st pool)
    then pool_add S st pool (Some a) = Inr (pool, st\<lparr>s_txns := (s_txns st)[a := None]\<rparr>)
    else \<exists>pool'. pool_add S st pool (Some a) = Inr (pool', st) \<and> pool_ok S st pool' \<and>
      list_elems pool' = list_elems pool @ [a]"
proof -
  obtain i where i: "list_find pool a (Some (transaction_compare S st)) = Inr i"
      "i \<noteq> list_size pool \<longleftrightarrow> thash (obj (s_txns st) a) \<in> thash ` set (pool_txns st pool)"
    using pool_find [OF S ok a] by blast
  have l: "list_ok pool" using ok by (simp add: pool_ok_def)
  obtain l' where l': "list_add pool a = Inr l'" "list_ok l'" "list_elems l' = list_elems pool @ [a]"
    using clist.addE [OF l] by blast
  show ?thesis
  proof (cases "thash (obj (s_txns st) a) \<in> thash ` set (pool_txns st pool)")
    case True
    then show ?thesis using i a by (simp add: pool_add_def)
  next
    case False
    then have "pool_ok S st l'" using ok l' a by (auto simp: pool_ok_def pool_txns_def)
    then show ?thesis using i False l' by (simp add: pool_add_def)
  qed
qed

lemma pool_ok_frame:
  assumes "pool_ok S st pool" "\<And>a. a \<in> set (list_elems pool) \<Longrightarrow> s_txns st' ! a = s_txns st ! a \<and> alive (s_txns st') a"
  shows "pool_ok S st' pool" "pool_txns st' pool = pool_txns st pool"
proof -
  show t: "pool_txns st' pool = pool_txns st pool" using assms(2) by (simp add: pool_txns_def)
  show "pool_ok S st' pool" using assms unfolding pool_ok_def t by simp
qed

lemma pool_remove_first:
  assumes "pool_ok S st pool" "list_elems pool = a # as"
  shows "\<exists>pool'. pool_remove pool 0 = Inr (a, pool') \<and> pool_ok S st pool' \<and> list_elems pool' = as"
proof -
  have l: "list_ok pool" using assms(1) by (simp add: pool_ok_def)
  obtain l' where l': "list_remove pool 0 = Inr (a, l')" "list_ok l'" "list_elems l' = as"
    using clist.remove_first [OF l assms(2)] by blast
  have "pool_ok S st l'" using assms l' by (simp add: pool_ok_def pool_txns_def)
  then show ?thesis using l' by (simp add: pool_remove_def)
qed

text \<open>A transaction for witnesses.\<close>

definition pending_txn :: transaction_t where
  "pending_txn =
     (let t = \<lparr>tsender = replicate 32 1, trecipient = replicate 32 2, tvalue = 5, tnonce = 0, tsignature = [], thash = []\<rparr>;
          h = generichash toy (enc (T_tuple (txn_body t)))
      in t\<lparr>thash := h, tsignature := sign_detached toy h (replicate 32 1)\<rparr>)"

lemma pending_txn_ok: "txn_ok toy pending_txn"
  by (simp add: txn_ok_def txn_sized_def pending_txn_def Let_def toy_def txn_body_def del: enc.simps)

section \<open>Properties\<close>

text \<open>
  The pool is a set of transactions, by hash, in order of arrival. Adding a transaction that the
  caller owns succeeds; the pool then holds the transactions it had, and the new one at the end if
  no pending one has its hash; if one has, the new object is freed and the pool does not change.
  Either way the hashes stay distinct and every pending transaction stays valid.
\<close>

lemma pool_add_keeps_distinct:
  assumes "sodium_ok S keypair" "pool_ok S st pool" "alive (s_txns st) a" "txn_ok S (obj (s_txns st) a)"
    and "a \<notin> set (list_elems pool)"
  shows "\<exists>pool' st'. pool_add S st pool (Some a) = Inr (pool', st') \<and> pool_ok S st' pool' \<and>
    pool_txns st' pool' =
      (if thash (obj (s_txns st) a) \<in> thash ` set (pool_txns st pool)
       then pool_txns st pool else pool_txns st pool @ [obj (s_txns st) a]) \<and>
    (alive (s_txns st') a \<longleftrightarrow> a \<in> set (list_elems pool'))"
proof (cases "thash (obj (s_txns st) a) \<in> thash ` set (pool_txns st pool)")
  case True
  let ?st = "st\<lparr>s_txns := (s_txns st)[a := None]\<rparr>"
  have r: "pool_add S st pool (Some a) = Inr (pool, ?st)" using pool_add_result [OF assms(1-4)] True by simp
  have "s_txns ?st ! b = s_txns st ! b \<and> alive (s_txns ?st) b" if "b \<in> set (list_elems pool)" for b
  proof -
    have "b \<noteq> a" "alive (s_txns st) b" using assms(2,5) that by (auto simp: pool_ok_def)
    then show ?thesis by (simp add: alive_def)
  qed
  note pool_ok_frame [OF assms(2) this]
  moreover have "\<not> alive (s_txns ?st) a" using alive_less [OF assms(3)] by (simp add: alive_def)
  ultimately show ?thesis using r True assms(5) by simp
next
  case False
  then obtain pool' where "pool_add S st pool (Some a) = Inr (pool', st)" "pool_ok S st pool'"
      "list_elems pool' = list_elems pool @ [a]"
    using pool_add_result [OF assms(1-4)] by auto
  then show ?thesis using False assms(3) by (auto simp: pool_txns_def)
qed

lemma pool_add_keeps_distinct_witness:
  "\<exists>st pool' st'. s_txns st = [Some pending_txn] \<and> pool_add toy st pool_create (Some 0) = Inr (pool', st') \<and>
     pool_txns st' pool' = [pending_txn]"
proof -
  let ?st = "\<lparr>s_blocks = [], s_accounts = [], s_txns = [Some pending_txn]\<rparr>"
  have "txn_ok toy (obj (s_txns ?st) 0)" using pending_txn_ok by simp
  moreover have "alive (s_txns ?st) 0" by (simp add: alive_def)
  ultimately show ?thesis
    using pool_add_keeps_distinct [OF toy_ok pool_ok_create [of toy ?st], of 0]
    by (intro exI [of _ ?st]) (auto simp: pool_create_def pool_txns_def)
qed

text \<open>
  The pool frees what it does not own if it is given one of its own transactions again, or one
  that a block holds too: adding a transaction whose hash is pending frees the object even when the
  pointer is the pending one, and the pool is left with a dangling pointer.
\<close>

lemma pool_add_twice_dangles:
  assumes "sodium_ok S keypair" "pool_ok S st pool" "a \<in> set (list_elems pool)"
  shows "\<exists>st'. pool_add S st pool (Some a) = Inr (pool, st') \<and> \<not> alive (s_txns st') a \<and>
    (\<forall>i. list_elems pool ! i = a \<longrightarrow> i < length (list_elems pool) \<longrightarrow>
       transaction_compare S st' (list_elems pool ! i) (list_elems pool ! i) = Inl Use_after_free)"
proof -
  have a: "alive (s_txns st) a" "txn_ok S (obj (s_txns st) a)" using assms(2,3) by (auto simp: pool_ok_def)
  have "thash (obj (s_txns st) a) \<in> thash ` set (pool_txns st pool)" using assms(3) by (simp add: pool_txns_def)
  then have r: "pool_add S st pool (Some a) = Inr (pool, st\<lparr>s_txns := (s_txns st)[a := None]\<rparr>)"
    using pool_add_result [OF assms(1,2) a] by simp
  show ?thesis
    using r alive_less [OF a(1)] by (auto simp: alive_def transaction_compare_def heap_load_def)
qed

lemma pool_add_twice_dangles_witness:
  "\<exists>st pool st'. pool_txns st pool = [pending_txn] \<and> pool_add toy st pool (Some 0) = Inr (pool, st') \<and>
     \<not> alive (s_txns st') 0"
proof -
  let ?st = "\<lparr>s_blocks = [], s_accounts = [], s_txns = [Some pending_txn]\<rparr>"
  obtain pool where p: "list_add pool_create 0 = Inr pool" "list_ok pool" "list_elems pool = [0]"
    using clist.addE [of pool_create 0] by (auto simp: pool_create_def list_ok_create)
  then have "pool_ok toy ?st pool" by (simp add: pool_ok_def pool_txns_def alive_def pending_txn_ok)
  from pool_add_twice_dangles [OF toy_ok this, of 0] p(3)
  obtain st' where "pool_add toy ?st pool (Some 0) = Inr (pool, st')" "\<not> alive (s_txns st') 0" by auto
  moreover have "pool_txns ?st pool = [pending_txn]" using p(3) by (simp add: pool_txns_def)
  ultimately show ?thesis by blast
qed

end
