(* ===== verification/Blockchain.thy ===== *)
theory Blockchain
  imports Pool
begin

text \<open>
  The block tree and the choice of the principal block (\<open>src/blockchain.c\<close>). The tree is a map from
  hashes to blocks; the principal block is the end of the chain that a block has to beat. The
  callback \<open>on_extended\<close> is the last thing \<open>blockchain_add_block\<close> does before it returns, so the
  model returns its arguments as an event, for the caller to run.
\<close>

section \<open>Operations\<close>

record blockchain_t =
  bc_blocks :: "(byte list, addr) map_t"
  bc_txns :: "(byte list, addr) map_t"
  principal :: "addr option"

type_synonym event = "(addr option \<times> addr option) option"

definition N_BLOCK_BUCKETS :: nat where "N_BLOCK_BUCKETS = 2 ^ 12"
definition N_TXN_BUCKETS :: nat where "N_TXN_BUCKETS = 2 ^ 12"

definition blockchain_create :: "sodium \<Rightarrow> blockchain_t" where
  "blockchain_create S =
     \<lparr>bc_blocks = map_create N_BLOCK_BUCKETS (key_hash S) False True (key_compare S),
      bc_txns = map_create N_TXN_BUCKETS (key_hash S) False False (key_compare S),
      principal = None\<rparr>"

text \<open>
  The loop that walks from the principal block towards the root until it meets the previous block of
  the new one; \<open>prev\<close> is the block before, on the way.
\<close>

fun fork_loop ::
  "nat \<Rightarrow> store \<Rightarrow> addr option \<Rightarrow> addr option \<Rightarrow> addr option \<Rightarrow> (addr option \<times> addr option) res" where
  "fork_loop 0 st target iter prev = Inl Out_of_fuel"
| "fork_loop (Suc fuel) st target iter prev =
     (if target \<noteq> iter \<and> iter \<noteq> None then
        bindR (block_get_prev st iter) (\<lambda>iter'. fork_loop fuel st target iter' iter)
      else Inr (iter, prev))"

definition beats :: "sodium \<Rightarrow> store \<Rightarrow> addr \<Rightarrow> addr option \<Rightarrow> bool res" where
  "beats S st block other =
     bindR (block_get_priority st (Some block)) (\<lambda>p.
     bindR (block_get_priority st other) (\<lambda>q.
       Inr (memcmp p q (generichash_BYTES S) < 0)))"

definition take_over :: "blockchain_t \<Rightarrow> addr \<Rightarrow> event \<times> blockchain_t" where
  "take_over bc block = (Some (principal bc, Some block), bc\<lparr>principal := Some block\<rparr>)"

definition choose_principal :: "sodium \<Rightarrow> store \<Rightarrow> blockchain_t \<Rightarrow> addr \<Rightarrow> (event \<times> blockchain_t) res" where
  "choose_principal S st bc block =
     bindR (block_get_height st (principal bc)) (\<lambda>_.
     bindR (block_get_height st (Some block)) (\<lambda>_.
     bindR (block_get_prev st (Some block)) (\<lambda>prev.
     if prev = principal bc then Inr (take_over bc block) else
     bindR (block_get_prev st (principal bc)) (\<lambda>principal_prev.
     if prev = principal_prev then
       bindR (beats S st block (principal bc)) (\<lambda>better.
         Inr (if better then take_over bc block else (None, bc)))
     else
       bindR (fork_loop (Suc (length (s_blocks st))) st prev (principal bc) None) (\<lambda>(iter, before).
       if prev = iter then
         bindR (beats S st block before) (\<lambda>better.
           Inr (if better then take_over bc block else (None, bc)))
       else Inr (None, bc))))))"

definition register_txn :: "store \<Rightarrow> addr \<Rightarrow> nat \<Rightarrow> (byte list, addr) map_t \<Rightarrow> (byte list, addr) map_t res" where
  "register_txn st block i m =
     bindR (block_get_transaction st block i) (\<lambda>p.
     bindR (load_txn st p) (\<lambda>txn.
     bindR (map_set m (thash txn) (the p)) (\<lambda>(_, _, m). Inr m)))"

definition blockchain_add_block ::
  "sodium \<Rightarrow> store \<Rightarrow> blockchain_t \<Rightarrow> addr \<Rightarrow> (bool \<times> event \<times> blockchain_t \<times> store) res" where
  "blockchain_add_block S st bc block =
     bindR (block_get_hash S st (Some block)) (\<lambda>h.
     bindR (map_get (bc_blocks bc) h) (\<lambda>old.
     if old \<noteq> None then
       bindR (block_destroy st (Some block)) (\<lambda>st. Inr (False, None, bc, st))
     else
       bindR (map_set (bc_blocks bc) h block) (\<lambda>(_, _, m).
       bindR (block_get_prev st (Some block)) (\<lambda>prev.
       bindR (case prev of None \<Rightarrow> Inr st | Some p \<Rightarrow> block_add_child st p block) (\<lambda>st.
       bindR (block_get_transaction_count st block) (\<lambda>n.
       bindR (foldR (register_txn st block) [0..<n] (bc_txns bc)) (\<lambda>txns.
       bindR (choose_principal S st (bc\<lparr>bc_blocks := m, bc_txns := txns\<rparr>) block) (\<lambda>(ev, bc).
         Inr (True, ev, bc, st)))))))))"

definition blockchain_get_block :: "blockchain_t \<Rightarrow> byte list \<Rightarrow> addr option res" where
  "blockchain_get_block bc h = map_get (bc_blocks bc) h"

definition blockchain_get_transaction :: "blockchain_t \<Rightarrow> byte list \<Rightarrow> addr option res" where
  "blockchain_get_transaction bc h = map_get (bc_txns bc) h"

definition blockchain_get_principal :: "blockchain_t \<Rightarrow> addr option" where
  "blockchain_get_principal bc = principal bc"

definition blockchain_destroy :: "store \<Rightarrow> blockchain_t \<Rightarrow> store res" where
  "blockchain_destroy st bc =
     bindR (map_destroy (bc_blocks bc)) (\<lambda>calls.
     bindR (foldR (\<lambda>c st. case c of Destroy_key _ \<Rightarrow> Inr st | Destroy_val v \<Rightarrow> block_destroy st v) calls st) (\<lambda>st.
     bindR (map_destroy (bc_txns bc)) (\<lambda>_. Inr st)))"

definition blockchain_height :: "store \<Rightarrow> blockchain_t \<Rightarrow> u64 res" where
  "blockchain_height st bc =
     (if principal bc = None then Inr 0
      else bindR (block_get_height st (principal bc)) (\<lambda>h. Inr (ucast h)))"

section \<open>Chains\<close>

lemma chain_le:
  assumes "blocks_ok st n" "known st n bo"
  shows "c \<in> set (chain st bo) \<Longrightarrow> \<exists>b. bo = Some b \<and> c \<le> b"
  using assms
proof (induction rule: chain_induct)
  case (step b)
  show ?case
  proof (cases "c = b")
    case False
    then have "c \<in> set (chain st (prev_block (blk st b)))" using step.prems step(5) by (simp add: chain_Some)
    from step(7) [OF this] obtain p where "prev_block (blk st b) = Some p" "c \<le> p" by blast
    then show ?thesis using step(5) by fastforce
  qed simp
qed simp

lemma chain_prev_inj:
  assumes "blocks_ok st n" "known st n bo" "c \<in> set (chain st bo)" "d \<in> set (chain st bo)"
    "prev_block (blk st c) = prev_block (blk st d)"
  shows "c = d"
  using assms(1,2,3,4,5)
proof (induction rule: chain_induct)
  case (step b)
  have below: False if x: "x \<in> set (chain st (prev_block (blk st b)))" "prev_block (blk st x) = prev_block (blk st b)" for x
  proof -
    obtain p where p: "prev_block (blk st b) = Some p" "x \<le> p" using chain_le [OF assms(1) step(6) x(1)] by blast
    have "alive (s_blocks st) x" "x < n" using chain_length(2) [OF assms(1) step(6)] x(1) by auto
    then have "body_ok st x (blk st x)" using blocks_okD(1) [OF assms(1)] by blast
    then have "p < x" using x(2) p(1) by (simp add: body_ok_def)
    then show False using p(2) by simp
  qed
  have "c = b \<or> c \<in> set (chain st (prev_block (blk st b)))" "d = b \<or> d \<in> set (chain st (prev_block (blk st b)))"
    using step.prems(1,2) step(5) by (simp_all add: chain_Some)
  then show ?case
    using step(7) [OF _ _ step.prems(3)] below [of c] below [of d] step.prems(3) by metis
qed simp

lemma chain_sub:
  assumes "blocks_ok st n" "known st n bo" "c \<in> set (chain st bo)"
  shows "set (chain st (prev_block (blk st c))) \<subseteq> set (chain st bo)"
  using assms
proof (induction rule: chain_induct)
  case (step b)
  then show ?case using step(5) by (auto simp: chain_Some)
qed simp

text \<open>Where the loop stops, and what it has seen last.\<close>

lemma fork_loop_result:
  assumes "blocks_ok st n" "known st n iter" "length (chain st iter) < fuel"
  shows "\<exists>it before. fork_loop fuel st target iter prev = Inr (it, before) \<and>
    (it = target \<longleftrightarrow> target = None \<or> target \<in> Some ` set (chain st iter)) \<and>
    (if target = iter \<or> iter = None then before = prev
     else \<exists>c. before = Some c \<and> c \<in> set (chain st iter) \<and> prev_block (blk st c) = it)"
  using assms
proof (induction arbitrary: fuel prev rule: chain_induct)
  case root
  then obtain f where "fuel = Suc f" by (cases fuel) auto
  then show ?case by auto
next
  case (step b)
  then obtain f where f: "fuel = Suc f" by (cases fuel) auto
  let ?p = "prev_block (blk st b)"
  note ch = chain_Some [OF step(5)]
  show ?case
  proof (cases "target = Some b")
    case True
    then show ?thesis by (simp add: f ch)
  next
    case False
    have "length (chain st ?p) < f" using step.prems f ch by simp
    from step(7) [OF this, of "Some b"] obtain it before where r: "fork_loop f st target ?p (Some b) = Inr (it, before)"
        "it = target \<longleftrightarrow> target = None \<or> target \<in> Some ` set (chain st ?p)"
        "if target = ?p \<or> ?p = None then before = Some b
         else \<exists>c. before = Some c \<and> c \<in> set (chain st ?p) \<and> prev_block (blk st c) = it"
      by blast
    have it: "it = ?p" if "target = ?p \<or> ?p = None" using r(1) that by (cases f) auto
    have "fork_loop fuel st target (Some b) prev = Inr (it, before)"
      using r(1) False step(2) by (simp add: f block_get_prev_def)
    moreover have "\<exists>c. before = Some c \<and> c \<in> set (chain st (Some b)) \<and> prev_block (blk st c) = it"
      using r(3) it by (cases "target = ?p \<or> ?p = None") (auto simp: ch)
    moreover have "it = target \<longleftrightarrow> target = None \<or> target \<in> Some ` set (chain st (Some b))"
      using r(2) False by (auto simp: ch)
    ultimately show ?thesis using False by auto
  qed
qed

section \<open>The invariant\<close>

definition registered :: "blockchain_t \<Rightarrow> addr set" where
  "registered bc = ran (map_abs (bc_blocks bc))"

text \<open>
  The principal chain is the greedy path: of the registered blocks with the same previous block, the
  one on the chain has the least priority, and the principal block is the previous block of none.
\<close>

definition greedy :: "store \<Rightarrow> addr set \<Rightarrow> addr option \<Rightarrow> bool" where
  "greedy st R tip \<longleftrightarrow>
     (\<forall>c \<in> set (chain st tip). \<forall>b \<in> R. prev_block (blk st b) = prev_block (blk st c) \<longrightarrow>
        sortition_priority (blk st c) \<le> sortition_priority (blk st b)) \<and>
     (\<forall>b \<in> R. prev_block (blk st b) \<noteq> tip)"

definition tree_ok :: "store \<Rightarrow> blockchain_t \<Rightarrow> bool" where
  "tree_ok st bc \<longleftrightarrow> map_ok key_ok (bc_blocks bc) \<and>
     (\<forall>h b. map_abs (bc_blocks bc) h = Some b \<longrightarrow> alive (s_blocks st) b \<and> bhash (blk st b) = h) \<and>
     (\<forall>b \<in> registered bc. \<forall>p. prev_block (blk st b) = Some p \<longrightarrow> p \<in> registered bc) \<and>
     (\<forall>b \<in> registered bc. set (list_elems (children (blk st b))) =
        {c \<in> registered bc. prev_block (blk st c) = Some b})"

definition txn_index_ok :: "store \<Rightarrow> blockchain_t \<Rightarrow> bool" where
  "txn_index_ok st bc \<longleftrightarrow> map_ok key_ok (bc_txns bc) \<and>
     dom (map_abs (bc_txns bc)) = (\<Union>b \<in> registered bc. thash ` set (block_txns st (blk st b))) \<and>
     (\<forall>h a. map_abs (bc_txns bc) h = Some a \<longrightarrow> thash (obj (s_txns st) a) = h \<and>
        (\<exists>b \<in> registered bc. Some a \<in> set (list_elems (transactions (blk st b)))))"

definition chain_state_ok :: "store \<Rightarrow> blockchain_t \<Rightarrow> bool" where
  "chain_state_ok st bc \<longleftrightarrow> tree_ok st bc \<and> txn_index_ok st bc \<and> greedy st (registered bc) (principal bc) \<and>
     (principal bc = None \<longrightarrow> registered bc = {}) \<and>
     (\<forall>t. principal bc = Some t \<longrightarrow> t \<in> registered bc)"

text \<open>The map of blocks destroys its values, as \<open>blockchain_create\<close> makes it.\<close>

definition owns_blocks :: "blockchain_t \<Rightarrow> bool" where
  "owns_blocks bc \<longleftrightarrow> m_destroy_val (bc_blocks bc)"

lemma owns_blocks_create: "owns_blocks (blockchain_create S)"
  by (simp add: owns_blocks_def blockchain_create_def map_create_def)

lemma choose_principal_blocks:
  "choose_principal S st bc b = Inr (ev, bc') \<Longrightarrow> bc_blocks bc' = bc_blocks bc"
  by (auto simp: choose_principal_def bindR_eq_Inr take_over_def split: if_splits)

lemma add_block_owns_blocks:
  assumes "owns_blocks bc" "blockchain_add_block S st bc b = Inr (r, ev, bc', st')"
  shows "owns_blocks bc'"
proof -
  have "owns_blocks bc'" if "map_set (bc_blocks bc) h b = Inr (old, calls, m)"
      "choose_principal S st'' (bc\<lparr>bc_blocks := m, bc_txns := t\<rparr>) b = Inr (ev, bc')" for h old calls m t st''
    using choose_principal_blocks [OF that(2)] map_set_flags [OF that(1)] assms(1) by (simp add: owns_blocks_def)
  then show ?thesis
    using assms by (auto simp: blockchain_add_block_def bindR_eq_Inr split: if_splits)
qed

lemma registered_iff: "b \<in> registered bc \<longleftrightarrow> (\<exists>h. map_abs (bc_blocks bc) h = Some b)"
  by (auto simp: registered_def ran_def)

lemma principal_update [simp]:
  "registered (bc\<lparr>principal := p\<rparr>) = registered bc" "tree_ok st (bc\<lparr>principal := p\<rparr>) \<longleftrightarrow> tree_ok st bc"
  "txn_index_ok st (bc\<lparr>principal := p\<rparr>) \<longleftrightarrow> txn_index_ok st bc"
  by (simp_all add: registered_def tree_ok_def txn_index_ok_def)

lemma tree_okD:
  assumes "tree_ok st bc"
  shows "map_ok key_ok (bc_blocks bc)"
    "b \<in> registered bc \<Longrightarrow> alive (s_blocks st) b"
    "b \<in> registered bc \<Longrightarrow> map_abs (bc_blocks bc) (bhash (blk st b)) = Some b"
    "b \<in> registered bc \<Longrightarrow> prev_block (blk st b) = Some p \<Longrightarrow> p \<in> registered bc"
    "b \<in> registered bc \<Longrightarrow> set (list_elems (children (blk st b))) = {c \<in> registered bc. prev_block (blk st c) = Some b}"
    "map_abs (bc_blocks bc) h = Some c \<Longrightarrow> alive (s_blocks st) c \<and> bhash (blk st c) = h"
  using assms by (auto simp: tree_ok_def registered_iff)

lemma registered_known:
  assumes "tree_ok st bc" "\<forall>p. bo = Some p \<longrightarrow> p \<in> registered bc"
  shows "known st (length (s_blocks st)) bo"
  using tree_okD(2) [OF assms(1)] assms(2) by (auto simp: known_def alive_less)

lemma chain_registered:
  assumes "good_store S st" "tree_ok st bc" "\<forall>p. bo = Some p \<longrightarrow> p \<in> registered bc"
  shows "set (chain st bo) \<subseteq> registered bc"
proof -
  have bo: "blocks_ok st (length (s_blocks st))" using assms(1) by (simp add: good_store_def store_ok_def)
  from bo registered_known [OF assms(2,3)] assms(3) show ?thesis
  proof (induction rule: chain_induct)
    case (step b)
    then have "b \<in> registered bc" by simp
    then have "\<forall>p. prev_block (blk st b) = Some p \<longrightarrow> p \<in> registered bc"
      using tree_okD(4) [OF assms(2)] by blast
    then show ?case using step(5,7) \<open>b \<in> registered bc\<close> by (simp add: chain_Some)
  qed simp
qed

lemma chain_state_ok_create:
  assumes "sodium_ok S kp"
  shows "chain_state_ok st (blockchain_create S)"
proof -
  have m: "map_ok key_ok (map_create (2 ^ 12) (key_hash S) dk dv (key_compare S) :: (byte list, addr) map_t)"
      "map_abs (map_create (2 ^ 12) (key_hash S) dk dv (key_compare S) :: (byte list, addr) map_t) = Map.empty" for dk dv
    using new_accounts_map [OF assms, of "2 ^ 12" dk dv] by simp_all
  then show ?thesis
    by (simp add: chain_state_ok_def tree_ok_def txn_index_ok_def greedy_def registered_def blockchain_create_def
      N_BLOCK_BUCKETS_def N_TXN_BUCKETS_def)
qed

section \<open>Registering the transactions\<close>

lemma register_txns_result:
  assumes m: "map_ok key_ok m" and b: "alive (s_blocks st) b" "list_rd (transactions (blk st b))"
    and p: "\<forall>p \<in> set (list_elems (transactions (blk st b))).
      \<exists>q. p = Some q \<and> alive (s_txns st) q \<and> length (thash (obj (s_txns st) q)) = 32"
    and i: "set is \<subseteq> {..<length (list_elems (transactions (blk st b)))}"
  defines "ptr \<equiv> \<lambda>i. the (list_elems (transactions (blk st b)) ! i)"
  shows "\<exists>m'. foldR (register_txn st b) is m = Inr m' \<and> map_ok key_ok m' \<and>
    dom (map_abs m') = dom (map_abs m) \<union> (\<lambda>i. thash (obj (s_txns st) (ptr i))) ` set is \<and>
    (\<forall>h a. map_abs m' h = Some a \<longrightarrow> map_abs m h = Some a \<or> (\<exists>i \<in> set is. a = ptr i \<and> thash (obj (s_txns st) a) = h))"
  using m i
proof (induction "is" arbitrary: m)
  case (Cons i "is")
  then have i: "i < length (list_elems (transactions (blk st b)))" by simp
  then obtain q where q: "list_elems (transactions (blk st b)) ! i = Some q" "alive (s_txns st) q"
      "length (thash (obj (s_txns st) q)) = 32"
    using p nth_mem by blast
  have ptr: "ptr i = q" by (simp add: ptr_def q(1))
  have "key_ok (thash (obj (s_txns st) q))" using q(3) by (simp add: key_ok_def)
  then obtain d m1 where m1: "map_set m (thash (obj (s_txns st) q)) q = Inr (map_abs m (thash (obj (s_txns st) q)), d, m1)"
      "map_ok key_ok m1" "map_abs m1 = (map_abs m)(thash (obj (s_txns st) q) \<mapsto> q)"
    using cmap.store_law [OF Cons.prems(1), of "thash (obj (s_txns st) q)" q] by blast
  have "register_txn st b i m = Inr m1"
    using b i q(1,2) m1(1) by (simp add: register_txn_def block_get_transaction_def list_get_rd load_txn_def)
  moreover obtain m' where m': "foldR (register_txn st b) is m1 = Inr m'" "map_ok key_ok m'"
    "dom (map_abs m') = dom (map_abs m1) \<union> (\<lambda>i. thash (obj (s_txns st) (ptr i))) ` set is"
    "\<forall>h a. map_abs m' h = Some a \<longrightarrow> map_abs m1 h = Some a \<or> (\<exists>i \<in> set is. a = ptr i \<and> thash (obj (s_txns st) a) = h)"
    using Cons.IH [OF m1(2)] Cons.prems(2) by auto
  moreover have "dom (map_abs m') = dom (map_abs m) \<union> (\<lambda>i. thash (obj (s_txns st) (ptr i))) ` set (i # is)"
    using m'(3) by (simp add: m1(3) ptr)
  moreover have "\<forall>h a. map_abs m' h = Some a \<longrightarrow> map_abs m h = Some a \<or>
      (\<exists>j \<in> set (i # is). a = ptr j \<and> thash (obj (s_txns st) a) = h)"
    using m'(4) unfolding m1(3) by (auto simp: ptr split: if_splits)
  ultimately show ?case by (intro exI [of _ m']) simp
qed simp

section \<open>The choice of the principal block\<close>

definition better :: "store \<Rightarrow> addr option \<Rightarrow> addr \<Rightarrow> bool" where
  "better st tip b \<longleftrightarrow> prev_block (blk st b) = tip \<or>
     (\<exists>c \<in> set (chain st tip). prev_block (blk st c) = prev_block (blk st b) \<and>
        sortition_priority (blk st b) < sortition_priority (blk st c))"

lemma length_priority:
  "sodium_ok S kp \<Longrightarrow> good_store S st \<Longrightarrow> alive (s_blocks st) b \<Longrightarrow> length (sortition_priority (blk st b)) = 32"
  using good_storeD(3) [of S st b] by (simp add: authentic_def delegate_priority_def sodium_sizes)

lemma beats_result:
  assumes "sodium_ok S kp" "good_store S st" "alive (s_blocks st) b" "alive (s_blocks st) c"
  shows "beats S st b (Some c) = Inr (sortition_priority (blk st b) < sortition_priority (blk st c))"
  using memcmp_less [of 32 "sortition_priority (blk st b)" "sortition_priority (blk st c)"]
    length_priority [OF assms(1,2)] assms
  by (simp add: beats_def block_get_priority_def sodium_sizes)

lemma choose_principal_result:
  assumes S: "sodium_ok S kp" and ok: "good_store S st" and tip: "known st (length (s_blocks st)) (principal bc)"
    and b: "alive (s_blocks st) b" and root: "principal bc = None \<Longrightarrow> prev_block (blk st b) = None"
  shows "choose_principal S st bc b =
    Inr (if better st (principal bc) b then take_over bc b else (None, bc))"
proof -
  let ?n = "length (s_blocks st)" and ?prev = "prev_block (blk st b)" and ?tip = "principal bc"
  have bo: "blocks_ok st ?n" using ok by (simp add: good_store_def store_ok_def)
  have h: "block_get_height st ?tip = Inr (of_nat (length (chain st ?tip)))" "block_get_height st (Some b) = Inr (height (blk st b))"
    using height_chain [OF bo tip] b by (simp_all add: block_get_height_def)
  have prev: "block_get_prev st (Some b) = Inr ?prev" using b by (simp add: block_get_prev_def)
  show ?thesis
  proof (cases "?prev = ?tip")
    case True
    then show ?thesis by (simp add: choose_principal_def better_def h prev)
  next
    case False
    then obtain t where t: "?tip = Some t" using root by (cases ?tip) auto
    then have tk: "t < ?n" "alive (s_blocks st) t" using tip by auto
    have tp: "block_get_prev st ?tip = Inr (prev_block (blk st t))" using tk t by (simp add: block_get_prev_def)
    have ch: "chain st ?tip = t # chain st (prev_block (blk st t))" using chain_ok [OF bo tk] t by simp
    have only: "better st ?tip b \<longleftrightarrow> sortition_priority (blk st b) < sortition_priority (blk st c)"
      if c: "c \<in> set (chain st ?tip)" "prev_block (blk st c) = ?prev" for c
    proof -
      have "d = c" if "d \<in> set (chain st ?tip)" "prev_block (blk st d) = ?prev" for d
        by (rule chain_prev_inj [OF bo tip that(1) c(1)]) (simp only: that(2) c(2))
      then show ?thesis using c False unfolding better_def by metis
    qed
    show ?thesis
    proof (cases "?prev = prev_block (blk st t)")
      case True
      then show ?thesis
        using h prev False tp only [of t] beats_result [OF S ok b tk(2)] ch
        by (simp add: choose_principal_def t)
    next
      case prev': False
      have "length (chain st ?tip) < Suc ?n" using chain_length(1) [OF bo tip] by simp
      from fork_loop_result [OF bo tip this, of ?prev None] False t
      obtain it c where r: "fork_loop (Suc ?n) st ?prev ?tip None = Inr (it, Some c)"
          "it = ?prev \<longleftrightarrow> ?prev = None \<or> ?prev \<in> Some ` set (chain st ?tip)"
          "c \<in> set (chain st ?tip)" "prev_block (blk st c) = it"
        by auto
      have ck: "alive (s_blocks st) c" using chain_length(2) [OF bo tip] r(3) by blast
      have run: "choose_principal S st bc b =
          bindR (fork_loop (Suc ?n) st ?prev ?tip None) (\<lambda>(iter, before).
            if ?prev = iter then bindR (beats S st b before) (\<lambda>better. Inr (if better then take_over bc b else (None, bc)))
            else Inr (None, bc))"
        by (simp only: choose_principal_def h prev tp bindR_simps False prev' if_False)
      show ?thesis
      proof (cases "?prev = it")
        case True
        then show ?thesis
          using run r(1,3,4) only [of c] beats_result [OF S ok b ck] by simp
      next
        case nf: False
        have "\<not> better st ?tip b"
        proof
          assume "better st ?tip b"
          then obtain d where d: "d \<in> set (chain st ?tip)" "prev_block (blk st d) = ?prev"
            using False by (auto simp: better_def)
          then obtain p where p: "?prev = Some p" using nf r(2) by (cases ?prev) auto
          have "p < ?n" "alive (s_blocks st) p"
            using p prev_known(1) [OF good_storeD(1) [OF ok b], of ?n] alive_less [OF b] by simp_all
          then have "p \<in> set (chain st ?prev)" unfolding p using chain_ok [OF bo] by simp
          then have "p \<in> set (chain st ?tip)" using chain_sub [OF bo tip d(1)] d(2) by auto
          then show False using nf r(2) p by auto
        qed
        then show ?thesis using run r(1) nf by simp
      qed
    qed
  qed
qed

text \<open>A block that takes over, or does not, keeps the principal chain greedy.\<close>

lemma greedy_step:
  assumes ok: "good_store S st" and R: "\<forall>c \<in> R. alive (s_blocks st) c"
    "\<forall>c \<in> R. \<forall>p. prev_block (blk st c) = Some p \<longrightarrow> p \<in> R"
    and tip: "\<forall>t. tip = Some t \<longrightarrow> t \<in> R" and sub: "set (chain st tip) \<subseteq> R"
    and b: "alive (s_blocks st) b" "b \<notin> R"
    and g: "greedy st R tip"
  shows "greedy st (insert b R) (if better st tip b then Some b else tip)"
proof -
  let ?n = "length (s_blocks st)"
  have bo: "blocks_ok st ?n" using ok by (simp add: good_store_def store_ok_def)
  have tk: "known st ?n tip" using tip R(1) by (auto simp: known_def alive_less)
  have pb: "prev_block (blk st b) \<noteq> Some b"
    using good_storeD(1) [OF ok b(1)] by (auto simp: body_ok_def)
  have leaf: "\<forall>c \<in> insert b R. prev_block (blk st c) \<noteq> Some b" using R(2) b(2) pb by blast
  have ch: "chain st (Some b) = b # chain st (prev_block (blk st b))"
    using chain_ok [OF bo alive_less [OF b(1)] b(1)] .
  have kids: "\<forall>c \<in> R. prev_block (blk st c) \<noteq> tip" using g by (simp add: greedy_def)
  have min: "sortition_priority (blk st c) \<le> sortition_priority (blk st x)"
    if "c \<in> set (chain st tip)" "x \<in> R" "prev_block (blk st x) = prev_block (blk st c)" for c x
    using g that unfolding greedy_def by blast
  consider (extend) "prev_block (blk st b) = tip"
    | (fork) c where "c \<in> set (chain st tip)" "prev_block (blk st c) = prev_block (blk st b)"
        "sortition_priority (blk st b) < sortition_priority (blk st c)"
    | (stay) "\<not> better st tip b"
    unfolding better_def by blast
  then show ?thesis
  proof cases
    case extend
    have "greedy st (insert b R) (Some b)"
      unfolding greedy_def ch extend
    proof (intro conjI ballI impI)
      fix c x assume c: "c \<in> set (b # chain st tip)" and x: "x \<in> insert b R" "prev_block (blk st x) = prev_block (blk st c)"
      show "sortition_priority (blk st c) \<le> sortition_priority (blk st x)"
      proof (cases "c = b")
        case True
        then show ?thesis using x kids extend by auto
      next
        case False
        then have c': "c \<in> set (chain st tip)" "c \<in> R" using c sub by auto
        then have "x \<noteq> b" using x(2) kids extend by metis
        then show ?thesis using x c'(1) min by blast
      qed
    qed (use leaf in blast)
    then show ?thesis using extend by (simp add: better_def)
  next
    case fork
    have "set (chain st (prev_block (blk st b))) \<subseteq> set (chain st tip)"
      using chain_sub [OF bo tk fork(1)] fork(2) by simp
    have "greedy st (insert b R) (Some b)"
      unfolding greedy_def ch
    proof (intro conjI ballI impI)
      fix d x assume d: "d \<in> set (b # chain st (prev_block (blk st b)))"
        and x: "x \<in> insert b R" "prev_block (blk st x) = prev_block (blk st d)"
      have below: "prev_block (blk st d) \<noteq> prev_block (blk st b)" if dc: "d \<in> set (chain st (prev_block (blk st b)))"
      proof
        assume e: "prev_block (blk st d) = prev_block (blk st b)"
        have kb: "known st ?n (prev_block (blk st b))"
          using prev_known(1) [OF good_storeD(1) [OF ok b(1)]] alive_less [OF b(1)] by simp
        obtain p where p: "prev_block (blk st b) = Some p" "d \<le> p" using chain_le [OF bo kb dc] by blast
        have "alive (s_blocks st) d" using chain_length(2) [OF bo kb] dc by blast
        then have "p < d" using good_storeD(1) [OF ok] e p(1) by (auto simp: body_ok_def)
        then show False using p(2) by simp
      qed
      show "sortition_priority (blk st d) \<le> sortition_priority (blk st x)"
      proof (cases "d = b")
        case True
        show ?thesis
        proof (cases "x = b")
          case False
          then have "sortition_priority (blk st c) \<le> sortition_priority (blk st x)"
            using min [OF fork(1), of x] x fork(2) True by simp
          then show ?thesis using fork(3) True by simp
        qed (simp add: True)
      next
        case False
        then have dc: "d \<in> set (chain st (prev_block (blk st b)))" using d by simp
        then have d': "d \<in> set (chain st tip)" using chain_sub [OF bo tk fork(1)] fork(2) by auto
        have "x \<noteq> b" using x(2) below [OF dc] by auto
        then show ?thesis using x min [OF d'] by blast
      qed
    qed (use leaf in blast)
    moreover have "better st tip b" using fork unfolding better_def by blast
    ultimately show ?thesis by simp
  next
    case stay
    have "sortition_priority (blk st c) \<le> sortition_priority (blk st x)"
      if "c \<in> set (chain st tip)" "x \<in> insert b R" "prev_block (blk st x) = prev_block (blk st c)" for c x
    proof (cases "x = b")
      case True
      then have "\<not> sortition_priority (blk st b) < sortition_priority (blk st c)"
        using that(1,3) stay unfolding better_def by (metis (no_types))
      then show ?thesis using True by simp
    next
      case False
      then show ?thesis using that min by blast
    qed
    moreover have "\<forall>x \<in> insert b R. prev_block (blk st x) \<noteq> tip"
      using kids stay by (auto simp: better_def)
    ultimately show ?thesis using stay unfolding greedy_def by simp
  qed
qed

section \<open>Adding a block\<close>

lemma block_add_child_result:
  assumes ok: "good_store S st" and p: "alive (s_blocks st) p"
  shows "\<exists>st'. block_add_child st p b = Inr st' \<and> extends (length (s_blocks st)) st st' \<and>
    length (s_blocks st') = length (s_blocks st) \<and> s_txns st' = s_txns st \<and> s_accounts st' = s_accounts st \<and>
    list_elems (children (blk st' p)) = list_elems (children (blk st p)) @ [b] \<and>
    (\<forall>c. c \<noteq> p \<longrightarrow> s_blocks st' ! c = s_blocks st ! c)"
proof -
  have bo: "blocks_ok st (length (s_blocks st))" using ok by (simp add: good_store_def store_ok_def)
  have l: "list_ok (children (blk st p))" using good_storeD(1) [OF ok p] by (simp add: body_ok_def)
  obtain l' where l': "list_add (children (blk st p)) b = Inr l'" "list_ok l'"
      "list_elems l' = list_elems (children (blk st p)) @ [b]"
    using clist.addE [OF l] by blast
  let ?st = "st\<lparr>s_blocks := (s_blocks st)[p := Some ((blk st p)\<lparr>children := l'\<rparr>)]\<rparr>"
  have "block_add_child st p b = Inr ?st" using p l'(1) by (simp add: block_add_child_def)
  moreover have "extends (length (s_blocks st)) st ?st"
    using blocks_ok_refl [OF bo] l'(2) alive_less [OF p] p
    by (auto simp: extends_def nth_list_update)
  ultimately show ?thesis using l'(3) alive_less [OF p] by auto
qed

lemma good_store_extends:
  assumes "good_store S st" "extends (length (s_blocks st)) st st'" "length (s_blocks st') = length (s_blocks st)"
  shows "good_store S st'"
  using assms blocks_ok_extends [OF _ assms(2)] blocks_authentic_extends [OF _ _ assms(2)]
  by (simp add: good_store_def store_ok_def)

lemma block_txns_extends:
  assumes "good_store S st" "extends (length (s_blocks st)) st st'" "alive (s_blocks st) b"
  shows "block_txns st' (blk st' b) = block_txns st (blk st b)"
proof -
  have "transactions (blk st' b) = transactions (blk st b)"
    using extends_fields(3) [OF assms(2) alive_less [OF assms(3)] assms(3)] .
  moreover have "\<forall>p \<in> set (list_elems (transactions (blk st b))). \<exists>q. p = Some q \<and> alive (s_txns st) q"
    using good_storeD(1) [OF assms(1,3)] by (auto simp: body_ok_def txn_ptr_ok_def)
  ultimately show ?thesis using extendsD(5) [OF assms(2)] by (fastforce simp: block_txns_def)
qed

text \<open>Linking a new block into the tree.\<close>

lemma link_block:
  assumes S: "sodium_ok S kp" and ok: "good_store S st" and tr: "tree_ok st bc"
    and b: "alive (s_blocks st) b" "list_elems (children (blk st b)) = []" "b \<notin> registered bc"
    and prev: "\<forall>p. prev_block (blk st b) = Some p \<longrightarrow> p \<in> registered bc"
    and new: "map_abs (bc_blocks bc) (bhash (blk st b)) = None"
  shows "\<exists>d m st'. map_set (bc_blocks bc) (bhash (blk st b)) b = Inr (None, d, m) \<and>
    (case prev_block (blk st b) of None \<Rightarrow> Inr st | Some p \<Rightarrow> block_add_child st p b) = Inr st' \<and>
    extends (length (s_blocks st)) st st' \<and> length (s_blocks st') = length (s_blocks st) \<and>
    s_txns st' = s_txns st \<and> s_accounts st' = s_accounts st \<and>
    registered (bc\<lparr>bc_blocks := m\<rparr>) = insert b (registered bc) \<and> tree_ok st' (bc\<lparr>bc_blocks := m\<rparr>)"
proof -
  have bo: "blocks_ok st (length (s_blocks st))" using ok by (simp add: good_store_def store_ok_def)
  note T = tree_okD [OF tr]
  have "length (bhash (blk st b)) = 32"
    using good_storeD(3) [OF ok b(1)] by (auto simp: authentic_def sodium_sizes [OF S] simp del: enc.simps)
  then have k: "key_ok (bhash (blk st b))" by (simp add: key_ok_def)
  obtain d m where m: "map_set (bc_blocks bc) (bhash (blk st b)) b = Inr (None, d, m)" "map_ok key_ok m"
      "map_abs m = (map_abs (bc_blocks bc))(bhash (blk st b) \<mapsto> b)"
    using cmap.store_law [OF T(1) k, of b] new by auto
  obtain st' where st': "(case prev_block (blk st b) of None \<Rightarrow> Inr st | Some p \<Rightarrow> block_add_child st p b) = Inr st'"
      "extends (length (s_blocks st)) st st'" "length (s_blocks st') = length (s_blocks st)"
      "s_txns st' = s_txns st" "s_accounts st' = s_accounts st"
      "\<forall>p. prev_block (blk st b) = Some p \<longrightarrow> list_elems (children (blk st' p)) = list_elems (children (blk st p)) @ [b]"
      "\<forall>c. prev_block (blk st b) \<noteq> Some c \<longrightarrow> s_blocks st' ! c = s_blocks st ! c"
  proof (cases "prev_block (blk st b)")
    case None
    then show ?thesis using that [of st] blocks_ok_refl [OF bo] by simp
  next
    case (Some p)
    then have "alive (s_blocks st) p" using prev T(2) by blast
    from block_add_child_result [OF ok this, of b] show ?thesis using that Some by fastforce
  qed
  let ?R = "insert b (registered bc)" and ?bc = "bc\<lparr>bc_blocks := m\<rparr>"
  have R: "registered ?bc = ?R" using new by (auto simp: registered_def m(3) ran_map_upd)
  have al: "\<forall>c \<in> ?R. alive (s_blocks st) c" using b(1) T(2) by blast
  have F: "prev_block (blk st' c) = prev_block (blk st c)" "bhash (blk st' c) = bhash (blk st c)" "alive (s_blocks st') c"
    if "c \<in> ?R" for c
    using extends_fields(1,6,9) [OF st'(2), of c] al that alive_less by blast+
  have nb: "prev_block (blk st c) \<noteq> Some b" if "c \<in> ?R" for c
    using that T(4) b(3) good_storeD(1) [OF ok b(1)] by (auto simp: body_ok_def)
  have "tree_ok st' ?bc"
    unfolding tree_ok_def R
  proof (intro conjI allI impI ballI)
    show "map_ok key_ok (bc_blocks ?bc)" using m(2) by simp
  next
    fix h c assume "map_abs (bc_blocks ?bc) h = Some c"
    then have "(h = bhash (blk st b) \<and> c = b) \<or> map_abs (bc_blocks bc) h = Some c"
      by (auto simp: m(3) split: if_splits)
    then show "alive (s_blocks st') c" "bhash (blk st' c) = h"
      using F [of c] T(6) [of h c] by (auto simp: registered_iff)
  next
    fix c p assume "c \<in> ?R" "prev_block (blk st' c) = Some p"
    then show "p \<in> ?R" using F(1) [of c] T(4) [of c p] prev by auto
  next
    fix c assume c: "c \<in> ?R"
    have new: "{x \<in> ?R. prev_block (blk st' x) = Some c} = {x \<in> ?R. prev_block (blk st x) = Some c}"
      using F(1) by auto
    show "set (list_elems (children (blk st' c))) = {x \<in> ?R. prev_block (blk st' x) = Some c}"
    proof (cases "c = b")
      case True
      have "prev_block (blk st b) \<noteq> Some b" using nb [of b] by simp
      then have "children (blk st' b) = children (blk st b)" using st'(7) by simp
      then show ?thesis unfolding new unfolding True using b(2) nb by auto
    next
      case False
      then have c': "c \<in> registered bc" using c by simp
      show ?thesis
      proof (cases "prev_block (blk st b) = Some c")
        case True
        then show ?thesis unfolding new using st'(6) T(5) [OF c'] by auto
      next
        case False
        then show ?thesis unfolding new using st'(7) T(5) [OF c'] by auto
      qed
    qed
  qed
  then show ?thesis using m(1) st'(1-5) R by blast
qed

lemma greedy_extends:
  assumes ok: "good_store S st" and e: "extends (length (s_blocks st)) st st'" and R: "\<forall>c \<in> R. alive (s_blocks st) c"
    and tip: "known st (length (s_blocks st)) tip"
  shows "greedy st' R tip \<longleftrightarrow> greedy st R tip"
proof -
  have bo: "blocks_ok st (length (s_blocks st))" using ok by (simp add: good_store_def store_ok_def)
  have F: "prev_block (blk st' c) = prev_block (blk st c) \<and> sortition_priority (blk st' c) = sortition_priority (blk st c)"
    if "alive (s_blocks st) c" for c
    using extends_fields(1,7) [OF e alive_less [OF that] that] by simp
  have "alive (s_blocks st) c" if "c \<in> set (chain st tip)" for c
    using chain_length(2) [OF bo tip] that by blast
  then show ?thesis
    unfolding greedy_def chain_extends(1) [OF bo tip e] using F R by simp
qed

lemma txn_index_extends:
  assumes ok: "good_store S st" and e: "extends (length (s_blocks st)) st st'" and tr: "tree_ok st bc"
    and i: "txn_index_ok st bc"
  shows "txn_index_ok st' bc"
proof -
  have F: "transactions (blk st' c) = transactions (blk st c)" "block_txns st' (blk st' c) = block_txns st (blk st c)"
    if "c \<in> registered bc" for c
    using tree_okD(2) [OF tr that] extends_fields(3) [OF e] block_txns_extends [OF ok e] alive_less by blast+
  have H: "thash (obj (s_txns st') a) = thash (obj (s_txns st) a)"
    if "c \<in> registered bc" "Some a \<in> set (list_elems (transactions (blk st c)))" for a c
  proof -
    have "alive (s_txns st) a"
      using good_storeD(1) [OF ok tree_okD(2) [OF tr that(1)]] that(2) by (auto simp: body_ok_def txn_ptr_ok_def)
    then show ?thesis using extendsD(5) [OF e] by simp
  qed
  have "(\<Union>b \<in> registered bc. thash ` set (block_txns st' (blk st' b))) =
      (\<Union>b \<in> registered bc. thash ` set (block_txns st (blk st b)))"
    using F(2) by simp
  moreover have "thash (obj (s_txns st') a) = h \<and> (\<exists>b \<in> registered bc. Some a \<in> set (list_elems (transactions (blk st' b))))"
    if ha: "map_abs (bc_txns bc) h = Some a" for h a
  proof -
    obtain c where c: "c \<in> registered bc" "Some a \<in> set (list_elems (transactions (blk st c)))"
      "thash (obj (s_txns st) a) = h"
      using i ha unfolding txn_index_ok_def by blast
    then show ?thesis using H F(1) by auto
  qed
  ultimately show ?thesis using i unfolding txn_index_ok_def by simp
qed

text \<open>Changes of the store that leave the blocks alone.\<close>

lemma chain_state_frame:
  assumes ok: "good_store S st" and e: "extends (length (s_blocks st)) st st'"
    and same: "take (length (s_blocks st)) (s_blocks st') = s_blocks st" and cs: "chain_state_ok st bc"
  shows "chain_state_ok st' bc"
proof -
  have tr: "tree_ok st bc" and i: "txn_index_ok st bc" and g: "greedy st (registered bc) (principal bc)"
    using cs by (simp_all add: chain_state_ok_def)
  note T = tree_okD [OF tr]
  have b: "s_blocks st' ! c = s_blocks st ! c" "alive (s_blocks st') c" if "c \<in> registered bc" for c
  proof -
    have c: "alive (s_blocks st) c" by (rule T(2) [OF that])
    have "s_blocks st' ! c = take (length (s_blocks st)) (s_blocks st') ! c" using alive_less [OF c] by simp
    then show "s_blocks st' ! c = s_blocks st ! c" unfolding same .
    show "alive (s_blocks st') c" using extends_fields(9) [OF e alive_less [OF c] c] .
  qed
  have "tree_ok st' bc"
    unfolding tree_ok_def
  proof (intro conjI allI impI ballI)
    show "map_ok key_ok (bc_blocks bc)" by (rule T(1))
  next
    fix h c assume h: "map_abs (bc_blocks bc) h = Some c"
    then have "c \<in> registered bc" by (auto simp: registered_iff)
    from b [OF this] T(6) [OF h] show "alive (s_blocks st') c" "bhash (blk st' c) = h" by simp_all
  next
    fix c p assume "c \<in> registered bc" "prev_block (blk st' c) = Some p"
    then show "p \<in> registered bc" using T(4) [of c p] b(1) [of c] by simp
  next
    fix c assume c: "c \<in> registered bc"
    have "{x \<in> registered bc. prev_block (blk st' x) = Some c} = {x \<in> registered bc. prev_block (blk st x) = Some c}"
      using b(1) by auto
    then show "set (list_elems (children (blk st' c))) = {x \<in> registered bc. prev_block (blk st' x) = Some c}"
      using T(5) [OF c] b(1) [OF c] by simp
  qed
  moreover have "\<forall>c \<in> registered bc. alive (s_blocks st) c" using T(2) by blast
  then have "greedy st' (registered bc) (principal bc)"
    using greedy_extends [OF ok e _ registered_known [OF tr]] g cs by (auto simp: chain_state_ok_def)
  ultimately show ?thesis using cs txn_index_extends [OF ok e tr i] by (simp add: chain_state_ok_def)
qed

text \<open>What \<open>blockchain_add_block\<close> does with a block that is not in the tree.\<close>

definition added :: "sodium \<Rightarrow> store \<Rightarrow> blockchain_t \<Rightarrow> addr \<Rightarrow> event \<times> blockchain_t \<times> store \<Rightarrow> bool" where
  "added S st bc b r \<longleftrightarrow> (case r of (ev, bc', st') \<Rightarrow>
     good_store S st' \<and> chain_state_ok st' bc' \<and> extends (length (s_blocks st)) st st' \<and>
     length (s_blocks st') = length (s_blocks st) \<and> s_txns st' = s_txns st \<and> s_accounts st' = s_accounts st \<and>
     registered bc' = insert b (registered bc) \<and>
     (if better st (principal bc) b then principal bc' = Some b \<and> ev = Some (principal bc, Some b)
      else principal bc' = principal bc \<and> ev = None))"

lemma better_extends:
  assumes "good_store S st" "extends (length (s_blocks st)) st st'" "alive (s_blocks st) b"
    "known st (length (s_blocks st)) tip"
  shows "better st' tip b \<longleftrightarrow> better st tip b"
proof -
  have bo: "blocks_ok st (length (s_blocks st))" using assms(1) by (simp add: good_store_def store_ok_def)
  have F: "prev_block (blk st' c) = prev_block (blk st c) \<and> sortition_priority (blk st' c) = sortition_priority (blk st c)"
    if "alive (s_blocks st) c" for c
    using extends_fields(1,7) [OF assms(2) alive_less [OF that] that] by simp
  have "alive (s_blocks st) c" if "c \<in> set (chain st tip)" for c
    using chain_length(2) [OF bo assms(4)] that by blast
  then show ?thesis
    unfolding better_def chain_extends(1) [OF bo assms(4,2)] using F assms(3) by auto
qed

lemma add_block_result:
  assumes S: "sodium_ok S kp" and ok: "good_store S st" and cs: "chain_state_ok st bc"
    and b: "alive (s_blocks st) b" "list_elems (children (blk st b)) = []" "b \<notin> registered bc"
    and prev: "\<forall>p. prev_block (blk st b) = Some p \<longrightarrow> p \<in> registered bc"
    and new: "map_abs (bc_blocks bc) (bhash (blk st b)) = None"
  shows "\<exists>ev bc' st'. blockchain_add_block S st bc b = Inr (True, ev, bc', st') \<and> added S st bc b (ev, bc', st')"
proof -
  let ?n = "length (s_blocks st)" and ?R = "insert b (registered bc)"
  have tr: "tree_ok st bc" and i: "txn_index_ok st bc" and g: "greedy st (registered bc) (principal bc)"
    using cs by (simp_all add: chain_state_ok_def)
  have tipR: "\<forall>t. principal bc = Some t \<longrightarrow> t \<in> registered bc" using cs by (simp add: chain_state_ok_def)
  note tk = registered_known [OF tr tipR]
  have bo: "blocks_ok st ?n" using ok by (simp add: good_store_def store_ok_def)
  obtain d m st1 where L: "map_set (bc_blocks bc) (bhash (blk st b)) b = Inr (None, d, m)"
      "(case prev_block (blk st b) of None \<Rightarrow> Inr st | Some p \<Rightarrow> block_add_child st p b) = Inr st1"
      "extends ?n st st1" "length (s_blocks st1) = ?n" "s_txns st1 = s_txns st" "s_accounts st1 = s_accounts st"
      "registered (bc\<lparr>bc_blocks := m\<rparr>) = ?R" "tree_ok st1 (bc\<lparr>bc_blocks := m\<rparr>)"
    using link_block [OF S ok tr b prev new] by blast
  note ok1 = good_store_extends [OF ok L(3,4)]
  note F = extends_fields [OF L(3) alive_less [OF b(1)] b(1)]
  have B: "body_ok st1 b (blk st1 b)" "authentic S st1 (blk st1 b)" using good_storeD [OF ok1 F(9)] by simp_all
  have rd: "list_rd (transactions (blk st1 b))" using B(1) by (simp add: body_ok_def)
  have ptrs: "\<forall>p \<in> set (list_elems (transactions (blk st1 b))).
      \<exists>q. p = Some q \<and> alive (s_txns st1) q \<and> length (thash (obj (s_txns st1) q)) = 32"
    using B(2) txn_ok_hash [OF S] unfolding authentic_def txns_ok_def by blast
  let ?k = "length (list_elems (transactions (blk st1 b)))"
  have mt: "map_ok key_ok (bc_txns bc)" using i by (simp add: txn_index_ok_def)
  obtain mx where X: "foldR (register_txn st1 b) [0..<?k] (bc_txns bc) = Inr mx" "map_ok key_ok mx"
      "dom (map_abs mx) = dom (map_abs (bc_txns bc)) \<union>
         (\<lambda>i. thash (obj (s_txns st1) (the (list_elems (transactions (blk st1 b)) ! i)))) ` set [0..<?k]"
      "\<forall>h a. map_abs mx h = Some a \<longrightarrow> map_abs (bc_txns bc) h = Some a \<or>
         (\<exists>i \<in> set [0..<?k]. a = the (list_elems (transactions (blk st1 b)) ! i) \<and> thash (obj (s_txns st1) a) = h)"
  proof -
    have "set [0..<?k] \<subseteq> {..<?k}" by auto
    from register_txns_result [OF mt F(9) rd ptrs this] show ?thesis using that by blast
  qed
  let ?bc = "bc\<lparr>bc_blocks := m, bc_txns := mx\<rparr>"
  have R: "registered ?bc = ?R" using L(7) by (simp add: registered_def)
  have "tree_ok st1 ?bc" using L(8) R by (simp add: tree_ok_def registered_def)
  moreover have "txn_index_ok st1 ?bc"
  proof -
    have ix: "txn_index_ok st1 bc" by (rule txn_index_extends [OF ok L(3) tr i])
    have "(\<lambda>i. thash (obj (s_txns st1) (the (list_elems (transactions (blk st1 b)) ! i)))) ` set [0..<?k] =
        thash ` set (block_txns st1 (blk st1 b))"
      by (force simp: block_txns_def set_conv_nth)
    moreover have own: "\<exists>c \<in> ?R. Some a \<in> set (list_elems (transactions (blk st1 c)))"
      if "i \<in> set [0..<?k]" "a = the (list_elems (transactions (blk st1 b)) ! i)" for a i
    proof -
      have "list_elems (transactions (blk st1 b)) ! i \<in> set (list_elems (transactions (blk st1 b)))" using that(1) by simp
      then show ?thesis using ptrs that(2) by fastforce
    qed
    moreover have "thash (obj (s_txns st1) a) = h \<and> (\<exists>c \<in> ?R. Some a \<in> set (list_elems (transactions (blk st1 c))))"
      if "map_abs mx h = Some a" for h a
      using X(4) [rule_format, OF that]
    proof
      assume "map_abs (bc_txns bc) h = Some a"
      then show ?thesis using ix unfolding txn_index_ok_def by blast
    next
      assume "\<exists>i \<in> set [0..<?k]. a = the (list_elems (transactions (blk st1 b)) ! i) \<and> thash (obj (s_txns st1) a) = h"
      then show ?thesis using own by blast
    qed
    ultimately show ?thesis
      using ix X(2,3) unfolding txn_index_ok_def R by simp (metis Un_commute)
  qed
  moreover have "choose_principal S st1 ?bc b = Inr (if better st (principal bc) b then take_over ?bc b else (None, ?bc))"
  proof -
    have "known st1 (length (s_blocks st1)) (principal ?bc)" using chain_extends(5) [OF bo tk L(3)] L(4) by simp
    moreover have "prev_block (blk st1 b) = None" if "principal ?bc = None"
      using that cs prev F(1) by (cases "prev_block (blk st b)") (auto simp: chain_state_ok_def)
    ultimately have "choose_principal S st1 ?bc b =
        Inr (if better st1 (principal ?bc) b then take_over ?bc b else (None, ?bc))"
      by (rule choose_principal_result [OF S ok1 _ F(9)])
    then show ?thesis using better_extends [OF ok L(3) b(1) tk] by simp
  qed
  moreover have "greedy st1 ?R (if better st (principal bc) b then Some b else principal bc)"
  proof -
    have "greedy st ?R (if better st (principal bc) b then Some b else principal bc)"
      using tree_okD(2,4) [OF tr] tipR chain_registered [OF ok tr tipR] b(1,3) g
      by (intro greedy_step [OF ok]) blast+
    moreover have "\<forall>c \<in> ?R. alive (s_blocks st) c" using tree_okD(2) [OF tr] b(1) by blast
    moreover have "known st ?n (if better st (principal bc) b then Some b else principal bc)"
      using tk alive_less [OF b(1)] b(1) by simp
    ultimately show ?thesis using greedy_extends [OF ok L(3)] by blast
  qed
  moreover have "blockchain_add_block S st bc b =
      bindR (choose_principal S st1 ?bc b) (\<lambda>(ev, bc). Inr (True, ev, bc, st1))"
  proof -
    have "length (bhash (blk st b)) = 32"
      using good_storeD(3) [OF ok b(1)] by (auto simp: authentic_def sodium_sizes [OF S] simp del: enc.simps)
    then have "map_get (bc_blocks bc) (bhash (blk st b)) = Inr None"
      using cmap.lookup_law [OF tree_okD(1) [OF tr]] new by (simp add: key_ok_def)
    then show ?thesis
      using b(1) L(1,2) X(1) F(9) list_size_rd [OF rd]
      by (simp add: blockchain_add_block_def block_get_hash_def block_get_prev_def block_get_transaction_count_def)
  qed
  moreover have "\<exists>t. principal bc = Some t" if "\<not> better st (principal bc) b"
    using that cs prev by (cases "prev_block (blk st b)"; cases "principal bc") (auto simp: chain_state_ok_def better_def)
  ultimately show ?thesis
    using L(3-6) R ok1 tipR unfolding added_def chain_state_ok_def
    by (cases "better st (principal bc) b") (auto simp: take_over_def)
qed

end
