(* ===== verification/Acceptance.thy ===== *)
theory Acceptance
  imports Block
begin

text \<open>
  What a node can rely on when it creates, relays and receives blocks: the binary form that
  \<open>block_write\<close> produces passes every check of \<open>block_create_from_tuple\<close> at a node with the same
  history, and whatever passes the checks is authentic.
\<close>

section \<open>The binary form\<close>

lemma writes_block:
  assumes S: "sodium_ok S kp" and ok: "good_store S st" and b: "alive (s_blocks st) b"
  shows "writes (block_write S st b) (enc (T_tuple (block_form S st (blk st b))))"
proof -
  note Z = sodium_sizes [OF S] and G = good_storeD [OF ok b]
  let ?x = "blk st b"
  let ?n = "length (s_blocks st)"
  have au: "block_sized ?x" "txns_ok S st ?x" using G(3) by (auto simp: authentic_def)
  have rd: "list_rd (transactions ?x)" and kn: "known st ?n (prev_block ?x)"
    using G(1) prev_known(1) [OF G(1)] alive_less [OF b] by (auto simp: body_ok_def)
  have hl: "length (hash_of S st (prev_block ?x)) = 32" using good_known_lengths(1) [OF S ok kn] .
  let ?w = "\<lambda>i buf. bindR (list_get (transactions ?x) i) (\<lambda>p.
              bindR (derefR p) (\<lambda>q. bindR (heap_load (s_txns st) q) (\<lambda>txn. transaction_write S txn buf)))"
  let ?ts = "block_txns st ?x"
  have len: "length ?ts = length (list_elems (transactions ?x))" by (simp add: block_txns_def)
  have each: "writes (?w i) (enc (T_tuple (txn_form (?ts ! i))))" if i: "i \<in> set [0..<length ?ts]" for i
  proof -
    have i': "i < length (list_elems (transactions ?x))" using i len by simp
    then obtain q where q: "list_elems (transactions ?x) ! i = Some q" "alive (s_txns st) q" "txn_ok S (obj (s_txns st) q)"
      using au(2) unfolding txns_ok_def by (metis nth_mem)
    then have "?w i = transaction_write S (?ts ! i)"
      using list_get_rd [OF rd, of i] i' by (simp add: block_txns_def)
    moreover have "txn_sized (?ts ! i)" using q i' by (simp add: block_txns_def txn_ok_def)
    ultimately show ?thesis using writes_txn [OF S] by simp
  qed
  have all: "writes (foldR ?w [0..<length ?ts]) (concat (map (\<lambda>i. enc (T_tuple (txn_form (?ts ! i)))) [0..<length ?ts]))"
    by (rule dbuf.appends_loop) (rule each)
  have "map (\<lambda>i. enc (T_tuple (txn_form (?ts ! i)))) [0..<length ?ts] = map (\<lambda>t. enc (T_tuple (txn_form t))) ?ts"
    by (rule nth_equalityI) simp_all
  then have loop: "writes (foldR ?w [0..<length ?ts]) (concat (map (\<lambda>t. enc (T_tuple (txn_form t))) ?ts))"
    using all by (simp only:)
  have "writes (\<lambda>buf. bindR (tuple_write_start buf) (\<lambda>buf.
     bindR (block_write_header S st ?x buf) (\<lambda>buf.
     bindR (tuple_write_binary 64 (bsignature ?x) buf) (\<lambda>buf.
     bindR (tuple_write_start buf) (\<lambda>buf.
     bindR (foldR ?w [0..<length ?ts] buf) (\<lambda>buf.
     bindR (tuple_write_end buf) tuple_write_end))))))
   ([TUPLE_START] @ enc (T_tuple (header_form S st ?x)) @ enc (T_binary (bsignature ?x)) @
    [TUPLE_START] @ concat (map (\<lambda>t. enc (T_tuple (txn_form t))) ?ts) @ [TUPLE_END] @ [TUPLE_END])"
    by (intro dbuf.appends_bind writes_start writes_end writes_binary loop writes_header [OF S au(1) kn hl rd])
      (use au(1) in \<open>simp_all add: block_sized_def\<close>)
  moreover have "block_write S st b = (\<lambda>buf. bindR (tuple_write_start buf) (\<lambda>buf.
     bindR (block_write_header S st ?x buf) (\<lambda>buf.
     bindR (tuple_write_binary 64 (bsignature ?x) buf) (\<lambda>buf.
     bindR (tuple_write_start buf) (\<lambda>buf.
     bindR (foldR ?w [0..<length ?ts] buf) (\<lambda>buf.
     bindR (tuple_write_end buf) tuple_write_end))))))"
    using b by (simp add: block_write_def [abs_def] Z list_size_rd [OF rd] len)
  ultimately show ?thesis by (simp add: block_form_def comp_def)
qed

lemma wf_block_form:
  assumes "block_sized x" "length (hash_of S st (prev_block x)) = 32" "\<forall>t \<in> set (block_txns st x). txn_sized t"
  shows "wf_tval (T_tuple (block_form S st x))"
  using assms length_header_form(2) [OF assms(1,2)] wf_txn_form
  by (auto simp: block_form_def block_sized_def)

section \<open>The encoded form passes the checks\<close>

lemma parsed_prefix:
  assumes "mem_at mem p (enc (T_tuple vs))" "wf_tval (T_tuple vs)" "i < length vs" "vs ! i = T_binary d" "length d = n"
  shows "binary_prefix mem (parsed p vs) i n = Inr d"
proof -
  obtain q where q: "tuple_get_binary mem (parsed p vs) i = Inr (of_nat (length d), q)" "mem_at mem q d"
    using reads_parsed [OF assms(1-3)] assms(4) by auto
  then show ?thesis using mem_at_load_n [OF q(2)] assms(5) by (simp add: binary_prefix_def)
qed

lemma encoded_header:
  assumes S: "sodium_ok S kp" and x: "block_sized x" "length (hash_of S st (prev_block x)) = 32"
    and mem: "mem_at mem p (enc (T_tuple (header_form S st x)))"
  defines "t \<equiv> parsed p (header_form S st x)"
  shows "is_header_valid S mem t = Inr True" "tuple_get_u64 mem t 0 = Inr (timestamp x)"
    "tuple_get_u32 mem t 5 = Inr (delegate x)"
    "tuple_get_u32 mem t 6 = Inr (of_nat (length (list_elems (transactions x))))"
    "binary_prefix mem t 1 32 = Inr (hash_of S st (prev_block x))" "binary_prefix mem t 2 32 = Inr (bmerkle_root x)"
    "binary_prefix mem t 3 32 = Inr (public_key x)" "binary_prefix mem t 4 80 = Inr (sortition_proof x)"
proof -
  let ?vs = "header_form S st x"
  have wf: "wf_tval (T_tuple ?vs)" using length_header_form(2) [OF x] .
  have len: "length ?vs = 7" by (simp add: header_form_def)
  have nth: "?vs ! 0 = T_u64 (timestamp x)" "?vs ! 1 = T_binary (hash_of S st (prev_block x))"
    "?vs ! 2 = T_binary (bmerkle_root x)" "?vs ! 3 = T_binary (public_key x)"
    "?vs ! 4 = T_binary (sortition_proof x)" "?vs ! 5 = T_u32 (delegate x)"
    "?vs ! 6 = T_u32 (of_nat (length (list_elems (transactions x))))"
    by (simp_all add: header_form_def)
  show r: "tuple_get_u64 mem t 0 = Inr (timestamp x)" "tuple_get_u32 mem t 5 = Inr (delegate x)"
    "tuple_get_u32 mem t 6 = Inr (of_nat (length (list_elems (transactions x))))"
    using reads_parsed [OF mem wf, of 0] reads_parsed [OF mem wf, of 5] reads_parsed [OF mem wf, of 6]
    unfolding len nth t_def by simp_all
  show "binary_prefix mem t 1 32 = Inr (hash_of S st (prev_block x))" "binary_prefix mem t 2 32 = Inr (bmerkle_root x)"
    "binary_prefix mem t 3 32 = Inr (public_key x)" "binary_prefix mem t 4 80 = Inr (sortition_proof x)"
    using parsed_prefix [OF mem wf _ nth(2)] parsed_prefix [OF mem wf _ nth(3)]
      parsed_prefix [OF mem wf _ nth(4)] parsed_prefix [OF mem wf _ nth(5)] x
    unfolding t_def len by (simp_all add: block_sized_def del: enc.simps expects.simps)
  have k: "tuple_get_type mem t 0 = Inr TUPLE_U64" "tuple_get_type mem t 5 = Inr TUPLE_U32" "tuple_get_type mem t 6 = Inr TUPLE_U32"
    using parsed_kind [OF mem, of 0] parsed_kind [OF mem, of 5] parsed_kind [OF mem, of 6]
    unfolding len nth t_def by simp_all
  have b: "binary_of_size mem t 1 32 = Inr True" "binary_of_size mem t 2 32 = Inr True"
    "binary_of_size mem t 3 32 = Inr True" "binary_of_size mem t 4 80 = Inr True"
    using parsed_binary(1) [OF mem wf, of 1] parsed_binary(1) [OF mem wf, of 2] parsed_binary(1) [OF mem wf, of 3]
      parsed_binary(1) [OF mem wf, of 4] x
    unfolding len nth t_def by (simp_all add: block_sized_def)
  have "tuple_size t = 7" by (simp add: tuple_size_def t_def len)
  then show "is_header_valid S mem t = Inr True"
    using k b by (simp add: is_header_valid_def sodium_sizes [OF S])
qed

abbreviation txns_form :: "transaction_t list \<Rightarrow> tval list" where
  "txns_form ts \<equiv> map (\<lambda>t. T_tuple (txn_form t)) ts"

lemma encoded_txn:
  assumes "mem_at mem q (enc (T_tuple (txns_form ts)))" "i < length ts"
  obtains p where "tuple_get_tuple mem (parsed q (txns_form ts)) i = Inr (parsed p (txn_form (ts ! i)))"
    "mem_at mem p (enc (T_tuple (txn_form (ts ! i))))"
  using parsed_tuple [OF assms(1), of i "txn_form (ts ! i)"] assms(2) by auto

lemma encoded_txns_valid:
  assumes S: "sodium_ok S kp" and sz: "\<forall>t \<in> set ts. txn_sized t"
    and mem: "mem_at mem q (enc (T_tuple (txns_form ts)))" and "set is \<subseteq> {..<length ts}"
  shows "txns_valid S mem (parsed q (txns_form ts)) is = Inr True"
  using assms(4)
proof (induction "is")
  case (Cons i "is")
  then have i: "i < length ts" by simp
  then obtain p where p: "tuple_get_tuple mem (parsed q (txns_form ts)) i = Inr (parsed p (txn_form (ts ! i)))"
    "mem_at mem p (enc (T_tuple (txn_form (ts ! i))))" using encoded_txn [OF mem] by blast
  have "tuple_get_type mem (parsed q (txns_form ts)) i = Inr TUPLE_START"
    using parsed_kind [OF mem, of i] i by simp
  then show ?case
    using Cons p create_from_encoded(1) [OF S _ p(2)] sz i by (simp del: enc.simps expects.simps)
qed simp

lemma encoded_merkle:
  assumes mem: "mem_at mem q (enc (T_tuple (txns_form ts)))"
  shows "merkle_root_from_tuple S mem (parsed q (txns_form ts)) =
    Inr (merkle_ref S (map (\<lambda>t. generichash S (enc (T_tuple (txn_body t)))) ts))"
proof -
  let ?t = "parsed q (txns_form ts)"
  let ?f = "\<lambda>i. bindR (tuple_get_tuple mem ?t i) (\<lambda>signed_txn.
        bindR (tuple_get_tuple mem signed_txn 0) (\<lambda>txn.
        bindR (arr_load_n mem (t_start txn) (t_length txn)) (\<lambda>bs. Inr (generichash S bs))))"
  have "?f i = Inr (generichash S (enc (T_tuple (txn_body (ts ! i)))))" if i: "i < length ts" for i
  proof -
    obtain p where p: "tuple_get_tuple mem ?t i = Inr (parsed p (txn_form (ts ! i)))"
      "mem_at mem p (enc (T_tuple (txn_form (ts ! i))))" using encoded_txn [OF mem i] by blast
    obtain r where "tuple_get_tuple mem (parsed p (txn_form (ts ! i))) 0 = Inr (parsed r (txn_body (ts ! i)))"
        "mem_at mem r (enc (T_tuple (txn_body (ts ! i))))"
      using parsed_tuple [OF p(2), of 0 "txn_body (ts ! i)"] by (auto simp: txn_form_def simp del: enc.simps)
    then show ?thesis using p(1) mem_at_load_n by (simp del: enc.simps expects.simps)
  qed
  then have "mapR ?f [0..<length ts] = Inr (map (\<lambda>i. generichash S (enc (T_tuple (txn_body (ts ! i))))) [0..<length ts])"
    by (intro mapR_pure) simp
  moreover have "map (\<lambda>i. generichash S (enc (T_tuple (txn_body (ts ! i))))) [0..<length ts] =
      map (\<lambda>t. generichash S (enc (T_tuple (txn_body t)))) ts"
    by (rule nth_equalityI) simp_all
  ultimately show ?thesis
    by (simp only: merkle_root_from_tuple_def tuple_size_def tuple_t.sel length_expects length_map bindR_simps merkle_root_ref)
qed

text \<open>The whole message, and what is read from it.\<close>

definition root_ok :: "sodium \<Rightarrow> store \<Rightarrow> block_t \<Rightarrow> bool" where
  "root_ok S st x \<longleftrightarrow> bmerkle_root x = merkle_ref S (map thash (block_txns st x))"

text \<open>The message for a block, with any bytes in the place of the signature.\<close>

definition message_form :: "sodium \<Rightarrow> store \<Rightarrow> block_t \<Rightarrow> byte list \<Rightarrow> tval list" where
  "message_form S st x sig =
     [T_tuple (header_form S st x), T_binary sig, T_tuple (txns_form (block_txns st x))]"

lemma block_form_message: "block_form S st x = message_form S st x (bsignature x)"
  by (simp add: block_form_def message_form_def)

lemma wf_message_form:
  assumes "block_sized x" "length (hash_of S st (prev_block x)) = 32" "\<forall>t \<in> set (block_txns st x). txn_sized t"
    "length sig < 2 ^ 32"
  shows "wf_tval (T_tuple (message_form S st x sig))"
  using assms length_header_form(2) [OF assms(1,2)] wf_txn_form
  by (auto simp: message_form_def)

lemma encoded_message:
  assumes S: "sodium_ok S kp" and x: "block_sized x" "length (hash_of S st (prev_block x)) = 32" "root_ok S st x"
    and ts: "\<forall>t \<in> set (block_txns st x). txn_ok S t" "length (block_txns st x) < 2 ^ 32"
    and sig: "length sig < 2 ^ 32"
    and mem: "mem_at mem p (enc (T_tuple (message_form S st x sig)))"
  defines "t \<equiv> parsed p (message_form S st x sig)"
  obtains h q where "block_is_valid S mem t = Inr True"
    "tuple_get_tuple mem t 0 = Inr (parsed h (header_form S st x))"
    "mem_at mem h (enc (T_tuple (header_form S st x)))"
    "tuple_get_tuple mem t 2 = Inr (parsed q (txns_form (block_txns st x)))"
    "mem_at mem q (enc (T_tuple (txns_form (block_txns st x))))"
    "read_binary mem t 1 = Inr sig"
proof -
  note Z = sodium_sizes [OF S]
  let ?ts = "block_txns st x" and ?form = "message_form S st x sig"
  have sz: "\<forall>t \<in> set ?ts. txn_sized t" using ts(1) by (auto simp: txn_ok_def)
  note wf = wf_message_form [OF x(1,2) sz sig]
  have nth: "?form ! 0 = T_tuple (header_form S st x)" "?form ! 1 = T_binary sig"
    "?form ! 2 = T_tuple (txns_form ?ts)" and len: "length ?form = 3"
    by (simp_all add: message_form_def)
  obtain h where h: "tuple_get_tuple mem t 0 = Inr (parsed h (header_form S st x))"
      "mem_at mem h (enc (T_tuple (header_form S st x)))"
    using parsed_tuple [OF mem _ nth(1)] unfolding len t_def by auto
  obtain q where q: "tuple_get_tuple mem t 2 = Inr (parsed q (txns_form ?ts))"
      "mem_at mem q (enc (T_tuple (txns_form ?ts)))"
    using parsed_tuple [OF mem _ nth(3)] unfolding len t_def by auto
  note H = encoded_header [OF S x(1,2) h(2)]
  have k: "tuple_get_type mem t 0 = Inr TUPLE_START" "tuple_get_type mem t 1 = Inr TUPLE_BINARY"
      "tuple_get_type mem t 2 = Inr TUPLE_START"
    using parsed_kind [OF mem, of 0] parsed_kind [OF mem, of 1] parsed_kind [OF mem, of 2]
    unfolding len nth t_def by simp_all
  have n: "length (list_elems (transactions x)) = length ?ts" by (simp add: block_txns_def)
  have "map (\<lambda>t. generichash S (enc (T_tuple (txn_body t)))) ?ts = map thash ?ts"
    using ts(1) by (auto simp: txn_ok_def simp del: enc.simps)
  then have m: "merkle_root_from_tuple S mem (parsed q (txns_form ?ts)) = Inr (bmerkle_root x)"
    using encoded_merkle [OF q(2), of S] x(3) by (simp only: root_ok_def)
  have size: "tuple_size t = 3" "tuple_size (parsed q (txns_form ?ts)) = length ?ts"
    "unat (of_nat (length ?ts) :: u32) = length ?ts"
    using ts(2) by (simp_all add: tuple_size_def t_def len unat_of_nat)
  have v: "txns_valid S mem (parsed q (txns_form ?ts)) [0..<length ?ts] = Inr True"
    by (rule encoded_txns_valid [OF S sz q(2)]) auto
  have "block_is_valid S mem t = Inr True"
    unfolding block_is_valid_def size(1) k h(1) q(1) bindR_simps H(1,4) n size(2,3) v m Z H(6)
    by simp
  moreover have "read_binary mem t 1 = Inr sig"
    using parsed_binary(2) [OF mem wf _ nth(2)] unfolding len t_def by simp
  ultimately show ?thesis using that h q by blast
qed

lemma encoded_block:
  assumes S: "sodium_ok S kp" and x: "block_sized x" "length (hash_of S st (prev_block x)) = 32" "root_ok S st x"
    and ts: "\<forall>t \<in> set (block_txns st x). txn_ok S t" "length (block_txns st x) < 2 ^ 32"
    and mem: "mem_at mem p (enc (T_tuple (block_form S st x)))"
  defines "t \<equiv> parsed p (block_form S st x)"
  obtains h q where "block_is_valid S mem t = Inr True"
    "tuple_get_tuple mem t 0 = Inr (parsed h (header_form S st x))"
    "mem_at mem h (enc (T_tuple (header_form S st x)))"
    "tuple_get_tuple mem t 2 = Inr (parsed q (txns_form (block_txns st x)))"
    "mem_at mem q (enc (T_tuple (txns_form (block_txns st x))))"
    "copy_signature S mem t = Inr (bsignature x)"
proof -
  have l: "length (bsignature x) = 64" using x(1) by (simp add: block_sized_def)
  then have s: "length (bsignature x) < 2 ^ 32" by simp
  note t = t_def [unfolded block_form_message]
  obtain h q where E: "block_is_valid S mem t = Inr True"
    "tuple_get_tuple mem t 0 = Inr (parsed h (header_form S st x))"
    "mem_at mem h (enc (T_tuple (header_form S st x)))"
    "tuple_get_tuple mem t 2 = Inr (parsed q (txns_form (block_txns st x)))"
    "mem_at mem q (enc (T_tuple (txns_form (block_txns st x))))"
    "read_binary mem t 1 = Inr (bsignature x)"
    unfolding t by (rule encoded_message [OF S x ts s mem [unfolded block_form_message]])
  have "copy_signature S mem t = Inr (bsignature x)"
    using E(6) l by (simp add: copy_signature_def sodium_sizes [OF S])
  then show ?thesis by (rule that [OF E(1-5)])
qed

text \<open>Adding the transactions of such a message never fails.\<close>

lemma encoded_add_txns:
  assumes S: "sodium_ok S kp" and ts: "\<forall>t \<in> set ts. txn_ok S t"
    and mem: "mem_at mem q (enc (T_tuple (txns_form ts)))"
  shows "\<exists>l. foldR (add_txn S mem (parsed q (txns_form ts))) [0..<length ts] (list_create (length ts), st) =
      Inr (l, st\<lparr>s_txns := s_txns st @ map Some ts\<rparr>) \<and>
    list_elems l = map (\<lambda>i. Some (length (s_txns st) + i)) [0..<length ts]"
proof (cases "ts = []")
  case False
  have "\<exists>l. foldR (add_txn S mem (parsed q (txns_form ts))) [0..<n] (list_create (length ts), st) =
      Inr (l, st\<lparr>s_txns := s_txns st @ map Some (take n ts)\<rparr>) \<and> list_ok l \<and>
    list_elems l = map (\<lambda>i. Some (length (s_txns st) + i)) [0..<n]" if "n \<le> length ts" for n
    using that
  proof (induction n)
    case 0
    then show ?case using False by (simp add: list_ok_create)
  next
    case (Suc n)
    then obtain l where l: "foldR (add_txn S mem (parsed q (txns_form ts))) [0..<n] (list_create (length ts), st) =
        Inr (l, st\<lparr>s_txns := s_txns st @ map Some (take n ts)\<rparr>)" "list_ok l"
        "list_elems l = map (\<lambda>i. Some (length (s_txns st) + i)) [0..<n]" by auto
    have n: "n < length ts" using Suc.prems by simp
    obtain p where p: "tuple_get_tuple mem (parsed q (txns_form ts)) n = Inr (parsed p (txn_form (ts ! n)))"
      "mem_at mem p (enc (T_tuple (txn_form (ts ! n))))" using encoded_txn [OF mem n] by blast
    have "txn_ok S (ts ! n)" using ts n by simp
    then have ok: "txn_sized (ts ! n)" "generichash S (enc (T_tuple (txn_body (ts ! n)))) = thash (ts ! n)"
        "sign_verify_detached S (tsignature (ts ! n)) (thash (ts ! n)) (tsender (ts ! n))"
      by (auto simp: txn_ok_def simp del: enc.simps)
    then have c: "transaction_create_from_tuple S mem (parsed p (txn_form (ts ! n))) = Inr (Some (ts ! n))"
      using create_from_encoded(2) [OF S ok(1) p(2)] unfolding ok(2) by (simp add: Let_def del: enc.simps expects.simps)
    obtain l' where l': "list_add l (Some (length (s_txns st) + n)) = Inr l'" "list_ok l'"
        "list_elems l' = list_elems l @ [Some (length (s_txns st) + n)]"
      using list_add_elems [OF l(2)] by blast
    have "add_txn S mem (parsed q (txns_form ts)) n (l, st\<lparr>s_txns := s_txns st @ map Some (take n ts)\<rparr>) =
        Inr (l', st\<lparr>s_txns := s_txns st @ map Some (take n ts) @ [Some (ts ! n)]\<rparr>)"
      using l'(1) c p(1) n by (simp add: add_txn_def del: enc.simps expects.simps)
    moreover have "take (Suc n) ts = take n ts @ [ts ! n]" using n by (simp add: take_Suc_conv_app_nth)
    ultimately show ?case
      using l l'(2,3) by (simp add: foldR_append del: enc.simps expects.simps)
  qed
  from this [OF order_refl] show ?thesis by auto
qed simp

section \<open>A receiver with the same history\<close>

text \<open>
  \<open>same_view S st p st2 p2\<close>: two nodes have the same block at the end of their chains, as far as a
  new block depends on it.
\<close>

definition same_view :: "sodium \<Rightarrow> store \<Rightarrow> addr option \<Rightarrow> store \<Rightarrow> addr option \<Rightarrow> bool" where
  "same_view S st p st2 p2 \<longleftrightarrow> (p = None \<longleftrightarrow> p2 = None) \<and> hash_of S st2 p2 = hash_of S st p \<and>
     seed_input S st2 p2 = seed_input S st p \<and> entries st2 p2 = entries st p"

lemma same_view_refl: "same_view S st p st p"
  by (simp add: same_view_def)

lemma delegate_allowed_result:
  assumes "blocks_ok st n" "known st n prev" "key_ok pk" "n \<le> length (s_blocks st)"
    and "prev \<noteq> None \<Longrightarrow> \<exists>v. ledger st prev pk = Some v \<and> d < delegates v"
  shows "delegate_allowed st prev pk d = Inr True"
proof (cases "lookup st prev pk")
  case None
  then show ?thesis
    using block_get_account_lookup [OF assms(1-4)] by (simp add: delegate_allowed_def)
next
  case (Some a)
  then show ?thesis
    using block_get_account_lookup [OF assms(1-4)] lookup_account(2) [OF assms(1,2) Some] assms(5)
    by (auto simp: delegate_allowed_def account_get_delegates_value delegates_def)
qed

lemma read_block_encoded:
  assumes S: "sodium_ok S kp" and x: "block_sized x" "length (hash_of S st (prev_block x)) = 32"
    and mem: "mem_at mem h (enc (T_tuple (header_form S st x)))"
    and sig: "copy_signature S mem t = Inr (bsignature x)"
    and find_block: "find_block (hash_of S st (prev_block x)) = Inr p2"
  shows "read_block S find_block mem t (parsed h (header_form S st x)) =
    Inr ((new_block S (timestamp x) p2 (bmerkle_root x) (list_create 0) (public_key x))
           \<lparr>delegate := delegate x, sortition_proof := sortition_proof x, bsignature := bsignature x\<rparr>)"
  using encoded_header [OF S x mem] sig find_block
  by (simp add: read_block_def sodium_sizes [OF S] del: enc.simps expects.simps)

lemma verify_and_finish_authentic:
  assumes S: "sodium_ok S kp" and ok: "good_store S st"
    and x: "body_ok st (length (s_blocks st)) x" "map_ok key_ok (accounts x)" "map_abs (accounts x) = Map.empty"
    and auth: "authentic S st (x\<lparr>bhash := generichash S (enc (T_tuple (header_form S st x)))\<rparr>)"
  shows "\<exists>st'. verify_and_finish S st x = Inr (Some (length (s_blocks st)), st') \<and> good_store S st' \<and>
    extends (length (s_blocks st)) st st' \<and> s_txns st' = s_txns st \<and>
    blk st' (length (s_blocks st)) = x\<lparr>bhash := generichash S (enc (T_tuple (header_form S st x))),
      accounts := accounts (blk st' (length (s_blocks st)))\<rparr> \<and>
    alive (s_blocks st') (length (s_blocks st))"
proof -
  note Z = sodium_sizes [OF S]
  let ?n = "length (s_blocks st)"
  let ?x = "x\<lparr>bhash := generichash S (enc (T_tuple (header_form S st x)))\<rparr>"
  have kn: "known st ?n (prev_block x)" using prev_known(1) [OF x(1) order_refl] .
  have sz: "block_sized x" "sign_verify_detached S (bsignature x) (bhash ?x) (public_key x)"
    using auth by (auto simp: authentic_def block_sized_def Z simp del: enc.simps)
  have hash: "block_compute_hash S st x = Inr ?x"
    using block_compute_hash_result [OF S sz(1) kn good_known_lengths(1) [OF S ok kn]] x(1) by (simp add: body_ok_def)
  have body: "body_ok st ?n ?x" using x(1) by (simp add: body_ok_def del: enc.simps)
  obtain st' where st': "finish_block (snd (place_block st ?x)) ?n = Inr (Some ?n, st')" "good_store S st'"
      "extends ?n st st'" "alive (s_blocks st') ?n" "blk st' ?n = ?x\<lparr>accounts := accounts (blk st' ?n)\<rparr>" "s_txns st' = s_txns st"
    using finish_block_result [OF ok body _ _ auth] x(2,3) by auto
  have "take 32 (bhash ?x) = bhash ?x" using Z by simp
  then have "verify_and_finish S st x = Inr (Some ?n, st')"
    using hash sz(2) st'(1) by (simp add: verify_and_finish_def place_block_def Z del: enc.simps)
  then show ?thesis using st'(2-6) by (intro exI [of _ st']) (simp del: enc.simps)
qed

text \<open>The block the receiver ends up with.\<close>

definition copy_of :: "sodium \<Rightarrow> store \<Rightarrow> block_t \<Rightarrow> store \<Rightarrow> block_t \<Rightarrow> bool" where
  "copy_of S st x st2 y \<longleftrightarrow> block_form S st2 y = block_form S st x \<and> bhash y = bhash x \<and>
     sortition_seed y = sortition_seed x \<and> sortition_hash y = sortition_hash x \<and>
     sortition_priority y = sortition_priority x \<and> block_txns st2 y = block_txns st x"

lemma accept_encoded:
  assumes S: "sodium_ok S kp" and au: "authentic S st x"
    and ok: "good_store S st2" and kn: "known st2 (length (s_blocks st2)) p2"
    and small: "length (s_blocks st2) < 2 ^ 31" and view: "same_view S st (prev_block x) st2 p2"
    and ts: "\<forall>t \<in> set (block_txns st x). txn_ok S t"
    and mem: "mem_at mem q (enc (T_tuple (txns_form (block_txns st x))))"
  defines "y \<equiv> (new_block S (timestamp x) p2 (bmerkle_root x) (list_create 0) (public_key x))
           \<lparr>delegate := delegate x, sortition_proof := sortition_proof x, bsignature := bsignature x\<rparr>"
  shows "\<exists>st3. accept_block S st2 mem (parsed q (txns_form (block_txns st x))) y = Inr (Some (length (s_blocks st2)), st3) \<and>
    good_store S st3 \<and> extends (length (s_blocks st2)) st2 st3 \<and> alive (s_blocks st3) (length (s_blocks st2)) \<and>
    prev_block (blk st3 (length (s_blocks st2))) = p2 \<and> copy_of S st x st3 (blk st3 (length (s_blocks st2)))"
proof -
  note Z = sodium_sizes [OF S]
  let ?n = "length (s_blocks st2)" and ?ts = "block_txns st x"
  have v: "hash_of S st2 p2 = hash_of S st (prev_block x)" "seed_input S st2 p2 = seed_input S st (prev_block x)"
    "entries st2 p2 = entries st (prev_block x)" "ledger st2 p2 = ledger st (prev_block x)" "p2 = None \<longleftrightarrow> prev_block x = None"
    using view by (auto simp: same_view_def ledger_def)
  have A: "block_sized x" "bhash x = generichash S (enc (T_tuple (header_form S st x)))"
    "sign_verify_detached S (bsignature x) (bhash x) (public_key x)"
    "sortition_seed x = generichash S (seed_input S st2 p2)"
    "vrf_verify S (public_key x) (sortition_proof x) (sortition_seed x) = Some (sortition_hash x)"
    "sortition_priority x = delegate_priority S (sortition_hash x) (delegate x)"
    "may_stake (entries st2 p2) (public_key x)"
    "p2 \<noteq> None \<Longrightarrow> \<exists>w. ledger st2 p2 (public_key x) = Some w \<and> delegate x < delegates w"
    using au unfolding authentic_def v by blast+
  have bo: "blocks_ok st2 ?n" using ok by (simp add: good_store_def store_ok_def)
  have key: "key_ok (public_key x)" using A(1) by (simp add: block_sized_def key_ok_def)
  have yf: "prev_block y = p2" "public_key y = public_key x" "sortition_proof y = sortition_proof x"
    "delegate y = delegate x" "timestamp y = timestamp x" "bmerkle_root y = bmerkle_root x" "bsignature y = bsignature x"
    "children y = list_create 1"
    by (simp_all add: y_def new_block_def)
  have cl: "length (chain st2 p2) < 2 ^ 31" using chain_length(1) [OF bo kn] small by simp
  obtain l where l: "foldR (add_txn S mem (parsed q (txns_form ?ts))) [0..<length ?ts] (list_create (length ?ts), st2) =
      Inr (l, st2\<lparr>s_txns := s_txns st2 @ map Some ?ts\<rparr>)"
      "list_elems l = map (\<lambda>i. Some (length (s_txns st2) + i)) [0..<length ?ts]"
    using encoded_add_txns [OF S ts mem] by blast
  let ?st1 = "st2\<lparr>s_txns := s_txns st2 @ map Some ?ts\<rparr>"
  note AG = adding_good [OF ok add_txns_adding [OF S l(1)]]
  let ?y = "y\<lparr>sortition_seed := sortition_seed x, sortition_hash := sortition_hash x,
      sortition_priority := sortition_priority x, height := 1 + of_nat (length (chain st2 p2)), transactions := l\<rparr>"
  have run: "accept_block S st2 mem (parsed q (txns_form ?ts)) y = verify_and_finish S ?st1 ?y"
  proof -
    have "block_compute_seed S st2 y = Inr (y\<lparr>sortition_seed := sortition_seed x\<rparr>)"
      using block_compute_seed_result [OF S ok, of y] kn A(4) by (simp add: yf)
    then show ?thesis
      using is_staking_allowed_rule [OF bo kn key order_refl cl] A(5-7) height_chain [OF bo kn]
        delegate_allowed_result [OF bo kn key order_refl A(8)] l(1)
      by (simp add: accept_block_def yf Let_def tuple_size_def del: enc.simps expects.simps)
  qed
  have txns: "map (\<lambda>p. obj (s_txns ?st1) (the p)) (list_elems l) = ?ts"
    by (rule nth_equalityI) (simp_all add: l(2) nth_append)
  then have bt: "block_txns ?st1 z = ?ts" if "transactions z = l" for z by (simp add: block_txns_def that)
  have len: "length (list_elems (transactions x)) = length (list_elems l)" by (simp add: l(2) block_txns_def)
  have hf: "header_form S ?st1 z = header_form S st x"
    if "timestamp z = timestamp x" "prev_block z = p2" "bmerkle_root z = bmerkle_root x" "public_key z = public_key x"
      "sortition_proof z = sortition_proof x" "delegate z = delegate x" "transactions z = l" for z
    using that hash_of_extends [OF kn AG(2)] v(1) len by (simp add: header_form_def)
  have tok: "\<forall>p \<in> set (list_elems l). \<exists>r. p = Some r \<and> alive (s_txns ?st1) r \<and> txn_ok S (obj (s_txns ?st1) r)"
    using AG(7) l(2) by auto
  note C = chain_extends [OF bo kn AG(2)]
  have body: "body_ok ?st1 (length (s_blocks ?st1)) ?y"
    using kn key tok C(1) AG(5) by (auto simp: body_ok_def yf list_ok_create txn_ptr_ok_def txn_ok_def known_def)
  have acc: "map_ok key_ok (accounts ?y)" "map_abs (accounts ?y) = Map.empty"
    using new_block_accounts [OF S] by (simp_all add: y_def)
  have hy: "header_form S ?st1 ?y = header_form S st x" by (rule hf) (simp_all add: yf)
  let ?z = "?y\<lparr>bhash := generichash S (enc (T_tuple (header_form S ?st1 ?y)))\<rparr>"
  have hz: "header_form S ?st1 ?z = header_form S st x" by (rule hf) (simp_all add: yf)
  have bz: "bhash ?z = bhash x" unfolding hy A(2) by simp
  have auth: "authentic S ?st1 ?z"
    unfolding authentic_def hz bz
    using A tok seed_input_extends [OF kn AG(2)] C(2,3) by (simp add: yf block_sized_def txns_ok_def del: enc.simps)
  obtain st3 where st3: "verify_and_finish S ?st1 ?y = Inr (Some ?n, st3)" "good_store S st3" "extends ?n ?st1 st3"
      "s_txns st3 = s_txns ?st1" "blk st3 ?n = ?z\<lparr>accounts := accounts (blk st3 ?n)\<rparr>" "alive (s_blocks st3) ?n"
    using verify_and_finish_authentic [OF S AG(1) body acc auth] by auto
  have "copy_of S st x st3 (?z\<lparr>accounts := accounts (blk st3 ?n)\<rparr>)"
  proof -
    have "header_form S st3 (?z\<lparr>accounts := accounts (blk st3 ?n)\<rparr>) = header_form S ?st1 (?z\<lparr>accounts := accounts (blk st3 ?n)\<rparr>)"
      using header_form_extends [OF _ st3(3)] C(5) by (simp add: yf del: enc.simps)
    also have "\<dots> = header_form S st x" by (rule hf) (simp_all add: yf)
    finally have h: "header_form S st3 (?z\<lparr>accounts := accounts (blk st3 ?n)\<rparr>) = header_form S st x" .
    have "block_txns st3 (?z\<lparr>accounts := accounts (blk st3 ?n)\<rparr>) = ?ts"
      using bt [of "?z\<lparr>accounts := accounts (blk st3 ?n)\<rparr>"] st3(4) by (simp add: block_txns_def del: enc.simps)
    then show ?thesis using h bz by (simp add: copy_of_def block_form_def yf del: enc.simps)
  qed
  then have "copy_of S st x st3 (blk st3 ?n)" by (subst st3(5))
  moreover have "prev_block (blk st3 ?n) = p2" by (subst st3(5)) (simp add: yf)
  ultimately show ?thesis using run st3(1,2,6) extends_trans [OF AG(2) st3(3)] by auto
qed

lemma block_entry_txns:
  "block_entry st b = \<lparr>creator = public_key (blk st b),
     transfers = map (\<lambda>t. (tsender t, trecipient t, tvalue t)) (block_txns st (blk st b))\<rparr>"
  by (simp add: block_entry_def block_txns_def txn_entry_def Let_def)

lemma copy_of_entries:
  assumes "good_store S st" "alive (s_blocks st) b" "good_store S st2" "alive (s_blocks st2) c"
    and "copy_of S st (blk st b) st2 (blk st2 c)"
    and "entries st2 (prev_block (blk st2 c)) = entries st (prev_block (blk st b))"
  shows "entries st2 (Some c) = entries st (Some b)"
proof -
  have "entries st (Some b) = block_entry st b # entries st (prev_block (blk st b))"
    "entries st2 (Some c) = block_entry st2 c # entries st2 (prev_block (blk st2 c))"
    using good_storeD(1) [OF assms(1,2)] good_storeD(1) [OF assms(3,4)]
    by (auto intro!: entries_Some simp: body_ok_def)
  moreover have "public_key (blk st2 c) = public_key (blk st b)"
    using assms(5) by (simp add: copy_of_def block_form_def header_form_def)
  ultimately show ?thesis using assms(5,6) by (simp add: block_entry_txns copy_of_def)
qed

section \<open>Properties\<close>

definition empty_store :: store where
  "empty_store = \<lparr>s_blocks = [], s_accounts = [], s_txns = []\<rparr>"

lemma empty_store_simps [simp]: "s_blocks empty_store = []" "s_accounts empty_store = []" "s_txns empty_store = []"
  by (simp_all add: empty_store_def)

lemma empty_store_good: "good_store S empty_store"
  by (simp add: empty_store_def good_store_def store_ok_def blocks_ok_def blocks_authentic_def)

lemma created_root: "created S st prev pk txns st' x \<Longrightarrow> root_ok S st' x"
  by (simp add: created_def root_ok_def)

text \<open>
  C8: Creating a block. A node with a good store that calls \<open>block_create\<close> with its key pair and a
  list of well-formed transactions gets a block exactly if the staking rule allows it; otherwise
  nothing changes. The new block is authentic, so every receiver can check it, its priority is the
  least among those of the creator's delegates, its Merkle root is that of its transactions, and its
  ledger is that of the previous block with the reward and the transfers applied; older blocks keep
  their content.
\<close>

theorem block_creation:
  assumes S: "sodium_ok S keypair" "keypair pk sk" and st: "good_store S st"
    and prev: "known st (length (s_blocks st)) prev" and len: "length (chain st prev) < 2 ^ 31"
    and txns: "txn_list_ok S st txns"
  shows "\<exists>r st'. block_create S now st pk sk prev txns = Inr (r, st') \<and> good_store S st' \<and>
    extends (length (s_blocks st)) st st' \<and> (r \<noteq> None \<longleftrightarrow> may_stake (entries st prev) pk) \<and>
    (r = None \<longrightarrow> st' = st) \<and>
    (\<forall>b. r = Some b \<longrightarrow> alive (s_blocks st') b \<and> authentic S st' (blk st' b) \<and>
       created S st prev pk txns st' (blk st' b) \<and>
       ledger st' (Some b) = apply_entry \<lparr>creator = pk, transfers = map (txn_entry st) (list_elems txns)\<rparr> (ledger st prev))"
proof (cases "may_stake (entries st prev) pk")
  case True
  let ?n = "length (s_blocks st)"
  obtain st' where st': "block_create S now st pk sk prev txns = Inr (Some ?n, st')" "good_store S st'"
      "extends ?n st st'" "alive (s_blocks st') ?n" "s_txns st' = s_txns st" "created S st prev pk txns st' (blk st' ?n)"
    using block_create_result [OF S st prev len txns, of now] True by auto
  have bo: "blocks_ok st ?n" using st by (simp add: good_store_def store_ok_def)
  note C = chain_extends [OF bo prev st'(3)]
  have f: "prev_block (blk st' ?n) = prev" "public_key (blk st' ?n) = pk" "transactions (blk st' ?n) = txns"
    using st'(6) by (simp_all add: created_def)
  have "\<forall>p. prev_block (blk st' ?n) = Some p \<longrightarrow> p < ?n"
    using good_storeD(1) [OF st'(2,4)] by (simp add: body_ok_def)
  from ledger_Some [OF this]
  have "ledger st' (Some ?n) = apply_entry \<lparr>creator = pk, transfers = map (txn_entry st) (list_elems txns)\<rparr> (ledger st prev)"
    using C(3) st'(5) by (simp add: f block_entry_def txn_entry_def [abs_def])
  then show ?thesis using st' True good_storeD(3) [OF st'(2,4)] by blast
next
  case False
  moreover have "extends (length (s_blocks st)) st st" using st by (intro blocks_ok_refl) (simp add: good_store_def store_ok_def)
  ultimately show ?thesis using block_create_result [OF S st prev len txns, of now] st by simp
qed

theorem block_creation_witness:
  "\<exists>r st'. block_create toy 7 empty_store (replicate 32 1) (replicate 32 1) None (list_create 1) = Inr (r, st') \<and>
     good_store toy st' \<and> r \<noteq> None"
proof -
  have "txn_list_ok toy empty_store (list_create 1)" by (simp add: txn_list_ok_def list_rd_create)
  moreover have "toy_keypair (replicate 32 1) (replicate 32 1)" by (simp add: toy_keypair_def)
  ultimately show ?thesis
    using block_creation [OF toy_ok, of "replicate 32 1" "replicate 32 1" empty_store None "list_create 1" 7]
    by (auto simp: empty_store_good may_stake_def)
qed

text \<open>A created block for the witnesses of the properties below.\<close>

lemma sample_created:
  obtains st where "good_store toy st" "alive (s_blocks st) 0" "root_ok toy st (blk st 0)"
    "prev_block (blk st 0) = None" "length (enc (T_tuple (block_form toy st (blk st 0)))) < 2 ^ 31"
    "transactions (blk st 0) = list_create 1" "list_elems (children (blk st 0)) = []" "s_blocks st = [Some (blk st 0)]"
    "timestamp (blk st 0) = 7" "public_key (blk st 0) = replicate 32 1"
proof -
  have "txn_list_ok toy empty_store (list_create 1)" by (simp add: txn_list_ok_def list_rd_create)
  moreover have "toy_keypair (replicate 32 1) (replicate 32 1)" by (simp add: toy_keypair_def)
  ultimately obtain st where st: "good_store toy st" "alive (s_blocks st) 0"
      "created toy empty_store None (replicate 32 1) (list_create 1) st (blk st 0)"
      "list_elems (children (blk st 0)) = []" "length (s_blocks st) = 1" "timestamp (blk st 0) = 7"
    using block_create_result [OF toy_ok, of "replicate 32 1" "replicate 32 1" empty_store None "list_create 1" 7]
    by (auto simp: empty_store_good may_stake_def)
  have p: "prev_block (blk st 0) = None" "transactions (blk st 0) = list_create 1" "public_key (blk st 0) = replicate 32 1"
    using st(3) by (simp_all add: created_def)
  have sz: "block_sized (blk st 0)" using good_storeD(3) [OF st(1,2)] by (simp add: authentic_def)
  then have "length (enc (T_tuple (header_form toy st (blk st 0)))) = 217"
    by (rule length_header_form(1)) (simp add: p hash_of_def sodium_sizes [OF toy_ok])
  moreover have "length (bsignature (blk st 0)) = 64" using sz by (simp add: block_sized_def)
  ultimately have "length (enc (T_tuple (block_form toy st (blk st 0)))) < 2 ^ 31"
    by (simp add: block_form_def block_txns_def p)
  moreover have "s_blocks st = [Some (blk st 0)]"
    using st(2,5) by (cases "s_blocks st") (auto simp: alive_def)
  ultimately show ?thesis using that st(1,2,4,6) p created_root [OF st(3)] by blast
qed

text \<open>
  C3: Relaying a block works. The bytes that a node writes for one of its blocks parse, and a node
  that knows the same chain below the block accepts them: the new block has the content, hash,
  signature, seed and priority of the original, the receiver's store stays good and keeps its other
  blocks, and the ledger the receiver computes for the block is the sender's. (The Merkle root in
  the header has to be the one of the block's transactions, as it is for every created block; the
  message has to fit the 2 GiB the buffers can hold.)
\<close>

theorem block_relay_round_trip:
  assumes S: "sodium_ok S keypair" and st: "good_store S st" "alive (s_blocks st) b" "root_ok S st (blk st b)"
    and size: "length (enc (T_tuple (block_form S st (blk st b)))) < 2 ^ 31"
    and st2: "good_store S st2" "known st2 (length (s_blocks st2)) p" "length (s_blocks st2) < 2 ^ 31"
      "same_view S st (prev_block (blk st b)) st2 p"
    and find_block: "find_block (hash_of S st (prev_block (blk st b))) = Inr p"
  shows "\<exists>buf t c st3. block_write S st b (dynamic_buffer_create 512) = Inr buf \<and>
    tuple_parse (unat (d_length buf)) (d_data buf) (Some 0) (unat (d_length buf)) = Inr (Some t) \<and>
    block_create_from_tuple S find_block st2 (d_data buf) t = Inr (Some c, st3) \<and>
    good_store S st3 \<and> extends (length (s_blocks st2)) st2 st3 \<and> alive (s_blocks st3) c \<and>
    prev_block (blk st3 c) = p \<and> copy_of S st (blk st b) st3 (blk st3 c) \<and>
    ledger st3 (Some c) = ledger st (Some b)"
proof -
  let ?x = "blk st b" and ?n = "length (s_blocks st2)"
  let ?ts = "block_txns st ?x" and ?form = "block_form S st ?x"
  note G = good_storeD [OF st(1,2)]
  have au: "block_sized ?x" "txns_ok S st ?x" using G(3) by (auto simp: authentic_def)
  have kn: "known st (length (s_blocks st)) (prev_block ?x)"
    using prev_known(1) [OF G(1)] alive_less [OF st(2)] by simp
  note hl = good_known_lengths(1) [OF S st(1) kn]
  have tok: "\<forall>t \<in> set ?ts. txn_ok S t" using au(2) by (fastforce simp: txns_ok_def block_txns_def)
  then have sz: "\<forall>t \<in> set ?ts. txn_sized t" by (auto simp: txn_ok_def)
  have "length ?ts \<le> length (enc (T_tuple ?form))"
    using length_enc_list [of "txns_form ?ts"] by (simp add: block_form_def)
  then have nts: "length ?ts < 2 ^ 32" using size by simp
  obtain buf where buf: "block_write S st b (dynamic_buffer_create 512) = Inr buf" "dbuf_ok buf" "dbuf_bytes buf = enc (T_tuple ?form)"
    using dbuf.appends_run [OF writes_block [OF S st(1,2)] dbuf_ok_create [of 512]] size by auto
  have len: "unat (d_length buf) = length (enc (T_tuple ?form))"
    using length_dbuf_bytes [OF buf(2)] buf(3) by simp
  have mem: "mem_at (d_data buf) 0 (enc (T_tuple ?form))" using dbuf_mem_at [OF buf(2)] buf(3) by simp
  have parse: "tuple_parse (unat (d_length buf)) (d_data buf) (Some 0) (unat (d_length buf)) = Inr (Some (parsed 0 ?form))"
    using tuple_parse_enc [OF wf_block_form [OF au(1) hl sz] mem] len by simp
  obtain h q where E: "block_is_valid S (d_data buf) (parsed 0 ?form) = Inr True"
      "tuple_get_tuple (d_data buf) (parsed 0 ?form) 0 = Inr (parsed h (header_form S st ?x))"
      "mem_at (d_data buf) h (enc (T_tuple (header_form S st ?x)))"
      "tuple_get_tuple (d_data buf) (parsed 0 ?form) 2 = Inr (parsed q (txns_form ?ts))"
      "mem_at (d_data buf) q (enc (T_tuple (txns_form ?ts)))"
      "copy_signature S (d_data buf) (parsed 0 ?form) = Inr (bsignature ?x)"
    using encoded_block [OF S au(1) hl st(3) tok nts mem] by blast
  note R = read_block_encoded [where find_block = find_block, OF S au(1) hl E(3,6) find_block]
  obtain st3 where A: "accept_block S st2 (d_data buf) (parsed q (txns_form ?ts))
        ((new_block S (timestamp ?x) p (bmerkle_root ?x) (list_create 0) (public_key ?x))
           \<lparr>delegate := delegate ?x, sortition_proof := sortition_proof ?x, bsignature := bsignature ?x\<rparr>) =
        Inr (Some ?n, st3)" "good_store S st3" "extends ?n st2 st3" "alive (s_blocks st3) ?n"
      "prev_block (blk st3 ?n) = p" "copy_of S st ?x st3 (blk st3 ?n)"
    using accept_encoded [OF S G(3) st2 tok E(5)] by blast
  have run: "block_create_from_tuple S find_block st2 (d_data buf) (parsed 0 ?form) = Inr (Some ?n, st3)"
    by (simp only: block_create_from_tuple_def E(1,2,4) R A(1) bindR_simps if_False simp_thms)
  have bo: "blocks_ok st2 ?n" using st2(1) by (simp add: good_store_def store_ok_def)
  have "entries st3 (prev_block (blk st3 ?n)) = entries st (prev_block ?x)"
    using chain_extends(2) [OF bo st2(2) A(3)] st2(4) A(5) by (simp add: same_view_def)
  then have "ledger st3 (Some ?n) = ledger st (Some b)"
    using copy_of_entries [OF st(1,2) A(2,4,6)] by (simp add: ledger_def)
  then show ?thesis using buf(1) parse run A(2-6) by blast
qed

theorem block_relay_round_trip_witness:
  "\<exists>st buf t c st3. block_write toy st 0 (dynamic_buffer_create 512) = Inr buf \<and>
    tuple_parse (unat (d_length buf)) (d_data buf) (Some 0) (unat (d_length buf)) = Inr (Some t) \<and>
    block_create_from_tuple toy (\<lambda>h. Inr None) empty_store (d_data buf) t = Inr (Some c, st3) \<and>
    copy_of toy st (blk st 0) st3 (blk st3 c)"
proof -
  obtain st where st: "good_store toy st" "alive (s_blocks st) 0" "root_ok toy st (blk st 0)"
    "prev_block (blk st 0) = None" "length (enc (T_tuple (block_form toy st (blk st 0)))) < 2 ^ 31"
    "transactions (blk st 0) = list_create 1"
    by (rule sample_created)
  have "same_view toy st (prev_block (blk st 0)) empty_store None"
    unfolding st(4) by (simp add: same_view_def hash_of_def seed_input_def)
  then show ?thesis
    using block_relay_round_trip [OF toy_ok st(1-3,5) empty_store_good, of None "\<lambda>h. Inr None"] by force
qed

lemma block_received:
  assumes S: "sodium_ok S keypair" and st: "good_store S st" "length (s_blocks st) < 2 ^ 31"
    and find_block: "\<forall>h p. length h = 32 \<longrightarrow> find_block h = Inr p \<longrightarrow> known st (length (s_blocks st)) p"
    and run: "block_create_from_tuple S find_block st mem t = Inr (r, st')"
  shows "\<exists>h p. (r = None \<or> (length h = 32 \<and> find_block h = Inr p)) \<and> outcome S st p (r, st')"
proof (cases "block_is_valid S mem t = Inr True")
  case False
  then have "r = None \<and> st' = st"
    using run by (cases "block_is_valid S mem t") (auto simp: block_create_from_tuple_def)
  then show ?thesis using outcome_refl [OF st(1)] by blast
next
  case True
  then obtain header txns x where x: "read_block S find_block mem t header = Inr x"
      "accept_block S st mem txns x = Inr (r, st')"
    using run by (auto simp: block_create_from_tuple_def bindR_eq_Inr)
  note R = read_block_fields [OF S x(1)]
  have "known st (length (s_blocks st)) (prev_block x)" using R(8) find_block by blast
  from accept_block_outcome [OF S st R(1-7) this x(2)] R(8) show ?thesis by blast
qed

text \<open>A first block, received from its creator.\<close>

lemma relayed_root:
  assumes S: "sodium_ok S keypair" and st: "good_store S st" "alive (s_blocks st) b" "root_ok S st (blk st b)"
    and root: "prev_block (blk st b) = None" and size: "length (enc (T_tuple (block_form S st (blk st b)))) < 2 ^ 31"
    and st2: "good_store S st2" "length (s_blocks st2) < 2 ^ 31"
    and fb: "find_block (hash_of S st None) = Inr None"
  obtains mem t st3 where
    "block_create_from_tuple S find_block st2 mem t = Inr (Some (length (s_blocks st2)), st3)"
    "good_store S st3" "alive (s_blocks st3) (length (s_blocks st2))"
    "prev_block (blk st3 (length (s_blocks st2))) = None" "copy_of S st (blk st b) st3 (blk st3 (length (s_blocks st2)))"
proof -
  let ?x = "blk st b"
  note G = good_storeD(3) [OF st(1,2)]
  have au: "block_sized ?x" "txns_ok S st ?x" using G by (auto simp: authentic_def)
  have tok: "\<forall>t \<in> set (block_txns st ?x). txn_ok S t"
    using au(2) by (fastforce simp: txns_ok_def block_txns_def)
  have hl: "length (hash_of S st (prev_block ?x)) = 32"
    by (simp add: root hash_of_def sodium_sizes [OF S])
  have "length (block_txns st ?x) \<le> length (enc (T_tuple (block_form S st ?x)))"
    using length_enc_list [of "txns_form (block_txns st ?x)"] by (simp add: block_form_def)
  then have n: "length (block_txns st ?x) < 2 ^ 32" using size by simp
  let ?mem = "map Some (enc (T_tuple (block_form S st ?x)))" and ?t = "parsed 0 (block_form S st ?x)"
  obtain h q where E: "block_is_valid S ?mem ?t = Inr True"
      "tuple_get_tuple ?mem ?t 0 = Inr (parsed h (header_form S st ?x))"
      "mem_at ?mem h (enc (T_tuple (header_form S st ?x)))"
      "tuple_get_tuple ?mem ?t 2 = Inr (parsed q (txns_form (block_txns st ?x)))"
      "mem_at ?mem q (enc (T_tuple (txns_form (block_txns st ?x))))"
      "copy_signature S ?mem ?t = Inr (bsignature ?x)"
    using encoded_block [OF S au(1) hl st(3) tok n mem_at_whole] by blast
  have view: "same_view S st (prev_block ?x) st2 None"
    unfolding root by (simp add: same_view_def hash_of_def seed_input_def)
  have fb': "find_block (hash_of S st (prev_block ?x)) = Inr None" using fb root by simp
  note R = read_block_encoded [where find_block = find_block, OF S au(1) hl E(3,6) fb']
  have kn: "known st2 (length (s_blocks st2)) None" by simp
  let ?n = "length (s_blocks st2)"
  obtain y st3 where A: "read_block S find_block ?mem ?t (parsed h (header_form S st ?x)) = Inr y"
      "accept_block S st2 ?mem (parsed q (txns_form (block_txns st ?x))) y = Inr (Some ?n, st3)"
      "good_store S st3" "alive (s_blocks st3) ?n" "prev_block (blk st3 ?n) = None" "copy_of S st ?x st3 (blk st3 ?n)"
    using accept_encoded [OF S G st2(1) kn st2(2) view tok E(5)] R by blast
  have "block_create_from_tuple S find_block st2 ?mem ?t = Inr (Some ?n, st3)"
    by (simp only: block_create_from_tuple_def E(1,2,4) A(1,2) bindR_simps if_False simp_thms)
  then show ?thesis using A(3-6) by (rule that)
qed



text \<open>
  C19: The length of the block signature is not checked. Take the message of any block and put more
  than 64 bytes where the signature is: the message still passes \<open>block_is_valid\<close>, and
  \<open>block_create_from_tuple\<close> then copies the bytes past the end of the 64-byte field.
\<close>

theorem oversized_signature_overflows:
  assumes S: "sodium_ok S keypair" and st: "good_store S st" "alive (s_blocks st) b" "root_ok S st (blk st b)"
    and sig: "64 < length sig" "length (enc (T_tuple (message_form S st (blk st b) sig))) < 2 ^ 31"
    and find_block: "find_block (hash_of S st (prev_block (blk st b))) = Inr p"
  defines "mem \<equiv> map Some (enc (T_tuple (message_form S st (blk st b) sig)))"
  shows "\<exists>t. tuple_parse (length mem) mem (Some 0) (length mem) = Inr (Some t) \<and>
    block_is_valid S mem t = Inr True \<and> block_create_from_tuple S find_block st2 mem t = Inl Out_of_bounds"
proof -
  let ?x = "blk st b"
  note G = good_storeD [OF st(1,2)]
  have au: "block_sized ?x" "txns_ok S st ?x" using G(3) by (auto simp: authentic_def)
  have kn: "known st (length (s_blocks st)) (prev_block ?x)"
    using prev_known(1) [OF G(1)] alive_less [OF st(2)] by simp
  note hl = good_known_lengths(1) [OF S st(1) kn]
  have tok: "\<forall>t \<in> set (block_txns st ?x). txn_ok S t" using au(2) by (fastforce simp: txns_ok_def block_txns_def)
  then have sz: "\<forall>t \<in> set (block_txns st ?x). txn_sized t" by (auto simp: txn_ok_def)
  have "length (block_txns st ?x) \<le> length (enc (T_tuple (message_form S st ?x sig)))"
    using length_enc_list [of "txns_form (block_txns st ?x)"] by (simp add: message_form_def)
  then have n: "length (block_txns st ?x) < 2 ^ 32" using sig(2) by simp
  have s: "length sig < 2 ^ 32" using sig(2) by (simp add: message_form_def)
  have mem: "mem_at mem 0 (enc (T_tuple (message_form S st ?x sig)))" unfolding mem_def by (rule mem_at_whole)
  obtain h q where E: "block_is_valid S mem (parsed 0 (message_form S st ?x sig)) = Inr True"
      "tuple_get_tuple mem (parsed 0 (message_form S st ?x sig)) 0 = Inr (parsed h (header_form S st ?x))"
      "mem_at mem h (enc (T_tuple (header_form S st ?x)))"
      "tuple_get_tuple mem (parsed 0 (message_form S st ?x sig)) 2 = Inr (parsed q (txns_form (block_txns st ?x)))"
      "read_binary mem (parsed 0 (message_form S st ?x sig)) 1 = Inr sig"
    using encoded_message [OF S au(1) hl st(3) tok n s mem] by blast
  have "copy_signature S mem (parsed 0 (message_form S st ?x sig)) = Inl Out_of_bounds"
    using E(5) sig(1) by (simp add: copy_signature_def sodium_sizes [OF S] del: enc.simps expects.simps)
  then have "read_block S find_block mem (parsed 0 (message_form S st ?x sig)) (parsed h (header_form S st ?x)) = Inl Out_of_bounds"
    using encoded_header [OF S au(1) hl E(3)] find_block
    by (simp add: read_block_def sodium_sizes [OF S] del: enc.simps expects.simps)
  then have "block_create_from_tuple S find_block st2 mem (parsed 0 (message_form S st ?x sig)) = Inl Out_of_bounds"
    using E(1,2,4) by (simp add: block_create_from_tuple_def del: enc.simps expects.simps)
  moreover have "tuple_parse (length mem) mem (Some 0) (length mem) = Inr (Some (parsed 0 (message_form S st ?x sig)))"
    using tuple_parse_enc [OF wf_message_form [OF au(1) hl sz s] mem] by (simp add: mem_def del: enc.simps expects.simps)
  ultimately show ?thesis using E(1) by blast
qed

theorem oversized_signature_overflows_witness:
  "\<exists>mem t. tuple_parse (length mem) mem (Some 0) (length mem) = Inr (Some t) \<and>
    block_is_valid toy mem t = Inr True \<and>
    block_create_from_tuple toy (\<lambda>h. Inr None) empty_store mem t = Inl Out_of_bounds"
proof -
  obtain st where st: "good_store toy st" "alive (s_blocks st) 0" "root_ok toy st (blk st 0)"
    "prev_block (blk st 0) = None" "length (enc (T_tuple (block_form toy st (blk st 0)))) < 2 ^ 31"
    "transactions (blk st 0) = list_create 1"
    by (rule sample_created)
  have "block_sized (blk st 0)" using good_storeD(3) [OF st(1,2)] by (simp add: authentic_def)
  then have "length (enc (T_tuple (header_form toy st (blk st 0)))) = 217"
    by (rule length_header_form(1)) (simp add: st(4) hash_of_def sodium_sizes [OF toy_ok])
  then have "length (enc (T_tuple (message_form toy st (blk st 0) (replicate 65 1)))) < 2 ^ 31"
    by (simp add: message_form_def block_txns_def st(6))
  then show ?thesis
    using oversized_signature_overflows [OF toy_ok st(1-3), of "replicate 65 1" "\<lambda>h. Inr None" None empty_store]
    by fastforce
qed

end
