(* ===== verification/ForkChoice.thy ===== *)
theory ForkChoice
  imports Blockchain Acceptance
begin

text \<open>
  What the fork choice of \<open>src/blockchain.c\<close> guarantees. The principal chain is specified as a
  greedy path in an abstract tree of hashes with priorities; the path does not depend on the order
  in which the blocks arrived.
\<close>

section \<open>Greedy paths in an abstract tree\<close>

text \<open>A node of the tree is a hash with the hash of its parent, if any, and a priority.\<close>

type_synonym ('h, 'p) tree = "('h \<times> 'h option \<times> 'p) set"

inductive greedy_path :: "('h, 'p :: linorder) tree \<Rightarrow> 'h option \<Rightarrow> 'h list \<Rightarrow> bool" for V where
  stop: "(\<And>h p. (h, parent, p) \<notin> V) \<Longrightarrow> greedy_path V parent []"
| step: "(h, parent, p) \<in> V \<Longrightarrow> (\<And>h' p'. (h', parent, p') \<in> V \<Longrightarrow> p \<le> p') \<Longrightarrow>
    greedy_path V (Some h) hs \<Longrightarrow> greedy_path V parent (h # hs)"

inductive_cases greedy_path_Nil: "greedy_path V parent []"
inductive_cases greedy_path_Cons: "greedy_path V parent (h # hs)"

definition priorities_distinct :: "('h, 'p) tree \<Rightarrow> bool" where
  "priorities_distinct V \<longleftrightarrow> (\<forall>h h' parent p. (h, parent, p) \<in> V \<longrightarrow> (h', parent, p) \<in> V \<longrightarrow> h = h')"

lemma greedy_path_unique:
  assumes "greedy_path V parent xs" "greedy_path V parent ys" "priorities_distinct V"
  shows "xs = ys"
  using assms
proof (induction arbitrary: ys rule: greedy_path.induct)
  case (stop parent)
  then show ?case by (cases ys) (auto elim: greedy_path_Cons)
next
  case (step h parent p hs)
  show ?case
  proof (cases ys)
    case Nil
    then have "(h, parent, p) \<notin> V" using step.prems(1) by (auto elim: greedy_path_Nil)
    then show ?thesis using step.hyps(1) by simp
  next
    case (Cons h' hs')
    then obtain p' where p': "(h', parent, p') \<in> V" "\<And>h p. (h, parent, p) \<in> V \<Longrightarrow> p' \<le> p" "greedy_path V (Some h') hs'"
      using step.prems(1) by (auto elim: greedy_path_Cons)
    have "p = p'" using step.hyps(2) [OF p'(1)] p'(2) [OF step.hyps(1)] by simp
    then have "h = h'" using step.prems(2) step.hyps(1) p'(1) unfolding priorities_distinct_def by blast
    then show ?thesis using step.IH [of hs'] p'(3) step.prems(2) Cons by simp
  qed
qed

section \<open>The tree of a node\<close>

definition parent_hash :: "store \<Rightarrow> addr option \<Rightarrow> byte list option" where
  "parent_hash st bo = map_option (\<lambda>p. bhash (blk st p)) bo"

definition node_view :: "store \<Rightarrow> addr \<Rightarrow> byte list \<times> byte list option \<times> byte list" where
  "node_view st b = (bhash (blk st b), parent_hash st (prev_block (blk st b)), sortition_priority (blk st b))"

definition tree_view :: "store \<Rightarrow> blockchain_t \<Rightarrow> (byte list, byte list) tree" where
  "tree_view st bc = node_view st ` registered bc"

definition principal_hashes :: "store \<Rightarrow> blockchain_t \<Rightarrow> byte list list" where
  "principal_hashes st bc = rev (map (\<lambda>b. bhash (blk st b)) (chain st (principal bc)))"

lemma parent_hash_inj:
  assumes "tree_ok st bc" "\<forall>p. x = Some p \<longrightarrow> p \<in> registered bc" "\<forall>p. y = Some p \<longrightarrow> p \<in> registered bc"
    "parent_hash st x = parent_hash st y"
  shows "x = y"
proof (cases x)
  case None
  then show ?thesis using assms(4) by (simp add: parent_hash_def)
next
  case (Some p)
  then obtain q where q: "y = Some q" "bhash (blk st q) = bhash (blk st p)"
    using assms(4) by (cases y) (simp_all add: parent_hash_def)
  have "map_abs (bc_blocks bc) (bhash (blk st p)) = Some p" "map_abs (bc_blocks bc) (bhash (blk st q)) = Some q"
    using tree_okD(3) [OF assms(1)] assms(2,3) Some q(1) by blast+
  then show ?thesis using Some q by simp
qed

lemma principal_greedy_path:
  assumes ok: "good_store S st" and cs: "chain_state_ok st bc"
  shows "greedy_path (tree_view st bc) None (principal_hashes st bc)"
proof -
  have bo: "blocks_ok st (length (s_blocks st))" using ok by (simp add: good_store_def store_ok_def)
  have tr: "tree_ok st bc" and g: "greedy st (registered bc) (principal bc)"
    and tip: "\<forall>t. principal bc = Some t \<longrightarrow> t \<in> registered bc"
    using cs by (simp_all add: chain_state_ok_def)
  let ?V = "tree_view st bc"
  note reg = chain_registered [OF ok tr tip] and tk = registered_known [OF tr tip]
  have prevR: "\<forall>p. prev_block (blk st c) = Some p \<longrightarrow> p \<in> registered bc" if "c \<in> registered bc" for c
    using tree_okD(4) [OF tr that] by blast
  have ends: "greedy_path ?V (parent_hash st (principal bc)) []"
  proof (rule greedy_path.stop)
    fix h p show "(h, parent_hash st (principal bc), p) \<notin> ?V"
    proof
      assume "(h, parent_hash st (principal bc), p) \<in> ?V"
      then obtain c where c: "c \<in> registered bc" "parent_hash st (prev_block (blk st c)) = parent_hash st (principal bc)"
        by (auto simp: tree_view_def node_view_def)
      have "prev_block (blk st c) = principal bc" by (rule parent_hash_inj [OF tr prevR [OF c(1)] tip c(2)])
      then show False using g c(1) unfolding greedy_def by blast
    qed
  qed
  have "greedy_path ?V None (rev (map (\<lambda>b. bhash (blk st b)) (chain st bo)) @ hs)"
    if "known st (length (s_blocks st)) bo" "set (chain st bo) \<subseteq> set (chain st (principal bc))"
      "greedy_path ?V (parent_hash st bo) hs" for bo hs
    using bo that
  proof (induction arbitrary: hs rule: chain_induct)
    case root
    then show ?case by (simp add: parent_hash_def)
  next
    case (step b)
    have ch: "chain st (Some b) = b # chain st (prev_block (blk st b))" by (rule chain_Some [OF step(5)])
    then have b: "b \<in> set (chain st (principal bc))" using step.prems(1) by simp
    then have bR: "b \<in> registered bc" using reg by blast
    have "greedy_path ?V (parent_hash st (prev_block (blk st b))) (bhash (blk st b) # hs)"
    proof (rule greedy_path.step)
      show "(bhash (blk st b), parent_hash st (prev_block (blk st b)), sortition_priority (blk st b)) \<in> ?V"
        using bR by (simp add: tree_view_def node_view_def)
      show "greedy_path ?V (Some (bhash (blk st b))) hs" using step.prems(2) by (simp add: parent_hash_def)
    next
      fix h p assume "(h, parent_hash st (prev_block (blk st b)), p) \<in> ?V"
      then obtain c where c: "c \<in> registered bc" "parent_hash st (prev_block (blk st c)) = parent_hash st (prev_block (blk st b))"
          "p = sortition_priority (blk st c)"
        by (auto simp: tree_view_def node_view_def)
      have "prev_block (blk st c) = prev_block (blk st b)"
        by (rule parent_hash_inj [OF tr prevR [OF c(1)] prevR [OF bR] c(2)])
      then show "sortition_priority (blk st b) \<le> p" using g b c(1,3) unfolding greedy_def by blast
    qed
    then show ?case using step(7) [of "bhash (blk st b) # hs"] step.prems(1) ch by simp
  qed
  from this [OF tk subset_refl ends] show ?thesis by (simp add: principal_hashes_def)
qed

section \<open>Properties\<close>

lemma node_view_extends:
  assumes ok: "good_store S st" and e: "extends (length (s_blocks st)) st st'" and b: "alive (s_blocks st) b"
  shows "node_view st' b = node_view st b"
proof -
  note F = extends_fields [OF e alive_less [OF b] b]
  have "bhash (blk st' p) = bhash (blk st p)" if "prev_block (blk st b) = Some p" for p
  proof -
    have "known st (length (s_blocks st)) (prev_block (blk st b))"
      using prev_known(1) [OF good_storeD(1) [OF ok b]] alive_less [OF b] by simp
    then have "alive (s_blocks st) p" using that by simp
    then show ?thesis using extends_fields(6) [OF e alive_less] by blast
  qed
  then show ?thesis using F(1,6,7) by (cases "prev_block (blk st b)") (simp_all add: node_view_def parent_hash_def)
qed

text \<open>
  C4: A new block joins the tree and the fork choice stays right. For a block that is not in the
  tree, whose previous block is, \<open>blockchain_add_block\<close> returns true; the tree has then exactly one
  more node, the principal chain is again the path that takes the child of least priority at every
  block, and \<open>on_extended\<close> is called when, and only when, the principal block has changed, with the
  old and the new one.
\<close>

theorem add_block_fork_choice:
  assumes "sodium_ok S keypair" "good_store S st" "chain_state_ok st bc"
    and "alive (s_blocks st) b" "list_elems (children (blk st b)) = []" "b \<notin> registered bc"
    and "\<forall>p. prev_block (blk st b) = Some p \<longrightarrow> p \<in> registered bc"
    and "map_abs (bc_blocks bc) (bhash (blk st b)) = None"
  shows "\<exists>ev bc' st'. blockchain_add_block S st bc b = Inr (True, ev, bc', st') \<and>
    good_store S st' \<and> extends (length (s_blocks st)) st st' \<and> chain_state_ok st' bc' \<and>
    tree_view st' bc' = insert (node_view st b) (tree_view st bc) \<and>
    greedy_path (tree_view st' bc') None (principal_hashes st' bc') \<and>
    ev = (if principal bc' = principal bc then None else Some (principal bc, principal bc'))"
proof -
  obtain ev bc' st' where r: "blockchain_add_block S st bc b = Inr (True, ev, bc', st')"
      "added S st bc b (ev, bc', st')"
    using add_block_result [OF assms] by blast
  then have a: "good_store S st'" "chain_state_ok st' bc'" "extends (length (s_blocks st)) st st'"
      "registered bc' = insert b (registered bc)"
      "if better st (principal bc) b then principal bc' = Some b \<and> ev = Some (principal bc, Some b)
       else principal bc' = principal bc \<and> ev = None"
    by (simp_all add: added_def)
  have tr: "tree_ok st bc" using assms(3) by (simp add: chain_state_ok_def)
  have "tree_view st' bc' = insert (node_view st b) (tree_view st bc)"
    unfolding tree_view_def a(4)
    using node_view_extends [OF assms(2) a(3)] assms(4) tree_okD(2) [OF tr] by force
  moreover have "principal bc \<noteq> Some b" using assms(3,6) by (auto simp: chain_state_ok_def)
  ultimately show ?thesis
    using r(1) a principal_greedy_path [OF a(1,2)] by (cases "better st (principal bc) b") auto
qed

theorem add_block_fork_choice_witness:
  "\<exists>st ev bc' st'. alive (s_blocks st) 0 \<and> blockchain_add_block toy st (blockchain_create toy) 0 = Inr (True, ev, bc', st') \<and>
    greedy_path (tree_view st' bc') None (principal_hashes st' bc')"
proof -
  obtain st where st: "good_store toy st" "alive (s_blocks st) 0" "prev_block (blk st 0) = None"
    "list_elems (children (blk st 0)) = []"
    by (rule sample_created)
  have "map_abs (bc_blocks (blockchain_create toy)) = Map.empty"
    using new_accounts_map(2) [OF toy_ok, of "2 ^ 12"] by (simp add: blockchain_create_def N_BLOCK_BUCKETS_def)
  then have "0 \<notin> registered (blockchain_create toy)"
      "map_abs (bc_blocks (blockchain_create toy)) (bhash (blk st 0)) = None"
    by (simp_all add: registered_def)
  then show ?thesis
    using add_block_fork_choice [OF toy_ok st(1) chain_state_ok_create [OF toy_ok] st(2,4)] st(2,3) by fastforce
qed


lemma add_first:
  assumes S: "sodium_ok S keypair" and st: "good_store S st" "alive (s_blocks st) b"
    and b: "prev_block (blk st b) = None" "list_elems (children (blk st b)) = []"
  obtains ev bc st' where "blockchain_add_block S st (blockchain_create S) b = Inr (True, ev, bc, st')"
    "good_store S st'" "chain_state_ok st' bc" "registered bc = {b}" "principal bc = Some b"
    "alive (s_blocks st') b" "node_view st' b = node_view st b" "chain st' (Some b) = [b]"
    "s_blocks st = [Some (blk st b)] \<longrightarrow> s_blocks st' = [Some (blk st' b)]" "extends (length (s_blocks st)) st st'"
proof -
  have "map_abs (bc_blocks (blockchain_create S)) = Map.empty"
    using new_accounts_map(2) [OF S, of "2 ^ 12"] by (simp add: blockchain_create_def N_BLOCK_BUCKETS_def)
  then have e: "registered (blockchain_create S) = {}" "map_abs (bc_blocks (blockchain_create S)) (bhash (blk st b)) = None"
    by (simp_all add: registered_def)
  have "\<forall>p. prev_block (blk st b) = Some p \<longrightarrow> p \<in> registered (blockchain_create S)" by (simp add: b(1))
  from add_block_result [OF S st(1) chain_state_ok_create [OF S] st(2) b(2) _ this e(2)] e(1)
  obtain ev bc st' where r: "blockchain_add_block S st (blockchain_create S) b = Inr (True, ev, bc, st')"
      "added S st (blockchain_create S) b (ev, bc, st')"
    by auto
  have p: "principal (blockchain_create S) = None" by (simp add: blockchain_create_def)
  have a: "good_store S st'" "chain_state_ok st' bc" "registered bc = {b}" "principal bc = Some b"
      "extends (length (s_blocks st)) st st'" "length (s_blocks st') = length (s_blocks st)"
    using r(2) by (simp_all add: added_def e(1) p better_def b(1))
  note F = extends_fields [OF a(5) alive_less [OF st(2)] st(2)]
  have ch: "chain st' (Some b) = [b]" using F(1,9) b(1) by (simp add: chain_Some)
  have one: "s_blocks st = [Some (blk st b)] \<longrightarrow> s_blocks st' = [Some (blk st' b)]"
  proof
    assume l: "s_blocks st = [Some (blk st b)]"
    then have "b = 0" "length (s_blocks st') = 1" using alive_less [OF st(2)] a(6) by (metis One_nat_def length_Cons less_one list.size(3))+
    then show "s_blocks st' = [Some (blk st' b)]" using F(9) by (cases "s_blocks st'") (auto simp: alive_def)
  qed
  show ?thesis by (rule that [OF r(1) a(1-4) F(9) node_view_extends [OF st(1) a(5) st(2)] ch one a(5)])
qed

lemma sample_added:
  obtains st ev bc st' where "good_store toy st" "alive (s_blocks st) 0"
    "root_ok toy st (blk st 0)" "prev_block (blk st 0) = None"
    "length (enc (T_tuple (block_form toy st (blk st 0)))) < 2 ^ 31"
    "blockchain_add_block toy st (blockchain_create toy) 0 = Inr (True, ev, bc, st')"
    "good_store toy st'" "chain_state_ok st' bc" "registered bc = {0}" "principal bc = Some 0"
    "alive (s_blocks st') 0" "node_view st' 0 = node_view st 0" "chain st' (Some 0) = [0]"
    "s_blocks st' = [Some (blk st' 0)]"
proof -
  obtain st where st: "good_store toy st" "alive (s_blocks st) 0" "root_ok toy st (blk st 0)" "prev_block (blk st 0) = None"
    "length (enc (T_tuple (block_form toy st (blk st 0)))) < 2 ^ 31"
    "list_elems (children (blk st 0)) = []" "s_blocks st = [Some (blk st 0)]"
    by (rule sample_created)
  obtain ev bc st' where A: "blockchain_add_block toy st (blockchain_create toy) 0 = Inr (True, ev, bc, st')"
    "good_store toy st'" "chain_state_ok st' bc" "registered bc = {0}" "principal bc = Some 0"
    "alive (s_blocks st') 0" "node_view st' 0 = node_view st 0" "chain st' (Some 0) = [0]"
    "s_blocks st = [Some (blk st 0)] \<longrightarrow> s_blocks st' = [Some (blk st' 0)]"
    by (rule add_first [OF toy_ok st(1,2,4,6)])
  show ?thesis by (rule that [OF st(1-5) A(1-8) A(9) [THEN mp, OF st(7)]])
qed

text \<open>A second node, whose first block slot was freed before, receives the block and adds it.\<close>

lemma sample_second_node:
  assumes st: "good_store toy st" "alive (s_blocks st) 0" "root_ok toy st (blk st 0)" "prev_block (blk st 0) = None"
    "length (enc (T_tuple (block_form toy st (blk st 0)))) < 2 ^ 31"
  obtains st2 bc2 where "good_store toy st2" "chain_state_ok st2 bc2" "registered bc2 = {1}" "principal bc2 = Some 1"
    "node_view st2 1 = node_view st 0"
proof -
  let ?st = "empty_store\<lparr>s_blocks := [None]\<rparr>"
  have good: "good_store toy ?st"
    by (simp add: empty_store_def good_store_def store_ok_def blocks_ok_def blocks_authentic_def alive_def)
  have small: "length (s_blocks ?st) < 2 ^ 31" by simp
  obtain mem t st3 where A0:
    "block_create_from_tuple toy (\<lambda>h. Inr None) ?st mem t = Inr (Some (length (s_blocks ?st)), st3)"
    "good_store toy st3" "alive (s_blocks st3) (length (s_blocks ?st))" "prev_block (blk st3 (length (s_blocks ?st))) = None"
    "copy_of toy st (blk st 0) st3 (blk st3 (length (s_blocks ?st)))"
    by (rule relayed_root [OF toy_ok st good small refl])
  have "length (s_blocks ?st) = 1" by simp
  note A = A0 [unfolded this]
  have "\<forall>h p. length h = 32 \<longrightarrow> (Inr None :: addr option res) = Inr p \<longrightarrow> known ?st (length (s_blocks ?st)) p"
    by simp
  from block_received [OF toy_ok good small this A(1)] obtain p where "outcome toy ?st p (Some 1, st3)" by blast
  then have ch: "list_elems (children (blk st3 1)) = []" by (simp add: outcome_def)
  have "node_view st3 1 = node_view st 0"
    using A(4,5) st(4) by (simp add: node_view_def copy_of_def parent_hash_def)
  then show ?thesis using add_first [OF toy_ok A(2,3,4) ch] that by metis
qed


lemma chain_state_ok_find_block:
  assumes "chain_state_ok st bc" "length h = 32"
  shows "\<exists>r. blockchain_get_block bc h = Inr r \<and> known st (length (s_blocks st)) r \<and>
    (\<forall>b. r = Some b \<longleftrightarrow> b \<in> registered bc \<and> bhash (blk st b) = h)"
proof -
  have tr: "tree_ok st bc" using assms(1) by (simp add: chain_state_ok_def)
  have "blockchain_get_block bc h = Inr (map_abs (bc_blocks bc) h)"
    unfolding blockchain_get_block_def using cmap.lookup_law [OF tree_okD(1) [OF tr]] assms(2) by (simp add: key_ok_def)
  moreover have "known st (length (s_blocks st)) (map_abs (bc_blocks bc) h)"
    using tree_okD(6) [OF tr, of h] by (auto simp: known_def alive_less)
  moreover have "map_abs (bc_blocks bc) h = Some b \<longleftrightarrow> b \<in> registered bc \<and> bhash (blk st b) = h" for b
    using tree_okD(3,6) [OF tr] by (auto simp: registered_iff)
  ultimately show ?thesis by blast
qed

text \<open>
  Lookups by hash. \<open>blockchain_get_block\<close> finds the block of the tree that has the hash and
  nothing else, and \<open>blockchain_get_transaction\<close> finds a transaction exactly if a block of the tree
  has one with the hash; what it returns is a transaction of a block of the tree, and has the hash.
\<close>

lemma blockchain_lookups:
  assumes ok: "chain_state_ok st bc" and h: "length h = 32"
  shows "(\<exists>r. blockchain_get_block bc h = Inr r \<and>
      (\<forall>b. r = Some b \<longleftrightarrow> b \<in> registered bc \<and> bhash (blk st b) = h)) \<and>
    (\<exists>r. blockchain_get_transaction bc h = Inr r \<and>
      (r \<noteq> None \<longleftrightarrow> (\<exists>b \<in> registered bc. \<exists>t \<in> set (block_txns st (blk st b)). thash t = h)) \<and>
      (\<forall>a. r = Some a \<longrightarrow> thash (obj (s_txns st) a) = h \<and>
         (\<exists>b \<in> registered bc. Some a \<in> set (list_elems (transactions (blk st b))))))"
proof -
  have i: "txn_index_ok st bc" using ok by (simp add: chain_state_ok_def)
  have "blockchain_get_transaction bc h = Inr (map_abs (bc_txns bc) h)"
  proof -
    have "map_ok key_ok (bc_txns bc)" using i by (simp add: txn_index_ok_def)
    from cmap.lookup_law [OF this, of h] show ?thesis
      unfolding blockchain_get_transaction_def using h by (simp add: key_ok_def)
  qed
  moreover have "map_abs (bc_txns bc) h \<noteq> None \<longleftrightarrow>
      (\<exists>b \<in> registered bc. \<exists>t \<in> set (block_txns st (blk st b)). thash t = h)"
  proof -
    have "map_abs (bc_txns bc) h \<noteq> None \<longleftrightarrow> h \<in> dom (map_abs (bc_txns bc))" by (simp add: domIff)
    also have "\<dots> \<longleftrightarrow> h \<in> (\<Union>b \<in> registered bc. thash ` set (block_txns st (blk st b)))"
      using i by (simp only: txn_index_ok_def)
    finally show ?thesis by blast
  qed
  moreover have "thash (obj (s_txns st) a) = h \<and> (\<exists>b \<in> registered bc. Some a \<in> set (list_elems (transactions (blk st b))))"
    if "map_abs (bc_txns bc) h = Some a" for a
    using i that unfolding txn_index_ok_def by blast
  ultimately have "\<exists>r. blockchain_get_transaction bc h = Inr r \<and>
      (r \<noteq> None \<longleftrightarrow> (\<exists>b \<in> registered bc. \<exists>t \<in> set (block_txns st (blk st b)). thash t = h)) \<and>
      (\<forall>a. r = Some a \<longrightarrow> thash (obj (s_txns st) a) = h \<and>
         (\<exists>b \<in> registered bc. Some a \<in> set (list_elems (transactions (blk st b)))))"
    by (intro exI [of _ "map_abs (bc_txns bc) h"]) simp
  moreover have "\<exists>r. blockchain_get_block bc h = Inr r \<and> (\<forall>b. r = Some b \<longleftrightarrow> b \<in> registered bc \<and> bhash (blk st b) = h)"
    using chain_state_ok_find_block [OF ok h] by blast
  ultimately show ?thesis by (intro conjI)
qed

lemma blockchain_lookups_witness:
  "\<exists>st bc. blockchain_get_block bc (bhash (blk st 0)) = Inr (Some 0) \<and> registered bc = {0}"
proof -
  obtain st bc where st: "good_store toy st" "chain_state_ok st bc" "registered bc = {0}" "alive (s_blocks st) 0"
    by (rule sample_added)
  have "length (bhash (blk st 0)) = 32"
    using good_storeD(3) [OF st(1,4)] by (auto simp: authentic_def sodium_sizes [OF toy_ok] simp del: enc.simps)
  from blockchain_lookups [OF st(2) this] st(3) show ?thesis by (metis insertI1)
qed

text \<open>A block that has just been created or received, and whose hash is new, is added.\<close>

lemma fresh_block_added:
  assumes S: "sodium_ok S keypair" and st: "good_store S st" "chain_state_ok st bc"
    and new: "good_store S st'" "extends (length (s_blocks st)) st st'"
      "take (length (s_blocks st)) (s_blocks st') = s_blocks st"
      "b = length (s_blocks st)" "alive (s_blocks st') b" "list_elems (children (blk st' b)) = []"
    and prev: "\<forall>p. prev_block (blk st' b) = Some p \<longrightarrow> p \<in> registered bc"
    and fresh: "\<forall>c \<in> registered bc. bhash (blk st c) \<noteq> bhash (blk st' b)"
  shows "chain_state_ok st' bc \<and> (\<exists>ev bc' st2. blockchain_add_block S st' bc b = Inr (True, ev, bc', st2) \<and>
    added S st' bc b (ev, bc', st2) \<and> extends (length (s_blocks st)) st st2)"
proof -
  have tr: "tree_ok st bc" using st(2) by (simp add: chain_state_ok_def)
  have ok': "chain_state_ok st' bc" by (rule chain_state_frame [OF st(1) new(2,3) st(2)])
  have bR: "b \<notin> registered bc" using tree_okD(2) [OF tr, of b] alive_less new(4) by blast
  have none: "map_abs (bc_blocks bc) (bhash (blk st' b)) = None"
  proof (rule ccontr)
    assume "map_abs (bc_blocks bc) (bhash (blk st' b)) \<noteq> None"
    then obtain c where "map_abs (bc_blocks bc) (bhash (blk st' b)) = Some c" by auto
    then show False using tree_okD(6) [OF tr] fresh registered_iff by blast
  qed
  from add_block_result [OF S new(1) ok' new(5,6) bR prev none]
  obtain ev bc' st2 where r: "blockchain_add_block S st' bc b = Inr (True, ev, bc', st2)"
      "added S st' bc b (ev, bc', st2)"
    by blast
  then have "extends (length (s_blocks st')) st' st2" by (simp add: added_def)
  then have "extends (length (s_blocks st)) st' st2"
    by (rule extends_mono [rotated]) (use new(4) alive_less [OF new(5)] in simp)
  then have "extends (length (s_blocks st)) st st2" by (rule extends_trans [OF new(2)])
  then show ?thesis using r ok' by blast
qed

text \<open>A block that has just been received is added, or destroyed if the tree has it.\<close>

lemma received_block_added:
  assumes S: "sodium_ok S keypair" and st: "good_store S st" "chain_state_ok st bc"
    and out: "outcome S st prev (Some b, st')" and prev: "\<forall>p. prev = Some p \<longrightarrow> p \<in> registered bc"
  shows "\<exists>new ev bc' st2. blockchain_add_block S st' bc b = Inr (new, ev, bc', st2) \<and>
    good_store S st2 \<and> chain_state_ok st2 bc' \<and> extends (length (s_blocks st)) st st2 \<and>
    (if new then (\<forall>c \<in> registered bc. bhash (blk st c) \<noteq> bhash (blk st' b)) \<and>
         added S st' bc b (ev, bc', st2) \<and> chain_state_ok st' bc
     else (\<exists>c \<in> registered bc. bhash (blk st c) = bhash (blk st' b)) \<and> ev = None \<and> bc' = bc \<and>
         s_blocks st2 = s_blocks st @ [None])"
proof -
  have O: "good_store S st'" "extends (length (s_blocks st)) st st'" "length (s_blocks st') \<le> Suc (length (s_blocks st))"
      "take (length (s_blocks st)) (s_blocks st') = s_blocks st"
      "b = length (s_blocks st)" "alive (s_blocks st') b" "list_elems (children (blk st' b)) = []"
      "prev_block (blk st' b) = prev" "owned (length (s_accounts st)) st' b" "new_txns (length (s_txns st)) (blk st' b)"
    using out unfolding outcome_def fst_conv snd_conv option.case by blast+
  have tr: "tree_ok st bc" using st(2) by (simp add: chain_state_ok_def)
  have ok': "chain_state_ok st' bc" by (rule chain_state_frame [OF st(1) O(2,4) st(2)])
  have len: "length (bhash (blk st' b)) = 32"
    using good_storeD(3) [OF O(1,6)] by (auto simp: authentic_def sodium_sizes [OF S] simp del: enc.simps)
  have get: "map_get (bc_blocks bc) (bhash (blk st' b)) = Inr (map_abs (bc_blocks bc) (bhash (blk st' b)))"
    using cmap.lookup_law [OF tree_okD(1) [OF tr]] len by (simp add: key_ok_def)
  show ?thesis
  proof (cases "map_abs (bc_blocks bc) (bhash (blk st' b))")
    case None
    have p: "\<forall>p. prev_block (blk st' b) = Some p \<longrightarrow> p \<in> registered bc" using prev by (simp add: O(8))
    have f: "\<forall>c \<in> registered bc. bhash (blk st c) \<noteq> bhash (blk st' b)"
      using None tree_okD(3) [OF tr] by fastforce
    from fresh_block_added [OF S st O(1,2,4,5,6,7) p f]
    obtain ev bc' st2 where r: "blockchain_add_block S st' bc b = Inr (True, ev, bc', st2)"
        "added S st' bc b (ev, bc', st2)" "extends (length (s_blocks st)) st st2"
      by blast
    then have "good_store S st2" "chain_state_ok st2 bc'" by (simp_all add: added_def)
    then show ?thesis using r f ok' by (intro exI [of _ True]) auto
  next
    case (Some c)
    then have c: "c \<in> registered bc" "bhash (blk st c) = bhash (blk st' b)"
      using tree_okD(6) [OF tr Some] by (auto simp: registered_iff)
    have n: "s_blocks st' = s_blocks st @ [Some (blk st' b)]"
    proof -
      have "length (s_blocks st') = Suc b" using O(3,5) alive_less [OF O(6)] by simp
      then have "s_blocks st' = take b (s_blocks st') @ [s_blocks st' ! b]"
        by (metis lessI order_refl take_Suc_conv_app_nth take_all)
      then show ?thesis using O(4,5,6) by (simp add: alive_def)
    qed
    obtain st2 where d: "block_destroy st' (Some b) = Inr st2" "good_store S st2"
        "extends (length (s_blocks st)) st st2" "s_blocks st2 = s_blocks st @ [None]"
      using block_destroy_own [OF st(1) O(2,1) n] O(9,10) by (auto simp: O(5))
    have "blockchain_add_block S st' bc b = Inr (False, None, bc, st2)"
      using get Some d(1) O(6) by (simp add: blockchain_add_block_def block_get_hash_def)
    moreover have "chain_state_ok st2 bc"
      by (rule chain_state_frame [OF st(1) d(3) _ st(2)]) (simp add: d(4))
    ultimately show ?thesis using d c by (intro exI [of _ False]) auto
  qed
qed

end
