(* ===== verification/Network.thy ===== *)
theory Network
  imports CList Message Tuple
begin

text \<open>
  The gossip network (\<open>src/network.c\<close>): peers, the table of event handlers, the history of message
  identifiers, the shared buffers of pending writes, and the read buffer of a peer from which the
  messages are cut. libuv is outside the program: what is handed to it (writes, closes, connects)
  is recorded in the state, and its callbacks are operations of the model.

  The table holds handlers as values of a type \<open>'h\<close>, and \<open>call\<close> gives them their meaning: it gets
  the peer, the memory and the tuple, and acts on the network and on the program's own state \<open>'w\<close>.
  The \<open>data\<close> and \<open>free_data\<close> of a peer are \<open>NULL\<close> in every call of the program and are left out;
  sizes are below 2 GiB, so that they fit in an \<open>int\<close>.
\<close>

section \<open>State\<close>

record peer_t =
  p_addr :: "byte list"
  p_port :: int
  p_buf :: dynamic_buffer_t

record shared_buffer_t =
  sb_data :: "byte list"
  sb_ref_count :: int

text \<open>\<open>net_writes\<close> are the writes under way (peer and shared buffer), \<open>net_closing\<close> the sockets being
  closed, \<open>net_connects\<close> the connections asked for.\<close>

record 'h network_t =
  net_handlers :: "'h option list"
  net_peers :: "addr list_t"
  net_history :: "guid_t list_t"
  net_heap :: "peer_t heap"
  net_buffers :: "shared_buffer_t heap"
  net_writes :: "(addr \<times> addr) list"
  net_closing :: "addr list"
  net_connects :: "(byte list \<times> int) list"

type_synonym ('h, 'w) netstate = "'h network_t \<times> 'w"
type_synonym ('h, 'w) caller =
  "'h \<Rightarrow> addr \<Rightarrow> byte arr \<Rightarrow> tuple_t option \<Rightarrow> ('h, 'w) netstate \<Rightarrow> ('h, 'w) netstate res"

definition EVENT_CONNECT :: u16 where "EVENT_CONNECT = 0"
definition EVENT_DISCONNECT :: u16 where "EVENT_DISCONNECT = 1"
definition EVENT_HANDSHAKE :: u16 where "EVENT_HANDSHAKE = 2"
definition EVENT_PEERS_REQUEST :: u16 where "EVENT_PEERS_REQUEST = 3"
definition EVENT_PEERS_RESPONSE :: u16 where "EVENT_PEERS_RESPONSE = 4"
definition EVENT_BLOCKS_REQUEST :: u16 where "EVENT_BLOCKS_REQUEST = 5"
definition EVENT_BLOCKS_RESPONSE :: u16 where "EVENT_BLOCKS_RESPONSE = 6"
definition EVENT_POOL_REQUEST :: u16 where "EVENT_POOL_REQUEST = 7"
definition EVENT_POOL_RESPONSE :: u16 where "EVENT_POOL_RESPONSE = 8"
definition EVENT_BLOCK :: u16 where "EVENT_BLOCK = 9"
definition EVENT_TRANSACTION :: u16 where "EVENT_TRANSACTION = 10"
definition EVENT_COUNT :: u16 where "EVENT_COUNT = 11"

definition MESSAGE_HISTORY_SIZE :: nat where "MESSAGE_HISTORY_SIZE = 1024"

definition network_create :: "'h network_t" where
  "network_create =
     \<lparr>net_handlers = replicate (unat EVENT_COUNT) None, net_peers = list_create 1,
      net_history = list_create MESSAGE_HISTORY_SIZE, net_heap = [], net_buffers = [], net_writes = [],
      net_closing = [], net_connects = []\<rparr>"

text \<open>The identifiers that are freed.\<close>

definition network_destroy :: "'h network_t \<Rightarrow> guid_t list res" where
  "network_destroy self = list_destroy (net_history self) True"

definition network_register :: "u32 \<Rightarrow> 'h \<Rightarrow> 'h network_t \<Rightarrow> 'h network_t res" where
  "network_register event handler self =
     bindR (arr_store (map Some (net_handlers self)) (unat event) (Some handler)) (\<lambda>hs.
       Inr (self\<lparr>net_handlers := map the hs\<rparr>))"

section \<open>History of messages\<close>

definition message_history_compare :: "guid_t \<Rightarrow> guid_t \<Rightarrow> int" where
  "message_history_compare a b = guid_compare a b"

definition message_history_add :: "guid_t \<Rightarrow> 'h network_t \<Rightarrow> 'h network_t res" where
  "message_history_add guid self =
     bindR (if list_size (net_history self) \<ge> MESSAGE_HISTORY_SIZE
            then bindR (list_remove (net_history self) 0) (\<lambda>(old, h). Inr h)
            else Inr (net_history self)) (\<lambda>h.
     bindR (list_add h guid) (\<lambda>h. Inr (self\<lparr>net_history := h\<rparr>)))"

definition message_history_has :: "'h network_t \<Rightarrow> guid_t \<Rightarrow> bool res" where
  "message_history_has self guid =
     bindR (list_find (net_history self) guid (Some (\<lambda>a b. Inr (message_history_compare a b)))) (\<lambda>i.
       Inr (i \<noteq> list_size (net_history self)))"

section \<open>Peers\<close>

definition peer_get_addr :: "'h network_t \<Rightarrow> addr \<Rightarrow> byte list res" where
  "peer_get_addr self peer = bindR (heap_load (net_heap self) peer) (\<lambda>p. Inr (p_addr p))"

definition peer_get_port :: "'h network_t \<Rightarrow> addr \<Rightarrow> int res" where
  "peer_get_port self peer = bindR (heap_load (net_heap self) peer) (\<lambda>p. Inr (p_port p))"

definition peer_set_port :: "addr \<Rightarrow> int \<Rightarrow> 'h network_t \<Rightarrow> 'h network_t res" where
  "peer_set_port peer port self =
     bindR (heap_load (net_heap self) peer) (\<lambda>p.
     bindR (heap_store (net_heap self) peer (p\<lparr>p_port := port\<rparr>)) (\<lambda>h. Inr (self\<lparr>net_heap := h\<rparr>)))"

definition network_peer_count :: "'h network_t \<Rightarrow> nat" where
  "network_peer_count self = list_size (net_peers self)"

definition network_get_peer :: "'h network_t \<Rightarrow> nat \<Rightarrow> addr res" where
  "network_get_peer self i = list_get (net_peers self) i"

text \<open>\<open>strcmp(a, b) == 0\<close> on strings without their terminating 0.\<close>

function has_peer_from :: "'h network_t \<Rightarrow> byte list \<Rightarrow> int \<Rightarrow> nat \<Rightarrow> bool res" where
  "has_peer_from self address port i =
     (if i < list_size (net_peers self) then
        bindR (list_get (net_peers self) i) (\<lambda>peer.
        bindR (peer_get_addr self peer) (\<lambda>peer_addr.
        bindR (peer_get_port self peer) (\<lambda>peer_port.
        if address = peer_addr \<and> port = peer_port then Inr True
        else has_peer_from self address port (Suc i))))
      else Inr False)"
  by pat_completeness auto
termination by (relation "measure (\<lambda>(self, a, p, i). list_size (net_peers self) - i)") auto

declare has_peer_from.simps [simp del]

definition network_has_peer :: "'h network_t \<Rightarrow> byte list \<Rightarrow> int \<Rightarrow> bool res" where
  "network_has_peer self address port = has_peer_from self address port 0"

section \<open>Writing\<close>

definition shared_buffer_create :: "byte list \<Rightarrow> 'h network_t \<Rightarrow> addr \<times> 'h network_t" where
  "shared_buffer_create data self =
     (length (net_buffers self),
      self\<lparr>net_buffers := net_buffers self @ [Some \<lparr>sb_data = data, sb_ref_count = 0\<rparr>]\<rparr>)"

definition shared_buffer_retain :: "addr \<Rightarrow> 'h network_t \<Rightarrow> 'h network_t res" where
  "shared_buffer_retain buf self =
     bindR (heap_load (net_buffers self) buf) (\<lambda>s.
     bindR (heap_store (net_buffers self) buf (s\<lparr>sb_ref_count := sb_ref_count s + 1\<rparr>)) (\<lambda>h.
       Inr (self\<lparr>net_buffers := h\<rparr>)))"

definition shared_buffer_release :: "addr \<Rightarrow> 'h network_t \<Rightarrow> 'h network_t res" where
  "shared_buffer_release buf self =
     bindR (heap_load (net_buffers self) buf) (\<lambda>s.
     let s = s\<lparr>sb_ref_count := sb_ref_count s - 1\<rparr> in
     bindR (if sb_ref_count s = 0 then heap_free (net_buffers self) buf
            else heap_store (net_buffers self) buf s) (\<lambda>h.
       Inr (self\<lparr>net_buffers := h\<rparr>)))"

text \<open>\<open>uv_write\<close> on the socket of a peer: the write is under way until libuv calls \<open>on_write\<close>.\<close>

definition uv_write :: "addr \<Rightarrow> addr \<Rightarrow> 'h network_t \<Rightarrow> 'h network_t res" where
  "uv_write peer buf self =
     bindR (heap_load (net_heap self) peer) (\<lambda>_. Inr (self\<lparr>net_writes := net_writes self @ [(peer, buf)]\<rparr>))"

definition on_write :: "addr \<times> addr \<Rightarrow> 'h network_t \<Rightarrow> 'h network_t res" where
  "on_write req self =
     bindR (shared_buffer_release (snd req) self) (\<lambda>self.
       Inr (self\<lparr>net_writes := remove1 req (net_writes self)\<rparr>))"

definition broadcast_to :: "addr \<Rightarrow> nat \<Rightarrow> 'h network_t \<Rightarrow> 'h network_t res" where
  "broadcast_to buf i self =
     bindR (list_get (net_peers self) i) (\<lambda>peer.
     bindR (shared_buffer_retain buf self) (uv_write peer buf))"

definition broadcast_message :: "byte list \<Rightarrow> 'h network_t \<Rightarrow> 'h network_t res" where
  "broadcast_message message self =
     (case shared_buffer_create message self of (buf, self) \<Rightarrow>
     bindR (shared_buffer_retain buf self) (\<lambda>self.
     bindR (foldR (broadcast_to buf) [0..<list_size (net_peers self)] self) (shared_buffer_release buf)))"

definition send_message :: "byte list \<Rightarrow> addr \<Rightarrow> 'h network_t \<Rightarrow> 'h network_t res" where
  "send_message message peer self =
     (case shared_buffer_create message self of (buf, self) \<Rightarrow>
     bindR (shared_buffer_retain buf self) (uv_write peer buf))"

definition frame_message :: "u16 \<Rightarrow> guid_t \<Rightarrow> u32 \<Rightarrow> byte arr \<Rightarrow> byte list res" where
  "frame_message type guid len data =
     bindR (message_set_header (arr_malloc (MESSAGE_HEADER_SIZE + unat len)) 0 len guid type) (\<lambda>message.
     bindR (arr_load_n data 0 (unat len)) (\<lambda>body.
     bindR (arr_memcpy message MESSAGE_HEADER_SIZE body) (\<lambda>message.
       arr_load_n message 0 (MESSAGE_HEADER_SIZE + unat len))))"

text \<open>The identifier is the one \<open>guid_new\<close> returned.\<close>

definition network_broadcast :: "guid_t \<Rightarrow> u32 \<Rightarrow> dynamic_buffer_t \<Rightarrow> 'h network_t \<Rightarrow> 'h network_t res" where
  "network_broadcast guid type buffer self =
     bindR (frame_message (ucast type) guid (d_length buffer) (d_data buffer)) (\<lambda>message.
     bindR (message_history_add guid self) (broadcast_message message))"

definition network_send :: "u32 \<Rightarrow> dynamic_buffer_t \<Rightarrow> addr \<Rightarrow> 'h network_t \<Rightarrow> 'h network_t res" where
  "network_send event buffer peer self =
     (let guid = guid_null in
     bindR (frame_message (ucast event) guid (d_length buffer) (d_data buffer)) (\<lambda>message.
     bindR (message_history_add guid self) (send_message message peer)))"

section \<open>Handling a message\<close>

text \<open>The loop of \<open>tuple_parse\<close> gets fuel for two rounds per byte, which decides whether it ends.\<close>

definition run_handler ::
  "('h, 'w) caller \<Rightarrow> addr \<Rightarrow> u16 \<Rightarrow> byte arr \<Rightarrow> nat \<Rightarrow> nat \<Rightarrow> ('h, 'w) netstate \<Rightarrow> ('h, 'w) netstate res" where
  "run_handler call peer type mem payload len s =
     (if type < EVENT_COUNT then
        (case net_handlers (fst s) ! unat type of
           None \<Rightarrow> Inr s
         | Some handler \<Rightarrow>
             bindR (tuple_parse (2 * len + 2) mem (Some payload) len) (\<lambda>tuple.
             bindR (call handler peer mem tuple s) (\<lambda>s.
             bindR (tuple_destroy mem tuple) (\<lambda>_. Inr s))))
      else Inr s)"

definition handle_message ::
  "('h, 'w) caller \<Rightarrow> addr \<Rightarrow> byte arr \<Rightarrow> nat \<Rightarrow> ('h, 'w) netstate \<Rightarrow> ('h, 'w) netstate res" where
  "handle_message call peer message len s =
     bindR (message_get_guid message 0) (\<lambda>guid.
     bindR (message_get_length message 0) (\<lambda>length.
     bindR (message_get_type message 0) (\<lambda>type.
     if guid_is_null guid then run_handler call peer type message MESSAGE_HEADER_SIZE (unat length) s
     else
       bindR (message_history_has (fst s) guid) (\<lambda>has.
       if \<not> has then
         bindR (run_handler call peer type message MESSAGE_HEADER_SIZE (unat length) s) (\<lambda>(self, w).
         bindR (message_history_add guid self) (\<lambda>self.
         bindR (arr_load_n message 0 len) (\<lambda>bytes.
         bindR (broadcast_message bytes self) (\<lambda>self. Inr (self, w)))))
       else Inr s))))"

section \<open>Reading\<close>

text \<open>
  The bound of the search is computed in 64 bits: with fewer than 25 bytes in the buffer it is
  close to \<open>2 ^ 64\<close>, and the search goes on past the contents.
\<close>

function find_magic_from :: "byte arr \<Rightarrow> nat \<Rightarrow> nat \<Rightarrow> nat option res" where
  "find_magic_from mem n i =
     (if i < n then
        bindR (message_get_magic mem i) (\<lambda>magic.
        if magic = MESSAGE_MAGIC_NUMBER then Inr (Some i) else find_magic_from mem n (Suc i))
      else Inr None)"
  by pat_completeness auto
termination by (relation "measure (\<lambda>(mem, n, i). n - i)") auto

declare find_magic_from.simps [simp del]

definition find_message_start :: "dynamic_buffer_t \<Rightarrow> nat option res" where
  "find_message_start buf =
     find_magic_from (d_data buf) (unat (ucast (d_length buf) - of_nat MESSAGE_HEADER_SIZE + 1 :: u64)) 0"

text \<open>
  A size that is a difference of \<open>size_t\<close> values: where it would be negative it is larger than any
  object, and the \<open>memmove\<close> of that size leaves the block.
\<close>

definition size_diff :: "nat \<Rightarrow> nat \<Rightarrow> nat res" where
  "size_diff a b = (if b \<le> a then Inr (a - b) else Inl Out_of_bounds)"

text \<open>\<open>memmove(data, data + n, length - n); length -= n;\<close>\<close>

definition splice_out :: "nat \<Rightarrow> dynamic_buffer_t \<Rightarrow> dynamic_buffer_t res" where
  "splice_out n buf =
     bindR (size_diff (unat (d_length buf)) n) (\<lambda>rest.
     bindR (arr_memmove (d_data buf) 0 n rest) (\<lambda>d.
       Inr (buf\<lparr>d_data := d, d_length := d_length buf - of_nat n\<rparr>)))"

lemma splice_out_length:
  assumes "splice_out n buf = Inr buf'"
  shows "n \<le> unat (d_length buf)" "unat (d_length buf') = unat (d_length buf) - n"
proof -
  show n: "n \<le> unat (d_length buf)" using assms by (auto simp: splice_out_def size_diff_def res_simps split: if_splits)
  have "d_length buf' = d_length buf - of_nat n" using assms by (auto simp: splice_out_def res_simps)
  moreover have "unat (of_nat n :: u32) = n"
    using order_le_less_trans [OF n unsigned_less] by (simp add: unat_of_nat)
  ultimately show "unat (d_length buf') = unat (d_length buf) - n" using n by (simp add: unat_sub word_le_nat_alt)
qed

text \<open>
  The loop of \<open>on_read\<close>. The buffer is the peer's; no handler has access to it, so it is passed
  along beside the state.
\<close>

function read_messages ::
  "('h, 'w) caller \<Rightarrow> addr \<Rightarrow> dynamic_buffer_t \<Rightarrow> ('h, 'w) netstate \<Rightarrow> (dynamic_buffer_t \<times> ('h, 'w) netstate) res" where
  "read_messages call peer buf s =
     bindR (find_message_start buf) (\<lambda>start.
     case start of
       None \<Rightarrow> Inr (buf, s)
     | Some padding \<Rightarrow>
         bindR (splice_out padding buf) (\<lambda>buf.
         bindR (message_get_guid (d_data buf) 0) (\<lambda>guid.
         bindR (message_get_length (d_data buf) 0) (\<lambda>length.
         bindR (message_get_type (d_data buf) 0) (\<lambda>type.
         let message_length = MESSAGE_HEADER_SIZE + unat length in
         if unat (d_length buf) < message_length then Inr (buf, s)
         else
           bindR (handle_message call peer (d_data buf) message_length s) (\<lambda>s.
           bindR (splice_out message_length buf) (\<lambda>buf. read_messages call peer buf s)))))))"
  by pat_completeness auto
termination
proof (relation "measure (\<lambda>(call, peer, buf, s). unat (d_length buf))")
  fix call :: "('h, 'w) caller" and peer buf s start p b1 guid len type ml s' b2
  assume p: "splice_out p buf = Inr b1" and ml: "ml = MESSAGE_HEADER_SIZE + unat (len :: u32)"
    and m: "splice_out ml b1 = Inr b2"
  have "unat (d_length b1) \<le> unat (d_length buf)" using splice_out_length [OF p] by simp
  moreover have "ml \<le> unat (d_length b1)" "unat (d_length b2) = unat (d_length b1) - ml"
    using splice_out_length [OF m] by simp_all
  moreover have "0 < ml" using ml by (simp add: MESSAGE_HEADER_SIZE_def)
  ultimately have "unat (d_length b2) < unat (d_length buf)" by linarith
  then show "((call, peer, b2, s'), call, peer, buf, s) \<in> measure (\<lambda>(call, peer, buf, s). unat (d_length buf))"
    by simp
qed simp

declare read_messages.simps [simp del]

definition network_disconnect :: "addr option \<Rightarrow> 'h network_t \<Rightarrow> 'h network_t" where
  "network_disconnect peer self =
     (case peer of None \<Rightarrow> self | Some p \<Rightarrow> self\<lparr>net_closing := net_closing self @ [p]\<rparr>)"

text \<open>The block that \<open>on_alloc\<close> gives to libuv, with the data of a read at its start.\<close>

definition on_alloc :: "nat \<Rightarrow> byte list" where
  "on_alloc suggested = replicate suggested 0"

definition uv_fill :: "byte list \<Rightarrow> byte list \<Rightarrow> byte list" where
  "uv_fill data base = data @ drop (length data) base"

text \<open>\<open>base\<close> are the \<open>buf->len\<close> bytes of the block, of which \<open>nread\<close> were read.\<close>

definition on_read ::
  "('h, 'w) caller \<Rightarrow> addr \<Rightarrow> int \<Rightarrow> byte list \<Rightarrow> ('h, 'w) netstate \<Rightarrow> ('h, 'w) netstate res" where
  "on_read call peer nread base s =
     bindR (heap_load (net_heap (fst s)) peer) (\<lambda>p.
     if nread < 0 then Inr (network_disconnect (Some peer) (fst s), snd s)
     else
       bindR (dynamic_buffer_write base (length base) (p_buf p)) (\<lambda>buf.
       bindR (read_messages call peer buf s) (\<lambda>(buf, self, w).
       bindR (heap_load (net_heap self) peer) (\<lambda>p.
       bindR (heap_store (net_heap self) peer (p\<lparr>p_buf := buf\<rparr>)) (\<lambda>h.
         Inr (self\<lparr>net_heap := h\<rparr>, w))))))"

section \<open>Connections\<close>

text \<open>A handler that is called without a message.\<close>

definition notify :: "('h, 'w) caller \<Rightarrow> u16 \<Rightarrow> addr \<Rightarrow> ('h, 'w) netstate \<Rightarrow> ('h, 'w) netstate res" where
  "notify call event peer s =
     (case net_handlers (fst s) ! unat event of None \<Rightarrow> Inr s | Some handler \<Rightarrow> call handler peer [] None s)"

definition on_socket_closed :: "('h, 'w) caller \<Rightarrow> addr \<Rightarrow> ('h, 'w) netstate \<Rightarrow> ('h, 'w) netstate res" where
  "on_socket_closed call peer s =
     bindR (notify call EVENT_DISCONNECT peer s) (\<lambda>(self, w).
     bindR (list_find (net_peers self) peer None) (\<lambda>index.
     bindR (if index \<noteq> list_size (net_peers self)
            then bindR (list_remove (net_peers self) index) (\<lambda>(_, l). Inr l)
            else Inr (net_peers self)) (\<lambda>l.
     bindR (heap_free (net_heap self) peer) (\<lambda>h.
       Inr (self\<lparr>net_peers := l, net_heap := h\<rparr>, w)))))"

text \<open>The address and the port are those \<open>uv_tcp_getpeername\<close> finds; the port stays in network order.\<close>

definition create_peer_from_tcp_socket :: "byte list \<Rightarrow> u16 \<Rightarrow> 'h network_t \<Rightarrow> (addr \<times> 'h network_t) res" where
  "create_peer_from_tcp_socket address sin_port self =
     (let peer = length (net_heap self);
          p = \<lparr>p_addr = address, p_port = uint sin_port, p_buf = dynamic_buffer_create 32\<rparr> in
     bindR (list_add (net_peers self) peer) (\<lambda>l.
       Inr (peer, self\<lparr>net_peers := l, net_heap := net_heap self @ [Some p]\<rparr>)))"

definition on_incoming_connection ::
  "('h, 'w) caller \<Rightarrow> int \<Rightarrow> bool \<Rightarrow> byte list \<Rightarrow> u16 \<Rightarrow> ('h, 'w) netstate \<Rightarrow> ('h, 'w) netstate res" where
  "on_incoming_connection call status accepted address sin_port s =
     (if status \<noteq> 0 then Inr s
      else if accepted then
        bindR (create_peer_from_tcp_socket address sin_port (fst s)) (\<lambda>(peer, self).
          notify call EVENT_CONNECT peer (self, snd s))
      else Inr s)"

definition on_outgoing_connection ::
  "('h, 'w) caller \<Rightarrow> int \<Rightarrow> byte list \<Rightarrow> u16 \<Rightarrow> ('h, 'w) netstate \<Rightarrow> ('h, 'w) netstate res" where
  "on_outgoing_connection call status address sin_port s =
     (if status \<noteq> 0 then Inr s
      else
        bindR (create_peer_from_tcp_socket address sin_port (fst s)) (\<lambda>(peer, self).
          notify call EVENT_CONNECT peer (self, snd s)))"

text \<open>\<open>err\<close> is what \<open>uv_tcp_connect\<close> returns.\<close>

definition network_connect :: "int \<Rightarrow> byte list \<Rightarrow> int \<Rightarrow> 'h network_t \<Rightarrow> int \<times> 'h network_t" where
  "network_connect err address port self =
     (err, if err = 0 then self\<lparr>net_connects := net_connects self @ [(address, port)]\<rparr> else self)"

section \<open>The history is a window\<close>

definition recent :: "'a list \<Rightarrow> 'a list" where
  "recent xs = drop (length xs - MESSAGE_HISTORY_SIZE) xs"

lemma length_recent: "length (recent xs) = min (length xs) MESSAGE_HISTORY_SIZE"
  by (auto simp: recent_def min_def)

lemma recent_snoc:
  "recent (xs @ [x]) = (if MESSAGE_HISTORY_SIZE \<le> length (recent xs) then tl (recent xs) else recent xs) @ [x]"
proof (cases "MESSAGE_HISTORY_SIZE \<le> length xs")
  case True
  then have "Suc (length xs) - MESSAGE_HISTORY_SIZE = Suc (length xs - MESSAGE_HISTORY_SIZE)"
    by (rule Suc_diff_le)
  with True show ?thesis by (simp add: length_recent) (simp add: recent_def drop_Suc drop_tl MESSAGE_HISTORY_SIZE_def)
qed (simp add: length_recent, simp add: recent_def)

definition history_ok :: "'h network_t \<Rightarrow> bool" where
  "history_ok net \<longleftrightarrow> list_ok (net_history net) \<and> length (list_elems (net_history net)) \<le> MESSAGE_HISTORY_SIZE"

lemma history_ok_create: "history_ok network_create"
  by (simp add: history_ok_def network_create_def list_ok_create MESSAGE_HISTORY_SIZE_def)

lemma message_history_add_result:
  assumes "history_ok net"
  shows "\<exists>h. message_history_add g net = Inr (net\<lparr>net_history := h\<rparr>) \<and> list_ok h \<and>
    list_elems h = (let es = list_elems (net_history net) in
      (if MESSAGE_HISTORY_SIZE \<le> length es then tl es else es) @ [g])"
proof -
  let ?es = "list_elems (net_history net)"
  have ok: "list_ok (net_history net)" using assms by (simp add: history_ok_def)
  obtain h1 where h1: "(if list_size (net_history net) \<ge> MESSAGE_HISTORY_SIZE
            then bindR (list_remove (net_history net) 0) (\<lambda>(old, h). Inr h) else Inr (net_history net)) = Inr h1"
      "list_ok h1" "list_elems h1 = (if MESSAGE_HISTORY_SIZE \<le> length ?es then tl ?es else ?es)"
  proof (cases "MESSAGE_HISTORY_SIZE \<le> length ?es")
    case True
    then have "?es \<noteq> []" by (auto simp: MESSAGE_HISTORY_SIZE_def)
    with list_remove_elems [OF ok, of 0] that show ?thesis
      using True list_size_elems [OF ok] by (auto simp: drop_Suc)
  qed (use that ok list_size_elems [OF ok] in simp)
  moreover obtain h2 where "list_add h1 g = Inr h2" "list_ok h2" "list_elems h2 = list_elems h1 @ [g]"
    using list_add_elems [OF h1(2)] by blast
  ultimately show ?thesis by (intro exI [of _ h2]) (simp add: message_history_add_def Let_def)
qed

lemma message_history_add_ok:
  assumes "history_ok net" "message_history_add g net = Inr net'"
  shows "history_ok net'" "g \<in> set (list_elems (net_history net'))"
    "\<exists>h. net' = net\<lparr>net_history := h\<rparr>"
  using message_history_add_result [OF assms(1), of g] assms
  by (auto simp: history_ok_def Let_def MESSAGE_HISTORY_SIZE_def split: if_splits)

lemma position_is_end: "length (takeWhile (\<lambda>x. \<not> x = y) xs) \<noteq> length xs \<longleftrightarrow> y \<in> set xs"
  by (induction xs) auto

lemma message_history_has_result:
  assumes "history_ok net"
  shows "message_history_has net g = Inr (g \<in> set (list_elems (net_history net)))"
proof -
  have ok: "list_ok (net_history net)" using assms by (simp add: history_ok_def)
  have "list_find (net_history net) g (Some (\<lambda>a b. Inr (message_history_compare a b))) =
      Inr (length (takeWhile (\<lambda>x. \<not> x = g) (list_elems (net_history net))))"
    by (rule list_find_first [OF ok]) (auto simp: message_history_compare_def guid_compare_order)
  then show ?thesis
    using position_is_end [of g "list_elems (net_history net)"]
    by (simp add: message_history_has_def list_size_elems [OF ok])
qed

lemma history_window_from:
  "history_ok net \<Longrightarrow> list_elems (net_history net) = recent xs \<Longrightarrow>
    \<exists>net'. foldR message_history_add gs net = Inr net' \<and> history_ok net' \<and>
      list_elems (net_history net') = recent (xs @ gs)"
proof (induction gs arbitrary: net xs)
  case (Cons g gs)
  obtain h where h: "message_history_add g net = Inr (net\<lparr>net_history := h\<rparr>)"
      "list_elems h = (if MESSAGE_HISTORY_SIZE \<le> length (recent xs) then tl (recent xs) else recent xs) @ [g]"
    using message_history_add_result [OF Cons.prems(1), of g] by (auto simp: Let_def Cons.prems(2))
  have "list_elems h = recent (xs @ [g])" using h(2) by (simp add: recent_snoc)
  with Cons.IH [OF message_history_add_ok(1) [OF Cons.prems(1) h(1)], of "xs @ [g]"] h(1) show ?case by simp
qed simp

section \<open>Shared buffers\<close>

text \<open>
  The count of a shared buffer is the number of writes under way that use it, plus \<open>held b\<close>
  references that code on the stack holds; a buffer with no reference has been freed.
\<close>

definition refs :: "(addr \<times> addr) list \<Rightarrow> addr \<Rightarrow> nat" where
  "refs ws b = length (filter (\<lambda>w. snd w = b) ws)"

definition buffers_held :: "(addr \<Rightarrow> nat) \<Rightarrow> 'h network_t \<Rightarrow> bool" where
  "buffers_held held net \<longleftrightarrow>
     (\<forall>b. if refs (net_writes net) b + held b = 0 then \<not> alive (net_buffers net) b
          else alive (net_buffers net) b \<and>
            sb_ref_count (obj (net_buffers net) b) = int (refs (net_writes net) b + held b))"

abbreviation buffers_ok :: "'h network_t \<Rightarrow> bool" where
  "buffers_ok \<equiv> buffers_held (\<lambda>_. 0)"

lemma refs_append [simp]: "refs (ws @ vs) b = refs ws b + refs vs b"
  by (simp add: refs_def)

lemma refs_Cons [simp]: "refs (w # ws) b = (if snd w = b then Suc (refs ws b) else refs ws b)"
  by (simp add: refs_def)

lemma refs_Nil [simp]: "refs [] b = 0"
  by (simp add: refs_def)

lemma refs_map [simp]: "refs (map (\<lambda>p. (p, b)) ps) c = (if c = b then length ps else 0)"
  by (induction ps) auto

lemma refs_remove1: "w \<in> set ws \<Longrightarrow> refs ws b = (if snd w = b then Suc (refs (remove1 w ws) b) else refs (remove1 w ws) b)"
  by (induction ws) auto

lemma buffers_heldD:
  assumes "buffers_held held net" "0 < refs (net_writes net) b + held b"
  shows "alive (net_buffers net) b"
    "sb_ref_count (obj (net_buffers net) b) = int (refs (net_writes net) b + held b)"
  using spec [OF assms(1) [unfolded buffers_held_def], of b] assms(2) by simp_all

text \<open>The functions on shared buffers and the writes change nothing else.\<close>

definition same_but_writes :: "'h network_t \<Rightarrow> 'h network_t \<Rightarrow> bool" where
  "same_but_writes net net' \<longleftrightarrow> (\<exists>bs ws. net' = net\<lparr>net_buffers := bs, net_writes := ws\<rparr>)"

lemma same_but_writesD:
  assumes "same_but_writes net net'"
  shows "net_handlers net' = net_handlers net" "net_peers net' = net_peers net"
    "net_history net' = net_history net" "net_heap net' = net_heap net"
    "net_closing net' = net_closing net" "net_connects net' = net_connects net"
  using assms by (auto simp: same_but_writes_def)

lemma same_but_writes_refl: "same_but_writes net net"
  unfolding same_but_writes_def by (rule exI [of _ "net_buffers net"], rule exI [of _ "net_writes net"]) simp

lemma same_but_writes_trans:
  assumes "same_but_writes a b" "same_but_writes b c"
  shows "same_but_writes a c"
proof -
  obtain bs ws bs' ws' where "b = a\<lparr>net_buffers := bs, net_writes := ws\<rparr>" "c = b\<lparr>net_buffers := bs', net_writes := ws'\<rparr>"
    using assms by (auto simp: same_but_writes_def)
  then have "c = a\<lparr>net_buffers := bs', net_writes := ws'\<rparr>" by simp
  then show ?thesis unfolding same_but_writes_def by blast
qed

lemma retain_step:
  assumes h: "buffers_held held net" and b: "0 < refs (net_writes net) b + held b"
  shows "\<exists>net'. shared_buffer_retain b net = Inr net' \<and> buffers_held (held(b := Suc (held b))) net' \<and>
    same_but_writes net net' \<and> net_writes net' = net_writes net \<and>
    length (net_buffers net') = length (net_buffers net) \<and>
    (\<forall>c. alive (net_buffers net) c \<longrightarrow> sb_data (obj (net_buffers net') c) = sb_data (obj (net_buffers net) c))"
proof -
  note B = buffers_heldD [OF h b]
  let ?s = "obj (net_buffers net) b"
  let ?net = "net\<lparr>net_buffers := (net_buffers net)[b := Some (?s\<lparr>sb_ref_count := sb_ref_count ?s + 1\<rparr>)]\<rparr>"
  have "shared_buffer_retain b net = Inr ?net" using B(1) by (simp add: shared_buffer_retain_def)
  moreover have "buffers_held (held(b := Suc (held b))) ?net"
    unfolding buffers_held_def
  proof
    fix c
    show "if refs (net_writes ?net) c + (held(b := Suc (held b))) c = 0 then \<not> alive (net_buffers ?net) c
          else alive (net_buffers ?net) c \<and>
            sb_ref_count (obj (net_buffers ?net) c) = int (refs (net_writes ?net) c + (held(b := Suc (held b))) c)"
      using B alive_less [OF B(1)] spec [OF h [unfolded buffers_held_def], of c] by (cases "c = b") simp_all
  qed
  moreover have "same_but_writes net ?net" unfolding same_but_writes_def
    by (rule exI, rule exI [of _ "net_writes net"]) simp
  ultimately show ?thesis using alive_less [OF B(1)] by (intro exI [of _ ?net]) (simp add: obj_update)
qed

lemma release_step:
  assumes h: "buffers_held held net" and b: "0 < held b"
  shows "\<exists>net'. shared_buffer_release b net = Inr net' \<and> buffers_held (held(b := held b - 1)) net' \<and>
    same_but_writes net net' \<and> net_writes net' = net_writes net \<and>
    length (net_buffers net') = length (net_buffers net) \<and>
    (\<forall>c. alive (net_buffers net') c \<longrightarrow> alive (net_buffers net) c \<and>
       sb_data (obj (net_buffers net') c) = sb_data (obj (net_buffers net) c))"
proof -
  have B: "alive (net_buffers net) b" "sb_ref_count (obj (net_buffers net) b) = int (refs (net_writes net) b + held b)"
    using buffers_heldD [OF h] b by simp_all
  let ?s = "obj (net_buffers net) b"
  let ?c = "if sb_ref_count ?s - 1 = 0 then None else Some (?s\<lparr>sb_ref_count := sb_ref_count ?s - 1\<rparr>)"
  let ?net = "net\<lparr>net_buffers := (net_buffers net)[b := ?c]\<rparr>"
  have "shared_buffer_release b net = Inr ?net" using B(1) by (simp add: shared_buffer_release_def)
  moreover have al: "alive (net_buffers ?net) c \<longleftrightarrow> (if c = b then sb_ref_count ?s - 1 \<noteq> 0 else alive (net_buffers net) c)" for c
    using alive_less [OF B(1)] by (simp add: alive_def)
  have "buffers_held (held(b := held b - 1)) ?net"
    unfolding buffers_held_def
  proof
    fix c
    show "if refs (net_writes ?net) c + (held(b := held b - 1)) c = 0 then \<not> alive (net_buffers ?net) c
          else alive (net_buffers ?net) c \<and>
            sb_ref_count (obj (net_buffers ?net) c) = int (refs (net_writes ?net) c + (held(b := held b - 1)) c)"
    proof (cases "c = b")
      case True
      then show ?thesis using B b alive_less [OF B(1)] al [of b] by (auto simp: of_nat_diff)
    next
      case False
      then show ?thesis using spec [OF h [unfolded buffers_held_def], of c] al [of c] by simp
    qed
  qed
  moreover have "same_but_writes net ?net" unfolding same_but_writes_def
    by (rule exI, rule exI [of _ "net_writes net"]) simp
  moreover have "\<forall>c. alive (net_buffers ?net) c \<longrightarrow> alive (net_buffers net) c \<and>
       sb_data (obj (net_buffers ?net) c) = sb_data (obj (net_buffers net) c)"
    using al B(1) alive_less [OF B(1)] by auto
  ultimately show ?thesis by (intro exI [of _ ?net]) simp
qed

lemma write_step:
  assumes h: "buffers_held held net" and b: "0 < held b" and p: "alive (net_heap net) peer"
  shows "\<exists>net'. uv_write peer b net = Inr net' \<and> buffers_held (held(b := held b - 1)) net' \<and>
    same_but_writes net net' \<and> net_writes net' = net_writes net @ [(peer, b)] \<and> net_buffers net' = net_buffers net"
proof -
  let ?net = "net\<lparr>net_writes := net_writes net @ [(peer, b)]\<rparr>"
  have "uv_write peer b net = Inr ?net" using p by (simp add: uv_write_def)
  moreover have "buffers_held (held(b := held b - 1)) ?net"
    unfolding buffers_held_def
  proof
    fix c
    show "if refs (net_writes ?net) c + (held(b := held b - 1)) c = 0 then \<not> alive (net_buffers ?net) c
          else alive (net_buffers ?net) c \<and>
            sb_ref_count (obj (net_buffers ?net) c) = int (refs (net_writes ?net) c + (held(b := held b - 1)) c)"
      using b spec [OF h [unfolded buffers_held_def], of c] by (cases "c = b") simp_all
  qed
  moreover have "same_but_writes net ?net" unfolding same_but_writes_def
    by (rule exI [of _ "net_buffers net"], rule exI) simp
  ultimately show ?thesis by (intro exI [of _ ?net]) simp
qed

text \<open>A new buffer with one reference.\<close>

lemma create_step:
  assumes "buffers_ok net"
  defines "b \<equiv> length (net_buffers net)"
  shows "\<exists>net'. bindR (Inr (snd (shared_buffer_create data net))) (shared_buffer_retain b) = Inr net' \<and>
    fst (shared_buffer_create data net) = b \<and>
    buffers_held (\<lambda>c. if c = b then 1 else 0) net' \<and> same_but_writes net net' \<and> net_writes net' = net_writes net \<and>
    sb_data (obj (net_buffers net') b) = data"
proof -
  let ?net = "net\<lparr>net_buffers := net_buffers net @ [Some \<lparr>sb_data = data, sb_ref_count = 1\<rparr>]\<rparr>"
  have free: "refs (net_writes net) b = 0"
    using spec [OF assms(1) [unfolded buffers_held_def], of b] by (simp add: b_def alive_def split: if_splits)
  have "shared_buffer_retain b (snd (shared_buffer_create data net)) = Inr ?net"
    by (simp add: shared_buffer_create_def shared_buffer_retain_def b_def)
  moreover have "buffers_held (\<lambda>c. if c = b then 1 else 0) ?net"
    unfolding buffers_held_def
  proof
    fix c
    show "if refs (net_writes ?net) c + (if c = b then 1 else 0) = 0 then \<not> alive (net_buffers ?net) c
          else alive (net_buffers ?net) c \<and>
            sb_ref_count (obj (net_buffers ?net) c) = int (refs (net_writes ?net) c + (if c = b then 1 else 0))"
    proof (cases "c = b")
      case True
      then show ?thesis using free by (simp add: b_def)
    next
      case False
      then show ?thesis using spec [OF assms(1) [unfolded buffers_held_def], of c] alive_less [of "net_buffers net" c]
        by (auto simp: b_def obj_append)
    qed
  qed
  moreover have "same_but_writes net ?net" unfolding same_but_writes_def
    by (rule exI, rule exI [of _ "net_writes net"]) simp
  ultimately show ?thesis by (intro exI [of _ ?net]) (simp add: shared_buffer_create_def b_def)
qed

text \<open>Queueing the writes of a broadcast to the peers \<open>ps\<close>.\<close>

lemma broadcast_loop:
  assumes "list_ok (net_peers net)" "\<forall>p \<in> set (list_elems (net_peers net)). alive (net_heap net) p"
    and "\<forall>i \<in> set js. i < length (list_elems (net_peers net))"
    and "buffers_held (\<lambda>c. if c = b then 1 else 0) net" "sb_data (obj (net_buffers net) b) = data"
  shows "\<exists>net'. foldR (broadcast_to b) js net = Inr net' \<and> buffers_held (\<lambda>c. if c = b then 1 else 0) net' \<and>
    same_but_writes net net' \<and> sb_data (obj (net_buffers net') b) = data \<and>
    net_writes net' = net_writes net @ map (\<lambda>i. (list_elems (net_peers net) ! i, b)) js"
  using assms
proof (induction js arbitrary: net)
  case Nil
  then show ?case using same_but_writes_refl by auto
next
  case (Cons i js)
  let ?ps = "list_elems (net_peers net)"
  have i: "i < length ?ps" "alive (net_heap net) (?ps ! i)" using Cons.prems(2,3) by simp_all
  obtain n1 where n1: "shared_buffer_retain b net = Inr n1"
      "buffers_held ((\<lambda>c. if c = b then 1 else 0)(b := Suc 1)) n1" "same_but_writes net n1" "net_writes n1 = net_writes net"
      "sb_data (obj (net_buffers n1) b) = data"
    using retain_step [OF Cons.prems(4), of b] buffers_heldD(1) [OF Cons.prems(4), of b] Cons.prems(5) by auto
  obtain n2 where n2: "uv_write (?ps ! i) b n1 = Inr n2" "buffers_held (\<lambda>c. if c = b then 1 else 0) n2"
      "same_but_writes n1 n2" "net_writes n2 = net_writes n1 @ [(?ps ! i, b)]" "net_buffers n2 = net_buffers n1"
  proof -
    have "((\<lambda>c. if c = b then 1 else 0 :: nat)(b := Suc 1))(b := Suc 1 - 1) = (\<lambda>c. if c = b then 1 else 0)" by auto
    then show ?thesis
      using write_step [OF n1(2), of b "?ps ! i"] i(2) same_but_writesD(4) [OF n1(3)] that by auto
  qed
  have s: "same_but_writes net n2" by (rule same_but_writes_trans [OF n1(3) n2(3)])
  have step: "broadcast_to b i net = Inr n2"
    using i n1(1) n2(1) list_get_elems [OF Cons.prems(1), of i] by (simp add: broadcast_to_def)
  from Cons.IH [of n2] Cons.prems s n2 n1 obtain n3 where
    "foldR (broadcast_to b) js n2 = Inr n3" "buffers_held (\<lambda>c. if c = b then 1 else 0) n3" "same_but_writes n2 n3"
    "sb_data (obj (net_buffers n3) b) = data" "net_writes n3 = net_writes n2 @ map (\<lambda>i. (?ps ! i, b)) js"
    by (auto simp: same_but_writesD [OF s])
  then show ?case using step n1 n2 same_but_writes_trans [OF s] by auto
qed

lemma broadcast_message_result:
  assumes "list_ok (net_peers net)" "\<forall>p \<in> set (list_elems (net_peers net)). alive (net_heap net) p" "buffers_ok net"
  shows "\<exists>net' b. broadcast_message message net = Inr net' \<and> buffers_ok net' \<and> same_but_writes net net' \<and>
    net_writes net' = net_writes net @ map (\<lambda>p. (p, b)) (list_elems (net_peers net)) \<and>
    (list_elems (net_peers net) \<noteq> [] \<longrightarrow> sb_data (obj (net_buffers net') b) = message)"
proof -
  let ?b = "length (net_buffers net)" and ?ps = "list_elems (net_peers net)"
  obtain n1 where n1: "shared_buffer_retain ?b (snd (shared_buffer_create message net)) = Inr n1"
      "fst (shared_buffer_create message net) = ?b" "buffers_held (\<lambda>c. if c = ?b then 1 else 0) n1"
      "same_but_writes net n1" "net_writes n1 = net_writes net" "sb_data (obj (net_buffers n1) ?b) = message"
    using create_step [OF assms(3), of message] by auto
  note s = same_but_writesD [OF n1(4)]
  obtain n2 where n2: "foldR (broadcast_to ?b) [0..<length ?ps] n1 = Inr n2"
      "buffers_held (\<lambda>c. if c = ?b then 1 else 0) n2" "same_but_writes n1 n2" "sb_data (obj (net_buffers n2) ?b) = message"
      "net_writes n2 = net_writes n1 @ map (\<lambda>i. (?ps ! i, ?b)) [0..<length ?ps]"
    using broadcast_loop [of n1 "[0..<length ?ps]" ?b message] assms(1,2) n1(3,6) by (auto simp: s)
  obtain n3 where n3: "shared_buffer_release ?b n2 = Inr n3" "buffers_ok n3" "same_but_writes n2 n3"
      "net_writes n3 = net_writes n2"
      "\<forall>c. alive (net_buffers n3) c \<longrightarrow> alive (net_buffers n2) c \<and>
         sb_data (obj (net_buffers n3) c) = sb_data (obj (net_buffers n2) c)"
  proof -
    have b: "0 < (if ?b = ?b then 1 else 0 :: nat)" by simp
    have e: "(\<lambda>c. if c = ?b then 1 else 0 :: nat)(?b := (if ?b = ?b then 1 else 0) - 1) = (\<lambda>_. 0)" by auto
    from release_step [OF n2(2) b, unfolded e] show ?thesis by (elim exE conjE) (rule that)
  qed
  have w: "net_writes n3 = net_writes net @ map (\<lambda>p. (p, ?b)) ?ps"
  proof -
    have "map (\<lambda>i. (?ps ! i, ?b)) [0..<length ?ps] = map (\<lambda>p. (p, ?b)) ?ps" by (rule nth_equalityI) simp_all
    then show ?thesis using n1(5) n2(5) n3(4) by simp
  qed
  have "sb_data (obj (net_buffers n3) ?b) = message" if "?ps \<noteq> []"
  proof -
    have "0 < refs (net_writes n3) ?b" using that by (simp add: w)
    then show ?thesis using buffers_heldD(1) [OF n3(2), of ?b] n3(5) n2(4) by simp
  qed
  moreover have "broadcast_message message net = Inr n3"
    using n1(1,2) n2(1) n3(1) list_size_elems [OF assms(1)]
    by (simp add: broadcast_message_def shared_buffer_create_def s(2) split: prod.split)
  moreover have "same_but_writes net n3"
    by (rule same_but_writes_trans [OF same_but_writes_trans [OF n1(4) n2(3)] n3(3)])
  ultimately show ?thesis using w n3(2) by (intro exI [of _ n3] exI [of _ ?b] conjI) blast+
qed

section \<open>Messages on the wire\<close>

definition frame :: "guid_t \<Rightarrow> u16 \<Rightarrow> byte list \<Rightarrow> byte list" where
  "frame g type body = header_bytes (of_nat (length body)) g type @ body"

lemma length_frame [simp]: "length (frame g type body) = 26 + length body"
  by (simp add: frame_def)

lemma frame_message_result:
  assumes "dbuf_ok b"
  shows "frame_message type g (d_length b) (d_data b) = Inr (frame g type (dbuf_bytes b))"
proof -
  let ?n = "unat (d_length b)" and ?h = "header_bytes (d_length b) g type"
  have n: "length (dbuf_bytes b) = ?n" by (rule length_dbuf_bytes [OF assms])
  have h: "message_set_header (arr_malloc (MESSAGE_HEADER_SIZE + ?n)) 0 (d_length b) g type =
      Inr (map Some ?h @ replicate ?n None)"
    using message_set_header_bytes [of "[]" 0 "arr_malloc (MESSAGE_HEADER_SIZE + ?n)" "d_length b" g type]
    by (simp add: arr_malloc_def MESSAGE_HEADER_SIZE_def)
  have body: "arr_load_n (d_data b) 0 ?n = Inr (dbuf_bytes b)"
    using mem_at_load_n [OF dbuf_mem_at [OF assms]] n by simp
  have cp: "arr_memcpy (map Some ?h @ replicate ?n None) 26 (dbuf_bytes b) = Inr (map Some (?h @ dbuf_bytes b))"
    by (simp add: arr_memcpy_def n)
  have "arr_load_n (map Some (?h @ dbuf_bytes b)) 0 (MESSAGE_HEADER_SIZE + ?n) = Inr (?h @ dbuf_bytes b)"
    using mem_at_load_n [OF mem_at_whole [of "?h @ dbuf_bytes b"]] n by (simp add: MESSAGE_HEADER_SIZE_def)
  moreover have "of_nat (length (dbuf_bytes b)) = d_length b" by (simp add: n)
  ultimately show ?thesis
    using h body cp by (simp add: frame_message_def frame_def MESSAGE_HEADER_SIZE_def)
qed

lemma frame_fields:
  assumes "mem_at mem 0 (frame g type body)"
  shows "message_get_length mem 0 = Inr (of_nat (length body))" "message_get_guid mem 0 = Inr g"
    "message_get_type mem 0 = Inr type"
proof -
  have "mem = map Some (header_bytes (of_nat (length body)) g type) @ map Some body @ drop (26 + length body) mem"
    using mem_at_split(1) [OF assms] by (simp add: frame_def)
  then show "message_get_length mem 0 = Inr (of_nat (length body))" "message_get_guid mem 0 = Inr g"
      "message_get_type mem 0 = Inr type"
    using message_get_header [of "[]" 0 "of_nat (length body)" g type "map Some body @ drop (26 + length body) mem"]
    by simp_all
qed

definition magic_bytes :: "byte list" where
  "magic_bytes = u32_bytes (htonl MESSAGE_MAGIC_NUMBER)"

lemma magic_bytes_eq: "magic_bytes = [84, 82, 74, 84]"
proof -
  have "le_bytes 4 v = [of_nat v, of_nat (v div 256), of_nat (v div 256 div 256), of_nat (v div 256 div 256 div 256)]" for v
  proof -
    have four: "4 = Suc (Suc (Suc (Suc 0)))" by simp
    show ?thesis unfolding four by (simp only: le_bytes.simps)
  qed
  then show ?thesis
    unfolding magic_bytes_def u32_bytes_htonl by (simp add: MESSAGE_MAGIC_NUMBER_def u32_bytes_def)
qed

lemma frame_magic: "\<exists>rest. frame g type body = magic_bytes @ rest"
  by (simp add: frame_def header_bytes_def magic_bytes_def)

lemma message_get_magic_iff:
  assumes "mem_at mem i bs" "length bs = 4"
  shows "\<exists>m. message_get_magic mem i = Inr m \<and> (m = MESSAGE_MAGIC_NUMBER \<longleftrightarrow> bs = magic_bytes)"
proof -
  have "message_get_magic mem i = Inr (ntohl (u32_of bs))"
    using mem_at_load_n [OF assms(1)] assms(2) by (simp add: message_get_magic_def load_u32_def)
  moreover have "ntohl (u32_of bs) = MESSAGE_MAGIC_NUMBER \<longleftrightarrow> bs = magic_bytes"
  proof
    assume "ntohl (u32_of bs) = MESSAGE_MAGIC_NUMBER"
    then have "u32_of bs = htonl MESSAGE_MAGIC_NUMBER" by (metis htonl_htonl)
    moreover have "u32_bytes (u32_of bs) = bs"
      using le_value_bound [of bs] assms(2) by (simp add: u32_bytes_def u32_of_def unat_of_nat le_bytes_le_value)
    ultimately show "bs = magic_bytes" by (simp add: magic_bytes_def)
  qed (simp add: magic_bytes_def)
  ultimately show ?thesis by blast
qed

text \<open>The search passes over zeros.\<close>

lemma find_magic_zeros:
  assumes mem: "mem_at mem 0 (replicate z 0 @ rest)" and n: "n \<le> z + length rest - 3" "3 \<le> z + length rest"
  shows "i \<le> z \<Longrightarrow> find_magic_from mem n i = find_magic_from mem n (min z n) \<or> n < i"
proof (induction "z - i" arbitrary: i)
  case 0
  then have "i = z" by simp
  then show ?case by (cases "z \<le> n") (auto simp: min_def)
next
  case (Suc d)
  then have i: "i < z" by simp
  show ?case
  proof (cases "i < n")
    case True
    have m4: "mem_at mem i (take 4 (drop i (replicate z 0 @ rest)))"
      using True n by (intro mem_at_slice [OF mem]) simp
    have l4: "length (take 4 (drop i (replicate z 0 @ rest))) = 4" using True n by simp
    have "hd (take 4 (drop i (replicate z (0 :: byte) @ rest))) = 0"
      using i l4 by (subst hd_conv_nth) (auto simp: nth_append)
    then have "take 4 (drop i (replicate z 0 @ rest)) \<noteq> magic_bytes" by (auto simp: magic_bytes_eq)
    with message_get_magic_iff [OF m4 l4] obtain m where "message_get_magic mem i = Inr m" "m \<noteq> MESSAGE_MAGIC_NUMBER"
      by blast
    then have "find_magic_from mem n i = find_magic_from mem n (Suc i)"
      using True by (simp add: find_magic_from.simps [of mem n i])
    moreover have "find_magic_from mem n (Suc i) = find_magic_from mem n (min z n) \<or> n < Suc i"
      using Suc i by (intro Suc.hyps) auto
    ultimately show ?thesis using True by auto
  next
    case False
    then show ?thesis using i by (auto simp: min_def)
  qed
qed

lemma search_bound:
  assumes "25 \<le> unat (w :: u32)"
  shows "unat (ucast w - of_nat MESSAGE_HEADER_SIZE + 1 :: u64) = unat w - 25"
proof -
  have "(ucast w :: u64) = of_nat (unat w)" by simp
  then have "(ucast w - of_nat MESSAGE_HEADER_SIZE + 1 :: u64) = of_nat (unat w - 25)"
    using assms by (simp add: MESSAGE_HEADER_SIZE_def of_nat_diff del: of_nat_unat)
  moreover have "unat w < 2 ^ 32" using unsigned_less [of w, where ?'a = nat] by simp
  then have "unat w - 25 < 2 ^ 64" by simp
  ultimately show ?thesis by (simp add: unat_of_nat)
qed

lemma find_message_start_zeros:
  assumes b: "dbuf_ok b" "dbuf_bytes b = replicate z 0 @ rest" and n: "25 \<le> z + length rest"
  shows "rest = [] \<Longrightarrow> find_message_start b = Inr None"
    and "rest = frame g type body @ tail \<Longrightarrow> find_message_start b = Inr (Some z)"
proof -
  let ?n = "z + length rest - 25"
  have len: "unat (d_length b) = z + length rest" using length_dbuf_bytes [OF b(1)] b(2) by simp
  have mem: "mem_at (d_data b) 0 (replicate z 0 @ rest)" using dbuf_mem_at [OF b(1)] b(2) by simp
  have bound: "unat (ucast (d_length b) - of_nat MESSAGE_HEADER_SIZE + 1 :: u64) = ?n"
    using search_bound [of "d_length b"] n len by simp
  have start: "find_message_start b = find_magic_from (d_data b) ?n (min z ?n)"
    using find_magic_zeros [OF mem, of ?n 0] n by (simp add: find_message_start_def bound)
  show "find_message_start b = Inr None" if "rest = []"
    using start that by (simp add: find_magic_from.simps [of _ "z - 25" "z - 25"])
  show "find_message_start b = Inr (Some z)" if r: "rest = frame g type body @ tail"
  proof -
    have z: "z < ?n" using r by simp
    obtain t where "frame g type body = magic_bytes @ t" using frame_magic by blast
    then have "mem_at (d_data b) 0 (replicate z 0 @ magic_bytes @ t @ tail)" using mem r by simp
    then have "mem_at (d_data b) z magic_bytes" by (simp add: mem_at_append)
    from message_get_magic_iff [OF this] have "message_get_magic (d_data b) z = Inr MESSAGE_MAGIC_NUMBER"
      by (simp add: magic_bytes_eq)
    then show ?thesis using start z by (simp add: find_magic_from.simps [of _ ?n z])
  qed
qed

lemma splice_out_bytes:
  assumes b: "dbuf_ok b" and n: "n \<le> length (dbuf_bytes b)"
  shows "\<exists>b'. splice_out n b = Inr b' \<and> dbuf_ok b' \<and> dbuf_bytes b' = drop n (dbuf_bytes b)"
proof -
  let ?l = "unat (d_length b)" and ?d = "d_data b"
  note D = dbuf_okD [OF b]
  have n: "n \<le> ?l" using n length_dbuf_bytes [OF b] by simp
  let ?d' = "take (?l - n) (drop n ?d) @ drop (?l - n) ?d"
  let ?b = "b\<lparr>d_data := ?d', d_length := d_length b - of_nat n\<rparr>"
  have s: "splice_out n b = Inr ?b"
    using n D(2) by (simp add: splice_out_def size_diff_def arr_memmove_def)
  have l: "unat (d_length ?b) = ?l - n" using splice_out_length(2) [OF s] .
  have t: "take (?l - n) ?d' = drop n (take ?l ?d)" using D(2) n by (simp add: drop_take min_def)
  have ok: "dbuf_ok ?b"
    unfolding dbuf_ok_def
  proof (intro conjI allI impI)
    show "unat (d_length ?b) < unat (d_capacity ?b)" using l D(1) by simp
    show "length (d_data ?b) = unat (d_capacity ?b) \<or> d_data ?b = [] \<and> d_length ?b = 0 \<and> d_capacity ?b = 1"
    proof (cases "?d = []")
      case True
      then have "d_length b = 0" "n = 0" using D(2) n by (simp_all add: unat_eq_0)
      then show ?thesis using True b by (auto simp: dbuf_ok_def)
    next
      case False
      then show ?thesis using b n D(2) by (auto simp: dbuf_ok_def)
    qed
    fix i assume "i < unat (d_length ?b)"
    then have i: "i < ?l - n" using l by simp
    then have "d_data ?b ! i = ?d ! (n + i)" using D(2) by (simp add: nth_append)
    then show "d_data ?b ! i \<noteq> None" using D(3) [of "n + i"] i by simp
  qed
  have "dbuf_bytes ?b = map the (take (unat (d_length ?b)) ?d')" by (simp add: dbuf_bytes_def)
  also have "\<dots> = map the (drop n (take ?l ?d))" by (simp only: l t)
  also have "\<dots> = drop n (dbuf_bytes b)" by (simp add: dbuf_bytes_def drop_map)
  finally show ?thesis using s ok by blast
qed

section \<open>Reading messages\<close>

type_synonym msg = "guid_t \<times> u16 \<times> byte list"

definition msg_bytes :: "msg \<Rightarrow> byte list" where
  "msg_bytes m = (case m of (g, type, body) \<Rightarrow> frame g type body)"

text \<open>The messages \<open>ms\<close>, each handled with the memory in which it lies.\<close>

definition handle_all ::
  "('h, 'w) caller \<Rightarrow> addr \<Rightarrow> msg list \<Rightarrow> byte arr list \<Rightarrow> ('h, 'w) netstate \<Rightarrow> ('h, 'w) netstate res" where
  "handle_all call peer ms mems s =
     foldR (\<lambda>(m, mem) s. handle_message call peer mem (length (msg_bytes m)) s) (zip ms mems) s"

lemma handle_all_one: "handle_all call peer [m] [mem] s = handle_message call peer mem (length (msg_bytes m)) s"
  by (cases "handle_message call peer mem (length (msg_bytes m)) s") (simp_all add: handle_all_def)

lemma read_messages_zeros:
  assumes "dbuf_ok b" "dbuf_bytes b = replicate z 0" "25 \<le> z"
  shows "read_messages call peer b s = Inr (b, s)"
  using find_message_start_zeros(1) [OF assms(1), of z "[]"] assms(2,3)
  by (simp add: read_messages.simps [of call peer b s])

lemma read_messages_frame:
  assumes b: "dbuf_ok b" "dbuf_bytes b = replicate z 0 @ msg_bytes m @ tail"
  shows "\<exists>mem b'. mem_at mem 0 (msg_bytes m) \<and> dbuf_ok b' \<and> dbuf_bytes b' = tail \<and>
    (\<forall>call s. read_messages call peer b s =
       bindR (handle_message call peer mem (length (msg_bytes m)) s) (read_messages call peer b'))"
proof -
  obtain g t body where m: "m = (g, t, body)" by (cases m) auto
  let ?f = "frame g t body"
  have start: "find_message_start b = Inr (Some z)"
    using find_message_start_zeros(2) [OF b(1), of z "?f @ tail" g t body tail] b(2) m by (simp add: msg_bytes_def)
  obtain b1 where b1: "splice_out z b = Inr b1" "dbuf_ok b1" "dbuf_bytes b1 = ?f @ tail"
    using splice_out_bytes [OF b(1), of z] b(2) m by (auto simp: msg_bytes_def)
  have mem: "mem_at (d_data b1) 0 ?f" using dbuf_mem_at [OF b1(2)] b1(3) by (simp add: mem_at_append)
  have l: "unat (d_length b1) = 26 + length body + length tail"
    using length_dbuf_bytes [OF b1(2)] b1(3) by simp
  then have "length body < 2 ^ 32" using unsigned_less [of "d_length b1", where ?'a = nat] by simp
  then have u: "unat (of_nat (length body) :: u32) = length body" by (simp add: unat_of_nat)
  obtain b2 where b2: "splice_out (26 + length body) b1 = Inr b2" "dbuf_ok b2" "dbuf_bytes b2 = tail"
    using splice_out_bytes [OF b1(2), of "26 + length body"] b1(3) by auto
  have "read_messages call peer b s =
      bindR (handle_message call peer (d_data b1) (length (msg_bytes m)) s) (read_messages call peer b2)" for call s
    using start b1(1) frame_fields [OF mem] l b2(1) m
    by (subst read_messages.simps) (simp add: MESSAGE_HEADER_SIZE_def u msg_bytes_def Let_def del: of_nat_unat)
  then show ?thesis using mem b2 m by (auto simp: msg_bytes_def)
qed

lemma read_messages_all:
  assumes "dbuf_ok b" "dbuf_bytes b = replicate z 0 @ concat (map msg_bytes ms) @ replicate k 0" "25 \<le> k"
  shows "\<exists>mems b'. list_all2 (\<lambda>m mem. mem_at mem 0 (msg_bytes m)) ms mems \<and> dbuf_ok b' \<and>
    dbuf_bytes b' = replicate (if ms = [] then z + k else k) 0 \<and>
    (\<forall>call (s :: ('h, 'w) netstate). read_messages call peer b s = bindR (handle_all call peer ms mems s) (\<lambda>s. Inr (b', s)))"
  using assms
proof (induction ms arbitrary: b z)
  case Nil
  then have e: "dbuf_bytes b = replicate (z + k) 0" "25 \<le> z + k" by (simp_all add: replicate_add)
  then show ?case
    by (intro exI [of _ "[]"] exI [of _ b]) (simp add: handle_all_def Nil(1) read_messages_zeros [OF Nil(1) e])
next
  case (Cons m ms)
  obtain mem b1 where b1: "mem_at mem 0 (msg_bytes m)" "dbuf_ok b1"
      "dbuf_bytes b1 = replicate 0 0 @ concat (map msg_bytes ms) @ replicate k 0"
      "\<forall>call (s :: ('h, 'w) netstate). read_messages call peer b s =
        bindR (handle_message call peer mem (length (msg_bytes m)) s) (read_messages call peer b1)"
  proof -
    have e: "dbuf_bytes b = replicate z 0 @ msg_bytes m @ concat (map msg_bytes ms) @ replicate k 0"
      using Cons.prems(2) by simp
    show ?thesis
      by (rule exE [OF read_messages_frame [OF Cons.prems(1) e]], elim exE conjE, rule that) simp_all
  qed
  from Cons.IH [OF b1(2,3) Cons.prems(3)] obtain mems b2 where
    b2: "list_all2 (\<lambda>m mem. mem_at mem 0 (msg_bytes m)) ms mems" "dbuf_ok b2"
      "dbuf_bytes b2 = replicate (if ms = [] then 0 + k else k) 0"
      "\<forall>call (s :: ('h, 'w) netstate). read_messages call peer b1 s = bindR (handle_all call peer ms mems s) (\<lambda>s. Inr (b2, s))"
    by blast
  have "read_messages call peer b s = bindR (handle_all call peer (m # ms) (mem # mems) s) (\<lambda>s. Inr (b2, s))" for call and s :: "('h, 'w) netstate"
  proof -
    have r: "read_messages call peer b1 = (\<lambda>s. bindR (handle_all call peer ms mems s) (\<lambda>s. Inr (b2, s)))" for call :: "('h, 'w) caller"
      by (rule ext) (rule b2(4) [rule_format])
    show ?thesis by (simp add: b1(4) [rule_format] r handle_all_def bindR_assoc)
  qed
  then show ?case using b1(1) b2 by (intro exI [of _ "mem # mems"] exI [of _ b2]) simp
qed

section \<open>Gossip\<close>

definition peers_alive :: "'h network_t \<Rightarrow> bool" where
  "peers_alive net \<longleftrightarrow> list_ok (net_peers net) \<and> distinct (list_elems (net_peers net)) \<and>
     (\<forall>p \<in> set (list_elems (net_peers net)). alive (net_heap net) p)"

text \<open>The invariant of the network.\<close>

definition net_ok :: "'h network_t \<Rightarrow> bool" where
  "net_ok net \<longleftrightarrow> history_ok net \<and> peers_alive net \<and> buffers_ok net \<and> length (net_handlers net) = unat EVENT_COUNT"

lemma net_okD:
  assumes "net_ok net"
  shows "history_ok net" "peers_alive net" "buffers_ok net" "length (net_handlers net) = unat EVENT_COUNT"
  using assms by (simp_all add: net_ok_def)

lemma net_ok_create: "net_ok network_create"
  using history_ok_create by (simp add: net_ok_def peers_alive_def network_create_def list_ok_create buffers_held_def alive_def)

lemma net_ok_history:
  assumes "net_ok net" "message_history_add g net = Inr net'"
  shows "net_ok net'" "g \<in> set (list_elems (net_history net'))" "\<exists>h. net' = net\<lparr>net_history := h\<rparr>"
  using message_history_add_ok [OF net_okD(1) [OF assms(1)] assms(2)] assms(1)
  by (auto simp: net_ok_def peers_alive_def buffers_held_def)

lemma history_add_returns:
  assumes "net_ok net"
  obtains net' where "message_history_add g net = Inr net'"
  using message_history_add_result [OF net_okD(1) [OF assms], of g] by blast

lemma net_ok_writes: "net_ok net \<Longrightarrow> same_but_writes net net' \<Longrightarrow> buffers_ok net' \<Longrightarrow> net_ok net'"
  using same_but_writesD [of net net'] by (simp add: net_ok_def history_ok_def peers_alive_def)

lemma net_ok_broadcast:
  assumes "net_ok net"
  shows "\<exists>net' b. broadcast_message message net = Inr net' \<and> net_ok net' \<and> same_but_writes net net' \<and>
    net_writes net' = net_writes net @ map (\<lambda>p. (p, b)) (list_elems (net_peers net)) \<and>
    (list_elems (net_peers net) \<noteq> [] \<longrightarrow> sb_data (obj (net_buffers net') b) = message)"
proof -
  have "list_ok (net_peers net)" "\<forall>p \<in> set (list_elems (net_peers net)). alive (net_heap net) p" "buffers_ok net"
    using assms by (simp_all add: net_ok_def peers_alive_def)
  from broadcast_message_result [OF this, of message] obtain net' b where
    "broadcast_message message net = Inr net'" "buffers_ok net'" "same_but_writes net net'"
    "net_writes net' = net_writes net @ map (\<lambda>p. (p, b)) (list_elems (net_peers net))"
    "list_elems (net_peers net) \<noteq> [] \<longrightarrow> sb_data (obj (net_buffers net') b) = message"
    by blast
  then show ?thesis using net_ok_writes [OF assms] by blast
qed

lemma handle_frame:
  assumes ok: "net_ok (fst s)" and mem: "mem_at mem 0 (frame g t body)" and b: "length body < 2 ^ 32"
  shows "handle_message call peer mem (26 + length body) s =
    (if guid_is_null g then run_handler call peer t mem MESSAGE_HEADER_SIZE (length body) s
     else if g \<in> set (list_elems (net_history (fst s))) then Inr s
     else bindR (run_handler call peer t mem MESSAGE_HEADER_SIZE (length body) s) (\<lambda>(self, w).
       bindR (message_history_add g self) (\<lambda>self.
       bindR (broadcast_message (frame g t body) self) (\<lambda>self. Inr (self, w)))))"
proof -
  have "unat (of_nat (length body) :: u32) = length body" using b by (simp add: unat_of_nat)
  moreover have "arr_load_n mem 0 (26 + length body) = Inr (frame g t body)"
    using mem_at_load_n [OF mem] by simp
  ultimately show ?thesis
    using frame_fields [OF mem] message_history_has_result [OF net_okD(1) [OF ok], of g]
    by (simp add: handle_message_def del: of_nat_unat unat_of_nat)
qed

lemma net_ok_on_write:
  assumes ok: "net_ok net" and w: "w \<in> set (net_writes net)"
  shows "\<exists>net'. on_write w net = Inr net' \<and> net_ok net' \<and> same_but_writes net net' \<and> net_writes net' = remove1 w (net_writes net)"
proof -
  let ?b = "snd w" and ?n = "net\<lparr>net_writes := remove1 w (net_writes net)\<rparr>"
  text \<open>The reference of the write is held by the callback.\<close>
  have "buffers_held ((\<lambda>_. 0)(?b := 1)) ?n"
    unfolding buffers_held_def
  proof
    fix c
    show "if refs (net_writes ?n) c + ((\<lambda>_. 0)(?b := 1)) c = 0 then \<not> alive (net_buffers ?n) c
          else alive (net_buffers ?n) c \<and>
            sb_ref_count (obj (net_buffers ?n) c) = int (refs (net_writes ?n) c + ((\<lambda>_. 0)(?b := 1)) c)"
      using spec [OF net_okD(3) [OF ok, unfolded buffers_held_def], of c] refs_remove1 [OF w, of c]
      by (cases "c = ?b") simp_all
  qed
  moreover have "0 < ((\<lambda>_. 0)(?b := 1 :: nat)) ?b" by simp
  ultimately obtain n1 where n1: "shared_buffer_release ?b ?n = Inr n1"
      "buffers_held (((\<lambda>_. 0)(?b := 1))(?b := ((\<lambda>_. 0)(?b := 1)) ?b - 1)) n1" "same_but_writes ?n n1"
      "net_writes n1 = net_writes ?n"
    using release_step [of "(\<lambda>_. 0)(?b := 1)" ?n ?b] by blast
  have "((\<lambda>_. 0)(?b := 1))(?b := ((\<lambda>_. 0)(?b := 1 :: nat)) ?b - 1) = (\<lambda>_. 0)" by auto
  then have b1: "buffers_ok n1" using n1(2) by simp
  have swap: "shared_buffer_release b (m\<lparr>net_writes := ws\<rparr>) =
      bindR (shared_buffer_release b m) (\<lambda>m. Inr (m\<lparr>net_writes := ws\<rparr>))" for b ws and m :: "'a network_t"
    by (cases "heap_load (net_buffers m) b")
      (auto simp: shared_buffer_release_def Let_def heap_free_def heap_store_def)
  have s1: "same_but_writes net n1"
  proof (rule same_but_writes_trans [OF _ n1(3)])
    show "same_but_writes net ?n" unfolding same_but_writes_def by (rule exI [of _ "net_buffers net"], rule exI) simp
  qed
  obtain m where m: "shared_buffer_release ?b net = Inr m" "n1 = m\<lparr>net_writes := remove1 w (net_writes net)\<rparr>"
    using n1(1) by (auto simp: swap res_simps)
  then have "net_writes m = net_writes net" by (auto simp: shared_buffer_release_def Let_def res_simps)
  then have "on_write w net = Inr n1" using m by (simp add: on_write_def)
  then show ?thesis using net_ok_writes [OF ok s1 b1] s1 n1(4) by auto
qed

lemma net_ok_send:
  assumes ok: "net_ok net" and r: "send_message message peer net = Inr net'"
  shows "net_ok net'" "\<exists>b. net_writes net' = net_writes net @ [(peer, b)] \<and> sb_data (obj (net_buffers net') b) = message"
proof -
  let ?b = "length (net_buffers net)"
  obtain n1 where n1: "shared_buffer_retain ?b (snd (shared_buffer_create message net)) = Inr n1"
      "fst (shared_buffer_create message net) = ?b" "buffers_held (\<lambda>c. if c = ?b then 1 else 0) n1"
      "same_but_writes net n1" "net_writes n1 = net_writes net" "sb_data (obj (net_buffers n1) ?b) = message"
    using create_step [OF net_okD(3) [OF ok], of message] by auto
  then have w: "uv_write peer ?b n1 = Inr net'"
    using r by (simp add: send_message_def shared_buffer_create_def)
  then have "alive (net_heap n1) peer" by (auto simp: uv_write_def res_simps heap_load_Inr)
  moreover have b: "0 < (if ?b = ?b then 1 else 0 :: nat)" by simp
  moreover have e: "(\<lambda>c. if c = ?b then 1 else 0 :: nat)(?b := (if ?b = ?b then 1 else 0) - 1) = (\<lambda>_. 0)" by auto
  ultimately obtain n2 where n2: "uv_write peer ?b n1 = Inr n2" "buffers_ok n2" "same_but_writes n1 n2"
      "net_writes n2 = net_writes n1 @ [(peer, ?b)]" "net_buffers n2 = net_buffers n1"
    using write_step [OF n1(3) b, of peer, unfolded e] by blast
  have "net' = n2" using w n2(1) by simp
  then show "net_ok net'" "\<exists>b. net_writes net' = net_writes net @ [(peer, b)] \<and> sb_data (obj (net_buffers net') b) = message"
    using net_ok_writes [OF ok same_but_writes_trans [OF n1(4) n2(3)] n2(2)] n2(4,5) n1(5,6) by auto
qed

text \<open>Changes of the heap of peers and of the list of peers.\<close>

lemma net_ok_heap_update:
  "net_ok net \<Longrightarrow> alive (net_heap net) peer \<Longrightarrow> net_ok (net\<lparr>net_heap := (net_heap net)[peer := Some p]\<rparr>)"
  by (auto simp: net_ok_def history_ok_def peers_alive_def buffers_held_def alive_less)

lemma net_ok_closing: "net_ok net \<Longrightarrow> net_ok (net\<lparr>net_closing := ps\<rparr>)"
  by (simp add: net_ok_def history_ok_def peers_alive_def buffers_held_def)

lemma net_ok_connects: "net_ok net \<Longrightarrow> net_ok (net\<lparr>net_connects := cs\<rparr>)"
  by (simp add: net_ok_def history_ok_def peers_alive_def buffers_held_def)

lemma net_ok_new_peer:
  assumes ok: "net_ok net" and r: "create_peer_from_tcp_socket address port net = Inr (peer, net')"
  shows "net_ok net'" "peer = length (net_heap net)" "list_elems (net_peers net') = list_elems (net_peers net) @ [peer]"
proof -
  let ?new = "length (net_heap net)"
  have P: "list_ok (net_peers net)" "distinct (list_elems (net_peers net))"
      "\<forall>p \<in> set (list_elems (net_peers net)). alive (net_heap net) p"
    using ok by (simp_all add: net_ok_def peers_alive_def)
  obtain l where l: "list_add (net_peers net) ?new = Inr l" "list_ok l" "list_elems l = list_elems (net_peers net) @ [?new]"
    using list_add_elems [OF P(1)] by blast
  have n: "?new \<notin> set (list_elems (net_peers net))" using P(3) by (auto simp: alive_def)
  show "peer = ?new" "list_elems (net_peers net') = list_elems (net_peers net) @ [peer]"
    using r l by (auto simp: create_peer_from_tcp_socket_def Let_def)
  show "net_ok net'"
    using ok r l P n by (auto simp: create_peer_from_tcp_socket_def Let_def net_ok_def history_ok_def peers_alive_def buffers_held_def)
qed

section \<open>Callbacks keep the invariant\<close>

text \<open>
  What the network asks of the program's handlers: they keep its invariant. Under this contract
  every callback that libuv makes keeps it.
\<close>

locale event_handlers =
  fixes call :: "('h, 'w) caller"
  assumes call_ok: "net_ok (fst s) \<Longrightarrow> call h peer mem t s = Inr s' \<Longrightarrow> net_ok (fst s')"
begin

lemma run_handler_ok:
  "net_ok (fst s) \<Longrightarrow> run_handler call peer type mem payload len s = Inr s' \<Longrightarrow> net_ok (fst s')"
  by (auto simp: run_handler_def res_simps split: if_splits option.splits intro: call_ok)

lemma handle_message_ok:
  assumes "net_ok (fst s)" "handle_message call peer mem len s = Inr s'"
  shows "net_ok (fst s')"
proof -
  obtain g n t where gnt: "message_get_guid mem 0 = Inr g" "message_get_length mem 0 = Inr n" "message_get_type mem 0 = Inr t"
    using assms(2) by (auto simp: handle_message_def res_simps)
  show ?thesis
  proof (cases "guid_is_null g")
    case True
    then show ?thesis using assms gnt run_handler_ok [OF assms(1)] by (simp add: handle_message_def)
  next
    case null: False
    show ?thesis
    proof (cases "g \<in> set (list_elems (net_history (fst s)))")
      case True
      then show ?thesis
        using assms gnt null message_history_has_result [OF net_okD(1) [OF assms(1)], of g] by (simp add: handle_message_def)
    next
      case False
      then obtain n1 w n2 bytes n3 where r: "run_handler call peer t mem MESSAGE_HEADER_SIZE (unat n) s = Inr (n1, w)"
          "message_history_add g n1 = Inr n2" "broadcast_message bytes n2 = Inr n3" "s' = (n3, w)"
        using assms gnt null message_history_has_result [OF net_okD(1) [OF assms(1)], of g]
        by (auto simp: handle_message_def res_simps)
      have "net_ok n2" using net_ok_history(1) [OF _ r(2)] run_handler_ok [OF assms(1) r(1)] by simp
      then show ?thesis using net_ok_broadcast [of n2 bytes] r(3,4) by auto
    qed
  qed
qed

lemma read_messages_ok:
  "net_ok (fst s) \<Longrightarrow> read_messages call peer buf s = Inr (buf', s') \<Longrightarrow> net_ok (fst s')"
proof (induction "unat (d_length buf)" arbitrary: buf s rule: less_induct)
  case less
  from less.prems(2) obtain start where start: "find_message_start buf = Inr start"
    by (auto simp: read_messages.simps [of call peer buf s] res_simps)
  show ?case
  proof (cases start)
    case None
    then show ?thesis using less.prems start by (simp add: read_messages.simps [of call peer buf s])
  next
    case (Some p)
    then obtain b1 g len t where b1: "splice_out p buf = Inr b1" "message_get_guid (d_data b1) 0 = Inr g"
        "message_get_length (d_data b1) 0 = Inr len" "message_get_type (d_data b1) 0 = Inr t"
      using less.prems(2) start by (auto simp: read_messages.simps [of call peer buf s] res_simps)
    let ?ml = "MESSAGE_HEADER_SIZE + unat len"
    show ?thesis
    proof (cases "unat (d_length b1) < ?ml")
      case True
      then show ?thesis using less.prems start Some b1 by (simp add: read_messages.simps [of call peer buf s] Let_def)
    next
      case False
      then obtain s1 b2 where s1: "handle_message call peer (d_data b1) ?ml s = Inr s1" "splice_out ?ml b1 = Inr b2"
          "read_messages call peer b2 s1 = Inr (buf', s')"
        using less.prems(2) start Some b1 by (auto simp: read_messages.simps [of call peer buf s] res_simps Let_def)
      have "unat (d_length b2) < unat (d_length buf)"
        using splice_out_length [OF b1(1)] splice_out_length [OF s1(2)] by (simp add: MESSAGE_HEADER_SIZE_def)
      from less.hyps [OF this handle_message_ok [OF less.prems(1) s1(1)] s1(3)] show ?thesis .
    qed
  qed
qed

lemma on_read_ok:
  assumes "net_ok (fst s)" "on_read call peer nread base s = Inr s'"
  shows "net_ok (fst s')"
proof (cases "nread < 0")
  case True
  then show ?thesis using assms net_ok_closing [OF assms(1)] by (auto simp: on_read_def network_disconnect_def res_simps)
next
  case False
  then obtain p buf buf' n1 w p1 h where r: "read_messages call peer buf s = Inr (buf', n1, w)"
      "heap_load (net_heap n1) peer = Inr p1" "heap_store (net_heap n1) peer (p1\<lparr>p_buf := buf'\<rparr>) = Inr h"
      "s' = (n1\<lparr>net_heap := h\<rparr>, w)"
    using assms(2) by (auto simp: on_read_def res_simps)
  then show ?thesis
    using net_ok_heap_update read_messages_ok [OF assms(1) r(1)] by (auto simp: heap_load_Inr)
qed

lemma notify_ok: "net_ok (fst s) \<Longrightarrow> notify call event peer s = Inr s' \<Longrightarrow> net_ok (fst s')"
  by (auto simp: notify_def split: option.splits intro: call_ok)

lemma connection_ok:
  assumes "net_ok (fst s)"
  shows "on_incoming_connection call status accepted address port s = Inr s' \<Longrightarrow> net_ok (fst s')"
    and "on_outgoing_connection call status address port s = Inr s' \<Longrightarrow> net_ok (fst s')"
  using assms
  by (auto simp: on_incoming_connection_def on_outgoing_connection_def res_simps split: if_splits
      dest!: net_ok_new_peer(1) [OF assms] intro: notify_ok [of "(a, b)" for a b, rotated])

lemma on_socket_closed_ok:
  assumes "net_ok (fst s)" "on_socket_closed call peer s = Inr s'"
  shows "net_ok (fst s')"
proof -
  obtain n1 w i l h where r: "notify call EVENT_DISCONNECT peer s = Inr (n1, w)" "list_find (net_peers n1) peer None = Inr i"
      "(if i \<noteq> list_size (net_peers n1) then bindR (list_remove (net_peers n1) i) (\<lambda>(_, l). Inr l)
        else Inr (net_peers n1)) = Inr l" "heap_free (net_heap n1) peer = Inr h" "s' = (n1\<lparr>net_peers := l, net_heap := h\<rparr>, w)"
    using assms(2) by (auto simp: on_socket_closed_def res_simps)
  have ok: "net_ok n1" using notify_ok [OF assms(1) r(1)] by simp
  then have P: "list_ok (net_peers n1)" "distinct (list_elems (net_peers n1))"
      "\<forall>p \<in> set (list_elems (net_peers n1)). alive (net_heap n1) p"
    by (simp_all add: net_ok_def peers_alive_def)
  let ?ps = "list_elems (net_peers n1)"
  have i: "i = length (takeWhile (\<lambda>x. \<not> x = peer) ?ps)"
    using list_find_first [OF P(1), of None peer "\<lambda>x. x = peer"] r(2) by simp
  have l: "list_ok l \<and> distinct (list_elems l) \<and> set (list_elems l) = set ?ps - {peer}"
  proof (cases "peer \<in> set ?ps")
    case True
    then have "i \<noteq> length ?ps" using position_is_end [of peer ?ps] i by simp
    then have lt: "i < length ?ps" using length_takeWhile_le [of _ ?ps] i by (simp add: order_less_le)
    have at: "?ps ! i = peer" using nth_length_takeWhile [of "\<lambda>x. \<not> x = peer" ?ps] lt i by simp
    obtain l' where l': "list_remove (net_peers n1) i = Inr (?ps ! i, l')" "list_ok l'"
        "list_elems l' = take i ?ps @ drop (Suc i) ?ps"
      using list_remove_elems [OF P(1) lt] by blast
    have "l = l'" using r(3) l'(1) lt list_size_elems [OF P(1)] by simp
    moreover have split: "?ps = take i ?ps @ peer # drop (Suc i) ?ps" using id_take_nth_drop [OF lt] at by simp
    have "distinct (take i ?ps @ peer # drop (Suc i) ?ps)" using P(2) split by simp
    moreover have "set ?ps = set (take i ?ps @ peer # drop (Suc i) ?ps)" using split by simp
    ultimately show ?thesis using l'(2,3) by auto
  next
    case False
    then have "i = list_size (net_peers n1)" using position_is_end [of peer ?ps] i list_size_elems [OF P(1)] by simp
    then show ?thesis using r(3) P False by simp
  qed
  have h: "h = (net_heap n1)[peer := None]" "alive (net_heap n1) peer"
    using r(4) by (auto simp: heap_free_def res_simps heap_load_Inr)
  have "alive h p" if "p \<in> set (list_elems l)" for p
    using that l P(3) h by (auto simp: alive_def)
  then show ?thesis
    using ok l r(5) by (simp add: net_ok_def history_ok_def peers_alive_def buffers_held_def)
qed

end

text \<open>The callbacks libuv can make in a state.\<close>

inductive net_step :: "('h, 'w) caller \<Rightarrow> ('h, 'w) netstate \<Rightarrow> ('h, 'w) netstate \<Rightarrow> bool" for call where
  read: "on_read call peer nread base s = Inr s' \<Longrightarrow> net_step call s s'"
| written: "req \<in> set (net_writes net) \<Longrightarrow> on_write req net = Inr net' \<Longrightarrow> net_step call (net, w) (net', w)"
| closed: "peer \<in> set (net_closing net) \<Longrightarrow>
    on_socket_closed call peer (net\<lparr>net_closing := remove1 peer (net_closing net)\<rparr>, w) = Inr s' \<Longrightarrow>
    net_step call (net, w) s'"
| incoming: "on_incoming_connection call status accepted address port s = Inr s' \<Longrightarrow> net_step call s s'"
| outgoing: "on_outgoing_connection call status address port s = Inr s' \<Longrightarrow> net_step call s s'"

context event_handlers
begin

lemma net_step_ok: "net_step call s s' \<Longrightarrow> net_ok (fst s) \<Longrightarrow> net_ok (fst s')"
proof (induction rule: net_step.induct)
  case (written req net net' w)
  then show ?case using net_ok_on_write by fastforce
next
  case (closed peer net w s')
  then show ?case using on_socket_closed_ok [OF _ closed(2)] net_ok_closing [of net] by simp
qed (use on_read_ok connection_ok in blast)+

lemma net_steps_ok: "(net_step call)\<^sup>*\<^sup>* s s' \<Longrightarrow> net_ok (fst s) \<Longrightarrow> net_ok (fst s')"
  by (induction rule: rtranclp_induct) (auto intro: net_step_ok)

end

section \<open>Properties\<close>

text \<open>
  The history of message identifiers is a window. After any sequence of additions to a new
  network it holds the last 1024 identifiers added, never more, and \<open>message_history_has\<close> answers
  whether an identifier is one of them.
\<close>

lemma history_window:
  "\<exists>net. foldR message_history_add gs network_create = Inr (net :: 'h network_t) \<and>
     list_elems (net_history net) = drop (length gs - 1024) gs \<and>
     list_size (net_history net) \<le> 1024 \<and>
     (\<forall>g. message_history_has net g = Inr (g \<in> set (drop (length gs - 1024) gs)))"
proof -
  have "list_elems (net_history (network_create :: 'h network_t)) = recent []"
    by (simp add: network_create_def recent_def)
  from history_window_from [OF history_ok_create this, of gs] obtain net :: "'h network_t" where
    n: "foldR message_history_add gs network_create = Inr net" "history_ok net" "list_elems (net_history net) = recent gs"
    by auto
  have "list_size (net_history net) \<le> MESSAGE_HISTORY_SIZE"
    using n(2) list_size_elems [of "net_history net"] by (simp add: history_ok_def)
  then show ?thesis
    using n message_history_has_result [OF n(2)] by (simp add: recent_def MESSAGE_HISTORY_SIZE_def)
qed

text \<open>
  C12: Delivery. When a read brings any number of whole messages, one after the other, into the
  zero-filled block that \<open>on_alloc\<close> made (at least 25 bytes longer than the messages), and only
  zeros were left in the peer's buffer, then \<open>on_read\<close> handles exactly these messages, in order,
  each at the start of a memory that holds all its bytes, and leaves only zeros in the buffer,
  whatever the handlers do.
\<close>

theorem on_read_delivers:
  fixes s :: "('h, 'w) netstate"
  assumes "heap_load (net_heap (fst s)) peer = Inr p" "dbuf_ok (p_buf p)" "dbuf_bytes (p_buf p) = replicate z 0"
    and "0 \<le> nread" "base = concat (map msg_bytes ms) @ replicate k 0" "25 \<le> k" "z + length base < 2 ^ 31"
  shows "\<exists>mems buf. list_all2 (\<lambda>m mem. mem_at mem 0 (msg_bytes m)) ms mems \<and>
    dbuf_ok buf \<and> dbuf_bytes buf = replicate (if ms = [] then z + k else k) 0 \<and>
    on_read call peer nread base s =
      bindR (handle_all call peer ms mems s) (\<lambda>(self, w).
      bindR (heap_load (net_heap self) peer) (\<lambda>p.
        Inr (self\<lparr>net_heap := (net_heap self)[peer := Some (p\<lparr>p_buf := buf\<rparr>)]\<rparr>, w)))"
proof -
  have "length (dbuf_bytes (p_buf p)) + length base < 2 ^ 31" using assms(3,7) by simp
  from dynamic_buffer_write_bytes [OF assms(2) this] obtain b where
    b: "dynamic_buffer_write base (length base) (p_buf p) = Inr b" "dbuf_ok b" "dbuf_bytes b = replicate z 0 @ base"
    using assms(3) by auto
  have e: "dbuf_bytes b = replicate z 0 @ concat (map msg_bytes ms) @ replicate k 0" using b(3) assms(5) by simp
  obtain mems b' where m: "list_all2 (\<lambda>m mem. mem_at mem 0 (msg_bytes m)) ms mems" "dbuf_ok b'"
      "dbuf_bytes b' = replicate (if ms = [] then z + k else k) 0"
      "\<forall>call (s :: ('h, 'w) netstate). read_messages call peer b s = bindR (handle_all call peer ms mems s) (\<lambda>s. Inr (b', s))"
    by (rule exE [OF read_messages_all [OF b(2) e assms(6)]], elim exE conjE, rule that) simp_all
  have st: "bindR (heap_load h peer) (\<lambda>p. bindR (heap_store h peer (f p)) g) =
      bindR (heap_load h peer) (\<lambda>p. g (h[peer := Some (f p)]))" for h f and g :: "_ \<Rightarrow> ('h, 'w) netstate res"
    by (cases "heap_load h peer") (simp_all add: heap_store_def)
  have "on_read call peer nread base s =
      bindR (handle_all call peer ms mems s) (\<lambda>(self, w).
      bindR (heap_load (net_heap self) peer) (\<lambda>p.
        Inr (self\<lparr>net_heap := (net_heap self)[peer := Some (p\<lparr>p_buf := b'\<rparr>)]\<rparr>, w)))"
    using assms(1,4) b(1) by (simp add: on_read_def m(4) bindR_assoc st split_def)
  then show ?thesis using m(1-3) by blast
qed

theorem on_read_delivers_witness:
  "\<exists>mems buf. length mems = 2 \<and> dbuf_bytes buf = replicate 30 0 \<and>
    on_read (\<lambda>_ _ _ _. Inr) 0 7
      (concat (map msg_bytes [(guid_null, 11, [1, 2]), (Guid 1 2 3 4, 12, [])]) @ replicate 30 0)
      (network_create\<lparr>net_heap := [Some \<lparr>p_addr = [], p_port = 1, p_buf = dynamic_buffer_create 32\<rparr>]\<rparr> :: unit network_t, ()) =
    bindR (handle_all (\<lambda>_ _ _ _. Inr) 0 [(guid_null, 11, [1, 2]), (Guid 1 2 3 4, 12, [])] mems
       (network_create\<lparr>net_heap := [Some \<lparr>p_addr = [], p_port = 1, p_buf = dynamic_buffer_create 32\<rparr>]\<rparr>, ())) (\<lambda>(self, w).
    bindR (heap_load (net_heap self) 0) (\<lambda>p.
      Inr (self\<lparr>net_heap := (net_heap self)[0 := Some (p\<lparr>p_buf := buf\<rparr>)]\<rparr>, w)))"
proof -
  let ?p = "\<lparr>p_addr = [], p_port = 1, p_buf = dynamic_buffer_create 32\<rparr>"
  let ?s = "(network_create\<lparr>net_heap := [Some ?p]\<rparr> :: unit network_t, ())"
  let ?ms = "[(guid_null, 11, [1, 2]), (Guid 1 2 3 4, 12, [])]"
  obtain mems buf where m: "list_all2 (\<lambda>m mem. mem_at mem 0 (msg_bytes m)) ?ms mems"
      "dbuf_bytes buf = replicate (if ?ms = [] then 0 + 30 else 30) 0"
      "on_read (\<lambda>_ _ _ _. Inr) 0 7 (concat (map msg_bytes ?ms) @ replicate 30 0) ?s =
        bindR (handle_all (\<lambda>_ _ _ _. Inr) 0 ?ms mems ?s) (\<lambda>(self, w).
        bindR (heap_load (net_heap self) 0) (\<lambda>p.
          Inr (self\<lparr>net_heap := (net_heap self)[0 := Some (p\<lparr>p_buf := buf\<rparr>)]\<rparr>, w)))"
    using on_read_delivers [of ?s 0 ?p 0 7 "concat (map msg_bytes ?ms) @ replicate 30 0" ?ms 30 "\<lambda>_ _ _ _. Inr"]
      dbuf_ok_create [of 32] by (auto simp: heap_load_def msg_bytes_def)
  moreover have "length mems = 2" using list_all2_lengthD [OF m(1)] by simp
  ultimately show ?thesis by (intro exI [of _ mems] exI [of _ buf]) simp
qed

text \<open>
  C13: Gossip. A message with an identifier that is in the history changes nothing. Any other is
  handled once, if it has a type with a handler, then its identifier enters the history, and a
  write of exactly its bytes is started to every peer of that moment; from then on the same message,
  from whatever peer it comes, changes nothing.
\<close>

theorem gossip_once:
  assumes "net_ok (fst s)" "mem_at mem 0 (msg_bytes (g, t, body))" "length body < 2 ^ 32" "\<not> guid_is_null g"
    and "run_handler call peer t mem 26 (length body) s = Inr s1" "net_ok (fst s1)"
  shows "if g \<in> set (list_elems (net_history (fst s)))
    then handle_message call peer mem (26 + length body) s = Inr s
    else \<exists>net b. handle_message call peer mem (26 + length body) s = Inr (net, snd s1) \<and> net_ok net \<and>
      net_writes net = net_writes (fst s1) @ map (\<lambda>q. (q, b)) (list_elems (net_peers (fst s1))) \<and>
      (list_elems (net_peers (fst s1)) \<noteq> [] \<longrightarrow> sb_data (obj (net_buffers net) b) = msg_bytes (g, t, body)) \<and>
      (\<forall>q mem' w. mem_at mem' 0 (msg_bytes (g, t, body)) \<longrightarrow>
         handle_message call q mem' (26 + length body) (net, w) = Inr (net, w))"
proof (cases "g \<in> set (list_elems (net_history (fst s)))")
  case True
  then show ?thesis
    using handle_frame [OF assms(1) _ assms(3), of mem g t] assms(2,4) by (simp add: msg_bytes_def)
next
  case False
  obtain n2 where n2: "message_history_add g (fst s1) = Inr n2" by (rule history_add_returns [OF assms(6)])
  note h = net_ok_history [OF assms(6) n2]
  obtain n3 b where n3: "broadcast_message (frame g t body) n2 = Inr n3" "net_ok n3" "same_but_writes n2 n3"
      "net_writes n3 = net_writes n2 @ map (\<lambda>p. (p, b)) (list_elems (net_peers n2))"
      "list_elems (net_peers n2) \<noteq> [] \<longrightarrow> sb_data (obj (net_buffers n3) b) = frame g t body"
    using net_ok_broadcast [OF h(1)] by blast
  have same: "net_writes n2 = net_writes (fst s1)" "net_peers n2 = net_peers (fst s1)" using h(3) by auto
  have "handle_message call peer mem (26 + length body) s = Inr (n3, snd s1)"
    using handle_frame [OF assms(1) _ assms(3), of mem g t call peer] assms(2,4,5) False n2 n3(1)
    by (simp add: msg_bytes_def MESSAGE_HEADER_SIZE_def split_def)
  moreover have "handle_message call q mem' (26 + length body) (n3, w) = Inr (n3, w)"
    if "mem_at mem' 0 (frame g t body)" for q mem' w
    using handle_frame [of "(n3, w)" mem' g t body call q] n3(2) that assms(3,4) h(2) same_but_writesD(3) [OF n3(3)]
    by simp
  ultimately show ?thesis using False n3(2,4,5) unfolding same by (auto simp: msg_bytes_def)
qed

theorem gossip_once_witness:
  "\<exists>net. handle_message (\<lambda>_ _ _ _. Inr) 0 (map Some (msg_bytes (Guid 1 2 3 4, 20, [7]))) 27 (network_create :: unit network_t, ()) =
      Inr (net, ()) \<and> net_ok net \<and>
    handle_message (\<lambda>_ _ _ _. Inr) 5 (map Some (msg_bytes (Guid 1 2 3 4, 20, [7]))) 27 (net, ()) = Inr (net, ())"
proof -
  let ?s = "(network_create :: unit network_t, ())"
  let ?m = "map Some (msg_bytes (Guid 1 2 3 4, 20, [7]))"
  have "run_handler (\<lambda>_ _ _ _. Inr) 0 20 ?m 26 1 ?s = Inr ?s" by (simp add: run_handler_def EVENT_COUNT_def)
  moreover have "list_elems (net_history (network_create :: unit network_t)) = []" by (simp add: network_create_def)
  ultimately show ?thesis
    using gossip_once [of ?s ?m "Guid 1 2 3 4" 20 "[7]" "\<lambda>_ _ _ _. Inr" 0 ?s] net_ok_create mem_at_whole
    by (auto simp: guid_is_null_def)
qed

text \<open>
  C36: A message split over two reads is not put together. Since \<open>on_read\<close> appends the whole block
  and not the bytes read, a first read of only the header and a part of the body already makes a
  complete message: the handler gets a body whose missing rest is zeros.
\<close>

theorem split_message_zero_filled:
  fixes s :: "('h, 'w) netstate"
  assumes "heap_load (net_heap (fst s)) peer = Inr p" "dbuf_ok (p_buf p)" "dbuf_bytes (p_buf p) = []"
    and "26 \<le> n" "n \<le> 26 + length body" "26 + length body + 25 \<le> block" "block < 2 ^ 31"
  shows "\<exists>mem buf. mem_at mem 0 (msg_bytes (g, t, take (n - 26) body @ replicate (26 + length body - n) 0)) \<and>
    on_read call peer (int n) (uv_fill (take n (msg_bytes (g, t, body))) (on_alloc block)) s =
      bindR (handle_message call peer mem (26 + length body) s) (\<lambda>(self, w).
      bindR (heap_load (net_heap self) peer) (\<lambda>p.
        Inr (self\<lparr>net_heap := (net_heap self)[peer := Some (p\<lparr>p_buf := buf\<rparr>)]\<rparr>, w)))"
proof -
  let ?body = "take (n - 26) body @ replicate (26 + length body - n) 0"
  have len: "length ?body = length body" using assms(4,5) by simp
  have base: "uv_fill (take n (msg_bytes (g, t, body))) (on_alloc block) =
      concat (map msg_bytes [(g, t, ?body)]) @ replicate (block - (26 + length body)) 0"
  proof -
    have "take n (msg_bytes (g, t, body)) = header_bytes (of_nat (length body)) g t @ take (n - 26) body"
      using assms(4) by (simp add: msg_bytes_def frame_def)
    moreover have "length (take n (msg_bytes (g, t, body))) = n" using assms(4,5) by (simp add: msg_bytes_def)
    moreover have "replicate (block - n) (0 :: byte) =
        replicate (26 + length body - n) 0 @ replicate (block - (26 + length body)) 0"
    proof -
      have "block - n = (26 + length body - n) + (block - (26 + length body))" using assms(5,6) by simp
      then show ?thesis by (simp only: replicate_add)
    qed
    ultimately show ?thesis by (simp add: uv_fill_def on_alloc_def msg_bytes_def frame_def len)
  qed
  have z: "dbuf_bytes (p_buf p) = replicate 0 0" using assms(3) by simp
  have nn: "0 \<le> int n" by simp
  have k: "25 \<le> block - (26 + length body)" using assms(6) by simp
  have "length (uv_fill (take n (msg_bytes (g, t, body))) (on_alloc block)) = block"
    using assms(4-6) by (simp add: uv_fill_def on_alloc_def msg_bytes_def)
  then have lim: "0 + length (uv_fill (take n (msg_bytes (g, t, body))) (on_alloc block)) < 2 ^ 31"
    using assms(7) by simp
  obtain mems buf where m: "list_all2 (\<lambda>m mem. mem_at mem 0 (msg_bytes m)) [(g, t, ?body)] mems"
      "on_read call peer (int n) (uv_fill (take n (msg_bytes (g, t, body))) (on_alloc block)) s =
        bindR (handle_all call peer [(g, t, ?body)] mems s) (\<lambda>(self, w).
        bindR (heap_load (net_heap self) peer) (\<lambda>p.
          Inr (self\<lparr>net_heap := (net_heap self)[peer := Some (p\<lparr>p_buf := buf\<rparr>)]\<rparr>, w)))"
    by (rule exE [OF on_read_delivers [OF assms(1,2) z nn base k lim, of call]], elim exE conjE, rule that)
  then obtain mem where "mems = [mem]" "mem_at mem 0 (msg_bytes (g, t, ?body))"
    by (auto simp: list_all2_Cons1)
  then show ?thesis
    using m(2) len by (intro exI [of _ mem] exI [of _ buf]) (simp add: handle_all_one msg_bytes_def)
qed

theorem split_message_zero_filled_witness:
  "\<exists>mem buf. mem_at mem 0 (msg_bytes (guid_null, 9, [1, 2, 0, 0])) \<and>
    on_read (\<lambda>_ _ _ _. Inr) 0 28 (uv_fill (take 28 (msg_bytes (guid_null, 9, [1, 2, 3, 4]))) (on_alloc 60))
      (network_create\<lparr>net_heap := [Some \<lparr>p_addr = [], p_port = 1, p_buf = dynamic_buffer_create 32\<rparr>]\<rparr> :: unit network_t, ()) =
    bindR (handle_message (\<lambda>_ _ _ _. Inr) 0 mem 30
       (network_create\<lparr>net_heap := [Some \<lparr>p_addr = [], p_port = 1, p_buf = dynamic_buffer_create 32\<rparr>]\<rparr>, ())) (\<lambda>(self, w).
    bindR (heap_load (net_heap self) 0) (\<lambda>p.
      Inr (self\<lparr>net_heap := (net_heap self)[0 := Some (p\<lparr>p_buf := buf\<rparr>)]\<rparr>, w)))"
proof -
  let ?p = "\<lparr>p_addr = [], p_port = 1, p_buf = dynamic_buffer_create 32\<rparr>"
  let ?s = "(network_create\<lparr>net_heap := [Some ?p]\<rparr> :: unit network_t, ())"
  have "heap_load (net_heap (fst ?s)) 0 = Inr ?p" "dbuf_ok (p_buf ?p)" "dbuf_bytes (p_buf ?p) = []"
    using dbuf_ok_create [of 32] by (simp_all add: heap_load_def)
  moreover have "take (28 - 26) [1, 2, 3, 4] @ replicate (26 + length [1, 2, 3, 4 :: byte] - 28) 0 = [1, 2, 0, 0 :: byte]"
    by (simp add: numeral_2_eq_2)
  moreover have "take 2 [1, 2, 3, 4 :: byte] = [1, 2]" "replicate 2 (0 :: byte) = [0, 0]" by (simp_all add: numeral_2_eq_2)
  ultimately show ?thesis
    using split_message_zero_filled [of ?s 0 ?p 28 "[1, 2, 3, 4]" 60 guid_null 9 "\<lambda>_ _ _ _. Inr"] by simp
qed

end
