(* ===== verification/Node.thy ===== *)
theory Node
  imports ForkChoice Network
begin

text \<open>
  The node (\<open>src/main/main.c\<close>): the chain, the pool and the store they share, the handlers of the
  messages and of the timer, and the blocks the node creates itself. What a handler hands to the
  network comes back as a list of messages; the time, the keys and the memory of the message are
  arguments. The global buffers of the program are the fields of \<open>node_t\<close>.
\<close>

section \<open>State, messages\<close>

record node_t =
  n_store :: store
  n_chain :: blockchain_t
  n_pool :: pool_t
  n_timer :: bool

record keys =
  k_public :: "byte list"
  k_secret :: "byte list"

datatype sent = Broadcast u16 dynamic_buffer_t | Reply u16 dynamic_buffer_t

definition node_create :: "sodium \<Rightarrow> node_t" where
  "node_create S =
     \<lparr>n_store = \<lparr>s_blocks = [], s_accounts = [], s_txns = []\<rparr>, n_chain = blockchain_create S,
      n_pool = pool_create, n_timer = False\<rparr>"

section \<open>Extending the chain\<close>

text \<open>Gives the transactions of the blocks that are not ancestors of \<open>block\<close> back to the pool.\<close>

definition pool_add_nth :: "sodium \<Rightarrow> addr \<Rightarrow> nat \<Rightarrow> pool_t \<times> store \<Rightarrow> (pool_t \<times> store) res" where
  "pool_add_nth S block i s =
     (case s of (pool, st) \<Rightarrow> bindR (block_get_transaction st block i) (pool_add S st pool))"

fun roll_back :: "nat \<Rightarrow> sodium \<Rightarrow> addr option \<Rightarrow> addr option \<Rightarrow> pool_t \<times> store \<Rightarrow> (pool_t \<times> store) res" where
  "roll_back 0 S prev block s = Inl Out_of_fuel"
| "roll_back (Suc fuel) S prev block s =
     bindR (block_has_ancestor (snd s) block prev) (\<lambda>ancestor.
     if ancestor then Inr s else
     bindR (block_get_transaction_count (snd s) (the prev)) (\<lambda>n.
     bindR (foldR (pool_add_nth S (the prev)) [0..<n] s) (\<lambda>s.
     bindR (block_get_prev (snd s) prev) (\<lambda>prev'. roll_back fuel S prev' block s))))"

definition on_extended :: "sodium \<Rightarrow> node_t \<Rightarrow> addr option \<Rightarrow> addr option \<Rightarrow> node_t res" where
  "on_extended S nd prev block =
     bindR (roll_back (Suc (length (s_blocks (n_store nd)))) S prev block (n_pool nd, n_store nd)) (\<lambda>(pool, st).
       Inr (nd\<lparr>n_store := st, n_pool := pool, n_timer := True\<rparr>))"

definition add_block :: "sodium \<Rightarrow> node_t \<Rightarrow> addr \<Rightarrow> (bool \<times> node_t) res" where
  "add_block S nd block =
     bindR (blockchain_add_block S (n_store nd) (n_chain nd) block) (\<lambda>(added, ev, bc, st).
     let nd = nd\<lparr>n_store := st, n_chain := bc\<rparr> in
     case ev of
       None \<Rightarrow> Inr (added, nd)
     | Some (prev, new) \<Rightarrow> bindR (on_extended S nd prev new) (\<lambda>nd. Inr (added, nd)))"

definition broadcast_block :: "sodium \<Rightarrow> store \<Rightarrow> addr \<Rightarrow> sent res" where
  "broadcast_block S st block =
     bindR (block_write S st block (dynamic_buffer_create 64)) (\<lambda>buf. Inr (Broadcast EVENT_BLOCK buf))"

definition lookup_block :: "node_t \<Rightarrow> byte list \<Rightarrow> addr option res" where
  "lookup_block nd hash = blockchain_get_block (n_chain nd) hash"

definition lookup_transaction :: "node_t \<Rightarrow> byte list \<Rightarrow> addr option res" where
  "lookup_transaction nd hash = blockchain_get_transaction (n_chain nd) hash"

section \<open>Creating blocks\<close>

fun drain_pool :: "nat \<Rightarrow> pool_t \<Rightarrow> addr option list_t \<Rightarrow> (pool_t \<times> addr option list_t) res" where
  "drain_pool 0 pool txns = Inl Out_of_fuel"
| "drain_pool (Suc fuel) pool txns =
     (if pool_size pool \<noteq> 0 then
        bindR (pool_remove pool 0) (\<lambda>(txn, pool).
        bindR (list_add txns (Some txn)) (drain_pool fuel pool))
      else Inr (pool, txns))"

definition create_next :: "sodium \<Rightarrow> keys \<Rightarrow> u64 \<Rightarrow> node_t \<Rightarrow> addr option \<Rightarrow> (addr option \<times> node_t) res" where
  "create_next S keys now nd prev =
     bindR (drain_pool (Suc (pool_size (n_pool nd))) (n_pool nd) (list_create 1)) (\<lambda>(pool, txns).
     bindR (block_create S now (n_store nd) (k_public keys) (k_secret keys) prev txns) (\<lambda>(next, st).
       Inr (next, nd\<lparr>n_store := st, n_pool := pool\<rparr>)))"

text \<open>The block the node creates beside a block it has just added.\<close>

definition try_fork :: "sodium \<Rightarrow> keys \<Rightarrow> u64 \<Rightarrow> node_t \<Rightarrow> addr \<Rightarrow> (sent list \<times> node_t) res" where
  "try_fork S keys now nd block =
     bindR (block_get_prev (n_store nd) (Some block)) (\<lambda>prev.
     if prev = None then Inr ([], nd) else
     bindR (block_get_child_with_public_key S (n_store nd) prev (k_public keys)) (\<lambda>child.
     if child \<noteq> None then Inr ([], nd) else
     bindR (create_next S keys now nd prev) (\<lambda>(next, nd).
     case next of
       None \<Rightarrow> Inr ([], nd)
     | Some b \<Rightarrow>
         bindR (add_block S nd b) (\<lambda>(added, nd).
         if added then bindR (broadcast_block S (n_store nd) b) (\<lambda>m. Inr ([m], nd)) else Inr ([], nd)))))"

section \<open>Blocks from peers\<close>

definition on_block ::
  "sodium \<Rightarrow> keys \<Rightarrow> u64 \<Rightarrow> node_t \<Rightarrow> byte arr \<Rightarrow> tuple_t \<Rightarrow> (sent list \<times> node_t) res" where
  "on_block S keys now nd mem msg =
     bindR (block_create_from_tuple S (lookup_block nd) (n_store nd) mem msg) (\<lambda>(block, st).
     let nd = nd\<lparr>n_store := st\<rparr> in
     case block of
       None \<Rightarrow> Inr ([], nd)
     | Some b \<Rightarrow>
         bindR (add_block S nd b) (\<lambda>(added, nd).
         if added then try_fork S keys now nd b else Inr ([], nd)))"

text \<open>The elements are handled from the last to the first; \<open>clock i\<close> is the time at element \<open>i\<close>.\<close>

definition blocks_step ::
  "sodium \<Rightarrow> keys \<Rightarrow> (nat \<Rightarrow> u64) \<Rightarrow> byte arr \<Rightarrow> tuple_t \<Rightarrow> nat \<Rightarrow> sent list \<times> node_t \<Rightarrow> (sent list \<times> node_t) res" where
  "blocks_step S keys clock mem msg i s =
     bindR (tuple_get_tuple mem msg i) (\<lambda>block_tuple.
     bindR (on_block S keys (clock i) (snd s) mem block_tuple) (\<lambda>(out, nd). Inr (fst s @ out, nd)))"

definition on_blocks_response ::
  "sodium \<Rightarrow> keys \<Rightarrow> (nat \<Rightarrow> u64) \<Rightarrow> node_t \<Rightarrow> byte arr \<Rightarrow> tuple_t \<Rightarrow> (sent list \<times> node_t) res" where
  "on_blocks_response S keys clock nd mem msg =
     foldR (blocks_step S keys clock mem msg) (rev [0..<tuple_size msg]) ([], nd)"

fun write_branch ::
  "nat \<Rightarrow> sodium \<Rightarrow> store \<Rightarrow> addr option \<Rightarrow> addr option \<Rightarrow> dynamic_buffer_t \<Rightarrow> dynamic_buffer_t res" where
  "write_branch 0 S st block iter buf = Inl Out_of_fuel"
| "write_branch (Suc fuel) S st block iter buf =
     (if iter \<noteq> block \<and> iter \<noteq> None then
        bindR (block_write S st (the iter) buf) (\<lambda>buf.
        bindR (block_get_prev st iter) (\<lambda>iter'. write_branch fuel S st block iter' buf))
      else Inr buf)"

definition on_blocks_request :: "sodium \<Rightarrow> node_t \<Rightarrow> byte arr \<Rightarrow> tuple_t \<Rightarrow> sent res" where
  "on_blocks_request S nd mem msg =
     bindR (binary_prefix mem msg 0 (generichash_BYTES S)) (\<lambda>hash.
     bindR (lookup_block nd hash) (\<lambda>block.
     bindR (tuple_write_start (dynamic_buffer_create 64)) (\<lambda>buf.
     bindR (write_branch (Suc (length (s_blocks (n_store nd)))) S (n_store nd) block
              (blockchain_get_principal (n_chain nd)) buf) (\<lambda>buf.
     bindR (tuple_write_end buf) (\<lambda>buf. Inr (Reply EVENT_BLOCKS_RESPONSE buf))))))"

section \<open>Transactions\<close>

definition new_txn :: "store \<Rightarrow> transaction_t \<Rightarrow> addr \<times> store" where
  "new_txn st txn = (length (s_txns st), st\<lparr>s_txns := s_txns st @ [Some txn]\<rparr>)"

definition pool_take :: "sodium \<Rightarrow> node_t \<Rightarrow> transaction_t \<Rightarrow> node_t res" where
  "pool_take S nd txn =
     (case new_txn (n_store nd) txn of (p, st) \<Rightarrow>
        bindR (pool_add S st (n_pool nd) (Some p)) (\<lambda>(pool, st). Inr (nd\<lparr>n_store := st, n_pool := pool\<rparr>)))"

definition on_transaction :: "sodium \<Rightarrow> node_t \<Rightarrow> byte arr \<Rightarrow> tuple_t \<Rightarrow> node_t res" where
  "on_transaction S nd mem msg =
     bindR (transaction_create_from_tuple S mem msg) (\<lambda>txn.
       case txn of None \<Rightarrow> Inr nd | Some t \<Rightarrow> pool_take S nd t)"

definition on_pool_response :: "sodium \<Rightarrow> node_t \<Rightarrow> byte arr \<Rightarrow> tuple_t \<Rightarrow> node_t res" where
  "on_pool_response S nd mem msg =
     foldR (\<lambda>i nd. bindR (tuple_get_tuple mem msg i) (on_transaction S nd mem)) [0..<tuple_size msg] nd"

definition on_pool_request :: "sodium \<Rightarrow> node_t \<Rightarrow> sent res" where
  "on_pool_request S nd =
     bindR (tuple_write_start (dynamic_buffer_create 64)) (\<lambda>buf.
     bindR (foldR (\<lambda>i buf. bindR (pool_get (n_pool nd) i) (\<lambda>p. bindR (heap_load (s_txns (n_store nd)) p) (\<lambda>txn.
              transaction_write S txn buf))) [0..<pool_size (n_pool nd)] buf) (\<lambda>buf.
     bindR (tuple_write_end buf) (\<lambda>buf. Inr (Reply EVENT_POOL_RESPONSE buf))))"

definition send_value ::
  "sodium \<Rightarrow> keys \<Rightarrow> node_t \<Rightarrow> byte list \<Rightarrow> u64 \<Rightarrow> node_t res" where
  "send_value S keys nd recipient value =
     bindR (transaction_create S (k_public keys) (k_secret keys) recipient value 0) (pool_take S nd)"

definition handle_value_command :: "keys \<Rightarrow> node_t \<Rightarrow> u64 res" where
  "handle_value_command keys nd =
     bindR (block_get_account (n_store nd) (blockchain_get_principal (n_chain nd)) (k_public keys)) (\<lambda>account.
       case account of None \<Rightarrow> Inr 0 | Some a \<Rightarrow> account_get_value (n_store nd) (Some a))"

section \<open>Timer, start, synchronisation\<close>

definition on_timer :: "sodium \<Rightarrow> keys \<Rightarrow> u64 \<Rightarrow> node_t \<Rightarrow> (sent list \<times> node_t) res" where
  "on_timer S keys now nd =
     (let nd = nd\<lparr>n_timer := False\<rparr>; block = blockchain_get_principal (n_chain nd) in
     if block = None then Inr ([], nd) else
     bindR (block_get_child_with_public_key S (n_store nd) block (k_public keys)) (\<lambda>child.
     if child \<noteq> None then Inr ([], nd) else
     bindR (create_next S keys now nd block) (\<lambda>(next, nd).
     case next of
       None \<Rightarrow> Inr ([], nd)
     | Some b \<Rightarrow>
         bindR (add_block S nd b) (\<lambda>(_, nd).
         bindR (broadcast_block S (n_store nd) b) (\<lambda>m. Inr ([m], nd))))))"

text \<open>The first block of the node, created when the program starts.\<close>

definition start_chain :: "sodium \<Rightarrow> keys \<Rightarrow> u64 \<Rightarrow> node_t \<Rightarrow> (sent list \<times> node_t) res" where
  "start_chain S keys now nd =
     bindR (block_create S now (n_store nd) (k_public keys) (k_secret keys) None (list_create 1)) (\<lambda>(block, st).
     let nd = nd\<lparr>n_store := st\<rparr> in
     case block of
       None \<Rightarrow> Inr ([], nd)
     | Some b \<Rightarrow>
         bindR (add_block S nd b) (\<lambda>(_, nd).
         bindR (broadcast_block S (n_store nd) b) (\<lambda>m. Inr ([m], nd))))"

definition synchronize_blockchain :: "sodium \<Rightarrow> store \<Rightarrow> addr option \<Rightarrow> sent res" where
  "synchronize_blockchain S st block =
     bindR (block_get_hash S st block) (\<lambda>hash.
     bindR (tuple_write_start (dynamic_buffer_create 64)) (\<lambda>buf.
     bindR (tuple_write_binary (generichash_BYTES S) hash buf) (\<lambda>buf.
     bindR (tuple_write_end buf) (\<lambda>buf. Inr (Reply EVENT_BLOCKS_REQUEST buf)))))"

definition empty_message :: "u16 \<Rightarrow> sent res" where
  "empty_message event =
     bindR (tuple_write_start (dynamic_buffer_create 32)) (\<lambda>buf.
     bindR (tuple_write_end buf) (\<lambda>buf. Inr (Reply event buf)))"

definition synchronize_peers :: "sent res" where
  "synchronize_peers = empty_message EVENT_PEERS_REQUEST"

definition synchronize_pool :: "sent res" where
  "synchronize_pool = empty_message EVENT_POOL_REQUEST"

end
