(* ===== verification/NodeSafety.thy ===== *)
theory NodeSafety
  imports Node
begin

text \<open>
  What the handlers of the node keep: the store stays good, the tree and the fork choice stay right,
  the pool stays a set of valid transactions; and what they do.
\<close>

section \<open>Rolling back\<close>

definition block_ptrs :: "store \<Rightarrow> addr \<Rightarrow> addr list" where
  "block_ptrs st b = map the (list_elems (transactions (blk st b)))"

text \<open>The blocks that the chain of \<open>prev\<close> has above the first one it shares with the chain of \<open>block\<close>.\<close>

definition dropped :: "store \<Rightarrow> addr option \<Rightarrow> addr option \<Rightarrow> addr list" where
  "dropped st block prev = takeWhile (\<lambda>b. b \<notin> set (chain st block)) (chain st prev)"

definition dropped_ptrs :: "store \<Rightarrow> addr option \<Rightarrow> addr option \<Rightarrow> addr list" where
  "dropped_ptrs st block prev = concat (map (block_ptrs st) (dropped st block prev))"

definition hashes_at :: "store \<Rightarrow> addr list \<Rightarrow> byte list list" where
  "hashes_at st ps = map (\<lambda>p. thash (obj (s_txns st) p)) ps"

lemma hashes_at_append [simp]: "hashes_at st (ps @ qs) = hashes_at st ps @ hashes_at st qs"
  by (simp add: hashes_at_def)

lemma pool_hashes: "map thash (pool_txns st pool) = hashes_at st (list_elems pool)"
  by (simp add: pool_txns_def hashes_at_def)

lemma block_has_ancestor_chain:
  assumes "blocks_ok st (length (s_blocks st))" "known st (length (s_blocks st)) bo" "bo \<noteq> None"
  shows "block_has_ancestor st bo anc = Inr (anc = None \<or> anc \<in> Some ` set (chain st bo))"
proof -
  have "block_has_ancestor_loop fuel st bo anc =
      Inr (bo = anc \<or> bo \<noteq> None \<and> (anc = None \<or> anc \<in> Some ` set (chain st bo)))"
    if "length (chain st bo) < fuel" for fuel
    using assms(1,2) that
  proof (induction arbitrary: fuel rule: chain_induct)
    case root
    then show ?case by (cases fuel) auto
  next
    case (step b)
    then obtain f where f: "fuel = Suc f" by (cases fuel) auto
    have ch: "chain st (Some b) = b # chain st (prev_block (blk st b))" by (rule chain_Some [OF step(5)])
    have "length (chain st (prev_block (blk st b))) < f" using step.prems f ch by simp
    moreover have "a \<in> set (chain st (Some a))" if "prev_block (blk st b) = Some a" for a
      using step(6) that chain_ok [OF assms(1), of a] by simp
    ultimately show ?case
      using step(2) step(7) [of f] by (cases anc; cases "prev_block (blk st b)") (auto simp: f ch block_get_prev_def)
  qed
  moreover have "a \<in> set (chain st (Some a))" if "bo = Some a" for a
    using assms(2) that chain_ok [OF assms(1), of a] by simp
  ultimately show ?thesis
    using chain_length(1) [OF assms(1,2)] assms(3) by (cases bo; cases anc) (auto simp: block_has_ancestor_def simp del: block_has_ancestor_loop.simps)
qed

lemma foldR_nil [simp]: "foldR f [] = Inr"
  by (rule ext) simp

lemma pool_add_list:
  assumes S: "sodium_ok S kp" and ok: "pool_ok S st pool"
    and ps: "\<forall>p \<in> set ps. alive (s_txns st) p \<and> txn_ok S (obj (s_txns st) p)"
    and d: "distinct (hashes_at st (list_elems pool @ ps))"
  shows "\<exists>pool'. foldR (\<lambda>p s. pool_add S (snd s) (fst s) (Some p)) ps (pool, st) = Inr (pool', st) \<and>
    pool_ok S st pool' \<and> list_elems pool' = list_elems pool @ ps"
  using ok ps d
proof (induction ps arbitrary: pool)
  case (Cons p ps)
  have "thash (obj (s_txns st) p) \<notin> thash ` set (pool_txns st pool)"
    using Cons.prems(3) by (auto simp: hashes_at_def pool_txns_def)
  then obtain pool1 where p1: "pool_add S st pool (Some p) = Inr (pool1, st)" "pool_ok S st pool1"
      "list_elems pool1 = list_elems pool @ [p]"
    using pool_add_result [OF S Cons.prems(1), of p] Cons.prems(2) by auto
  have "distinct (hashes_at st (list_elems pool1 @ ps))" using Cons.prems(3) by (simp add: p1(3))
  then obtain pool' where "foldR (\<lambda>p s. pool_add S (snd s) (fst s) (Some p)) ps (pool1, st) = Inr (pool', st)"
      "pool_ok S st pool'" "list_elems pool' = list_elems pool1 @ ps"
    using Cons.IH [OF p1(2)] Cons.prems(2) by auto
  then show ?case using p1 by simp
qed simp

lemma pool_add_block:
  assumes S: "sodium_ok S kp" and st: "good_store S st" "alive (s_blocks st) b" and ok: "pool_ok S st pool"
    and d: "distinct (hashes_at st (list_elems pool @ block_ptrs st b))"
  shows "\<exists>n pool'. block_get_transaction_count st b = Inr n \<and>
    foldR (pool_add_nth S b) [0..<n] (pool, st) = Inr (pool', st) \<and> pool_ok S st pool' \<and>
    list_elems pool' = list_elems pool @ block_ptrs st b"
proof -
  let ?l = "transactions (blk st b)"
  have B: "body_ok st b (blk st b)" "authentic S st (blk st b)" using good_storeD [OF st] by simp_all
  have rd: "list_rd ?l" using B(1) by (simp add: body_ok_def)
  have ptrs: "\<forall>p \<in> set (list_elems ?l). \<exists>q. p = Some q \<and> alive (s_txns st) q \<and> txn_ok S (obj (s_txns st) q)"
    using B(2) unfolding authentic_def txns_ok_def by blast
  have fold: "foldR (pool_add_nth S b) is (pool, st) =
      foldR (\<lambda>p s. pool_add S (snd s) (fst s) (Some p)) (map (\<lambda>i. block_ptrs st b ! i) is) (pool, st)"
    if "set is \<subseteq> {..<length (list_elems ?l)}" "pool_ok S st pool"
       "distinct (hashes_at st (list_elems pool @ map (\<lambda>i. block_ptrs st b ! i) is))" for "is" pool
    using that
  proof (induction "is" arbitrary: pool)
    case (Cons i "is")
    have i: "i < length (list_elems ?l)" using Cons.prems(1) by simp
    then obtain q where q: "list_elems ?l ! i = Some q" "alive (s_txns st) q" "txn_ok S (obj (s_txns st) q)"
      using ptrs nth_mem by blast
    have qi: "block_ptrs st b ! i = q" using i by (simp add: block_ptrs_def q(1))
    have step: "pool_add_nth S b i (pool, st) = pool_add S st pool (Some q)"
      using i st(2) q(1) by (simp add: pool_add_nth_def block_get_transaction_def list_get_rd [OF rd])
    have "\<forall>p \<in> set [q]. alive (s_txns st) p \<and> txn_ok S (obj (s_txns st) p)" using q by simp
    moreover have "distinct (hashes_at st (list_elems pool @ [q]))"
      using Cons.prems(3) by (simp add: qi hashes_at_def)
    ultimately obtain pool1 where p1: "pool_add S st pool (Some q) = Inr (pool1, st)" "pool_ok S st pool1"
        "list_elems pool1 = list_elems pool @ [q]"
      using pool_add_list [OF S Cons.prems(2), of "[q]"] by auto
    have "distinct (hashes_at st (list_elems pool1 @ map (\<lambda>i. block_ptrs st b ! i) is))"
      using Cons.prems(3) by (simp add: qi p1(3) hashes_at_def)
    then show ?case using Cons.IH [OF _ p1(2)] Cons.prems(1) by (simp add: step p1(1) qi)
  qed simp
  let ?n = "length (list_elems ?l)"
  have whole: "map (\<lambda>i. block_ptrs st b ! i) [0..<?n] = block_ptrs st b"
    by (rule nth_equalityI) (simp_all add: block_ptrs_def)
  have ps: "\<forall>p \<in> set (block_ptrs st b). alive (s_txns st) p \<and> txn_ok S (obj (s_txns st) p)"
    using ptrs by (fastforce simp: block_ptrs_def)
  have "set [0..<?n] \<subseteq> {..<?n}" by auto
  then have "foldR (pool_add_nth S b) [0..<?n] (pool, st) =
      foldR (\<lambda>p s. pool_add S (snd s) (fst s) (Some p)) (block_ptrs st b) (pool, st)"
    using fold [OF _ ok, of "[0..<?n]"] d unfolding whole by blast
  moreover have "block_get_transaction_count st b = Inr ?n"
    using st(2) list_size_rd [OF rd] by (simp add: block_get_transaction_count_def)
  moreover note pool_add_list [OF S ok ps d]
  ultimately show ?thesis by (metis (no_types, lifting))
qed

lemma roll_back_result:
  assumes S: "sodium_ok S kp" and st: "good_store S st"
    and bo: "known st (length (s_blocks st)) bo" "bo \<noteq> None"
    and prev: "known st (length (s_blocks st)) prev" "length (chain st prev) < fuel"
    and ok: "pool_ok S st pool" and d: "distinct (hashes_at st (list_elems pool @ dropped_ptrs st bo prev))"
  shows "\<exists>pool'. roll_back fuel S prev bo (pool, st) = Inr (pool', st) \<and> pool_ok S st pool' \<and>
    list_elems pool' = list_elems pool @ dropped_ptrs st bo prev"
proof -
  have bs: "blocks_ok st (length (s_blocks st))" using st by (simp add: good_store_def store_ok_def)
  note anc = block_has_ancestor_chain [OF bs bo]
  from bs prev ok d show ?thesis
  proof (induction arbitrary: fuel pool rule: chain_induct)
    case root
    then obtain f where "fuel = Suc f" by (cases fuel) auto
    then show ?case using anc root by (simp add: dropped_ptrs_def dropped_def)
  next
    case (step b)
    then obtain f where f: "fuel = Suc f" by (cases fuel) auto
    have ch: "chain st (Some b) = b # chain st (prev_block (blk st b))" by (rule chain_Some [OF step(5)])
    show ?case
    proof (cases "b \<in> set (chain st bo)")
      case True
      then show ?thesis using anc f ch step.prems by (simp add: dropped_ptrs_def dropped_def)
    next
      case False
      have dp: "dropped_ptrs st bo (Some b) = block_ptrs st b @ dropped_ptrs st bo (prev_block (blk st b))"
        using False by (simp add: dropped_ptrs_def dropped_def ch)
      have "distinct (hashes_at st (list_elems pool @ block_ptrs st b))" using step.prems(3) by (auto simp: dp)
      then obtain n pool1 where p1: "block_get_transaction_count st b = Inr n"
          "foldR (pool_add_nth S b) [0..<n] (pool, st) = Inr (pool1, st)" "pool_ok S st pool1"
          "list_elems pool1 = list_elems pool @ block_ptrs st b"
        using pool_add_block [OF S st step(2) step.prems(2)] by blast
      have "length (chain st (prev_block (blk st b))) < f" using step.prems(1) f ch by simp
      moreover have "distinct (hashes_at st (list_elems pool1 @ dropped_ptrs st bo (prev_block (blk st b))))"
        using step.prems(3) by (simp add: p1(4) dp)
      ultimately obtain pool' where "roll_back f S (prev_block (blk st b)) bo (pool1, st) = Inr (pool', st)"
          "pool_ok S st pool'" "list_elems pool' = list_elems pool1 @ dropped_ptrs st bo (prev_block (blk st b))"
        using step(7) [OF _ p1(3)] by blast
      then show ?thesis
        using anc False step(2) p1 by (auto simp: f dp block_get_prev_def)
    qed
  qed
qed

section \<open>Adding a block to the node\<close>

definition node_ok :: "sodium \<Rightarrow> node_t \<Rightarrow> bool" where
  "node_ok S nd \<longleftrightarrow> good_store S (n_store nd) \<and> chain_state_ok (n_store nd) (n_chain nd) \<and>
     pool_ok S (n_store nd) (n_pool nd)"

lemma node_okD:
  assumes "node_ok S nd"
  shows "good_store S (n_store nd)" "chain_state_ok (n_store nd) (n_chain nd)" "pool_ok S (n_store nd) (n_pool nd)"
    "blocks_ok (n_store nd) (length (s_blocks (n_store nd)))" "tree_ok (n_store nd) (n_chain nd)"
    "\<forall>t. principal (n_chain nd) = Some t \<longrightarrow> t \<in> registered (n_chain nd)"
    "known (n_store nd) (length (s_blocks (n_store nd))) (principal (n_chain nd))"
proof -
  show a: "good_store S (n_store nd)" "chain_state_ok (n_store nd) (n_chain nd)" "pool_ok S (n_store nd) (n_pool nd)"
    using assms by (simp_all add: node_ok_def)
  show "blocks_ok (n_store nd) (length (s_blocks (n_store nd)))" using a(1) by (simp add: good_store_def store_ok_def)
  show t: "tree_ok (n_store nd) (n_chain nd)" "\<forall>t. principal (n_chain nd) = Some t \<longrightarrow> t \<in> registered (n_chain nd)"
    using a(2) by (simp_all add: chain_state_ok_def)
  show "known (n_store nd) (length (s_blocks (n_store nd))) (principal (n_chain nd))" by (rule registered_known [OF t])
qed

lemma node_ok_create: "sodium_ok S kp \<Longrightarrow> node_ok S (node_create S)"
  using chain_state_ok_create [of S kp] pool_ok_create [of S]
  by (simp add: node_ok_def node_create_def good_store_def store_ok_def blocks_ok_def blocks_authentic_def)

lemma node_ok_timer [simp]: "node_ok S (nd\<lparr>n_timer := t\<rparr>) \<longleftrightarrow> node_ok S nd"
  by (simp add: node_ok_def)

lemma pool_ok_extends:
  assumes "pool_ok S st pool" "extends n st st'"
  shows "pool_ok S st' pool" "pool_txns st' pool = pool_txns st pool"
  using pool_ok_frame [OF assms(1), of st'] assms(1) extendsD(5) [OF assms(2)] by (auto simp: pool_ok_def)

text \<open>The transactions that a new block \<open>b\<close> gives back to the pool, and when that is safe.\<close>

definition returned :: "node_t \<Rightarrow> addr \<Rightarrow> addr list" where
  "returned nd b =
     (if better (n_store nd) (principal (n_chain nd)) b
      then dropped_ptrs (n_store nd) (Some b) (principal (n_chain nd)) else [])"

definition clean :: "node_t \<Rightarrow> addr \<Rightarrow> bool" where
  "clean nd b \<longleftrightarrow> distinct (hashes_at (n_store nd) (list_elems (n_pool nd) @ returned nd b))"

lemma block_ptrs_extends:
  "extends n st st' \<Longrightarrow> b < n \<Longrightarrow> alive (s_blocks st) b \<Longrightarrow> block_ptrs st' b = block_ptrs st b"
  using extends_fields(3) [of n st st' b] by (simp add: block_ptrs_def)

lemma dropped_ptrs_extends:
  assumes ok: "good_store S st" and e: "extends (length (s_blocks st)) st st'"
    and k: "known st (length (s_blocks st)) new" "known st (length (s_blocks st)) old"
  shows "dropped_ptrs st' new old = dropped_ptrs st new old"
proof -
  have bo: "blocks_ok st (length (s_blocks st))" using ok by (simp add: good_store_def store_ok_def)
  have "dropped st' new old = dropped st new old"
    using chain_extends(1) [OF bo k(1) e] chain_extends(1) [OF bo k(2) e] by (simp add: dropped_def)
  moreover have "block_ptrs st' b = block_ptrs st b" if "b \<in> set (dropped st new old)" for b
    using that chain_length(2) [OF bo k(2)] block_ptrs_extends [OF e]
    by (auto simp: dropped_def dest: set_takeWhileD)
  ultimately show ?thesis by (simp add: dropped_ptrs_def cong: map_cong)
qed

lemma add_block_new:
  assumes S: "sodium_ok S kp" and nd: "node_ok S nd" and b: "alive (s_blocks (n_store nd)) b"
    and run: "blockchain_add_block S (n_store nd) (n_chain nd) b = Inr (True, ev, bc', st')"
    and ad: "added S (n_store nd) (n_chain nd) b (ev, bc', st')" and cl: "clean nd b"
  shows "\<exists>nd'. add_block S nd b = Inr (True, nd') \<and> node_ok S nd' \<and> n_store nd' = st' \<and> n_chain nd' = bc' \<and>
    list_elems (n_pool nd') = list_elems (n_pool nd) @ returned nd b \<and>
    n_timer nd' = (n_timer nd \<or> better (n_store nd) (principal (n_chain nd)) b)"
proof -
  let ?st = "n_store nd" and ?bc = "n_chain nd"
  note N = node_okD [OF nd]
  have A: "good_store S st'" "chain_state_ok st' bc'" "extends (length (s_blocks ?st)) ?st st'"
      "length (s_blocks st') = length (s_blocks ?st)" "s_txns st' = s_txns ?st"
      "if better ?st (principal ?bc) b then principal bc' = Some b \<and> ev = Some (principal ?bc, Some b)
       else principal bc' = principal ?bc \<and> ev = None"
    using ad by (simp_all add: added_def)
  note P = pool_ok_extends [OF N(3) A(3)]
  show ?thesis
  proof (cases "better ?st (principal ?bc) b")
    case False
    then show ?thesis
      using A P run by (intro exI [of _ "nd\<lparr>n_store := st', n_chain := bc'\<rparr>"])
        (simp add: add_block_def node_ok_def returned_def)
  next
    case True
    let ?n = "length (s_blocks ?st)"
    have kb: "known ?st ?n (Some b)" using b alive_less by simp
    have k': "known st' (length (s_blocks st')) (Some b)" "known st' (length (s_blocks st')) (principal ?bc)"
      using chain_extends(5) [OF N(4) kb A(3)] chain_extends(5) [OF N(4,7) A(3)] A(4) by simp_all
    have dp: "dropped_ptrs st' (Some b) (principal ?bc) = returned nd b"
      using dropped_ptrs_extends [OF N(1) A(3) kb N(7)] True by (simp add: returned_def)
    have bs': "blocks_ok st' (length (s_blocks st'))" using A(1) by (simp add: good_store_def store_ok_def)
    have l: "length (chain st' (principal ?bc)) < Suc (length (s_blocks st'))"
      using chain_length(1) [OF bs' k'(2)] by simp
    have d: "distinct (hashes_at st' (list_elems (n_pool nd) @ dropped_ptrs st' (Some b) (principal ?bc)))"
      using cl by (simp add: dp clean_def hashes_at_def A(5))
    obtain pool' where
        "roll_back (Suc (length (s_blocks st'))) S (principal ?bc) (Some b) (n_pool nd, st') = Inr (pool', st')"
        "pool_ok S st' pool'" "list_elems pool' = list_elems (n_pool nd) @ returned nd b"
      using roll_back_result [OF S A(1) k'(1) _ k'(2) l P(1) d] unfolding dp by blast
    then show ?thesis
      using True A run
      by (intro exI [of _ "nd\<lparr>n_store := st', n_chain := bc', n_pool := pool', n_timer := True\<rparr>"])
        (simp add: add_block_def on_extended_def node_ok_def del: roll_back.simps)
  qed
qed

lemma add_block_owns:
  assumes "owns_blocks (n_chain nd)" "add_block S nd b = Inr (r, nd')"
  shows "owns_blocks (n_chain nd')"
proof -
  obtain added ev bc st where a: "blockchain_add_block S (n_store nd) (n_chain nd) b = Inr (added, ev, bc, st)"
    using assms(2) by (auto simp: add_block_def bindR_eq_Inr)
  have "n_chain nd' = bc"
    using assms(2) a by (auto simp: add_block_def bindR_eq_Inr on_extended_def Let_def simp del: roll_back.simps split: option.splits)
  then show ?thesis using add_block_owns_blocks [OF assms(1) a] by simp
qed

section \<open>Transactions from peers and from the user\<close>

lemma node_ok_frame:
  assumes nd: "node_ok S nd" and same: "s_blocks st' = s_blocks (n_store nd)"
    and e: "extends (length (s_blocks (n_store nd))) (n_store nd) st'" and p: "pool_ok S st' pool"
  shows "node_ok S (nd\<lparr>n_store := st', n_pool := pool\<rparr>)"
proof -
  note N = node_okD [OF nd]
  have "good_store S st'" using good_store_extends [OF N(1) e] same by simp
  moreover have "chain_state_ok st' (n_chain nd)" using chain_state_frame [OF N(1) e _ N(2)] same by simp
  ultimately show ?thesis using p by (simp add: node_ok_def)
qed

lemma extends_txns:
  assumes "blocks_ok st (length (s_blocks st))" "\<And>a. alive (s_txns st) a \<Longrightarrow> alive h a \<and> h ! a = s_txns st ! a"
  shows "extends (length (s_blocks st)) st (st\<lparr>s_txns := h\<rparr>)"
  using blocks_ok_refl [OF assms(1)] assms(2) by (simp add: extends_def)

lemma pool_take_result:
  assumes S: "sodium_ok S kp" and nd: "node_ok S nd" and t: "txn_ok S t"
  shows "\<exists>nd'. pool_take S nd t = Inr nd' \<and> node_ok S nd' \<and> n_chain nd' = n_chain nd \<and> n_timer nd' = n_timer nd \<and>
    s_blocks (n_store nd') = s_blocks (n_store nd) \<and> s_accounts (n_store nd') = s_accounts (n_store nd) \<and>
    pool_txns (n_store nd') (n_pool nd') = pool_txns (n_store nd) (n_pool nd) @
      (if thash t \<in> thash ` set (pool_txns (n_store nd) (n_pool nd)) then [] else [t])"
proof -
  let ?st = "n_store nd" and ?pool = "n_pool nd" and ?p = "length (s_txns (n_store nd))"
  let ?st1 = "?st\<lparr>s_txns := s_txns ?st @ [Some t]\<rparr>" and ?st2 = "?st\<lparr>s_txns := s_txns ?st @ [None]\<rparr>"
  note N = node_okD [OF nd]
  have e1: "extends (length (s_blocks ?st)) ?st ?st1" and e2: "extends (length (s_blocks ?st)) ?st ?st2"
    by (rule extends_txns [OF N(4)], auto simp: alive_def nth_append)+
  note p1 = pool_ok_extends [OF N(3) e1] and p2 = pool_ok_extends [OF N(3) e2]
  have a: "alive (s_txns ?st1) ?p" "obj (s_txns ?st1) ?p = t" by (simp_all add: alive_def)
  note add = pool_add_result [OF S p1(1) a(1)]
  show ?thesis
  proof (cases "thash t \<in> thash ` set (pool_txns ?st ?pool)")
    case True
    then have "pool_take S nd t = Inr (nd\<lparr>n_store := ?st2, n_pool := ?pool\<rparr>)"
      using add t a p1(2) by (simp add: pool_take_def new_txn_def list_update_append)
    moreover have "node_ok S (nd\<lparr>n_store := ?st2, n_pool := ?pool\<rparr>)"
      by (rule node_ok_frame [OF nd _ e2 p2(1)]) simp
    ultimately show ?thesis using True p2(2) by simp
  next
    case False
    then obtain pool' where r: "pool_add S ?st1 ?pool (Some ?p) = Inr (pool', ?st1)" "pool_ok S ?st1 pool'"
        "list_elems pool' = list_elems ?pool @ [?p]"
      using add t a p1(2) by auto
    have "pool_take S nd t = Inr (nd\<lparr>n_store := ?st1, n_pool := pool'\<rparr>)"
      using r(1) by (simp add: pool_take_def new_txn_def)
    moreover have "node_ok S (nd\<lparr>n_store := ?st1, n_pool := pool'\<rparr>)"
      by (rule node_ok_frame [OF nd _ e1 r(2)]) simp
    moreover have "pool_txns ?st1 pool' = pool_txns ?st ?pool @ [t]"
      using p1(2) a(2) r(3) by (simp add: pool_txns_def)
    ultimately show ?thesis using False by simp
  qed
qed

section \<open>The block the node creates\<close>

lemma find_child_result:
  assumes S: "sodium_ok S kp" and pk: "length pk = 32"
    and l: "\<forall>i \<in> set is. i < length (list_elems l)" "list_ok l"
    and c: "\<forall>c \<in> set (list_elems l). alive (s_blocks st) c \<and> length (public_key (blk st c)) = 32"
  shows "\<exists>r. find_child S st l pk is = Inr r \<and>
    (r = None \<longleftrightarrow> (\<forall>i \<in> set is. public_key (blk st (list_elems l ! i)) \<noteq> pk))"
  using l(1)
proof (induction "is")
  case (Cons i "is")
  have i: "i < length (list_elems l)" using Cons.prems by simp
  then have ci: "alive (s_blocks st) (list_elems l ! i)" "length (public_key (blk st (list_elems l ! i))) = 32"
    using c nth_mem by blast+
  have get: "list_get l i = Inr (list_elems l ! i)" using i l(2) list_okD length_list_elems by (simp add: list_get_elems)
  obtain r where "find_child S st l pk is = Inr r"
      "r = None \<longleftrightarrow> (\<forall>i \<in> set is. public_key (blk st (list_elems l ! i)) \<noteq> pk)"
    using Cons.IH Cons.prems by auto
  then show ?case using ci get pk by (simp add: sodium_sizes [OF S] memcmp_eq_0)
qed simp

lemma own_child_result:
  assumes S: "sodium_ok S kp" and st: "good_store S st" "tree_ok st bc" and p: "p \<in> registered bc"
    and pk: "length pk = 32"
  shows "\<exists>r. block_get_child_with_public_key S st (Some p) pk = Inr r \<and>
    (r = None \<longleftrightarrow> (\<forall>c \<in> registered bc. prev_block (blk st c) = Some p \<longrightarrow> public_key (blk st c) \<noteq> pk))"
proof -
  let ?l = "children (blk st p)"
  have al: "alive (s_blocks st) p" by (rule tree_okD(2) [OF st(2) p])
  have l: "list_ok ?l" using good_storeD(1) [OF st(1) al] by (simp add: body_ok_def)
  have set: "set (list_elems ?l) = {c \<in> registered bc. prev_block (blk st c) = Some p}"
    by (rule tree_okD(5) [OF st(2) p])
  have key: "\<forall>c \<in> set (list_elems ?l). alive (s_blocks st) c \<and> length (public_key (blk st c)) = 32"
  proof
    fix c assume "c \<in> set (list_elems ?l)"
    then have "c \<in> registered bc" unfolding set by blast
    then have c: "alive (s_blocks st) c" by (rule tree_okD(2) [OF st(2)])
    then show "alive (s_blocks st) c \<and> length (public_key (blk st c)) = 32"
      using good_storeD(1) [OF st(1) c] by (simp add: body_ok_def key_ok_def)
  qed
  have n: "list_size ?l = length (list_elems ?l)" by (rule list_size_elems [OF l])
  have i: "\<forall>i \<in> set [0..<list_size ?l]. i < length (list_elems ?l)" by (simp add: n)
  have all: "(\<forall>i \<in> set [0..<list_size ?l]. public_key (blk st (list_elems ?l ! i)) \<noteq> pk) \<longleftrightarrow>
      (\<forall>c \<in> set (list_elems ?l). public_key (blk st c) \<noteq> pk)"
    unfolding all_set_conv_all_nth [of "list_elems ?l"] by (simp add: n Ball_def)
  from find_child_result [OF S pk i l key]
  obtain r where r: "find_child S st ?l pk [0..<list_size ?l] = Inr r"
      "r = None \<longleftrightarrow> (\<forall>c \<in> set (list_elems ?l). public_key (blk st c) \<noteq> pk)"
    unfolding all by blast
  have "block_get_child_with_public_key S st (Some p) pk = Inr r"
    using al r(1) by (simp add: block_get_child_with_public_key_def)
  moreover have "r = None \<longleftrightarrow> (\<forall>c \<in> registered bc. prev_block (blk st c) = Some p \<longrightarrow> public_key (blk st c) \<noteq> pk)"
    unfolding r(2) set by blast
  ultimately show ?thesis by blast
qed

lemma drain_pool_result:
  assumes "pool_ok S st pool" "list_ok txns" "length (list_elems pool) < fuel"
  shows "\<exists>pool' txns'. drain_pool fuel pool txns = Inr (pool', txns') \<and> pool_ok S st pool' \<and>
    list_elems pool' = [] \<and> list_ok txns' \<and> list_elems txns' = list_elems txns @ map Some (list_elems pool)"
  using assms
proof (induction fuel arbitrary: pool txns)
  case (Suc fuel)
  have sz: "pool_size pool = length (list_elems pool)"
    using Suc.prems(1) list_size_elems by (auto simp: pool_size_def pool_ok_def)
  show ?case
  proof (cases "list_elems pool")
    case Nil
    then show ?thesis using Suc.prems sz by simp
  next
    case (Cons a as)
    obtain pool1 where p1: "pool_remove pool 0 = Inr (a, pool1)" "pool_ok S st pool1" "list_elems pool1 = as"
      using pool_remove_first [OF Suc.prems(1) Cons] by blast
    obtain t1 where t1: "list_add txns (Some a) = Inr t1" "list_ok t1" "list_elems t1 = list_elems txns @ [Some a]"
      using clist.addE [OF Suc.prems(2)] by blast
    have "length (list_elems pool1) < fuel" using Suc.prems(3) Cons p1(3) by simp
    from Suc.IH [OF p1(2) t1(2) this] show ?thesis using sz Cons p1 t1 by auto
  qed
qed simp

text \<open>The node \<open>nd1\<close> has just created the block \<open>b\<close> on \<open>prev\<close>, with all transactions of the pool.\<close>

definition next_block :: "sodium \<Rightarrow> keys \<Rightarrow> node_t \<Rightarrow> addr option \<Rightarrow> addr \<Rightarrow> node_t \<Rightarrow> bool" where
  "next_block S keys nd prev b nd1 \<longleftrightarrow>
     b = length (s_blocks (n_store nd)) \<and> good_store S (n_store nd1) \<and>
     extends b (n_store nd) (n_store nd1) \<and> take b (s_blocks (n_store nd1)) = s_blocks (n_store nd) \<and>
     length (s_blocks (n_store nd1)) = Suc b \<and> alive (s_blocks (n_store nd1)) b \<and>
     s_txns (n_store nd1) = s_txns (n_store nd) \<and> list_elems (children (blk (n_store nd1) b)) = [] \<and>
     prev_block (blk (n_store nd1) b) = prev \<and> public_key (blk (n_store nd1) b) = k_public keys \<and>
     list_elems (transactions (blk (n_store nd1) b)) = map Some (list_elems (n_pool nd)) \<and>
     pool_ok S (n_store nd1) (n_pool nd1) \<and> list_elems (n_pool nd1) = [] \<and>
     n_chain nd1 = n_chain nd \<and> n_timer nd1 = n_timer nd"

lemma next_blockD:
  assumes "next_block S keys nd prev b nd1"
  shows "b = length (s_blocks (n_store nd))" "good_store S (n_store nd1)"
    "extends (length (s_blocks (n_store nd))) (n_store nd) (n_store nd1)"
    "take (length (s_blocks (n_store nd))) (s_blocks (n_store nd1)) = s_blocks (n_store nd)"
    "alive (s_blocks (n_store nd1)) b" "list_elems (children (blk (n_store nd1) b)) = []"
    "prev_block (blk (n_store nd1) b) = prev" "public_key (blk (n_store nd1) b) = k_public keys"
    "list_elems (transactions (blk (n_store nd1) b)) = map Some (list_elems (n_pool nd))"
    "s_txns (n_store nd1) = s_txns (n_store nd)" "pool_ok S (n_store nd1) (n_pool nd1)"
    "list_elems (n_pool nd1) = []" "n_chain nd1 = n_chain nd" "n_timer nd1 = n_timer nd"
    "length (s_blocks (n_store nd1)) = Suc b"
  using assms unfolding next_block_def by blast+

lemma create_next_result:
  assumes S: "sodium_ok S keypair" "keypair (k_public keys) (k_secret keys)" and nd: "node_ok S nd"
    and prev: "\<forall>p. prev = Some p \<longrightarrow> p \<in> registered (n_chain nd)"
    and small: "length (s_blocks (n_store nd)) < 2 ^ 31"
  shows "if may_stake (entries (n_store nd) prev) (k_public keys)
    then \<exists>b nd1. create_next S keys now nd prev = Inr (Some b, nd1) \<and> next_block S keys nd prev b nd1 \<and>
      timestamp (blk (n_store nd1) b) = now
    else \<exists>nd1. create_next S keys now nd prev = Inr (None, nd1) \<and> node_ok S nd1 \<and>
      n_store nd1 = n_store nd \<and> n_chain nd1 = n_chain nd \<and> n_timer nd1 = n_timer nd \<and> list_elems (n_pool nd1) = []"
proof -
  let ?st = "n_store nd"
  note N = node_okD [OF nd]
  have sz: "pool_size (n_pool nd) = length (list_elems (n_pool nd))"
    using N(3) list_size_elems by (auto simp: pool_size_def pool_ok_def)
  have "length (list_elems (n_pool nd)) < Suc (pool_size (n_pool nd))" using sz by simp
  from drain_pool_result [OF N(3) list_ok_create [of 1] this]
  obtain pool txns where d: "drain_pool (Suc (pool_size (n_pool nd))) (n_pool nd) (list_create 1) = Inr (pool, txns)"
      "pool_ok S ?st pool" "list_elems pool = []" "list_ok txns" "list_elems txns = map Some (list_elems (n_pool nd))"
    by auto
  have tl: "txn_list_ok S ?st txns"
    using list_ok_rd [OF d(4)] N(3) by (auto simp: txn_list_ok_def d(5) pool_ok_def)
  have kn: "known ?st (length (s_blocks ?st)) prev" by (rule registered_known [OF N(5) prev])
  have len: "length (chain ?st prev) < 2 ^ 31" using chain_length(1) [OF N(4) kn] small by simp
  note B = block_create_result [OF S N(1) kn len tl, of now]
  show ?thesis
  proof (cases "may_stake (entries ?st prev) (k_public keys)")
    case True
    then obtain b st' where b: "block_create S now ?st (k_public keys) (k_secret keys) prev txns = Inr (Some b, st')"
        "b = length (s_blocks ?st)" "good_store S st'" "extends b ?st st'" "alive (s_blocks st') b"
        "length (s_blocks st') = Suc b" "s_txns st' = s_txns ?st" "created S ?st prev (k_public keys) txns st' (blk st' b)"
        "timestamp (blk st' b) = now" "list_elems (children (blk st' b)) = []" "take b (s_blocks st') = s_blocks ?st"
      using B by auto
    have "pool_ok S st' pool" by (rule pool_ok_extends(1) [OF d(2) b(4)])
    then have "next_block S keys nd prev b (nd\<lparr>n_store := st', n_pool := pool\<rparr>)"
      using b d by (simp add: next_block_def created_def)
    then show ?thesis using True b(1,9) d(1) by (auto simp: create_next_def simp del: drain_pool.simps)
  next
    case False
    then show ?thesis
      using B d nd by (auto simp: create_next_def node_ok_def simp del: drain_pool.simps)
  qed
qed

lemma add_next_result:
  assumes S: "sodium_ok S keypair" and nd: "node_ok S nd" and b: "next_block S keys nd prev b nd1"
    and prev: "\<forall>p. prev = Some p \<longrightarrow> p \<in> registered (n_chain nd)"
    and fresh: "\<forall>c \<in> registered (n_chain nd). bhash (blk (n_store nd) c) \<noteq> bhash (blk (n_store nd1) b)"
    and cl: "clean nd1 b"
  shows "\<exists>nd2. add_block S nd1 b = Inr (True, nd2) \<and> node_ok S nd2 \<and> node_ok S nd1 \<and>
    (\<exists>ev. added S (n_store nd1) (n_chain nd) b (ev, n_chain nd2, n_store nd2)) \<and>
    list_elems (n_pool nd2) = returned nd1 b \<and>
    n_timer nd2 = (n_timer nd \<or> better (n_store nd1) (principal (n_chain nd)) b)"
proof -
  note N = node_okD [OF nd]
  note B = next_blockD [OF b]
  have p: "\<forall>p. prev_block (blk (n_store nd1) b) = Some p \<longrightarrow> p \<in> registered (n_chain nd)" using prev by (simp add: B(7))
  from fresh_block_added [OF S N(1,2) B(2,3,4,1,5,6) p fresh]
  obtain ev bc' st2 where r: "chain_state_ok (n_store nd1) (n_chain nd)"
      "blockchain_add_block S (n_store nd1) (n_chain nd1) b = Inr (True, ev, bc', st2)"
      "added S (n_store nd1) (n_chain nd1) b (ev, bc', st2)"
    using B(13) by auto
  have ok1: "node_ok S nd1" using r(1) B(2,11,13) by (simp add: node_ok_def)
  from add_block_new [OF S ok1 B(5) r(2,3) cl] show ?thesis using r(3) ok1 B(12-14) by auto
qed

lemma returned_extension:
  assumes "good_store S (n_store nd)" "alive (s_blocks (n_store nd)) b"
    "prev_block (blk (n_store nd) b) = principal (n_chain nd)"
  shows "returned nd b = []" "better (n_store nd) (principal (n_chain nd)) b"
proof -
  let ?st = "n_store nd"
  have bo: "blocks_ok ?st (length (s_blocks ?st))" using assms(1) by (simp add: good_store_def store_ok_def)
  have ch: "chain ?st (Some b) = b # chain ?st (principal (n_chain nd))"
    using chain_ok [OF bo alive_less [OF assms(2)] assms(2)] assms(3) by simp
  have "takeWhile (\<lambda>c. c \<notin> set (chain ?st (Some b))) (chain ?st (principal (n_chain nd))) = []"
    unfolding takeWhile_eq_Nil_iff ch by (metis hd_in_set set_subset_Cons subsetD)
  then have "dropped ?st (Some b) (principal (n_chain nd)) = []" by (simp add: dropped_def)
  then show "returned nd b = []" by (simp add: returned_def dropped_ptrs_def)
  show "better ?st (principal (n_chain nd)) b" using assms(3) by (simp add: better_def)
qed

lemma length_enc_txns: "\<forall>t \<in> set ts. txn_sized t \<Longrightarrow> length (concat (map enc (txns_form ts))) = 161 * length ts"
  by (induction ts) (simp_all add: length_enc_form del: enc.simps)

lemma block_message_fits:
  assumes S: "sodium_ok S kp" and st: "good_store S st" "alive (s_blocks st) b"
  shows "length (enc (T_tuple (block_form S st (blk st b)))) = 290 + 161 * length (block_txns st (blk st b))"
proof -
  let ?x = "blk st b"
  note G = good_storeD [OF st]
  have au: "block_sized ?x" "txns_ok S st ?x" using G(3) by (auto simp: authentic_def)
  have kn: "known st (length (s_blocks st)) (prev_block ?x)"
    using prev_known(1) [OF G(1)] alive_less [OF st(2)] by simp
  note hl = good_known_lengths(1) [OF S st(1) kn]
  have sz: "\<forall>t \<in> set (block_txns st ?x). txn_sized t"
    using au(2) by (fastforce simp: txns_ok_def block_txns_def txn_ok_def)
  show ?thesis
    using length_header_form(1) [OF au(1) hl] length_enc_txns [OF sz] au(1)
    by (simp add: block_form_def block_sized_def)
qed

lemma broadcast_block_result:
  assumes S: "sodium_ok S kp" and st: "good_store S st" "alive (s_blocks st) b"
    and n: "length (list_elems (transactions (blk st b))) < 2 ^ 20"
  shows "\<exists>buf. broadcast_block S st b = Inr (Broadcast EVENT_BLOCK buf) \<and> dbuf_ok buf \<and>
    dbuf_bytes buf = enc (T_tuple (block_form S st (blk st b)))"
proof -
  have "length (enc (T_tuple (block_form S st (blk st b)))) < 2 ^ 31"
    using block_message_fits [OF S st] n by (simp add: block_txns_def)
  then obtain buf where "block_write S st b (dynamic_buffer_create 64) = Inr buf" "dbuf_ok buf"
      "dbuf_bytes buf = enc (T_tuple (block_form S st (blk st b)))"
    using dbuf.appends_run [OF writes_block [OF S st] dbuf_ok_create [of 64]] by auto
  then show ?thesis by (simp add: broadcast_block_def)
qed

text \<open>A node for the witnesses: a first block of its own, and a pending transaction.\<close>

definition sample_keys :: keys where
  "sample_keys = \<lparr>k_public = replicate 32 1, k_secret = replicate 32 1\<rparr>"

lemma sample_keypair: "toy_keypair (k_public sample_keys) (k_secret sample_keys)"
  by (simp add: sample_keys_def toy_keypair_def)

lemma sample_node_owner:
  obtains nd where "owns_blocks (n_chain nd)" "node_ok toy nd" "principal (n_chain nd) = Some 0" "registered (n_chain nd) = {0}"
    "s_blocks (n_store nd) = [Some (blk (n_store nd) 0)]" "prev_block (blk (n_store nd) 0) = None"
    "timestamp (blk (n_store nd) 0) = 7" "entries (n_store nd) (Some 0) = [\<lparr>creator = replicate 32 1, transfers = []\<rparr>]"
    "pool_txns (n_store nd) (n_pool nd) = [pending_txn]"
proof -
  obtain st where st: "good_store toy st" "alive (s_blocks st) 0" "prev_block (blk st 0) = None"
    "transactions (blk st 0) = list_create 1" "list_elems (children (blk st 0)) = []" "s_blocks st = [Some (blk st 0)]"
    "timestamp (blk st 0) = 7" "public_key (blk st 0) = replicate 32 1"
    by (rule sample_created)
  obtain ev bc st' where A: "blockchain_add_block toy st (blockchain_create toy) 0 = Inr (True, ev, bc, st')"
    "good_store toy st'" "chain_state_ok st' bc" "registered bc = {0}" "principal bc = Some 0"
    "alive (s_blocks st') 0" "node_view st' 0 = node_view st 0" "chain st' (Some 0) = [0]"
    "s_blocks st = [Some (blk st 0)] \<longrightarrow> s_blocks st' = [Some (blk st' 0)]" "extends (length (s_blocks st)) st st'"
    by (rule add_first [OF toy_ok st(1-3,5)])
  have F: "prev_block (blk st' 0) = None" "public_key (blk st' 0) = replicate 32 1" "transactions (blk st' 0) = list_create 1"
      "timestamp (blk st' 0) = 7"
    using extends_fields [OF A(10) alive_less [OF st(2)] st(2)] extendsD(3) [OF A(10) alive_less [OF st(2)] st(2)] st
    by (simp_all, metis block_t.select_convs(1) block_t.update_convs(13) block_t.surjective)
  let ?nd = "\<lparr>n_store = st', n_chain = bc, n_pool = pool_create, n_timer = True\<rparr>"
  have nd: "node_ok toy ?nd" using A(2,3) pool_ok_create by (simp add: node_ok_def)
  have t: "txn_ok toy pending_txn" by (rule pending_txn_ok)
  have e: "pool_txns st' pool_create = []" by (simp add: pool_txns_def pool_create_def)
  from pool_take_result [OF toy_ok nd t] e obtain nd' where nd': "node_ok toy nd'" "n_chain nd' = bc"
      "s_blocks (n_store nd') = s_blocks st'" "pool_txns (n_store nd') (n_pool nd') = [pending_txn]"
    by auto
  have "chain (n_store nd') (Some 0) = [0]" using F(1) nd'(3) by (simp add: chain_Some)
  then have "entries (n_store nd') (Some 0) = [\<lparr>creator = replicate 32 1, transfers = []\<rparr>]"
    using F(2,3) nd'(3) by (simp add: entries_def block_entry_def)
  moreover have "owns_blocks bc" by (rule add_block_owns_blocks [OF owns_blocks_create A(1)])
  ultimately show ?thesis using that [of nd'] nd' A(4,5,9) st(6) F by simp
qed

lemma sample_node:
  obtains nd where "node_ok toy nd" "principal (n_chain nd) = Some 0" "registered (n_chain nd) = {0}"
    "s_blocks (n_store nd) = [Some (blk (n_store nd) 0)]" "prev_block (blk (n_store nd) 0) = None"
    "timestamp (blk (n_store nd) 0) = 7" "entries (n_store nd) (Some 0) = [\<lparr>creator = replicate 32 1, transfers = []\<rparr>]"
    "pool_txns (n_store nd) (n_pool nd) = [pending_txn]"
  by (rule sample_node_owner, erule that, assumption+)

lemma sample_may_stake: "may_stake [\<lparr>creator = k, transfers = []\<rparr>] k"
  by (simp add: may_stake_def apply_entry_def credit_def touched_def delegates_def)

text \<open>With the toy hash, blocks with different timestamps have different hashes.\<close>

lemma toy_hash_timestamp:
  "take 8 (drop 10 (toy_hash (enc (T_tuple (header_form S st x))))) = u64_bytes (htonll (timestamp x))"
  by (simp add: toy_hash_def pad_def header_form_def)

lemma toy_fresh:
  assumes "good_store toy st" "alive (s_blocks st) b" "good_store toy st'" "alive (s_blocks st') c"
    and "timestamp (blk st b) \<noteq> timestamp (blk st' c)"
  shows "bhash (blk st b) \<noteq> bhash (blk st' c)"
proof
  assume h: "bhash (blk st b) = bhash (blk st' c)"
  have "bhash (blk st b) = toy_hash (enc (T_tuple (header_form toy st (blk st b))))"
      "bhash (blk st' c) = toy_hash (enc (T_tuple (header_form toy st' (blk st' c))))"
    using good_storeD(3) [OF assms(1,2)] good_storeD(3) [OF assms(3,4)]
    by (simp_all add: authentic_def toy_def del: enc.simps)
  then have "u64_bytes (htonll (timestamp (blk st b))) = u64_bytes (htonll (timestamp (blk st' c)))"
    using h toy_hash_timestamp by metis
  then have "htonll (timestamp (blk st b)) = htonll (timestamp (blk st' c))" by (metis uint_of_bytes(3))
  then show False using assms(5) by (metis htonll_htonll)
qed

section \<open>Received blocks\<close>

definition branch_ptrs :: "store \<Rightarrow> addr option \<Rightarrow> addr list" where
  "branch_ptrs st bo = concat (map (block_ptrs st) (chain st bo))"

text \<open>
  No transaction is twice in the chain of the new block \<open>b\<close>, nor in the principal chain and the pool
  together: what a change of the principal block needs to give its transactions back.
\<close>

definition no_repeats :: "node_t \<Rightarrow> addr \<Rightarrow> bool" where
  "no_repeats nd b \<longleftrightarrow>
     distinct (hashes_at (n_store nd) (list_elems (n_pool nd) @ branch_ptrs (n_store nd) (principal (n_chain nd)))) \<and>
     distinct (hashes_at (n_store nd) (branch_ptrs (n_store nd) (Some b)))"

lemma dropped_ptrs_prefix: "\<exists>ps. branch_ptrs st prev = dropped_ptrs st new prev @ ps"
proof -
  let ?P = "\<lambda>b. b \<notin> set (chain st new)"
  have "chain st prev = takeWhile ?P (chain st prev) @ dropWhile ?P (chain st prev)" by simp
  then have "branch_ptrs st prev = dropped_ptrs st new prev @ concat (map (block_ptrs st) (dropWhile ?P (chain st prev)))"
    unfolding branch_ptrs_def dropped_ptrs_def dropped_def by (metis concat_append map_append)
  then show ?thesis ..
qed

lemma length_returned: "length (returned nd b) \<le> length (branch_ptrs (n_store nd) (principal (n_chain nd)))"
  using dropped_ptrs_prefix [of "n_store nd" "principal (n_chain nd)" "Some b"]
  by (auto simp: returned_def)

lemma clean_branch:
  assumes "distinct (hashes_at (n_store nd) (list_elems (n_pool nd) @ branch_ptrs (n_store nd) (principal (n_chain nd))))"
  shows "clean nd b"
  using assms dropped_ptrs_prefix [of "n_store nd" "principal (n_chain nd)" "Some b"]
  unfolding clean_def returned_def by (auto simp: hashes_at_def)

lemma branch_ptrs_extends:
  assumes "good_store S st" "extends (length (s_blocks st)) st st'" "known st (length (s_blocks st)) bo"
  shows "branch_ptrs st' bo = branch_ptrs st bo" "hashes_at st' (branch_ptrs st bo) = hashes_at st (branch_ptrs st bo)"
proof -
  have bo: "blocks_ok st (length (s_blocks st))" using assms(1) by (simp add: good_store_def store_ok_def)
  note ch = chain_extends(1) [OF bo assms(3,2)] and al = chain_length(2) [OF bo assms(3)]
  have "block_ptrs st' b = block_ptrs st b" if "b \<in> set (chain st bo)" for b
    using block_ptrs_extends [OF assms(2)] al that by blast
  then show "branch_ptrs st' bo = branch_ptrs st bo" by (simp add: branch_ptrs_def ch cong: map_cong)
  have "thash (obj (s_txns st') p) = thash (obj (s_txns st) p)" if p: "p \<in> set (branch_ptrs st bo)" for p
  proof -
    obtain b where b: "b \<in> set (chain st bo)" "p \<in> set (block_ptrs st b)" using p by (auto simp: branch_ptrs_def)
    have "alive (s_blocks st) b" using al b(1) by blast
    from good_storeD(3) [OF assms(1) this] b(2) have "alive (s_txns st) p"
      unfolding authentic_def txns_ok_def by (fastforce simp: block_ptrs_def)
    then show ?thesis using extendsD(5) [OF assms(2)] by simp
  qed
  then show "hashes_at st' (branch_ptrs st bo) = hashes_at st (branch_ptrs st bo)" by (simp add: hashes_at_def)
qed

lemma receive_result:
  assumes S: "sodium_ok S keypair" and nd: "node_ok S nd" and small: "length (s_blocks (n_store nd)) < 2 ^ 31"
    and run: "block_create_from_tuple S (lookup_block nd) (n_store nd) mem msg = Inr (r, st1)"
  shows "node_ok S (nd\<lparr>n_store := st1\<rparr>) \<and> length (s_blocks st1) \<le> Suc (length (s_blocks (n_store nd))) \<and>
    (case r of None \<Rightarrow> s_blocks st1 = s_blocks (n_store nd) \<or> s_blocks st1 = s_blocks (n_store nd) @ [None]
     | Some b \<Rightarrow> alive (s_blocks st1) b \<and> (\<forall>p. prev_block (blk st1 b) = Some p \<longrightarrow> p \<in> registered (n_chain nd)) \<and>
         (\<exists>prev. outcome S (n_store nd) prev (Some b, st1)) \<and>
         (no_repeats (nd\<lparr>n_store := st1\<rparr>) b \<longrightarrow> (\<exists>new nd2. add_block S (nd\<lparr>n_store := st1\<rparr>) b = Inr (new, nd2) \<and>
            node_ok S nd2 \<and>
            (if new then registered (n_chain nd2) = insert b (registered (n_chain nd)) \<and>
               length (s_blocks (n_store nd2)) = length (s_blocks st1) \<and>
               extends (length (s_blocks st1)) st1 (n_store nd2) \<and>
               list_elems (n_pool nd2) = list_elems (n_pool nd) @ returned (nd\<lparr>n_store := st1\<rparr>) b \<and>
               principal (n_chain nd2) = (if better st1 (principal (n_chain nd)) b then Some b else principal (n_chain nd))
             else (\<exists>c \<in> registered (n_chain nd). bhash (blk (n_store nd) c) = bhash (blk st1 b)) \<and>
               n_chain nd2 = n_chain nd \<and> n_pool nd2 = n_pool nd \<and>
               s_blocks (n_store nd2) = s_blocks (n_store nd) @ [None]))))"
proof -
  let ?st = "n_store nd" and ?nd1 = "nd\<lparr>n_store := st1\<rparr>"
  note N = node_okD [OF nd]
  have find: "\<exists>r. lookup_block nd h = Inr r \<and> known ?st (length (s_blocks ?st)) r \<and> (\<forall>b. r = Some b \<longrightarrow> b \<in> registered (n_chain nd))"
    if h: "length h = 32" for h
  proof -
    from chain_state_ok_find_block [OF N(2) h] obtain r where "blockchain_get_block (n_chain nd) h = Inr r"
      "known ?st (length (s_blocks ?st)) r" "\<forall>b. r = Some b \<longleftrightarrow> b \<in> registered (n_chain nd) \<and> bhash (blk ?st b) = h"
      by blast
    then show ?thesis by (intro exI [of _ r]) (simp add: lookup_block_def)
  qed
  have k: "\<forall>h p. length h = 32 \<longrightarrow> lookup_block nd h = Inr p \<longrightarrow> known ?st (length (s_blocks ?st)) p"
    using find by fastforce
  from block_received [OF S N(1) small k run]
  obtain h prev where o: "r = None \<or> length h = 32 \<and> lookup_block nd h = Inr prev" "outcome S ?st prev (r, st1)"
    by blast
  have O: "good_store S st1" "extends (length (s_blocks ?st)) ?st st1" "length (s_blocks st1) \<le> Suc (length (s_blocks ?st))"
      "take (length (s_blocks ?st)) (s_blocks st1) = s_blocks ?st"
    using o(2) by (simp_all add: outcome_def)
  have ok1: "node_ok S ?nd1"
    using O(1) chain_state_frame [OF N(1) O(2,4) N(2)] pool_ok_extends(1) [OF N(3) O(2)] by (simp add: node_ok_def)
  show ?thesis
  proof (cases r)
    case None
    then show ?thesis using ok1 O(3) o(2) by (simp add: outcome_def)
  next
    case (Some b)
    have hp: "length h = 32" "lookup_block nd h = Inr prev" using o(1) Some by simp_all
    have prevR: "\<forall>p. prev = Some p \<longrightarrow> p \<in> registered (n_chain nd)" using find [OF hp(1)] hp(2) by auto
    have ob: "outcome S ?st prev (Some b, st1)" using o(2) Some by simp
    then have b: "alive (s_blocks st1) b" "prev_block (blk st1 b) = prev"
      unfolding outcome_def fst_conv snd_conv option.case by blast+
    from received_block_added [OF S N(1,2) ob prevR]
    obtain new ev bc' st2 where a: "blockchain_add_block S st1 (n_chain nd) b = Inr (new, ev, bc', st2)"
      "good_store S st2" "chain_state_ok st2 bc'" "extends (length (s_blocks ?st)) ?st st2"
      "if new then (\<forall>c \<in> registered (n_chain nd). bhash (blk ?st c) \<noteq> bhash (blk st1 b)) \<and>
           added S st1 (n_chain nd) b (ev, bc', st2) \<and> chain_state_ok st1 (n_chain nd)
       else (\<exists>c \<in> registered (n_chain nd). bhash (blk ?st c) = bhash (blk st1 b)) \<and> ev = None \<and> bc' = n_chain nd \<and>
           s_blocks st2 = s_blocks ?st @ [None]"
      by blast
    have "\<exists>new nd2. add_block S ?nd1 b = Inr (new, nd2) \<and> node_ok S nd2 \<and>
            (if new then registered (n_chain nd2) = insert b (registered (n_chain nd)) \<and>
               length (s_blocks (n_store nd2)) = length (s_blocks st1) \<and>
               extends (length (s_blocks st1)) st1 (n_store nd2) \<and>
               list_elems (n_pool nd2) = list_elems (n_pool nd) @ returned (nd\<lparr>n_store := st1\<rparr>) b \<and>
               principal (n_chain nd2) = (if better st1 (principal (n_chain nd)) b then Some b else principal (n_chain nd))
             else (\<exists>c \<in> registered (n_chain nd). bhash (blk ?st c) = bhash (blk st1 b)) \<and>
               n_chain nd2 = n_chain nd \<and> n_pool nd2 = n_pool nd \<and> s_blocks (n_store nd2) = s_blocks ?st @ [None])"
      if nr: "no_repeats ?nd1 b"
    proof (cases new)
      case True
      then have ad: "added S (n_store ?nd1) (n_chain ?nd1) b (ev, bc', st2)" using a(5) by simp
      have run1: "blockchain_add_block S (n_store ?nd1) (n_chain ?nd1) b = Inr (True, ev, bc', st2)" using a(1) True by simp
      have "clean ?nd1 b" using nr by (intro clean_branch) (simp add: no_repeats_def)
      from add_block_new [OF S ok1 _ run1 ad this] b(1)
      obtain nd2 where "add_block S ?nd1 b = Inr (True, nd2)" "node_ok S nd2" "n_store nd2 = st2" "n_chain nd2 = bc'"
          "list_elems (n_pool nd2) = list_elems (n_pool nd) @ returned ?nd1 b"
        by auto
      then show ?thesis using ad by (intro exI [of _ True] exI [of _ nd2]) (simp add: added_def)
    next
      case False
      then have "add_block S ?nd1 b = Inr (False, ?nd1\<lparr>n_store := st2\<rparr>)" using a(1,5) by (simp add: add_block_def)
      moreover have "node_ok S (?nd1\<lparr>n_store := st2\<rparr>)"
        using a(2,3,5) False pool_ok_extends(1) [OF N(3) a(4)] by (simp add: node_ok_def)
      ultimately show ?thesis using False a(5) by (intro exI [of _ False] exI [of _ "?nd1\<lparr>n_store := st2\<rparr>"]) simp
    qed
    moreover have "\<forall>p. prev_block (blk st1 b) = Some p \<longrightarrow> p \<in> registered (n_chain nd)" using prevR b(2) by simp
    ultimately show ?thesis using ok1 O(3) b(1) ob unfolding Some option.case by blast
  qed
qed

lemma receive_added:
  assumes S: "sodium_ok S keypair" and nd: "node_ok S nd" and small: "length (s_blocks (n_store nd)) < 2 ^ 31"
    and run: "block_create_from_tuple S (lookup_block nd) (n_store nd) mem msg = Inr (Some b, st1)"
    and nr: "no_repeats (nd\<lparr>n_store := st1\<rparr>) b" and a: "add_block S (nd\<lparr>n_store := st1\<rparr>) b = Inr (True, nd2)"
  shows "extends (length (s_blocks st1)) st1 (n_store nd2)"
proof -
  obtain new nd3 where "add_block S (nd\<lparr>n_store := st1\<rparr>) b = Inr (new, nd3)"
      "if new then registered (n_chain nd3) = insert b (registered (n_chain nd)) \<and>
               length (s_blocks (n_store nd3)) = length (s_blocks st1) \<and>
               extends (length (s_blocks st1)) st1 (n_store nd3) \<and>
               list_elems (n_pool nd3) = list_elems (n_pool nd) @ returned (nd\<lparr>n_store := st1\<rparr>) b \<and>
               principal (n_chain nd3) = (if better st1 (principal (n_chain nd)) b then Some b else principal (n_chain nd))
             else (\<exists>c \<in> registered (n_chain nd). bhash (blk (n_store nd) c) = bhash (blk st1 b)) \<and>
               n_chain nd3 = n_chain nd \<and> n_pool nd3 = n_pool nd \<and>
               s_blocks (n_store nd3) = s_blocks (n_store nd) @ [None]"
    using receive_result [OF S nd small run] nr unfolding option.case by blast
  then show ?thesis using a by simp
qed

text \<open>The hash of a block the node creates on \<open>prev\<close> is one it has not in its tree.\<close>

definition own_hash_new :: "sodium \<Rightarrow> keys \<Rightarrow> u64 \<Rightarrow> node_t \<Rightarrow> addr option \<Rightarrow> bool" where
  "own_hash_new S keys now nd prev \<longleftrightarrow> (prev \<noteq> None \<longrightarrow>
     (\<forall>b nd1. create_next S keys now nd prev = Inr (Some b, nd1) \<longrightarrow>
        (\<forall>c \<in> registered (n_chain nd). bhash (blk (n_store nd) c) \<noteq> bhash (blk (n_store nd1) b))))"

lemma try_fork_result:
  assumes S: "sodium_ok S keypair" "keypair (k_public keys) (k_secret keys)" and nd: "node_ok S nd"
    and small: "length (s_blocks (n_store nd)) < 2 ^ 31" "length (list_elems (n_pool nd)) < 2 ^ 20"
    and b: "alive (s_blocks (n_store nd)) b" "b \<in> registered (n_chain nd)"
    and d: "distinct (hashes_at (n_store nd) (branch_ptrs (n_store nd) (principal (n_chain nd))))"
    and fresh: "own_hash_new S keys now nd (prev_block (blk (n_store nd) b))"
  shows "\<exists>out nd'. try_fork S keys now nd b = Inr (out, nd') \<and> node_ok S nd' \<and>
    registered (n_chain nd) \<subseteq> registered (n_chain nd')"
proof (cases "prev_block (blk (n_store nd) b)")
  case None
  then show ?thesis using b nd by (intro exI [of _ "[]"] exI [of _ nd]) (simp add: try_fork_def block_get_prev_def)
next
  case (Some p)
  let ?st = "n_store nd"
  note N = node_okD [OF nd]
  have pR: "p \<in> registered (n_chain nd)" by (rule tree_okD(4) [OF N(5) b(2) Some])
  then have prev: "\<forall>q. Some p = Some q \<longrightarrow> q \<in> registered (n_chain nd)" by simp
  have pk: "length (k_public keys) = 32" by (rule sodium_keypair(1) [OF S])
  obtain r where r: "block_get_child_with_public_key S ?st (Some p) (k_public keys) = Inr r"
    using own_child_result [OF S(1) N(1,5) pR pk] by blast
  have run: "try_fork S keys now nd b =
      (if r \<noteq> None then Inr ([], nd) else bindR (create_next S keys now nd (Some p)) (\<lambda>(next, nd). case next of
         None \<Rightarrow> Inr ([], nd) | Some b \<Rightarrow> bindR (add_block S nd b) (\<lambda>(added, nd).
         if added then bindR (broadcast_block S (n_store nd) b) (\<lambda>m. Inr ([m], nd)) else Inr ([], nd))))"
    using b(1) Some r by (simp add: try_fork_def block_get_prev_def)
  note C = create_next_result [OF S nd prev small(1), of now]
  consider "r \<noteq> None" | "r = None" "\<not> may_stake (entries ?st (Some p)) (k_public keys)"
    | "r = None" "may_stake (entries ?st (Some p)) (k_public keys)" by blast
  then show ?thesis
  proof cases
    case 1
    then show ?thesis using run nd by auto
  next
    case 2
    then show ?thesis using run C by auto
  next
    case 3
    then obtain b2 nd1 where c: "create_next S keys now nd (Some p) = Inr (Some b2, nd1)" "next_block S keys nd (Some p) b2 nd1"
      using C by auto
    note B = next_blockD [OF c(2)]
    have f: "\<forall>c \<in> registered (n_chain nd). bhash (blk ?st c) \<noteq> bhash (blk (n_store nd1) b2)"
      using fresh c(1) Some unfolding own_hash_new_def by simp
    note E = branch_ptrs_extends [OF N(1) B(3) N(7)]
    have cl: "clean nd1 b2" by (rule clean_branch) (simp add: B(12,13) E d)
    from add_next_result [OF S(1) nd c(2) prev f cl] obtain nd2 ev where a: "add_block S nd1 b2 = Inr (True, nd2)"
        "node_ok S nd2" "added S (n_store nd1) (n_chain nd) b2 (ev, n_chain nd2, n_store nd2)"
      by blast
    have A: "extends (length (s_blocks (n_store nd1))) (n_store nd1) (n_store nd2)"
        "registered (n_chain nd2) = insert b2 (registered (n_chain nd))"
      using a(3) by (simp_all add: added_def)
    note F = extends_fields [OF A(1) alive_less [OF B(5)] B(5)]
    have "length (list_elems (transactions (blk (n_store nd2) b2))) < 2 ^ 20" using small(2) F(3) B(9) by simp
    from broadcast_block_result [OF S(1) node_okD(1) [OF a(2)] F(9) this]
    obtain buf where "broadcast_block S (n_store nd2) b2 = Inr (Broadcast EVENT_BLOCK buf)" by blast
    then have "try_fork S keys now nd b = Inr ([Broadcast EVENT_BLOCK buf], nd2)"
      using run 3 c(1) a(1) by simp
    then show ?thesis using a(2) A(2) by auto
  qed
qed

lemma timer_result:
  assumes S: "sodium_ok S keypair" "keypair (k_public keys) (k_secret keys)" and nd: "node_ok S nd"
    and small: "length (s_blocks (n_store nd)) < 2 ^ 31" "length (list_elems (n_pool nd)) < 2 ^ 20"
    and tip: "principal (n_chain nd) = Some p"
    and own: "\<forall>c \<in> registered (n_chain nd). prev_block (blk (n_store nd) c) = Some p \<longrightarrow>
      public_key (blk (n_store nd) c) \<noteq> k_public keys"
    and stake: "may_stake (entries (n_store nd) (Some p)) (k_public keys)"
    and fresh: "\<And>b nd1. create_next S keys now (nd\<lparr>n_timer := False\<rparr>) (Some p) = Inr (Some b, nd1) \<Longrightarrow>
      \<forall>c \<in> registered (n_chain nd). bhash (blk (n_store nd) c) \<noteq> bhash (blk (n_store nd1) b)"
  shows "\<exists>b buf nd'. on_timer S keys now nd = Inr ([Broadcast EVENT_BLOCK buf], nd') \<and> node_ok S nd' \<and>
    principal (n_chain nd') = Some b \<and> prev_block (blk (n_store nd') b) = Some p \<and>
    public_key (blk (n_store nd') b) = k_public keys \<and>
    block_txns (n_store nd') (blk (n_store nd') b) = pool_txns (n_store nd) (n_pool nd) \<and>
    registered (n_chain nd') = insert b (registered (n_chain nd)) \<and>
    list_elems (n_pool nd') = [] \<and> n_timer nd' \<and>
    dbuf_bytes buf = enc (T_tuple (block_form S (n_store nd') (blk (n_store nd') b)))"
proof -
  let ?nd = "nd\<lparr>n_timer := False\<rparr>"
  have nd0: "node_ok S ?nd" using nd by simp
  note N = node_okD [OF nd]
  have pR: "p \<in> registered (n_chain nd)" using N(6) tip by simp
  have prev: "\<forall>q. Some p = Some q \<longrightarrow> q \<in> registered (n_chain ?nd)" using pR by simp
  have pk: "length (k_public keys) = 32" by (rule sodium_keypair(1) [OF S])
  have child: "block_get_child_with_public_key S (n_store nd) (Some p) (k_public keys) = Inr None"
    using own_child_result [OF S(1) N(1,5) pR pk] own by auto
  have "length (s_blocks (n_store ?nd)) < 2 ^ 31" using small(1) by simp
  from create_next_result [OF S nd0 prev this, of now] stake obtain b nd1 where c:
      "create_next S keys now ?nd (Some p) = Inr (Some b, nd1)" "next_block S keys ?nd (Some p) b nd1"
    by auto
  note B0 = next_blockD [OF c(2)]
  have B: "s_txns (n_store nd1) = s_txns (n_store nd)" "n_chain nd1 = n_chain nd"
      "list_elems (transactions (blk (n_store nd1) b)) = map Some (list_elems (n_pool nd))"
    using B0(9,10,13) by simp_all
  have "prev_block (blk (n_store nd1) b) = principal (n_chain nd1)" by (simp add: B(2) B0(7) tip)
  note ext = returned_extension [OF B0(2,5) this]
  have cl: "clean nd1 b" by (simp add: clean_def ext(1) B0(12) hashes_at_def)
  have fr: "\<forall>c \<in> registered (n_chain ?nd). bhash (blk (n_store ?nd) c) \<noteq> bhash (blk (n_store nd1) b)"
    using fresh [OF c(1)] by simp
  from add_next_result [OF S(1) nd0 c(2) prev fr cl] obtain nd2 ev where a: "add_block S nd1 b = Inr (True, nd2)"
      "node_ok S nd2" "added S (n_store nd1) (n_chain nd) b (ev, n_chain nd2, n_store nd2)"
      "list_elems (n_pool nd2) = []" "n_timer nd2"
    using ext B(2) by auto
  have A: "extends (length (s_blocks (n_store nd1))) (n_store nd1) (n_store nd2)" "s_txns (n_store nd2) = s_txns (n_store nd)"
      "principal (n_chain nd2) = Some b" "registered (n_chain nd2) = insert b (registered (n_chain nd))"
    using a(3) ext(2) B(1,2) by (simp_all add: added_def)
  note F = extends_fields [OF A(1) alive_less [OF B0(5)] B0(5)]
  have "length (list_elems (transactions (blk (n_store nd2) b))) < 2 ^ 20" using small(2) F(3) B(3) by simp
  from broadcast_block_result [OF S(1) node_okD(1) [OF a(2)] F(9) this]
  obtain buf where buf: "broadcast_block S (n_store nd2) b = Inr (Broadcast EVENT_BLOCK buf)"
      "dbuf_bytes buf = enc (T_tuple (block_form S (n_store nd2) (blk (n_store nd2) b)))" by blast
  have "on_timer S keys now nd = Inr ([Broadcast EVENT_BLOCK buf], nd2)"
    using c(1) a(1) buf(1) child tip by (simp add: on_timer_def Let_def blockchain_get_principal_def)
  moreover have "block_txns (n_store nd2) (blk (n_store nd2) b) = pool_txns (n_store nd) (n_pool nd)"
    using F(3) B(3) A(2) by (simp add: block_txns_def pool_txns_def)
  ultimately show ?thesis using a(2,4,5) A(3,4) F(1,2) B0(7,8) buf(2) by auto
qed

text \<open>The node of the witnesses is ready for its timer.\<close>

lemma sample_ready:
  obtains nd where "owns_blocks (n_chain nd)" "node_ok toy nd" "length (s_blocks (n_store nd)) < 2 ^ 31"
    "length (list_elems (n_pool nd)) < 2 ^ 20" "principal (n_chain nd) = Some 0"
    "\<forall>c \<in> registered (n_chain nd). prev_block (blk (n_store nd) c) = Some 0 \<longrightarrow>
      public_key (blk (n_store nd) c) \<noteq> k_public sample_keys"
    "may_stake (entries (n_store nd) (Some 0)) (k_public sample_keys)"
    "\<forall>b nd1. create_next toy sample_keys 8 (nd\<lparr>n_timer := False\<rparr>) (Some 0) = Inr (Some b, nd1) \<longrightarrow>
      (\<forall>c \<in> registered (n_chain nd). bhash (blk (n_store nd) c) \<noteq> bhash (blk (n_store nd1) b))"
    "pool_txns (n_store nd) (n_pool nd) = [pending_txn]" "registered (n_chain nd) = {0}"
proof -
  obtain nd where ow: "owns_blocks (n_chain nd)" and nd: "node_ok toy nd" "principal (n_chain nd) = Some 0" "registered (n_chain nd) = {0}"
    "s_blocks (n_store nd) = [Some (blk (n_store nd) 0)]" "prev_block (blk (n_store nd) 0) = None"
    "timestamp (blk (n_store nd) 0) = 7" "entries (n_store nd) (Some 0) = [\<lparr>creator = replicate 32 1, transfers = []\<rparr>]"
    "pool_txns (n_store nd) (n_pool nd) = [pending_txn]"
    by (rule sample_node_owner)
  have n: "length (s_blocks (n_store nd)) = 1" using nd(4) by (metis length_Cons list.size(3) One_nat_def)
  then have small: "length (s_blocks (n_store nd)) < 2 ^ 31" by simp
  have pool: "length (list_elems (n_pool nd)) < 2 ^ 20" using arg_cong [OF nd(8), of length] by (simp add: pool_txns_def)
  have own: "\<forall>c \<in> registered (n_chain nd). prev_block (blk (n_store nd) c) = Some 0 \<longrightarrow>
      public_key (blk (n_store nd) c) \<noteq> k_public sample_keys"
    by (simp add: nd(3,5))
  have stake: "may_stake (entries (n_store nd) (Some 0)) (k_public sample_keys)"
    unfolding nd(7) sample_keys_def keys.select_convs by (rule sample_may_stake)
  have fresh: "\<forall>c \<in> registered (n_chain nd). bhash (blk (n_store nd) c) \<noteq> bhash (blk (n_store nd1) b)"
    if "create_next toy sample_keys 8 (nd\<lparr>n_timer := False\<rparr>) (Some 0) = Inr (Some b, nd1)" for b nd1
  proof -
    have "node_ok toy (nd\<lparr>n_timer := False\<rparr>)" "\<forall>p. Some 0 = Some p \<longrightarrow> p \<in> registered (n_chain (nd\<lparr>n_timer := False\<rparr>))"
        "length (s_blocks (n_store (nd\<lparr>n_timer := False\<rparr>))) < 2 ^ 31"
      using nd(1,3) small by simp_all
    from create_next_result [OF toy_ok sample_keypair this, of 8] stake that
    have "next_block toy sample_keys (nd\<lparr>n_timer := False\<rparr>) (Some 0) b nd1" "timestamp (blk (n_store nd1) b) = 8"
      by auto
    then have "bhash (blk (n_store nd) 0) \<noteq> bhash (blk (n_store nd1) b)"
      using toy_fresh [OF node_okD(1) [OF nd(1)]] tree_okD(2) [OF node_okD(5) [OF nd(1)], of 0] next_blockD(2,5) nd(3,6)
      by fastforce
    then show ?thesis by (simp add: nd(3))
  qed
  show ?thesis by (rule that [OF ow nd(1) small pool nd(2) own stake _ nd(8,3)]) (use fresh in blast)
qed

section \<open>Properties\<close>

text \<open>
  C7: The timer extends the principal chain. If the node has a principal block, has not extended it
  yet and may stake on it, \<open>on_timer\<close> creates a block on it with exactly the transactions of the
  pool, in their order; the block becomes the principal block, the pool is empty afterwards, the
  timer is started again and the block is broadcast in its binary form. (The hash of the new block
  has to be new, and the pool must not hold 2^20 transactions or more.)
\<close>

theorem timer_extends_principal:
  assumes S: "sodium_ok S keypair" "keypair (k_public keys) (k_secret keys)" and nd: "node_ok S nd"
    and small: "length (s_blocks (n_store nd)) < 2 ^ 31" "length (list_elems (n_pool nd)) < 2 ^ 20"
    and tip: "principal (n_chain nd) = Some p"
    and own: "\<forall>c \<in> registered (n_chain nd). prev_block (blk (n_store nd) c) = Some p \<longrightarrow>
      public_key (blk (n_store nd) c) \<noteq> k_public keys"
    and stake: "may_stake (entries (n_store nd) (Some p)) (k_public keys)"
    and fresh: "\<And>b nd1. create_next S keys now (nd\<lparr>n_timer := False\<rparr>) (Some p) = Inr (Some b, nd1) \<Longrightarrow>
      \<forall>c \<in> registered (n_chain nd). bhash (blk (n_store nd) c) \<noteq> bhash (blk (n_store nd1) b)"
  shows "\<exists>b buf nd'. on_timer S keys now nd = Inr ([Broadcast EVENT_BLOCK buf], nd') \<and> node_ok S nd' \<and>
    principal (n_chain nd') = Some b \<and> prev_block (blk (n_store nd') b) = Some p \<and>
    public_key (blk (n_store nd') b) = k_public keys \<and>
    block_txns (n_store nd') (blk (n_store nd') b) = pool_txns (n_store nd) (n_pool nd) \<and>
    registered (n_chain nd') = insert b (registered (n_chain nd)) \<and>
    list_elems (n_pool nd') = [] \<and> n_timer nd' \<and>
    dbuf_bytes buf = enc (T_tuple (block_form S (n_store nd') (blk (n_store nd') b)))"
  by (rule timer_result [OF S nd small tip own stake fresh])

theorem timer_extends_principal_witness:
  "\<exists>nd b buf nd'. pool_txns (n_store nd) (n_pool nd) = [pending_txn] \<and>
    on_timer toy sample_keys 8 nd = Inr ([Broadcast EVENT_BLOCK buf], nd') \<and> node_ok toy nd' \<and>
    principal (n_chain nd') = Some b \<and> block_txns (n_store nd') (blk (n_store nd') b) = [pending_txn]"
proof -
  obtain nd where nd: "node_ok toy nd" "length (s_blocks (n_store nd)) < 2 ^ 31"
    "length (list_elems (n_pool nd)) < 2 ^ 20" "principal (n_chain nd) = Some 0"
    "\<forall>c \<in> registered (n_chain nd). prev_block (blk (n_store nd) c) = Some 0 \<longrightarrow>
      public_key (blk (n_store nd) c) \<noteq> k_public sample_keys"
    "may_stake (entries (n_store nd) (Some 0)) (k_public sample_keys)"
    "\<forall>b nd1. create_next toy sample_keys 8 (nd\<lparr>n_timer := False\<rparr>) (Some 0) = Inr (Some b, nd1) \<longrightarrow>
      (\<forall>c \<in> registered (n_chain nd). bhash (blk (n_store nd) c) \<noteq> bhash (blk (n_store nd1) b))"
    "pool_txns (n_store nd) (n_pool nd) = [pending_txn]"
    by (rule sample_ready) blast
  from timer_extends_principal [where now = 8, OF toy_ok sample_keypair nd(1-6) nd(7) [THEN spec, THEN spec, THEN mp]] nd(8)
  show ?thesis by metis
qed



end
