(* ===== verification/Host.thy ===== *)
theory Host
  imports NodeSafety
begin

text \<open>
  The running program (\<open>src/main/main.c\<close>): the handlers of the peer messages, the table of handlers
  that \<open>main\<close> registers, and the steps that the libuv loop makes on the network and the node
  together. The names of the handlers are the values of the table; \<open>call_handler\<close> gives them their
  meaning. What comes from outside the program (keys, settings, random identifiers, the clock, the
  result of a connect) is the record \<open>env\<close>.
\<close>

section \<open>State and environment\<close>

datatype handler =
    On_connect
  | On_disconnect
  | On_handshake
  | On_peers_request
  | On_peers_response
  | On_block
  | On_blocks_request
  | On_blocks_response
  | On_pool_request
  | On_pool_response
  | On_transaction

text \<open>The counters tell the random identifiers drawn so far and the readings of the clock apart.\<close>

record world =
  w_node :: node_t
  w_guids :: nat
  w_ticks :: nat

record env =
  e_sodium :: sodium
  e_keys :: keys
  e_port :: int
  e_guid :: "nat \<Rightarrow> guid_t"
  e_clock :: "nat \<Rightarrow> nat \<Rightarrow> u64"
  e_connect :: "byte list \<Rightarrow> int \<Rightarrow> int"

type_synonym host = "(handler, world) netstate"

definition VERSION_STRING :: "byte list" where
  "VERSION_STRING = bytes_of ''1.0.0-alpha''"

section \<open>Sending what the node hands out\<close>

definition emit :: "env \<Rightarrow> addr option \<Rightarrow> sent \<Rightarrow> host \<Rightarrow> host res" where
  "emit env peer m s =
     (case m of
        Broadcast type buf \<Rightarrow>
          bindR (network_broadcast (e_guid env (w_guids (snd s))) (ucast type) buf (fst s)) (\<lambda>net.
            Inr (net, snd s\<lparr>w_guids := Suc (w_guids (snd s))\<rparr>))
      | Reply type buf \<Rightarrow>
          bindR (derefR peer) (\<lambda>p. bindR (network_send (ucast type) buf p (fst s)) (\<lambda>net. Inr (net, snd s))))"

definition emit_all :: "env \<Rightarrow> addr option \<Rightarrow> sent list \<times> node_t \<Rightarrow> host \<Rightarrow> host res" where
  "emit_all env peer r s = foldR (emit env peer) (fst r) (fst s, snd s\<lparr>w_node := snd r, w_ticks := Suc (w_ticks (snd s))\<rparr>)"

section \<open>Handlers of the peer messages\<close>

definition write_handshake :: "int \<Rightarrow> dynamic_buffer_t res" where
  "write_handshake port =
     bindR (tuple_write_start (dynamic_buffer_create 32)) (\<lambda>buf.
     bindR (tuple_write_i32 (of_int port) buf) (\<lambda>buf.
     bindR (tuple_write_string VERSION_STRING buf) tuple_write_end))"

definition on_connect :: "env \<Rightarrow> addr \<Rightarrow> host \<Rightarrow> host res" where
  "on_connect env peer s =
     bindR (write_handshake (e_port env)) (\<lambda>buf.
     bindR (emit env (Some peer) (Reply EVENT_HANDSHAKE buf) s) (\<lambda>s.
     bindR synchronize_peers (\<lambda>m.
     bindR (emit env (Some peer) m s) (\<lambda>s.
     bindR (synchronize_blockchain (e_sodium env) (n_store (w_node (snd s)))
              (blockchain_get_principal (n_chain (w_node (snd s))))) (\<lambda>m.
     emit env (Some peer) m s)))))"

text \<open>After a version that does not match the code goes on and sets the port.\<close>

definition on_handshake :: "addr \<Rightarrow> byte arr \<Rightarrow> tuple_t \<Rightarrow> 'h network_t \<Rightarrow> 'h network_t res" where
  "on_handshake peer mem msg net =
     bindR (peer_get_addr net peer) (\<lambda>address.
     bindR (tuple_get_i32 mem msg 0) (\<lambda>port.
     bindR (network_has_peer net address (sint port)) (\<lambda>has.
     if has then Inr (network_disconnect (Some peer) net)
     else
       bindR (bindR (tuple_get_string mem msg 1) (cstring mem)) (\<lambda>version.
       peer_set_port peer (sint port)
         (if VERSION_STRING \<noteq> version then network_disconnect (Some peer) net else net)))))"

text \<open>The handler only looks at the port; the printing is commented out.\<close>

definition on_disconnect :: "addr \<Rightarrow> 'h network_t \<Rightarrow> 'h network_t res" where
  "on_disconnect peer net = bindR (peer_get_port net peer) (\<lambda>_. Inr net)"

definition write_peer :: "byte list \<Rightarrow> int \<Rightarrow> 'h network_t \<Rightarrow> nat \<Rightarrow> dynamic_buffer_t \<Rightarrow> dynamic_buffer_t res" where
  "write_peer peer_addr peer_port net i buf =
     bindR (network_get_peer net i) (\<lambda>p.
     bindR (peer_get_addr net p) (\<lambda>address.
     bindR (peer_get_port net p) (\<lambda>port.
     if port \<le> 0 then Inr buf
     else if peer_addr \<noteq> address \<or> port \<noteq> peer_port then
       bindR (tuple_write_start buf) (\<lambda>buf.
       bindR (tuple_write_string address buf) (\<lambda>buf.
       bindR (tuple_write_i32 (of_int port) buf) tuple_write_end))
     else Inr buf)))"

definition write_peers :: "addr \<Rightarrow> 'h network_t \<Rightarrow> dynamic_buffer_t res" where
  "write_peers peer net =
     bindR (peer_get_addr net peer) (\<lambda>peer_addr.
     bindR (peer_get_port net peer) (\<lambda>peer_port.
     bindR (tuple_write_start (dynamic_buffer_create 32)) (\<lambda>buf.
     bindR (foldR (write_peer peer_addr peer_port net) [0..<network_peer_count net] buf) tuple_write_end)))"

definition on_peers_request :: "env \<Rightarrow> addr \<Rightarrow> host \<Rightarrow> host res" where
  "on_peers_request env peer s =
     bindR (write_peers peer (fst s)) (\<lambda>buf. emit env (Some peer) (Reply EVENT_PEERS_RESPONSE buf) s)"

definition connect_peer ::
  "(byte list \<Rightarrow> int \<Rightarrow> int) \<Rightarrow> byte arr \<Rightarrow> tuple_t \<Rightarrow> nat \<Rightarrow> 'h network_t \<Rightarrow> 'h network_t res" where
  "connect_peer connect mem msg i net =
     bindR (tuple_get_tuple mem msg i) (\<lambda>peer_tuple.
     bindR (bindR (tuple_get_string mem peer_tuple 0) (cstring mem)) (\<lambda>address.
     bindR (tuple_get_i32 mem peer_tuple 1) (\<lambda>port.
     bindR (network_has_peer net address (sint port)) (\<lambda>has.
     if \<not> has then Inr (snd (network_connect (connect address (sint port)) address (sint port) net))
     else Inr net))))"

definition on_peers_response ::
  "(byte list \<Rightarrow> int \<Rightarrow> int) \<Rightarrow> byte arr \<Rightarrow> tuple_t \<Rightarrow> 'h network_t \<Rightarrow> 'h network_t res" where
  "on_peers_response connect mem msg net = foldR (connect_peer connect mem msg) [0..<tuple_size msg] net"

section \<open>The table of handlers\<close>

text \<open>
  A handler of a message gets the parsed tuple; \<open>NULL\<close>, for a message that is no tuple, is
  dereferenced by every handler that looks at its message.
\<close>

definition call_handler :: "env \<Rightarrow> (handler, world) caller" where
  "call_handler env h peer mem msg s =
     (let S = e_sodium env; keys = e_keys env; net = fst s; w = snd s; nd = w_node w; clock = e_clock env (w_ticks w);
          node = (\<lambda>r. bindR r (\<lambda>r. emit_all env (Some peer) r s)) in
     case h of
       On_connect \<Rightarrow> on_connect env peer s
     | On_disconnect \<Rightarrow> bindR (on_disconnect peer net) (\<lambda>net. Inr (net, w))
     | On_handshake \<Rightarrow> bindR (derefR msg) (\<lambda>t. bindR (on_handshake peer mem t net) (\<lambda>net. Inr (net, w)))
     | On_peers_request \<Rightarrow> on_peers_request env peer s
     | On_peers_response \<Rightarrow>
         bindR (derefR msg) (\<lambda>t. bindR (on_peers_response (e_connect env) mem t net) (\<lambda>net. Inr (net, w)))
     | On_block \<Rightarrow> node (bindR (derefR msg) (on_block S keys (clock 0) nd mem))
     | On_blocks_request \<Rightarrow> node (bindR (derefR msg) (\<lambda>t. bindR (on_blocks_request S nd mem t) (\<lambda>m. Inr ([m], nd))))
     | On_blocks_response \<Rightarrow> node (bindR (derefR msg) (on_blocks_response S keys clock nd mem))
     | On_pool_request \<Rightarrow> node (bindR (on_pool_request S nd) (\<lambda>m. Inr ([m], nd)))
     | On_pool_response \<Rightarrow> node (bindR (derefR msg) (\<lambda>t. bindR (on_pool_response S nd mem t) (\<lambda>nd. Inr ([], nd))))
     | On_transaction \<Rightarrow> node (bindR (derefR msg) (\<lambda>t. bindR (on_transaction S nd mem t) (\<lambda>nd. Inr ([], nd)))))"

definition handler_table :: "(u16 \<times> handler) list" where
  "handler_table =
     [(EVENT_CONNECT, On_connect), (EVENT_DISCONNECT, On_disconnect), (EVENT_HANDSHAKE, On_handshake),
      (EVENT_PEERS_REQUEST, On_peers_request), (EVENT_PEERS_RESPONSE, On_peers_response), (EVENT_BLOCK, On_block),
      (EVENT_BLOCKS_REQUEST, On_blocks_request), (EVENT_BLOCKS_RESPONSE, On_blocks_response),
      (EVENT_POOL_REQUEST, On_pool_request), (EVENT_POOL_RESPONSE, On_pool_response),
      (EVENT_TRANSACTION, On_transaction)]"

definition register_handlers :: "handler network_t \<Rightarrow> handler network_t res" where
  "register_handlers net = foldR (\<lambda>(event, handler). network_register (ucast event) handler) handler_table net"

section \<open>Start, timer and commands\<close>

definition connect_all ::
  "(byte list \<Rightarrow> int \<Rightarrow> int) \<Rightarrow> (byte list \<times> int) list \<Rightarrow> 'h network_t \<Rightarrow> 'h network_t" where
  "connect_all connect peers net =
     fold (\<lambda>(address, port) net. snd (network_connect (connect address port) address port net)) peers net"

text \<open>
  From the creation of the chain, the network and the pool to the first block. The connections of
  the command line are \<open>peers\<close>.
\<close>

definition start_host :: "env \<Rightarrow> (byte list \<times> int) list \<Rightarrow> host res" where
  "start_host env peers =
     bindR (register_handlers network_create) (\<lambda>net.
     bindR (start_chain (e_sodium env) (e_keys env) (e_clock env 0 0) (node_create (e_sodium env))) (\<lambda>r.
     emit_all env None r (connect_all (e_connect env) peers net, \<lparr>w_node = snd r, w_guids = 0, w_ticks = 0\<rparr>)))"

definition timer_step :: "env \<Rightarrow> host \<Rightarrow> host res" where
  "timer_step env s =
     bindR (on_timer (e_sodium env) (e_keys env) (e_clock env (w_ticks (snd s)) 0) (w_node (snd s))) (\<lambda>r.
       emit_all env None r s)"

definition send_step :: "env \<Rightarrow> byte list \<Rightarrow> u64 \<Rightarrow> host \<Rightarrow> host res" where
  "send_step env recipient value s =
     bindR (send_value (e_sodium env) (e_keys env) (w_node (snd s)) recipient value) (\<lambda>nd.
       emit_all env None ([], nd) s)"

text \<open>A step of the program: a callback of the network, the timer, or the command \<open>send\<close>.\<close>

inductive host_step :: "env \<Rightarrow> host \<Rightarrow> host \<Rightarrow> bool" for env where
  network: "net_step (call_handler env) s s' \<Longrightarrow> host_step env s s'"
| timer: "n_timer (w_node (snd s)) \<Longrightarrow> timer_step env s = Inr s' \<Longrightarrow> host_step env s s'"
| send: "send_step env recipient value s = Inr s' \<Longrightarrow> host_step env s s'"

inductive reachable :: "env \<Rightarrow> (byte list \<times> int) list \<Rightarrow> host \<Rightarrow> bool" for env peers where
  start: "start_host env peers = Inr s \<Longrightarrow> reachable env peers s"
| step: "reachable env peers s \<Longrightarrow> host_step env s s' \<Longrightarrow> reachable env peers s'"

section \<open>The network's invariant\<close>

lemma network_broadcast_ok:
  assumes "net_ok net" "network_broadcast g t b net = Inr net'"
  shows "net_ok net'"
proof -
  obtain m n1 where n1: "message_history_add g net = Inr n1" "broadcast_message m n1 = Inr net'"
    using assms(2) by (auto simp: network_broadcast_def res_simps)
  from net_ok_broadcast [OF net_ok_history(1) [OF assms(1) n1(1)], of m] n1(2) show ?thesis by auto
qed

lemma network_send_ok:
  assumes "net_ok net" "network_send t b peer net = Inr net'"
  shows "net_ok net'"
proof -
  obtain m n1 where n1: "message_history_add guid_null net = Inr n1" "send_message m peer n1 = Inr net'"
    using assms(2) by (auto simp: network_send_def res_simps)
  from net_ok_send(1) [OF net_ok_history(1) [OF assms(1) n1(1)] n1(2)] show ?thesis .
qed

lemma emit_ok: "net_ok (fst s) \<Longrightarrow> emit env peer m s = Inr s' \<Longrightarrow> net_ok (fst s')"
  by (auto simp: emit_def res_simps split: sent.splits dest: network_broadcast_ok network_send_ok)

lemma emit_all_ok:
  assumes "net_ok (fst s)" "emit_all env peer r s = Inr s'"
  shows "net_ok (fst s')"
  by (rule foldR_invariant [OF assms(2) [unfolded emit_all_def], where P = "\<lambda>s. net_ok (fst s)"])
    (use assms(1) emit_ok in auto)

lemma disconnect_ok: "net_ok net \<Longrightarrow> net_ok (network_disconnect p net)"
  by (simp add: network_disconnect_def net_ok_closing split: option.splits)

lemma set_port_ok: "net_ok net \<Longrightarrow> peer_set_port peer port net = Inr net' \<Longrightarrow> net_ok net'"
  by (auto simp: peer_set_port_def res_simps heap_load_Inr net_ok_heap_update)

lemma connect_ok: "net_ok net \<Longrightarrow> net_ok (snd (network_connect err address port net))"
  by (simp add: network_connect_def net_ok_connects)

lemma on_peers_response_ok:
  assumes "net_ok net" "on_peers_response connect mem t net = Inr net'"
  shows "net_ok net'"
  by (rule foldR_invariant [OF assms(2) [unfolded on_peers_response_def], where P = net_ok])
    (use assms(1) in \<open>auto simp: connect_peer_def res_simps connect_ok split: if_splits\<close>)

lemma on_handshake_ok: "net_ok net \<Longrightarrow> on_handshake peer mem t net = Inr net' \<Longrightarrow> net_ok net'"
  by (auto simp: on_handshake_def res_simps disconnect_ok split: if_splits
      intro: set_port_ok set_port_ok [OF disconnect_ok])

lemma on_connect_ok: "net_ok (fst s) \<Longrightarrow> on_connect env peer s = Inr s' \<Longrightarrow> net_ok (fst s')"
  unfolding on_connect_def bindR_eq_Inr by (elim exE conjE) (meson emit_ok)

lemma on_peers_request_ok: "net_ok (fst s) \<Longrightarrow> on_peers_request env peer s = Inr s' \<Longrightarrow> net_ok (fst s')"
  by (auto simp: on_peers_request_def res_simps dest: emit_ok)

lemma call_handler_ok:
  assumes "net_ok (fst s)" "call_handler env h peer mem t s = Inr s'"
  shows "net_ok (fst s')"
proof (cases h)
  case On_connect
  then show ?thesis using assms on_connect_ok by (simp add: call_handler_def Let_def)
next
  case On_peers_request
  then show ?thesis using assms on_peers_request_ok by (simp add: call_handler_def Let_def)
qed (use assms in \<open>auto simp: call_handler_def Let_def res_simps on_disconnect_def
      dest: emit_all_ok [OF assms(1)] on_handshake_ok on_peers_response_ok\<close>)

interpretation main_handlers: event_handlers "call_handler env"
  by unfold_locales (rule call_handler_ok)

lemma network_register_ok: "net_ok net \<Longrightarrow> network_register event h net = Inr net' \<Longrightarrow> net_ok net'"
  by (auto simp: network_register_def res_simps arr_simps net_ok_def history_ok_def peers_alive_def buffers_held_def)

lemma register_handlers_ok:
  assumes "net_ok net" "register_handlers net = Inr net'"
  shows "net_ok net'"
  by (rule foldR_invariant [OF assms(2) [unfolded register_handlers_def], where P = net_ok])
    (use assms(1) in \<open>auto intro: network_register_ok\<close>)

lemma connect_all_ok: "net_ok net \<Longrightarrow> net_ok (connect_all connect peers net)"
  unfolding connect_all_def by (induction peers arbitrary: net) (auto simp: connect_ok)

lemma start_host_ok:
  assumes "start_host env peers = Inr s"
  shows "net_ok (fst s)"
proof -
  obtain net r where r: "register_handlers network_create = Inr net"
      "emit_all env None r (connect_all (e_connect env) peers net, \<lparr>w_node = snd r, w_guids = 0, w_ticks = 0\<rparr>) = Inr s"
    using assms by (auto simp: start_host_def res_simps)
  have "net_ok net" by (rule register_handlers_ok [OF net_ok_create r(1)])
  then show ?thesis using emit_all_ok [OF _ r(2)] by (simp add: connect_all_ok)
qed

lemma host_step_ok: "host_step env s s' \<Longrightarrow> net_ok (fst s) \<Longrightarrow> net_ok (fst s')"
  by (induction rule: host_step.induct)
    (auto simp: timer_step_def send_step_def res_simps intro: main_handlers.net_step_ok dest: emit_all_ok)

lemma reachable_ok: "reachable env peers s \<Longrightarrow> net_ok (fst s)"
  by (induction rule: reachable.induct) (auto intro: start_host_ok host_step_ok)

lemma registered_handlers:
  "register_handlers network_create = Inr (network_create\<lparr>net_handlers :=
     map Some [On_connect, On_disconnect, On_handshake, On_peers_request, On_peers_response, On_blocks_request,
       On_blocks_response, On_pool_request, On_pool_response, On_block, On_transaction]\<rparr>)"
  by code_simp

section \<open>The start\<close>

lemma network_broadcast_result:
  assumes ok: "net_ok net" and b: "dbuf_ok buf"
  shows "\<exists>net' c. network_broadcast g t buf net = Inr net' \<and> net_ok net' \<and>
    net_writes net' = net_writes net @ map (\<lambda>p. (p, c)) (list_elems (net_peers net)) \<and>
    (list_elems (net_peers net) \<noteq> [] \<longrightarrow> sb_data (obj (net_buffers net') c) = msg_bytes (g, ucast t, dbuf_bytes buf)) \<and>
    g \<in> set (list_elems (net_history net')) \<and>
    net_handlers net' = net_handlers net \<and> net_peers net' = net_peers net \<and> net_heap net' = net_heap net \<and>
    net_connects net' = net_connects net"
proof -
  obtain n1 where n1: "message_history_add g net = Inr n1" by (rule history_add_returns [OF ok])
  note H = net_ok_history [OF ok n1]
  obtain n2 c where n2: "broadcast_message (frame g (ucast t) (dbuf_bytes buf)) n1 = Inr n2" "net_ok n2" "same_but_writes n1 n2"
      "net_writes n2 = net_writes n1 @ map (\<lambda>p. (p, c)) (list_elems (net_peers n1))"
      "list_elems (net_peers n1) \<noteq> [] \<longrightarrow> sb_data (obj (net_buffers n2) c) = frame g (ucast t) (dbuf_bytes buf)"
    using net_ok_broadcast [OF H(1)] by blast
  have "network_broadcast g t buf net = Inr n2"
    using n1 n2(1) by (simp add: network_broadcast_def frame_message_result [OF b])
  then show ?thesis
    using n2 H(2,3) same_but_writesD [OF n2(3)] by (intro exI [of _ n2] exI [of _ c]) (auto simp: msg_bytes_def)
qed

lemma start_chain_result:
  assumes S: "sodium_ok S keypair" "keypair (k_public keys) (k_secret keys)"
  shows "\<exists>buf nd. start_chain S keys now (node_create S) = Inr ([Broadcast EVENT_BLOCK buf], nd) \<and> dbuf_ok buf \<and>
    node_ok S nd \<and> principal (n_chain nd) = Some 0 \<and> registered (n_chain nd) = {0} \<and>
    prev_block (blk (n_store nd) 0) = None \<and> public_key (blk (n_store nd) 0) = k_public keys \<and>
    list_elems (n_pool nd) = [] \<and> n_timer nd \<and> list_elems (transactions (blk (n_store nd) 0)) = [] \<and>
    owns_blocks (n_chain nd)"
proof -
  let ?nd = "node_create S"
  have nd: "node_ok S ?nd" by (rule node_ok_create [OF S(1)])
  note N = node_okD [OF nd]
  have e: "n_pool ?nd = pool_create" "s_blocks (n_store ?nd) = []" "list_elems (n_pool ?nd) = []"
      "principal (n_chain ?nd) = None" "registered (n_chain ?nd) = {}"
    using N(2) by (simp_all add: node_create_def pool_create_def blockchain_create_def chain_state_ok_def)
  have z: "pool_size pool_create = 0" by (simp add: pool_size_def pool_create_def)
  have drain: "drain_pool (Suc (pool_size pool_create)) pool_create (list_create 1) = Inr (pool_create, list_create 1)"
    by (simp add: z)
  have cn: "create_next S keys now ?nd None =
      bindR (block_create S now (n_store ?nd) (k_public keys) (k_secret keys) None (list_create 1)) (\<lambda>(next, st).
        Inr (next, ?nd\<lparr>n_store := st\<rparr>))"
    using drain by (simp add: create_next_def node_create_def del: drain_pool.simps)
  have stake: "may_stake (entries (n_store ?nd) None) (k_public keys)" by (simp add: may_stake_def entries_def chain_None)
  have "\<forall>p. None = Some p \<longrightarrow> p \<in> registered (n_chain ?nd)" by simp
  note prev = this
  from create_next_result [OF S nd prev, of now] stake e(2) obtain b nd1 where c:
      "create_next S keys now ?nd None = Inr (Some b, nd1)" "next_block S keys ?nd None b nd1"
    by auto
  note B = next_blockD [OF c(2)]
  have b0: "b = 0" using B(1) e(2) by simp
  have "prev_block (blk (n_store nd1) b) = principal (n_chain nd1)" by (simp add: B(7,13) e(4))
  note ext = returned_extension [OF B(2,5) this]
  have cl: "clean nd1 b" by (simp add: clean_def ext(1) B(12) hashes_at_def)
  have fr: "\<forall>c \<in> registered (n_chain ?nd). bhash (blk (n_store ?nd) c) \<noteq> bhash (blk (n_store nd1) b)" by (simp add: e(5))
  from add_next_result [OF S(1) nd c(2) prev fr cl] obtain nd2 ev where a: "add_block S nd1 b = Inr (True, nd2)"
      "node_ok S nd2" "added S (n_store nd1) (n_chain ?nd) b (ev, n_chain nd2, n_store nd2)"
      "list_elems (n_pool nd2) = []" "n_timer nd2"
    using ext B(13) by auto
  have A: "extends (length (s_blocks (n_store nd1))) (n_store nd1) (n_store nd2)" "principal (n_chain nd2) = Some b"
      "registered (n_chain nd2) = {b}"
    using a(3) ext(2) B(13) e(5) by (simp_all add: added_def)
  note F = extends_fields [OF A(1) alive_less [OF B(5)] B(5)]
  have "length (list_elems (transactions (blk (n_store nd2) b))) < 2 ^ 20" using F(3) B(9) e(3) by simp
  from broadcast_block_result [OF S(1) node_okD(1) [OF a(2)] F(9) this]
  obtain buf where buf: "broadcast_block S (n_store nd2) b = Inr (Broadcast EVENT_BLOCK buf)" "dbuf_ok buf" by blast
  obtain st where st: "block_create S now (n_store ?nd) (k_public keys) (k_secret keys) None (list_create 1) = Inr (Some b, st)"
      "nd1 = ?nd\<lparr>n_store := st\<rparr>"
    using c(1) unfolding cn by (auto simp: res_simps)
  have "start_chain S keys now ?nd = Inr ([Broadcast EVENT_BLOCK buf], nd2)"
    using st a(1) buf(1) by (simp add: start_chain_def)
  moreover have "owns_blocks (n_chain nd2)"
    by (rule add_block_owns [OF _ a(1)]) (simp add: B(13) node_create_def owns_blocks_create)
  moreover have "list_elems (transactions (blk (n_store nd2) b)) = []" using F(3) B(9) e(3) by simp
  ultimately show ?thesis
    using a(2,4,5) A(2,3) F B(7,8) b0 buf(2) by (intro exI [of _ buf] exI [of _ nd2]) simp
qed

lemma connect_all_result:
  "connect_all connect peers net =
     net\<lparr>net_connects := net_connects net @ filter (\<lambda>(address, port). connect address port = 0) peers\<rparr>"
  unfolding connect_all_def by (induction peers arbitrary: net) (auto simp: network_connect_def)

lemma start_host_state:
  assumes S: "sodium_ok (e_sodium env) keypair" "keypair (k_public (e_keys env)) (k_secret (e_keys env))"
  shows "\<exists>s. start_host env peers = Inr s \<and> net_ok (fst s) \<and> node_ok (e_sodium env) (w_node (snd s)) \<and>
    net_handlers (fst s) = map Some [On_connect, On_disconnect, On_handshake, On_peers_request, On_peers_response,
      On_blocks_request, On_blocks_response, On_pool_request, On_pool_response, On_block, On_transaction] \<and>
    net_connects (fst s) = filter (\<lambda>(address, port). e_connect env address port = 0) peers \<and>
    principal (n_chain (w_node (snd s))) = Some 0 \<and> registered (n_chain (w_node (snd s))) = {0} \<and>
    prev_block (blk (n_store (w_node (snd s))) 0) = None \<and>
    public_key (blk (n_store (w_node (snd s))) 0) = k_public (e_keys env) \<and>
    n_timer (w_node (snd s)) \<and> net_writes (fst s) = [] \<and>
    list_elems (n_pool (w_node (snd s))) = [] \<and>
    list_elems (transactions (blk (n_store (w_node (snd s))) 0)) = [] \<and> owns_blocks (n_chain (w_node (snd s)))"
proof -
  obtain buf nd where nd: "start_chain (e_sodium env) (e_keys env) (e_clock env 0 0) (node_create (e_sodium env)) =
      Inr ([Broadcast EVENT_BLOCK buf], nd)" "dbuf_ok buf" "node_ok (e_sodium env) nd" "principal (n_chain nd) = Some 0"
      "registered (n_chain nd) = {0}" "prev_block (blk (n_store nd) 0) = None"
      "public_key (blk (n_store nd) 0) = k_public (e_keys env)" "n_timer nd" "list_elems (n_pool nd) = []"
      "list_elems (transactions (blk (n_store nd) 0)) = []" "owns_blocks (n_chain nd)"
    using start_chain_result [OF S] by blast
  let ?hs = "map Some [On_connect, On_disconnect, On_handshake, On_peers_request, On_peers_response,
      On_blocks_request, On_blocks_response, On_pool_request, On_pool_response, On_block, On_transaction]"
  let ?net = "connect_all (e_connect env) peers (network_create\<lparr>net_handlers := ?hs\<rparr>)"
  have reg: "register_handlers network_create = Inr (network_create\<lparr>net_handlers := ?hs\<rparr>)"
    using registered_handlers by simp
  have ok: "net_ok ?net" by (intro connect_all_ok register_handlers_ok [OF net_ok_create reg])
  obtain net where net: "network_broadcast (e_guid env 0) (ucast EVENT_BLOCK) buf ?net = Inr net" "net_ok net"
      "net_writes net = []" "net_handlers net = ?hs"
      "net_connects net = filter (\<lambda>(address, port). e_connect env address port = 0) peers"
    using network_broadcast_result [OF ok nd(2), of "e_guid env 0" "ucast EVENT_BLOCK"]
    by (auto simp: connect_all_result network_create_def)
  have "start_host env peers = Inr (net, \<lparr>w_node = nd, w_guids = 1, w_ticks = 1\<rparr>)"
    using net(1) by (simp add: start_host_def reg nd(1) emit_all_def emit_def)
  then show ?thesis using net nd(3-11) by auto
qed

text \<open>
  Start. With keys that belong together the program starts: every handler is in its place of
  the table, the connections of the command line are asked for, the node has a first block of its
  own as its principal chain, the timer runs, and network and node satisfy their invariants. The
  broadcast of the first block reaches nobody: no connection has been made yet.
\<close>

lemma start_host_result:
  assumes S: "sodium_ok (e_sodium env) keypair" "keypair (k_public (e_keys env)) (k_secret (e_keys env))"
  shows "\<exists>s. start_host env peers = Inr s \<and> net_ok (fst s) \<and> node_ok (e_sodium env) (w_node (snd s)) \<and>
    net_handlers (fst s) = map Some [On_connect, On_disconnect, On_handshake, On_peers_request, On_peers_response,
      On_blocks_request, On_blocks_response, On_pool_request, On_pool_response, On_block, On_transaction] \<and>
    net_connects (fst s) = filter (\<lambda>(address, port). e_connect env address port = 0) peers \<and>
    principal (n_chain (w_node (snd s))) = Some 0 \<and> registered (n_chain (w_node (snd s))) = {0} \<and>
    prev_block (blk (n_store (w_node (snd s))) 0) = None \<and>
    public_key (blk (n_store (w_node (snd s))) 0) = k_public (e_keys env) \<and>
    n_timer (w_node (snd s)) \<and> net_writes (fst s) = []"
  using start_host_state [OF S, of peers] by blast

definition toy_env :: env where
  "toy_env = \<lparr>e_sodium = toy, e_keys = sample_keys, e_port = 7000, e_guid = (\<lambda>n. Guid 1 2 3 (of_nat n)),
     e_clock = (\<lambda>t i. 7 + of_nat t), e_connect = (\<lambda>_ _. 0)\<rparr>"

lemma start_host_result_witness:
  "\<exists>s. start_host toy_env [([49], 6000)] = Inr s \<and> net_ok (fst s) \<and> node_ok toy (w_node (snd s)) \<and>
     net_connects (fst s) = [([49], 6000)] \<and> n_timer (w_node (snd s))"
  using start_host_result [of toy_env toy_keypair "[([49], 6000)]"] sample_keypair toy_ok by (auto simp: toy_env_def)

section \<open>Peer messages\<close>

definition knows_peer :: "'h network_t \<Rightarrow> byte list \<Rightarrow> int \<Rightarrow> bool" where
  "knows_peer net address port \<longleftrightarrow>
     (\<exists>p \<in> set (list_elems (net_peers net)). p_addr (obj (net_heap net) p) = address \<and> p_port (obj (net_heap net) p) = port)"

lemma has_peer_from_result:
  assumes "list_ok (net_peers net)" "\<forall>p \<in> set (list_elems (net_peers net)). alive (net_heap net) p"
  shows "has_peer_from net address port i =
    Inr (\<exists>p \<in> set (drop i (list_elems (net_peers net))).
      p_addr (obj (net_heap net) p) = address \<and> p_port (obj (net_heap net) p) = port)"
proof (induction "length (list_elems (net_peers net)) - i" arbitrary: i)
  case 0
  then show ?case
    using list_size_elems [OF assms(1)] by (simp add: has_peer_from.simps [of net address port i])
next
  case (Suc k)
  let ?ps = "list_elems (net_peers net)"
  have i: "i < length ?ps" using Suc.hyps(2) by simp
  then have d: "drop i ?ps = ?ps ! i # drop (Suc i) ?ps" by (simp add: Cons_nth_drop_Suc)
  have "alive (net_heap net) (?ps ! i)" using assms(2) i by simp
  then show ?case
    using i Suc.hyps(1) [of "Suc i"] Suc.hyps(2) list_size_elems [OF assms(1)] list_get_elems [OF assms(1), of i]
    by (auto simp: has_peer_from.simps [of net address port i] d peer_get_addr_def peer_get_port_def)
qed

lemma network_has_peer_result:
  "peers_alive net \<Longrightarrow> network_has_peer net address port = Inr (knows_peer net address port)"
  using has_peer_from_result [of net address port 0] by (simp add: network_has_peer_def peers_alive_def knows_peer_def)

lemma writes_string: "0 \<notin> set bs \<Longrightarrow> writes (tuple_write_string bs) (enc (T_string bs))"
  using writes_tval [of "T_string bs"] by (simp add: write_tval.simps(8) [abs_def])

lemma writes_i32: "writes (tuple_write_i32 v) (enc (T_i32 v))"
  using writes_tval [of "T_i32 v"] by (simp add: write_tval.simps(1) [abs_def])

definition handshake_form :: "int \<Rightarrow> tval list" where
  "handshake_form port = [T_i32 (of_int port), T_string VERSION_STRING]"

lemma version_no_nul: "0 \<notin> set VERSION_STRING"
  by (simp add: VERSION_STRING_def bytes_of_def of_char_def)

lemma write_handshake_result:
  "\<exists>buf. write_handshake port = Inr buf \<and> dbuf_ok buf \<and> dbuf_bytes buf = enc (T_tuple (handshake_form port))"
proof -
  have "writes (\<lambda>b. bindR (tuple_write_start b) (\<lambda>buf. bindR (tuple_write_i32 (of_int port) buf) (\<lambda>buf.
      bindR (tuple_write_string VERSION_STRING buf) tuple_write_end)))
    ([TUPLE_START] @ enc (T_i32 (of_int port)) @ enc (T_string VERSION_STRING) @ [TUPLE_END])"
    by (intro dbuf.appends_bind writes_start writes_i32 writes_string writes_end version_no_nul)
  moreover have "length (enc (T_tuple (handshake_form port))) < 2 ^ 31"
    by (simp add: handshake_form_def VERSION_STRING_def bytes_of_def)
  ultimately show ?thesis
    using dbuf.appends_run [OF _ dbuf_ok_create [of 32]] by (fastforce simp: write_handshake_def handshake_form_def)
qed

definition peer_form :: "byte list \<times> int \<Rightarrow> tval" where
  "peer_form p = T_tuple [T_string (fst p), T_i32 (of_int (snd p))]"

text \<open>The peers that a node tells \<open>peer\<close>: those with a positive port, but not \<open>peer\<close> itself.\<close>

definition told_peers :: "'h network_t \<Rightarrow> addr \<Rightarrow> (byte list \<times> int) list" where
  "told_peers net peer =
     filter (\<lambda>(address, port). 0 < port \<and> (address, port) \<noteq> (p_addr (obj (net_heap net) peer), p_port (obj (net_heap net) peer)))
       (map (\<lambda>p. (p_addr (obj (net_heap net) p), p_port (obj (net_heap net) p))) (list_elems (net_peers net)))"

lemma writes_peer:
  assumes "peers_alive net" "i < length (list_elems (net_peers net))"
  defines "q \<equiv> (p_addr (obj (net_heap net) (list_elems (net_peers net) ! i)), p_port (obj (net_heap net) (list_elems (net_peers net) ! i)))"
  assumes "0 \<notin> set (fst q)"
  shows "writes (write_peer pa pp net i) (if 0 < snd q \<and> q \<noteq> (pa, pp) then enc (peer_form q) else [])"
proof -
  let ?p = "list_elems (net_peers net) ! i"
  have P: "list_ok (net_peers net)" "alive (net_heap net) ?p" using assms(1,2) by (simp_all add: peers_alive_def)
  have "network_get_peer net i = Inr ?p" "peer_get_addr net ?p = Inr (fst q)" "peer_get_port net ?p = Inr (snd q)"
    using list_get_elems [OF P(1), of i] assms(2) P(2) by (simp_all add: network_get_peer_def peer_get_addr_def peer_get_port_def q_def)
  then have e: "write_peer pa pp net i = (\<lambda>buf. if snd q \<le> 0 then Inr buf
      else if pa \<noteq> fst q \<or> snd q \<noteq> pp then
        bindR (tuple_write_start buf) (\<lambda>buf. bindR (tuple_write_string (fst q) buf) (\<lambda>buf.
        bindR (tuple_write_i32 (of_int (snd q)) buf) tuple_write_end)) else Inr buf)"
    by (intro ext) (simp add: write_peer_def)
  have "writes (\<lambda>buf. bindR (tuple_write_start buf) (\<lambda>buf. bindR (tuple_write_string (fst q) buf) (\<lambda>buf.
        bindR (tuple_write_i32 (of_int (snd q)) buf) tuple_write_end)))
      ([TUPLE_START] @ enc (T_string (fst q)) @ enc (T_i32 (of_int (snd q))) @ [TUPLE_END])"
    by (intro dbuf.appends_bind writes_start writes_i32 writes_string writes_end assms(4))
  then have "writes (\<lambda>buf. bindR (tuple_write_start buf) (\<lambda>buf. bindR (tuple_write_string (fst q) buf) (\<lambda>buf.
        bindR (tuple_write_i32 (of_int (snd q)) buf) tuple_write_end))) (enc (peer_form q))"
    by (simp add: peer_form_def)
  moreover have "snd q \<le> 0 \<longleftrightarrow> \<not> 0 < snd q" "(pa \<noteq> fst q \<or> snd q \<noteq> pp) \<longleftrightarrow> q \<noteq> (pa, pp)" by (auto simp: prod_eq_iff)
  ultimately show ?thesis unfolding e using dbuf.appends_skip by (cases "0 < snd q"; cases "q \<noteq> (pa, pp)") simp_all
qed

lemma concat_map_filter: "concat (map (\<lambda>x. if P x then f x else []) xs) = concat (map f (filter P xs))"
  by (induction xs) auto

lemma write_peers_result:
  assumes net: "peers_alive net" "alive (net_heap net) peer"
    and str: "\<forall>p \<in> set (list_elems (net_peers net)). 0 \<notin> set (p_addr (obj (net_heap net) p))"
    and size: "length (enc (T_tuple (map peer_form (told_peers net peer)))) < 2 ^ 31"
  shows "\<exists>buf. write_peers peer net = Inr buf \<and> dbuf_ok buf \<and>
    dbuf_bytes buf = enc (T_tuple (map peer_form (told_peers net peer)))"
proof -
  let ?ps = "list_elems (net_peers net)" and ?h = "net_heap net"
  let ?pa = "p_addr (obj ?h peer)" and ?pp = "p_port (obj ?h peer)"
  let ?q = "\<lambda>i. (p_addr (obj ?h (?ps ! i)), p_port (obj ?h (?ps ! i)))"
  let ?f = "\<lambda>i. if 0 < snd (?q i) \<and> ?q i \<noteq> (?pa, ?pp) then enc (peer_form (?q i)) else []"
  have n: "network_peer_count net = length ?ps"
    using net(1) list_size_elems by (auto simp: network_peer_count_def peers_alive_def)
  have "writes (foldR (write_peer ?pa ?pp net) [0..<length ?ps]) (concat (map ?f [0..<length ?ps]))"
  proof (rule dbuf.appends_loop)
    fix i assume "i \<in> set [0..<length ?ps]"
    then have i: "i < length ?ps" by simp
    then have "0 \<notin> set (fst (?q i))" using str by simp
    from writes_peer [OF net(1) i this] show "writes (write_peer ?pa ?pp net i) (?f i)" .
  qed
  moreover have "concat (map ?f [0..<length ?ps]) = concat (map enc (map peer_form (told_peers net peer)))"
  proof -
    let ?P = "\<lambda>q. 0 < snd q \<and> q \<noteq> (?pa, ?pp)"
    have eq: "map ?f [0..<length ?ps] = map (\<lambda>q. if 0 < snd q \<and> q \<noteq> (?pa, ?pp) then enc (peer_form q) else [])
        (map (\<lambda>p. (p_addr (obj ?h p), p_port (obj ?h p))) ?ps)"
      by (rule nth_equalityI) auto
    have "concat (map ?f [0..<length ?ps]) = concat (map (\<lambda>q. enc (peer_form q))
        (filter ?P (map (\<lambda>p. (p_addr (obj ?h p), p_port (obj ?h p))) ?ps)))"
      unfolding eq by (rule concat_map_filter)
    moreover have "told_peers net peer = filter ?P (map (\<lambda>p. (p_addr (obj ?h p), p_port (obj ?h p))) ?ps)"
      unfolding told_peers_def by (rule filter_cong) auto
    ultimately show ?thesis by (simp only: map_map comp_def)
  qed
  ultimately have "writes (\<lambda>b. bindR (tuple_write_start b) (\<lambda>b.
      bindR (foldR (write_peer ?pa ?pp net) [0..<length ?ps] b) tuple_write_end))
    ([TUPLE_START] @ concat (map enc (map peer_form (told_peers net peer))) @ [TUPLE_END])"
    by (intro dbuf.appends_bind writes_start writes_end) simp
  from dbuf.appends_run [OF this dbuf_ok_create [of 32]] size obtain buf where
    "bindR (tuple_write_start (dynamic_buffer_create 32)) (\<lambda>b.
      bindR (foldR (write_peer ?pa ?pp net) [0..<length ?ps] b) tuple_write_end) = Inr buf" "dbuf_ok buf"
    "dbuf_bytes buf = enc (T_tuple (map peer_form (told_peers net peer)))"
    by auto
  then show ?thesis
    using net(2) n by (simp add: write_peers_def peer_get_addr_def peer_get_port_def del: enc.simps)
qed

lemma connect_peers_result:
  assumes mem: "mem_at mem q (enc (T_tuple (map peer_form ps)))" and alive: "peers_alive net"
    and str: "\<forall>p \<in> set ps. 0 \<notin> set (fst p) \<and> - (2 ^ 31) \<le> snd p \<and> snd p < 2 ^ 31"
  shows "is = [0..<k] \<Longrightarrow> k \<le> length ps \<Longrightarrow>
    foldR (connect_peer connect mem (parsed q (map peer_form ps))) is net =
      Inr (net\<lparr>net_connects := net_connects net @
        filter (\<lambda>(a, p). \<not> knows_peer net a p \<and> connect a p = 0) (take k ps)\<rparr>)"
proof (induction k arbitrary: "is")
  case 0
  then show ?case by simp
next
  case (Suc k)
  let ?t = "parsed q (map peer_form ps)" and ?p = "ps ! k"
  let ?cs = "filter (\<lambda>(a, p). \<not> knows_peer net a p \<and> connect a p = 0)"
  let ?net = "net\<lparr>net_connects := net_connects net @ ?cs (take k ps)\<rparr>"
  have k: "k < length ps" using Suc.prems(2) by simp
  have P: "0 \<notin> set (fst ?p)" "- (2 ^ 31) \<le> snd ?p" "snd ?p < 2 ^ 31" using str k by auto
  have wf: "wf_tval (T_tuple (map peer_form ps))" using str by (auto simp: peer_form_def)
  have "reads mem ?t k (peer_form ?p)" using reads_parsed [OF mem wf, of k] k by simp
  then obtain u where u: "tuple_get_tuple mem ?t k = Inr u" "reads mem u 0 (T_string (fst ?p))"
      "reads mem u 1 (T_i32 (of_int (snd ?p)))"
    by (force simp: peer_form_def less_Suc_eq)
  then obtain a where "tuple_get_string mem u 0 = Inr a" "mem_at mem a (fst ?p @ [0])" by auto
  then have "bindR (tuple_get_string mem u 0) (cstring mem) = Inr (fst ?p)" using cstring_result P(1) by simp
  moreover have "sint (of_int (snd ?p) :: u32) = snd ?p"
    by (rule sint_of_int32 [OF P(2,3)])
  moreover have "network_has_peer ?net (fst ?p) (snd ?p) = Inr (knows_peer net (fst ?p) (snd ?p))"
    using network_has_peer_result [of ?net "fst ?p" "snd ?p"] alive by (simp add: peers_alive_def knows_peer_def)
  moreover have "take (Suc k) ps = take k ps @ [?p]" using k by (rule take_Suc_conv_app_nth)
  ultimately have "connect_peer connect mem ?t k ?net = Inr (net\<lparr>net_connects := net_connects net @ ?cs (take (Suc k) ps)\<rparr>)"
    using u(1,3) by (cases "?p") (simp add: connect_peer_def network_connect_def)
  then show ?case
    using Suc.IH [OF refl] Suc.prems k by (simp add: foldR_append)
qed

section \<open>Properties of the peer messages\<close>

text \<open>
  C33: Handshake. The message that a node sends when a connection is made is read by the handler of
  the other node, wherever it lies in memory: if a peer with the same address and that port is
  known already, the connection is closed and nothing else changes; otherwise the peer gets the port
  on which the sender accepts connections, and the connection stays.
\<close>

theorem handshake_round_trip:
  assumes net: "peers_alive net" "alive (net_heap net) peer" and port: "- (2 ^ 31) \<le> port" "port < 2 ^ 31"
  shows "\<exists>buf. write_handshake port = Inr buf \<and>
    (\<forall>mem q. mem_at mem q (dbuf_bytes buf) \<longrightarrow>
      (\<exists>t. tuple_parse (2 * unat (d_length buf) + 2) mem (Some q) (unat (d_length buf)) = Inr (Some t) \<and>
        on_handshake peer mem t net =
          Inr (if knows_peer net (p_addr (obj (net_heap net) peer)) port
               then net\<lparr>net_closing := net_closing net @ [peer]\<rparr>
               else net\<lparr>net_heap := (net_heap net)[peer := Some (obj (net_heap net) peer\<lparr>p_port := port\<rparr>)]\<rparr>)))"
proof -
  obtain buf where buf: "write_handshake port = Inr buf" "dbuf_ok buf" "dbuf_bytes buf = enc (T_tuple (handshake_form port))"
    using write_handshake_result by blast
  let ?t = "\<lambda>q. parsed q (handshake_form port)"
  have wf: "wf_tval (T_tuple (handshake_form port))" by (simp add: handshake_form_def version_no_nul)
  have len: "unat (d_length buf) = length (enc (T_tuple (handshake_form port)))"
    using length_dbuf_bytes [OF buf(2)] buf(3) by simp
  have "\<exists>t. tuple_parse (2 * unat (d_length buf) + 2) mem (Some q) (unat (d_length buf)) = Inr (Some t) \<and>
        on_handshake peer mem t net =
          Inr (if knows_peer net (p_addr (obj (net_heap net) peer)) port
               then net\<lparr>net_closing := net_closing net @ [peer]\<rparr>
               else net\<lparr>net_heap := (net_heap net)[peer := Some (obj (net_heap net) peer\<lparr>p_port := port\<rparr>)]\<rparr>)"
    if "mem_at mem q (dbuf_bytes buf)" for mem q
  proof -
    have mem: "mem_at mem q (enc (T_tuple (handshake_form port)))" using that buf(3) by simp
    have "tuple_get_i32 mem (?t q) 0 = Inr (of_int port)"
      using reads_parsed [OF mem wf, of 0] by (simp add: handshake_form_def)
    moreover have "sint (of_int port :: u32) = port" by (rule sint_of_int32 [OF port])
    moreover obtain a where "tuple_get_string mem (?t q) 1 = Inr a" "mem_at mem a (VERSION_STRING @ [0])"
      using reads_parsed [OF mem wf, of 1] by (auto simp: handshake_form_def)
    then have "bindR (tuple_get_string mem (?t q) 1) (cstring mem) = Inr VERSION_STRING"
      using cstring_result version_no_nul by simp
    ultimately have "on_handshake peer mem (?t q) net =
          Inr (if knows_peer net (p_addr (obj (net_heap net) peer)) port
               then net\<lparr>net_closing := net_closing net @ [peer]\<rparr>
               else net\<lparr>net_heap := (net_heap net)[peer := Some (obj (net_heap net) peer\<lparr>p_port := port\<rparr>)]\<rparr>)"
      using net by (simp add: on_handshake_def peer_get_addr_def network_has_peer_result network_disconnect_def peer_set_port_def)
    moreover have "tuple_parse (2 * unat (d_length buf) + 2) mem (Some q) (unat (d_length buf)) = Inr (Some (?t q))"
      by (rule tuple_parse_enc [OF wf mem]) (simp_all add: len)
    ultimately show ?thesis by blast
  qed
  then show ?thesis using buf(1) by blast
qed

theorem handshake_round_trip_witness:
  "\<exists>buf t net. write_handshake 1960 = Inr buf \<and>
     on_handshake 0 (d_data buf) t (network_create\<lparr>net_heap := [Some \<lparr>p_addr = [49], p_port = 7, p_buf = dynamic_buffer_create 32\<rparr>]\<rparr> :: unit network_t) =
       Inr net \<and> p_port (obj (net_heap net) 0) = 1960 \<and> net_closing net = []"
proof -
  let ?net = "network_create\<lparr>net_heap := [Some \<lparr>p_addr = [49], p_port = 7, p_buf = dynamic_buffer_create 32\<rparr>]\<rparr> :: unit network_t"
  have n: "peers_alive ?net" "alive (net_heap ?net) 0" "\<not> knows_peer ?net [49] 1960" "net_closing ?net = []"
    by (simp_all add: peers_alive_def network_create_def list_ok_create alive_def knows_peer_def)
  obtain buf where buf: "write_handshake 1960 = Inr buf" "dbuf_ok buf" using write_handshake_result by blast
  obtain t where t: "on_handshake 0 (d_data buf) t ?net = Inr (if knows_peer ?net (p_addr (obj (net_heap ?net) 0)) 1960
      then ?net\<lparr>net_closing := net_closing ?net @ [0]\<rparr>
      else ?net\<lparr>net_heap := (net_heap ?net)[0 := Some (obj (net_heap ?net) 0\<lparr>p_port := 1960\<rparr>)]\<rparr>)"
    using handshake_round_trip [OF n(1,2), of 1960] buf(1) dbuf_mem_at [OF buf(2)] by auto
  then show ?thesis using buf(1) n(3,4) by (intro exI [of _ buf] exI [of _ t]) simp
qed





end
