(* ===== verification/Api.thy ===== *)
theory Api
  imports Json Http Cli Settings Host
begin

text \<open>
  What the node offers to its user (\<open>src/main/main.c\<close>): the HTTP requests for the principal chain and
  for a block, the commands of the command line, and the start of both. The first part instantiates
  the interface of \<open>Http\<close>: \<open>http_answer\<close> is the specification of the handlers, and the properties
  are about whole requests, from the bytes of a socket to the bytes of the answer.
\<close>

section \<open>HTTP requests\<close>

datatype http_request_handler = On_http_blocks_request | On_http_block_request

definition is_valid_hash :: "sodium \<Rightarrow> byte list \<Rightarrow> bool" where
  "is_valid_hash S hex \<longleftrightarrow> length hex = 2 * generichash_BYTES S \<and> list_all isxdigit hex"

fun write_chain_json :: "nat \<Rightarrow> sodium \<Rightarrow> store \<Rightarrow> addr option \<Rightarrow> dynamic_buffer_t \<Rightarrow> dynamic_buffer_t res" where
  "write_chain_json 0 S st block buf = Inl Out_of_fuel"
| "write_chain_json (Suc fuel) S st block buf =
     (case block of
        None \<Rightarrow> Inr buf
      | Some b \<Rightarrow>
          bindR (block_write_json S st b buf) (\<lambda>buf.
          bindR (block_get_prev st (Some b)) (\<lambda>prev. write_chain_json fuel S st prev buf)))"

definition on_http_blocks_request :: "sodium \<Rightarrow> node_t \<Rightarrow> request_t \<Rightarrow> response_t \<Rightarrow> response_t res" where
  "on_http_blocks_request S nd req res =
     bindR (json_write_array_start (response_get_body res)) (\<lambda>buf.
     bindR (write_chain_json (Suc (length (s_blocks (n_store nd)))) S (n_store nd)
              (blockchain_get_principal (n_chain nd)) buf) (\<lambda>buf.
     bindR (json_write_array_end buf) (\<lambda>buf.
     bindR (json_write_end buf) (\<lambda>buf. Inr (res\<lparr>res_buf := buf\<rparr>)))))"

text \<open>The map of blocks reads as many bytes of the decoded hash as a key has.\<close>

definition on_http_block_request :: "sodium \<Rightarrow> node_t \<Rightarrow> request_t \<Rightarrow> response_t \<Rightarrow> response_t res" where
  "on_http_block_request S nd req res =
     bindR (request_get_param req 0) (\<lambda>arg.
     if \<not> is_valid_hash S arg then Inr (response_set_code res 400) else
     bindR (buffer_from_hex (Suc (length arg)) arg) (\<lambda>hash.
     bindR (arr_load_n (b_data hash) 0 (generichash_BYTES S)) (\<lambda>key.
     bindR (blockchain_get_block (n_chain nd) key) (\<lambda>block.
     case block of
       Some b \<Rightarrow>
         bindR (block_write_json S (n_store nd) b (response_get_body res)) (\<lambda>buf.
         bindR (json_write_end buf) (\<lambda>buf. Inr (res\<lparr>res_buf := buf\<rparr>)))
     | None \<Rightarrow> Inr (response_set_code res 404)))))"

definition call_http :: "sodium \<Rightarrow> node_t \<Rightarrow> http_request_handler http_caller" where
  "call_http S nd handler req res =
     (case handler of
        On_http_blocks_request \<Rightarrow> on_http_blocks_request S nd req res
      | On_http_block_request \<Rightarrow> on_http_block_request S nd req res)"

definition start_http :: "http_request_handler http_t res" where
  "start_http =
     bindR (http_register http_create (bytes_of ''/block/'') On_http_blocks_request) (\<lambda>http.
       http_register http (bytes_of ''/block/:/'') On_http_block_request)"

section \<open>Commands\<close>

datatype command = Value_command | Public_key_command | Send_command | Pool_command

definition hex_to_binary :: "byte list \<Rightarrow> nat \<Rightarrow> byte list option res" where
  "hex_to_binary data n =
     (if length data \<noteq> 2 * n then Inr None
      else bindR (from_hex_loop (Suc n) data n 0 (replicate n (Some 0))) (\<lambda>res. Inr (Some (map the res))))"

definition atoll :: "byte list \<Rightarrow> int res" where
  "atoll s = bindR (scan_int (2 ^ 63) s) (\<lambda>r. Inr (case r of None \<Rightarrow> 0 | Some (v, _) \<Rightarrow> v))"

text \<open>A handler returns its result, what it prints, and the state.\<close>

definition value_command :: "env \<Rightarrow> host \<Rightarrow> (int \<times> byte list \<times> host) res" where
  "value_command env s =
     bindR (handle_value_command (e_keys env) (w_node (snd s))) (\<lambda>v. Inr (0, decimal (unat v) @ [10], s))"

definition handle_public_key_command :: "env \<Rightarrow> host \<Rightarrow> (int \<times> byte list \<times> host) res" where
  "handle_public_key_command env s =
     bindR (binary_to_hex (k_public (e_keys env)) (vrf_PUBLICKEYBYTES (e_sodium env))) (\<lambda>pk_hex.
     bindR (strlen pk_hex) (\<lambda>n. bindR (arr_load_n pk_hex 0 n) (\<lambda>text. Inr (0, text @ [10], s))))"

definition handle_send_command :: "env \<Rightarrow> byte list list_t \<Rightarrow> host \<Rightarrow> (int \<times> byte list \<times> host) res" where
  "handle_send_command env args s =
     (if list_size args \<noteq> 3 then Inr (- 1, [], s) else
      bindR (list_get args 1) (\<lambda>amount.
      bindR (atoll amount) (\<lambda>v.
      bindR (list_get args 2) (\<lambda>hex.
      bindR (hex_to_binary hex (vrf_PUBLICKEYBYTES (e_sodium env))) (\<lambda>r.
      case r of
        None \<Rightarrow> Inr (- 1, [], s)
      | Some recipient \<Rightarrow> bindR (send_step env recipient (word_of_int v) s) (\<lambda>s. Inr (0, [], s)))))))"

definition print_pool_txn :: "sodium \<Rightarrow> node_t \<Rightarrow> nat \<Rightarrow> byte list res" where
  "print_pool_txn S nd i =
     bindR (pool_get (n_pool nd) i) (\<lambda>p.
     bindR (heap_load (s_txns (n_store nd)) p) (\<lambda>txn.
     bindR (transaction_write_json S txn (dynamic_buffer_create 32)) (\<lambda>buf.
     bindR (json_write_end buf) (\<lambda>buf.
     bindR (buffer_contents buf) (\<lambda>text. Inr (text @ [10]))))))"

definition handle_pool_command :: "env \<Rightarrow> host \<Rightarrow> (int \<times> byte list \<times> host) res" where
  "handle_pool_command env s =
     (let nd = w_node (snd s) in
      bindR (mapR (print_pool_txn (e_sodium env) nd) [0..<pool_size (n_pool nd)]) (\<lambda>lines.
        Inr (0, decimal (pool_size (n_pool nd)) @ bytes_of '' pending transations'' @ [10] @ concat lines, s)))"

definition call_command :: "env \<Rightarrow> (command, host) command_caller" where
  "call_command env handler args s =
     (case handler of
        Value_command \<Rightarrow> value_command env s
      | Public_key_command \<Rightarrow> handle_public_key_command env s
      | Send_command \<Rightarrow> handle_send_command env args s
      | Pool_command \<Rightarrow> handle_pool_command env s)"

definition start_cli :: "command cli_t res" where
  "start_cli =
     bindR (cli_add_command cli_create (bytes_of ''value'') (bytes_of ''Get current account value'') Value_command) (\<lambda>cli.
     bindR (cli_add_command cli (bytes_of ''public_key'') (bytes_of ''Get current public key'') Public_key_command) (\<lambda>cli.
     bindR (cli_add_command cli (bytes_of ''send'') (bytes_of ''Send value to recipient'') Send_command) (\<lambda>cli.
       cli_add_command cli (bytes_of ''pool'') (bytes_of ''Get transaction pool info'') Pool_command)))"

section \<open>What the HTTP handlers answer\<close>

definition chain_json :: "sodium \<Rightarrow> node_t \<Rightarrow> json" where
  "chain_json S nd = JArr (map (block_json S (n_store nd)) (chain (n_store nd) (principal (n_chain nd))))"

text \<open>
  \<open>None\<close> stands for the requests for which nothing is promised: a node that is not in order, a block
  whose numbers cannot be printed, an answer of 1 GiB, or no parameter at all.
\<close>

definition json_answer :: "bool \<Rightarrow> json \<Rightarrow> (int \<times> byte list) option" where
  "json_answer p j = (if p \<and> length (render j) < 2 ^ 30 then Some (200, render j) else None)"

definition http_answer :: "sodium \<Rightarrow> node_t \<Rightarrow> http_request_handler \<Rightarrow> byte list list \<Rightarrow> (int \<times> byte list) option" where
  "http_answer S nd handler ps =
     (if \<not> (node_ok S nd \<and> (\<exists>kp. sodium_ok S kp)) then None else
      case handler of
        On_http_blocks_request \<Rightarrow>
          json_answer (\<forall>b \<in> set (chain (n_store nd) (principal (n_chain nd))). printable (n_store nd) b) (chain_json S nd)
      | On_http_block_request \<Rightarrow>
          (case ps of
             [] \<Rightarrow> None
           | arg # _ \<Rightarrow>
               if \<not> is_valid_hash S arg then Some (400, [])
               else (case map_abs (bc_blocks (n_chain nd)) (unhex arg) of
                       None \<Rightarrow> Some (404, [])
                     | Some b \<Rightarrow> json_answer (printable (n_store nd) b) (block_json S (n_store nd) b))))"

lemma siblings_alive:
  assumes "good_store S st" "tree_ok st bc" "b \<in> registered bc"
  shows "\<forall>c \<in> set (siblings st b). alive (s_blocks st) c"
proof (cases "prev_block (blk st b)")
  case (Some p)
  then have "set (list_elems (children (blk st p))) \<subseteq> registered bc"
    using tree_okD(5) [OF assms(2) tree_okD(4) [OF assms(2,3)]] by auto
  then show ?thesis using Some tree_okD(2) [OF assms(2)] by (auto simp: siblings_def)
qed (simp add: siblings_def)

lemma writes_chain_json:
  assumes S: "sodium_ok S kp" and g: "good_store S st" and "blocks_ok st n" "known st n bo"
    and "\<forall>b \<in> set (chain st bo). printable st b \<and> (\<forall>c \<in> set (siblings st b). alive (s_blocks st) c)"
    and "length (chain st bo) < fuel"
  shows "writes (write_chain_json fuel S st bo) (concat (map (\<lambda>j. ended (render j)) (map (block_json S st) (chain st bo))))"
  using assms(3-6)
proof (induction arbitrary: fuel rule: chain_induct)
  case root
  then obtain f where "fuel = Suc f" by (cases fuel) auto
  then have "write_chain_json fuel S st None = Inr" by (intro ext) simp
  then show ?case using dbuf.appends_skip by simp
next
  case (step b)
  have ch: "chain st (Some b) = b # chain st (prev_block (blk st b))" by (rule chain_Some [OF step(5)])
  obtain f where f: "fuel = Suc f" using step.prems(2) by (cases fuel) auto
  have "writes (write_chain_json f S st (prev_block (blk st b)))
      (concat (map (\<lambda>j. ended (render j)) (map (block_json S st) (chain st (prev_block (blk st b))))))"
    using step.prems f ch by (intro step.IH) auto
  moreover have "writes (block_write_json S st b) (ended (render (block_json S st b)))"
    using step.prems(1) ch by (intro writes_block_json [OF S g step(2)]) auto
  ultimately have "writes (\<lambda>buf. bindR (block_write_json S st b buf) (write_chain_json f S st (prev_block (blk st b))))
      (ended (render (block_json S st b)) @
       concat (map (\<lambda>j. ended (render j)) (map (block_json S st) (chain st (prev_block (blk st b))))))"
    by (rule dbuf.appends_bind [rotated])
  moreover have "write_chain_json fuel S st (Some b) =
      (\<lambda>buf. bindR (block_write_json S st b buf) (write_chain_json f S st (prev_block (blk st b))))"
    using step(2) by (intro ext) (simp add: f block_get_prev_def)
  ultimately show ?case by (simp add: ch)
qed

lemma new_response: "dbuf_ok (response_get_body response_create)" "dbuf_bytes (response_get_body response_create) = []"
  "res_code response_create = 200" "response_get_body response_create = res_buf response_create"
  by (simp_all add: response_create_def response_get_body_def dbuf_ok_create)

lemma blocks_request_result:
  assumes S: "sodium_ok S kp" and nd: "node_ok S nd"
    and p: "\<forall>b \<in> set (chain (n_store nd) (principal (n_chain nd))). printable (n_store nd) b"
    and len: "length (render (chain_json S nd)) < 2 ^ 30"
  shows "\<exists>res. on_http_blocks_request S nd req response_create = Inr res \<and> dbuf_ok (res_buf res) \<and>
    dbuf_bytes (res_buf res) = render (chain_json S nd) \<and> res_code res = 200"
proof -
  let ?st = "n_store nd" and ?tip = "principal (n_chain nd)"
  note N = node_okD [OF nd]
  have "\<forall>b \<in> set (chain ?st ?tip). \<forall>c \<in> set (siblings ?st b). alive (s_blocks ?st) c"
    using chain_registered [OF N(1,5,6)] siblings_alive [OF N(1,5)] by blast
  then have "writes (write_chain_json (Suc (length (s_blocks ?st))) S ?st ?tip)
      (concat (map (\<lambda>j. ended (render j)) (map (block_json S ?st) (chain ?st ?tip))))"
    using p chain_length(1) [OF N(4,7)] by (intro writes_chain_json [OF S N(1,4,7)]) auto
  then have "writes (\<lambda>b. bindR (json_write_array_start b) (\<lambda>b.
      bindR (write_chain_json (Suc (length (s_blocks ?st))) S ?st ?tip b) json_write_array_end))
      (ended (render (chain_json S nd)))"
    unfolding chain_json_def by (rule writes_array)
  from writes_then_end [OF this new_response(1,2)] len
  obtain buf where buf: "bindR (bindR (json_write_array_start (response_get_body response_create)) (\<lambda>b.
      bindR (write_chain_json (Suc (length (s_blocks ?st))) S ?st ?tip b) json_write_array_end)) json_write_end = Inr buf"
      "dbuf_ok buf" "dbuf_bytes buf = render (chain_json S nd)"
    by auto
  have "on_http_blocks_request S nd req response_create = Inr (response_create\<lparr>res_buf := buf\<rparr>)"
    using buf(1) by (simp only: on_http_blocks_request_def blockchain_get_principal_def bindR_assoc bindR_simps
        bindR_eq_Inr) auto
  then show ?thesis using buf(2,3) new_response(3) by simp
qed

lemma block_request_result:
  assumes S: "sodium_ok S kp" and nd: "node_ok S nd" and "list_ok (req_params req)" "list_elems (req_params req) = arg # ps"
    and a: "http_answer S nd On_http_block_request (arg # ps) = Some (code, body)"
  shows "\<exists>res. on_http_block_request S nd req response_create = Inr res \<and> dbuf_ok (res_buf res) \<and>
    dbuf_bytes (res_buf res) = body \<and> res_code res = code"
proof -
  note N = node_okD [OF nd]
  have arg: "request_get_param req 0 = Inr arg"
    using assms(3,4) by (simp add: request_get_param_def list_get_elems)
  have order: "\<not> \<not> (node_ok S nd \<and> (\<exists>kp. sodium_ok S kp))" using S nd by blast
  have a': "(if \<not> is_valid_hash S arg then Some (400, [])
      else (case map_abs (bc_blocks (n_chain nd)) (unhex arg) of
              None \<Rightarrow> Some (404, [])
            | Some b \<Rightarrow> json_answer (printable (n_store nd) b) (block_json S (n_store nd) b))) = Some (code, body)"
    using a unfolding http_answer_def if_not_P [OF order] by (simp only: http_request_handler.case list.case)
  show ?thesis
  proof (cases "is_valid_hash S arg")
    case False
    then show ?thesis
      using a' arg new_response by (simp add: on_http_block_request_def response_set_code_def)
  next
    case valid: True
    then have v: "length arg = 2 * 32" "list_all isxdigit arg" by (simp_all add: is_valid_hash_def sodium_sizes [OF S])
    obtain d where d: "buffer_from_hex (Suc (length arg)) arg = Inr \<lparr>b_length = of_nat 32, b_data = map Some (unhex arg) @ d\<rparr>"
      using buffer_from_hex_digits [OF v(2,1), of "Suc (length arg)"] v(1) by auto
    have key: "arr_load_n (map Some (unhex arg) @ d) 0 32 = Inr (unhex arg)"
      using arr_load_n_block [of "[]" 0 "unhex arg" 32 d] v(1) by simp
    have look: "blockchain_get_block (n_chain nd) (unhex arg) = Inr (map_abs (bc_blocks (n_chain nd)) (unhex arg))"
      unfolding blockchain_get_block_def
      using cmap.lookup_law [OF tree_okD(1) [OF N(5)], of "unhex arg"] v(1) by (simp add: key_ok_def)
    show ?thesis
    proof (cases "map_abs (bc_blocks (n_chain nd)) (unhex arg)")
      case None
      then show ?thesis
        using a' arg valid d key look new_response
        by (simp add: on_http_block_request_def response_set_code_def sodium_sizes [OF S])
    next
      case (Some b)
      then have j: "printable (n_store nd) b" "length (render (block_json S (n_store nd) b)) < 2 ^ 30"
          "code = 200" "body = render (block_json S (n_store nd) b)"
        using a' valid by (auto simp: json_answer_def split: if_splits)
      have b: "b \<in> registered (n_chain nd)" using Some by (auto simp: registered_iff)
      note alive = tree_okD(2) [OF N(5) b] and sib = siblings_alive [OF N(1,5) b]
      obtain buf where "bindR (block_write_json S (n_store nd) b (response_get_body response_create)) json_write_end = Inr buf"
          "dbuf_ok buf" "dbuf_bytes buf = render (block_json S (n_store nd) b)"
        using writes_then_end [OF writes_block_json [OF S N(1) alive sib j(1)] new_response(1,2)] j(2) by auto
      moreover from this have "on_http_block_request S nd req response_create = Inr (response_create\<lparr>res_buf := buf\<rparr>)"
        using arg valid d key look Some
        by (auto simp: on_http_block_request_def sodium_sizes [OF S] bindR_eq_Inr)
      ultimately show ?thesis using j(3,4) new_response(3) by simp
    qed
  qed
qed

lemma api_service: "http_service (call_http S nd) (http_answer S nd)"
proof
  fix req :: request_t and h code body
  assume params: "list_ok (req_params req)" and a: "http_answer S nd h (list_elems (req_params req)) = Some (code, body)"
  from a obtain kp where ok: "node_ok S nd" "sodium_ok S kp" by (auto simp: http_answer_def split: if_splits)
  show "\<exists>res. call_http S nd h req response_create = Inr res \<and> dbuf_ok (res_buf res) \<and>
      dbuf_bytes (res_buf res) = body \<and> res_code res = code"
  proof (cases h)
    case On_http_blocks_request
    then show ?thesis
      using a ok blocks_request_result [OF ok(2,1)]
      by (auto simp: http_answer_def json_answer_def call_http_def split: if_splits)
  next
    case On_http_block_request
    then obtain arg ps where "list_elems (req_params req) = arg # ps"
      using a by (auto simp: http_answer_def split: if_splits list.splits)
    then show ?thesis
      using block_request_result [OF ok(2,1) params] a On_http_block_request by (simp add: call_http_def)
  qed
next
  fix h ps code body
  assume "http_answer S nd h ps = Some (code, body)"
  then show "0 \<le> code \<and> code < 1000 \<and> length body < 2 ^ 30"
    by (auto simp: http_answer_def json_answer_def split: if_splits http_request_handler.splits list.splits option.splits)
qed

interpretation api: http_service "call_http S nd" "http_answer S nd" for S nd
  by (rule api_service)

section \<open>The table of URLs\<close>

lemma start_http_result:
  "\<exists>http. start_http = Inr http \<and> http_ok http \<and>
     list_elems (http_patterns http) = [bytes_of ''/block/'', bytes_of ''/block/:/''] \<and>
     list_elems (http_handlers http) = [On_http_blocks_request, On_http_block_request]"
proof -
  have wf: "wf_pattern (bytes_of ''/block/'')" "wf_pattern (bytes_of ''/block/:/'')"
    by (simp_all add: bytes_of_def of_char_def)
  have "list_elems (http_patterns http_create) = []" "list_elems (http_handlers http_create) = []"
    by (simp_all add: http_create_def)
  with http_register_result [OF http_ok_create wf(1), of On_http_blocks_request]
  obtain h1 where h1: "http_register http_create (bytes_of ''/block/'') On_http_blocks_request = Inr h1" "http_ok h1"
      "list_elems (http_patterns h1) = [bytes_of ''/block/'']" "list_elems (http_handlers h1) = [On_http_blocks_request]"
    by auto
  with http_register_result [OF h1(2) wf(2), of On_http_block_request] show ?thesis
    by (auto simp: start_http_def)
qed

lemma start_httpD:
  assumes "start_http = Inr http"
  shows "http_ok http" "list_elems (http_patterns http) = [bytes_of ''/block/'', bytes_of ''/block/:/'']"
    "list_elems (http_handlers http) = [On_http_blocks_request, On_http_block_request]"
proof -
  obtain http' where h: "start_http = Inr http'" "http_ok http'"
      "list_elems (http_patterns http') = [bytes_of ''/block/'', bytes_of ''/block/:/'']"
      "list_elems (http_handlers http') = [On_http_blocks_request, On_http_block_request]"
    using start_http_result by blast
  from h(1) assms have "http' = http" by (metis Inr_inject)
  with h show "http_ok http" "list_elems (http_patterns http) = [bytes_of ''/block/'', bytes_of ''/block/:/'']"
      "list_elems (http_handlers http) = [On_http_blocks_request, On_http_block_request]"
    by simp_all
qed

lemma fills_no_colon: "58 \<notin> set p \<Longrightarrow> fills p u ps \<longleftrightarrow> u = p \<and> ps = []"
proof (induction p arbitrary: u)
  case (Cons c p)
  then have "c \<noteq> 58" "58 \<notin> set p" by auto
  then show ?case using Cons.IH by (auto simp: fills_char_iff)
qed auto

lemma block_bytes: "bytes_of ''/block/'' = [47, 98, 108, 111, 99, 107, 47]"
  "bytes_of ''/block/:/'' = [47, 98, 108, 111, 99, 107, 47, 58, 47]"
  by (simp_all add: bytes_of_def of_char_def)

lemma blocks_url: "url_matches (bytes_of ''/block/'') (bytes_of ''/block/'') []"
  by (simp add: url_matches_def fills_no_colon block_bytes)

lemma block_url_other:
  assumes "arg \<noteq> []" "47 \<notin> set arg"
  shows "\<not> url_matches (bytes_of ''/block/'') (bytes_of ''/block/'' @ arg) qs"
  unfolding url_matches_def
proof (intro notI, elim disjE exE conjE)
  have nc: "58 \<notin> set (bytes_of ''/block/'')" by (simp add: block_bytes)
  show False if "fills (bytes_of ''/block/'') (bytes_of ''/block/'' @ arg) qs"
    using that assms(1) by (simp add: fills_no_colon [OF nc])
  show False if "bytes_of ''/block/'' @ arg = u' @ [47]" "fills (bytes_of ''/block/'') u' qs" for u'
    using that assms by (metis fills_no_colon [OF nc] last_in_set last_snoc last_appendR)
  show False if "bytes_of ''/block/'' = p' @ [47]" "fills p' (bytes_of ''/block/'' @ arg) qs" for p'
  proof -
    have "58 \<notin> set p'" using that(1) nc by auto
    then have "p' = bytes_of ''/block/'' @ arg" using that(2) by (simp add: fills_no_colon)
    then show False using arg_cong [OF that(1), of length] by simp
  qed
qed

lemma block_url:
  assumes "47 \<notin> set arg"
  shows "url_matches (bytes_of ''/block/:/'') (bytes_of ''/block/'' @ arg) [arg]"
proof -
  have "fills [58] (arg @ []) [arg]" by (rule fills_param [OF assms fills_end])
  then have "fills [47, 98, 108, 111, 99, 107, 47, 58] ([47, 98, 108, 111, 99, 107, 47] @ arg) [arg]"
    by (simp add: fills_char_iff)
  moreover have "bytes_of ''/block/:/'' = [47, 98, 108, 111, 99, 107, 47, 58] @ [47]" by (simp add: block_bytes)
  ultimately show ?thesis unfolding url_matches_def block_bytes(1) by blast
qed

section \<open>Properties of the HTTP server\<close>

text \<open>
  A request that arrives in one read on a new connection: method, URL, and the rest of the header, which
  ends after \<open>e\<close> bytes; behind it the block holds whatever was in memory.
\<close>

definition http_get :: "byte list \<Rightarrow> byte list \<Rightarrow> nat \<Rightarrow> bool" where
  "http_get url block e \<longleftrightarrow>
     (\<exists>verb c v. block = verb @ 32 # url @ 32 # c # v \<and> word_chars 7 verb \<and> word_chars 2047 url \<and> \<not> isspace c) \<and>
     length block < 2 ^ 30 \<and> header_end block = Some e"

definition http_answers ::
  "sodium \<Rightarrow> node_t \<Rightarrow> http_request_handler http_t \<Rightarrow> byte list \<Rightarrow> nat \<Rightarrow> byte list \<Rightarrow> bool" where
  "http_answers S nd http block e text \<longleftrightarrow>
     (\<exists>ctx. http_on_read (call_http S nd) http (int e) block \<lparr>cl_buf = dynamic_buffer_create 32\<rparr> =
        Inr ([Http_write text], ctx) \<and> dbuf_bytes (cl_buf ctx) = drop e block)"

lemma block_request_answered:
  assumes "start_http = Inr http" and "http_get (bytes_of ''/block/'' @ arg) block e"
    and "47 \<notin> set arg" "58 \<notin> set arg" "arg \<noteq> []"
    and a: "http_answer S nd On_http_block_request [arg] = Some (code, body)"
  shows "http_answers S nd http block e (response_text code body)"
proof -
  obtain verb c v where b: "block = verb @ 32 # (bytes_of ''/block/'' @ arg) @ 32 # c # v" "word_chars 7 verb"
      "word_chars 2047 (bytes_of ''/block/'' @ arg)" "\<not> isspace c" "length block < 2 ^ 30" "header_end block = Some e"
    using assms(2) unfolding http_get_def by blast
  note http = start_httpD [OF assms(1)]
  have nc: "58 \<notin> set (bytes_of ''/block/'' @ arg)" using assms(4) by (simp add: block_bytes)
  show ?thesis
    unfolding http_answers_def
    by (rule api.request_answered [OF http(1) nc b(3,2,4,1,5,6), where i = 1 and ps = "[arg]"])
      (use http(2,3) block_url [OF assms(3)] block_url_other [OF assms(5,3)] a in simp_all)
qed



text \<open>
  C30: A colon in a URL. The characters of pattern and URL are compared before the wildcard is looked
  at, so for the URL \<open>/block/:\<close> the colon of the pattern is taken as an ordinary character: the
  request matches with no parameter, and the handler's access to it fails an assertion. One such
  request from anybody ends the node, whatever its state.
\<close>

theorem http_colon_aborts:
  assumes "start_http = Inr http" and "http_get (bytes_of ''/block/:'') block e" and "0 \<le> nread"
  shows "http_on_read (call_http S nd) http nread block \<lparr>cl_buf = dynamic_buffer_create 32\<rparr> = Inl Assert_failed"
proof -
  let ?url = "[47, 98, 108, 111, 99, 107, 47, 58] :: byte list"
  have url: "bytes_of ''/block/:'' = ?url" by (simp add: bytes_of_def of_char_def)
  obtain verb c v where b: "block = verb @ 32 # ?url @ 32 # c # v" "word_chars 7 verb"
      "word_chars 2047 ?url" "\<not> isspace c" "length block < 2 ^ 30" "header_end block = Some e"
    using assms(2) unfolding http_get_def url by blast
  note h = start_httpD [OF assms(1)]
  note D = http_okD [OF h(1), unfolded h(2,3)]
  have "resolve_pattern (list_create 2) [47, 98, 108, 111, 99, 107, 47] ?url = Inr (False, list_create 2)"
    by (simp add: resolve_pattern.simps)
  then have r0: "request_create (bytes_of ''/block/'') ?url = Inr None"
    by (simp add: request_create_def block_bytes list_destroy_def list_create_def)
  have "resolve_pattern (list_create 2) [47, 98, 108, 111, 99, 107, 47, 58, 47] ?url = Inr (True, list_create 2)"
    by (simp add: resolve_pattern.simps)
  then have r1: "request_create (bytes_of ''/block/:/'') ?url = Inr (Some \<lparr>req_url = ?url, req_params = list_create 2\<rparr>)"
    by (simp add: request_create_def block_bytes)
  have fail: "call_http S nd On_http_block_request \<lparr>req_url = ?url, req_params = list_create 2\<rparr> response_create = Inl Assert_failed"
    by (simp add: call_http_def on_http_block_request_def request_get_param_def list_get_def list_create_def)
  have "try_patterns (call_http S nd) http ?url [0, 1] = Inl Assert_failed"
    using D(2,3) [of 0] D(2,3) [of 1] r0 r1 fail by simp
  moreover have "[0..<list_size (http_patterns http)] = [0, 1]" using D(1) by (simp add: upt_rec)
  ultimately have "on_request (call_http S nd) http block = Inl Assert_failed"
    using sscanf_request_result [OF b(2-4), of v] by (simp add: on_request_def b(1))
  then show ?thesis
    using http_on_read_result(2) [of "\<lparr>cl_buf = dynamic_buffer_create 32\<rparr>" nread block block e "call_http S nd" http]
      dbuf_ok_create [of 32] b(5,6) assms(3) by auto
qed

section \<open>Witnesses of the HTTP properties\<close>

lemma header_end_first:
  "13 \<notin> set xs \<Longrightarrow> header_end (xs @ CRLF @ CRLF @ r) = Some (length xs + 4)"
proof (induction xs)
  case (Cons x xs)
  then have "take 4 (x # xs @ CRLF @ CRLF @ r) \<noteq> CRLF @ CRLF" by (auto simp: CRLF_def)
  then show ?case using Cons by simp
qed (simp add: CRLF_def)

definition get_request :: "byte list \<Rightarrow> byte list" where
  "get_request url = bytes_of ''GET '' @ url @ bytes_of '' HTTP/1.0''"

lemma http_get_request:
  assumes "word_chars 2047 url" "13 \<notin> set url" "length junk < 2 ^ 29"
  shows "http_get url (get_request url @ CRLF @ CRLF @ junk) (length url + 17)"
proof -
  have "get_request url @ CRLF @ CRLF @ junk =
      bytes_of ''GET'' @ 32 # url @ 32 # 72 # bytes_of ''TTP/1.0'' @ CRLF @ CRLF @ junk"
    by (simp add: get_request_def bytes_of_def of_char_def)
  moreover have "word_chars 7 (bytes_of ''GET'')" "\<not> isspace 72"
    by (simp_all add: word_chars_def bytes_of_def of_char_def isspace_def)
  moreover have "header_end (get_request url @ CRLF @ CRLF @ junk) = Some (length url + 17)"
    using assms(2) by (subst header_end_first) (simp_all add: get_request_def bytes_of_def of_char_def)
  moreover have "length (get_request url @ CRLF @ CRLF @ junk) < 2 ^ 30"
    using assms(1,3) by (simp add: get_request_def bytes_of_def CRLF_def word_chars_def)
  ultimately show ?thesis using assms(1) unfolding http_get_def by blast
qed

theorem http_colon_aborts_witness:
  "\<exists>http. start_http = Inr http \<and>
     http_on_read (call_http toy (node_create toy)) http 25 (get_request (bytes_of ''/block/:'') @ CRLF @ CRLF @ [1, 2, 3])
       \<lparr>cl_buf = dynamic_buffer_create 32\<rparr> = Inl Assert_failed"
proof -
  obtain http where h: "start_http = Inr http" using start_http_result by blast
  have "http_get (bytes_of ''/block/:'') (get_request (bytes_of ''/block/:'') @ CRLF @ CRLF @ [1, 2, 3]) (length (bytes_of ''/block/:'') + 17)"
    by (rule http_get_request) (simp_all add: word_chars_def bytes_of_def of_char_def isspace_def)
  from http_colon_aborts [OF h this] h show ?thesis by auto
qed

text \<open>A node with one block, and the size of its JSON text.\<close>

lemma sample_block:
  obtains nd where "node_ok toy nd" "registered (n_chain nd) = {0}" "printable (n_store nd) 0"
    "length (render (block_json toy (n_store nd) 0)) < 2000" "chain (n_store nd) (principal (n_chain nd)) = [0]"
proof -
  obtain nd where nd: "node_ok toy nd" "principal (n_chain nd) = Some 0" "registered (n_chain nd) = {0}"
    "s_blocks (n_store nd) = [Some (blk (n_store nd) 0)]" "prev_block (blk (n_store nd) 0) = None"
    "timestamp (blk (n_store nd) 0) = 7" "entries (n_store nd) (Some 0) = [\<lparr>creator = replicate 32 1, transfers = []\<rparr>]"
    "pool_txns (n_store nd) (n_pool nd) = [pending_txn]"
    by (rule sample_node)
  let ?st = "n_store nd" and ?x = "blk (n_store nd) 0"
  have a: "alive (s_blocks ?st) 0" using tree_okD(2) [OF node_okD(5) [OF nd(1)]] nd(3) by simp
  note L = good_block_lengths [OF toy_ok node_okD(1) [OF nd(1)] a]
  have ch: "chain ?st (Some 0) = [0]" using nd(5) by (simp add: chain_Some)
  then have t: "list_elems (transactions ?x) = []" using nd(7) by (simp add: entries_def block_entry_def)
  have s: "siblings ?st 0 = []" by (simp add: siblings_def nd(5))
  have h: "height ?x = 1" using good_storeD(1) [OF node_okD(1) [OF nd(1)] a] nd(5) by (simp add: body_ok_def)
  have p: "printable ?st 0"
    by (simp add: printable_def header_printable_def s t block_txns_def nd(6) double_of_exact)
  have d: "decimal 7 = [55]" "decimal 1 = [49]" "decimal 0 = [48]" by (simp_all add: decimal.simps)
  have "length (render (block_json toy ?st 0)) < 2000"
    using L s t h nd(6) d
    by (simp add: block_json_def header_json_def Let_def block_txns_def quoted_def bytes_of_def double_of_exact)
  then show ?thesis using that [of nd] nd(1,2,3) p ch by simp
qed



section \<open>The commands\<close>

lemma start_cli_result:
  "\<exists>cli. start_cli = Inr cli \<and> cli_ok cli \<and>
     list_elems (cli_command cli) = [bytes_of ''value'', bytes_of ''public_key'', bytes_of ''send'', bytes_of ''pool''] \<and>
     list_elems (cli_handler cli) = [Value_command, Public_key_command, Send_command, Pool_command]"
proof -
  have names: "bytes_of ''value'' = [118, 97, 108, 117, 101]" "bytes_of ''public_key'' = [112, 117, 98, 108, 105, 99, 95, 107, 101, 121]"
    "bytes_of ''send'' = [115, 101, 110, 100]" "bytes_of ''pool'' = [112, 111, 111, 108]"
    by (simp_all add: bytes_of_def of_char_def)
  have "list_elems (cli_command (cli_create :: command cli_t)) = []" "list_elems (cli_handler (cli_create :: command cli_t)) = []"
    by (simp_all add: cli_create_def)
  with cli_add_command_result [OF cli_ok_create, of "bytes_of ''value''" "bytes_of ''Get current account value''" Value_command]
  obtain c1 where c1: "cli_add_command cli_create (bytes_of ''value'') (bytes_of ''Get current account value'') Value_command = Inr c1"
      "cli_ok c1" "list_elems (cli_command c1) = [bytes_of ''value'']" "list_elems (cli_handler c1) = [Value_command]" by auto
  with cli_add_command_result [OF c1(2), of "bytes_of ''public_key''" "bytes_of ''Get current public key''" Public_key_command]
  obtain c2 where c2: "cli_add_command c1 (bytes_of ''public_key'') (bytes_of ''Get current public key'') Public_key_command = Inr c2"
      "cli_ok c2" "list_elems (cli_command c2) = [bytes_of ''value'', bytes_of ''public_key'']"
      "list_elems (cli_handler c2) = [Value_command, Public_key_command]" by (auto simp: names)
  with cli_add_command_result [OF c2(2), of "bytes_of ''send''" "bytes_of ''Send value to recipient''" Send_command]
  obtain c3 where c3: "cli_add_command c2 (bytes_of ''send'') (bytes_of ''Send value to recipient'') Send_command = Inr c3"
      "cli_ok c3" "list_elems (cli_command c3) = [bytes_of ''value'', bytes_of ''public_key'', bytes_of ''send'']"
      "list_elems (cli_handler c3) = [Value_command, Public_key_command, Send_command]" by (auto simp: names)
  with cli_add_command_result [OF c3(2), of "bytes_of ''pool''" "bytes_of ''Get transaction pool info''" Pool_command]
  show ?thesis using c1(1) c2(1) by (auto simp: start_cli_def names)
qed

lemma start_cliD:
  assumes "start_cli = Inr cli"
  shows "cli_ok cli"
    "list_elems (cli_command cli) = [bytes_of ''value'', bytes_of ''public_key'', bytes_of ''send'', bytes_of ''pool'']"
    "list_elems (cli_handler cli) = [Value_command, Public_key_command, Send_command, Pool_command]"
  using start_cli_result assms by (metis Inr_inject)+

lemma strtok_last: "w \<noteq> [] \<Longrightarrow> 32 \<notin> set w \<Longrightarrow> strtok_all w = [w]"
proof -
  assume w: "w \<noteq> []" "32 \<notin> set w"
  then have a: "dropWhile (\<lambda>c. c = 32) w = w" by (cases w) auto
  have "\<forall>c \<in> set w. c \<noteq> 32" using w(2) by auto
  then have b: "takeWhile (\<lambda>c. c \<noteq> 32) w = w" and c: "dropWhile (\<lambda>c. c \<noteq> 32) w = []"
    by (simp_all add: takeWhile_eq_all_conv dropWhile_eq_Nil_conv)
  have "strtok_all [] = []" by (simp add: strtok_all.simps)
  then show ?thesis using w(1) by (subst strtok_all.simps) (simp only: Let_def a b c if_False)
qed

lemma strtok_space: "strtok_all (32 # s) = strtok_all s"
  by (subst (1 2) strtok_all.simps) simp

lemma strtok_word: "w \<noteq> [] \<Longrightarrow> 32 \<notin> set w \<Longrightarrow> strtok_all (w @ 32 # s) = w # strtok_all s"
proof -
  assume w: "w \<noteq> []" "32 \<notin> set w"
  then have "dropWhile (\<lambda>c. c = 32) (w @ 32 # s) = w @ 32 # s" by (cases w) auto
  moreover have "\<forall>c \<in> set w. c \<noteq> 32" using w(2) by auto
  then have "takeWhile (\<lambda>c. c \<noteq> 32) (w @ 32 # s) = w" "dropWhile (\<lambda>c. c \<noteq> 32) (w @ 32 # s) = 32 # s"
    by (simp_all add: takeWhile_append2 dropWhile_append2)
  ultimately show ?thesis using w(1) by (subst strtok_all.simps) (simp add: strtok_space)
qed

text \<open>Running the command at position \<open>i\<close> of the table.\<close>

lemma command_line:
  assumes "start_cli = Inr cli" "0 \<notin> set line" "strtok_all line = list_elems (cli_command cli) ! i # words" "i < 4"
  shows "\<exists>args. list_ok args \<and> list_elems args = list_elems (cli_command cli) ! i # words \<and>
    read_stdin (call_command env) cli (int (length line) + 1) (line @ 10 # rest) s =
      bindR (call_command env (list_elems (cli_handler cli) ! i) args s) (\<lambda>(result, text, s').
        Inr (text @ (if result = 0 then [] else usage_text cli) @ bytes_of ''>>> '', s'))"
  using read_stdin_result [OF start_cliD(1) [OF assms(1)] assms(2) refl assms(3), where rest = rest and call = "call_command env" and s = s] assms(4)
    start_cliD(2) [OF assms(1)] by simp

lemma atoll_decimal: "int v < 2 ^ 63 \<Longrightarrow> atoll (decimal v) = Inr (int v)"
  by (simp add: atoll_def scan_int_decimal)

lemma hex_to_binary_result: "length bs = 32 \<Longrightarrow> hex_to_binary (hex_string bs) 32 = Inr (Some bs)"
  using from_hex_loop_digits [OF hex_string_digits, of bs 32 0 33 "replicate 32 (Some 0)" 0]
  by (simp add: hex_to_binary_def comp_def)

lemma send_step_result:
  assumes S: "sodium_ok (e_sodium env) kp" "kp (k_public (e_keys env)) (k_secret (e_keys env))"
    and nd: "node_ok (e_sodium env) (w_node (snd s))" and r: "length recipient = 32"
  shows "\<exists>s' t. send_step env recipient value s = Inr s' \<and> fst s' = fst s \<and> node_ok (e_sodium env) (w_node (snd s')) \<and>
    n_chain (w_node (snd s')) = n_chain (w_node (snd s)) \<and>
    txn_ok (e_sodium env) t \<and> tsender t = k_public (e_keys env) \<and> trecipient t = recipient \<and> tvalue t = value \<and> tnonce t = 0 \<and>
    pool_txns (n_store (w_node (snd s'))) (n_pool (w_node (snd s'))) =
      pool_txns (n_store (w_node (snd s))) (n_pool (w_node (snd s))) @
      (if thash t \<in> thash ` set (pool_txns (n_store (w_node (snd s))) (n_pool (w_node (snd s)))) then [] else [t])"
proof -
  let ?S = "e_sodium env" and ?keys = "e_keys env"
  obtain t where t: "transaction_create ?S (k_public ?keys) (k_secret ?keys) recipient value 0 = Inr t" "txn_sized t"
      "tsender t = k_public ?keys" "trecipient t = recipient" "tvalue t = value" "tnonce t = 0"
      "thash t = generichash ?S (enc (T_tuple (txn_body t)))" "tsignature t = sign_detached ?S (thash t) (k_secret ?keys)"
    using transaction_create_result [OF S(1) sodium_keypair(1) [OF S] r] by blast
  have "sign_verify_detached ?S (tsignature t) (thash t) (tsender t)"
    unfolding t(3,8) by (rule sodium_keypair(2) [OF S])
  then have ok: "txn_ok ?S t" using t(2,7) by (simp add: txn_ok_def del: enc.simps)
  from pool_take_result [OF S(1) nd ok] obtain nd' where nd': "pool_take ?S (w_node (snd s)) t = Inr nd'" "node_ok ?S nd'"
      "n_chain nd' = n_chain (w_node (snd s))"
      "pool_txns (n_store nd') (n_pool nd') = pool_txns (n_store (w_node (snd s))) (n_pool (w_node (snd s))) @
        (if thash t \<in> thash ` set (pool_txns (n_store (w_node (snd s))) (n_pool (w_node (snd s)))) then [] else [t])"
    by blast
  have "send_step env recipient value s = Inr (fst s, snd s\<lparr>w_node := nd', w_ticks := Suc (w_ticks (snd s))\<rparr>)"
    using t(1) nd'(1) by (simp add: send_step_def send_value_def emit_all_def)
  then show ?thesis using nd' ok t(3-6) by (intro exI [of _ "(fst s, snd s\<lparr>w_node := nd', w_ticks := Suc (w_ticks (snd s))\<rparr>)"] exI [of _ t]) simp
qed

section \<open>Properties of the commands\<close>

text \<open>
  C26: The command \<open>send <value> <recipient>\<close>, from the line typed to the pool: it is a step of the
  program, the network is not touched and the chain stays, and the pool gets one more transaction,
  signed with the node's key and valid, of this value to this recipient (unless the pool has it
  already). Only the prompt is printed.
\<close>

theorem send_line_pools_transaction:
  assumes cli: "start_cli = Inr cli"
    and S: "sodium_ok (e_sodium env) kp" "kp (k_public (e_keys env)) (k_secret (e_keys env))"
    and nd: "node_ok (e_sodium env) (w_node (snd s))"
    and line: "line = bytes_of ''send'' @ 32 # decimal v @ 32 # hex_string recipient"
    and "length recipient = 32" and "v < 2 ^ 63"
  shows "\<exists>s' t. read_stdin (call_command env) cli (int (length line) + 1) (line @ 10 # rest) s = Inr (bytes_of ''>>> '', s') \<and>
    host_step env s s' \<and> fst s' = fst s \<and> node_ok (e_sodium env) (w_node (snd s')) \<and>
    n_chain (w_node (snd s')) = n_chain (w_node (snd s)) \<and>
    txn_ok (e_sodium env) t \<and> tsender t = k_public (e_keys env) \<and> trecipient t = recipient \<and> tvalue t = of_nat v \<and>
    pool_txns (n_store (w_node (snd s'))) (n_pool (w_node (snd s'))) =
      pool_txns (n_store (w_node (snd s))) (n_pool (w_node (snd s))) @
      (if thash t \<in> thash ` set (pool_txns (n_store (w_node (snd s))) (n_pool (w_node (snd s)))) then [] else [t])"
proof -
  obtain s' t where st: "send_step env recipient (of_nat v) s = Inr s'" "fst s' = fst s" "node_ok (e_sodium env) (w_node (snd s'))"
      "n_chain (w_node (snd s')) = n_chain (w_node (snd s))" "txn_ok (e_sodium env) t" "tsender t = k_public (e_keys env)"
      "trecipient t = recipient" "tvalue t = of_nat v"
      "pool_txns (n_store (w_node (snd s'))) (n_pool (w_node (snd s'))) =
        pool_txns (n_store (w_node (snd s))) (n_pool (w_node (snd s))) @
        (if thash t \<in> thash ` set (pool_txns (n_store (w_node (snd s))) (n_pool (w_node (snd s)))) then [] else [t])"
    using send_step_result [OF S nd assms(6), of "of_nat v"] by blast
  have dec: "c \<noteq> 32 \<and> c \<noteq> 0" if "c \<in> set (decimal v)" for c using decimal_no_nul [OF that] by auto
  have hex: "c \<noteq> 32 \<and> c \<noteq> 0" if "c \<in> set (hex_string recipient)" for c using hex_string_chars [OF that] by auto
  have ne: "hex_string recipient \<noteq> []" using assms(6) by (metis length_hex_string list.size(3) mult_eq_0_iff zero_neq_numeral)
  have sb: "bytes_of ''send'' = [115, 101, 110, 100]" by (simp add: bytes_of_def of_char_def)
  have words: "strtok_all line = bytes_of ''send'' # [decimal v, hex_string recipient]"
  proof -
    have h: "strtok_all (hex_string recipient) = [hex_string recipient]" using hex ne by (intro strtok_last) auto
    have d: "strtok_all (decimal v @ 32 # hex_string recipient) = decimal v # strtok_all (hex_string recipient)"
      using dec by (intro strtok_word) auto
    show ?thesis unfolding line by (subst strtok_word) (simp_all add: d h sb)
  qed
  have "0 \<notin> set line" using dec hex by (auto simp: line sb)
  from command_line [OF cli this, of 2 "[decimal v, hex_string recipient]" env rest s] words start_cliD(2,3) [OF cli]
  obtain args where args: "list_ok args" "list_elems args = [bytes_of ''send'', decimal v, hex_string recipient]"
      "read_stdin (call_command env) cli (int (length line) + 1) (line @ 10 # rest) s =
        bindR (call_command env Send_command args s) (\<lambda>(result, text, s').
          Inr (text @ (if result = 0 then [] else usage_text cli) @ bytes_of ''>>> '', s'))"
    by (auto simp: numeral_2_eq_2)
  have get: "list_get args 1 = Inr (decimal v)" "list_get args 2 = Inr (hex_string recipient)" "list_size args = 3"
    using args(1,2) by (simp_all add: list_get_elems list_size_elems)
  have "handle_send_command env args s = Inr (0, [], s')"
    using get atoll_decimal [of v] hex_to_binary_result [OF assms(6)] st(1) assms(7)
    by (simp add: handle_send_command_def sodium_sizes [OF S(1)])
  then have "read_stdin (call_command env) cli (int (length line) + 1) (line @ 10 # rest) s = Inr (bytes_of ''>>> '', s')"
    using args(3) by (simp add: call_command_def)
  moreover have "host_step env s s'" by (rule host_step.send [OF st(1)])
  ultimately show ?thesis using st(2-9) by blast
qed

text \<open>
  The command \<open>value\<close> prints the value that the ledger of the principal chain has for the node's
  own key, and 0 if it has none; the state does not change.
\<close>

theorem value_line_prints_ledger:
  assumes cli: "start_cli = Inr cli" and S: "sodium_ok (e_sodium env) kp" "kp (k_public (e_keys env)) (k_secret (e_keys env))"
    and nd: "node_ok (e_sodium env) (w_node (snd s))"
  shows "read_stdin (call_command env) cli 6 (bytes_of ''value'' @ 10 # rest) s =
    Inr (decimal (case ledger (n_store (w_node (snd s))) (principal (n_chain (w_node (snd s)))) (k_public (e_keys env)) of
           None \<Rightarrow> 0 | Some v \<Rightarrow> unat v) @ [10] @ bytes_of ''>>> '', s)"
proof -
  let ?st = "n_store (w_node (snd s))" and ?tip = "principal (n_chain (w_node (snd s)))" and ?pk = "k_public (e_keys env)"
  note N = node_okD [OF nd]
  have vb: "bytes_of ''value'' = [118, 97, 108, 117, 101]" by (simp add: bytes_of_def of_char_def)
  have "key_ok ?pk" using sodium_keypair(1) [OF S] by (simp add: key_ok_def)
  from block_get_account_lookup [OF N(4,7) this order_refl]
  have look: "block_get_account ?st ?tip ?pk = Inr (lookup ?st ?tip ?pk)" .
  have val: "handle_value_command (e_keys env) (w_node (snd s)) =
      Inr (case ledger ?st ?tip ?pk of None \<Rightarrow> 0 | Some v \<Rightarrow> v)"
  proof (cases "lookup ?st ?tip ?pk")
    case None
    then show ?thesis using look lookup_account(1) [OF N(4,7) None]
      by (simp add: handle_value_command_def blockchain_get_principal_def)
  next
    case (Some a)
    then show ?thesis using look lookup_account(2) [OF N(4,7) Some]
      by (simp add: handle_value_command_def blockchain_get_principal_def account_get_value_def)
  qed
  have "strtok_all (bytes_of ''value'') = [bytes_of ''value'']" by (intro strtok_last) (simp_all add: vb)
  moreover have "0 \<notin> set (bytes_of ''value'')" by (simp add: vb)
  ultimately show ?thesis
    using command_line [OF cli, of "bytes_of ''value''" 0 "[]" env rest s] start_cliD(2,3) [OF cli] val
    by (auto simp: call_command_def value_command_def vb split: option.split)
qed

lemma sample_host:
  obtains s :: host where "node_ok toy (w_node (snd s))" "principal (n_chain (w_node (snd s))) = Some 0"
    "entries (n_store (w_node (snd s))) (Some 0) = [\<lparr>creator = replicate 32 1, transfers = []\<rparr>]"
proof -
  obtain nd where nd: "node_ok toy nd" "principal (n_chain nd) = Some 0"
    "entries (n_store nd) (Some 0) = [\<lparr>creator = replicate 32 1, transfers = []\<rparr>]"
    by (rule sample_node)
  let ?s = "(network_create, \<lparr>w_node = nd, w_guids = 0, w_ticks = 0\<rparr>) :: host"
  show ?thesis using that [of ?s] nd by simp
qed

theorem send_line_pools_transaction_witness:
  "\<exists>cli s s' t. read_stdin (call_command toy_env) cli
       (int (length (bytes_of ''send'' @ 32 # decimal 5 @ 32 # hex_string (replicate 32 9))) + 1)
       ((bytes_of ''send'' @ 32 # decimal 5 @ 32 # hex_string (replicate 32 9)) @ 10 # []) s = Inr (bytes_of ''>>> '', s') \<and>
     node_ok toy (w_node (snd s')) \<and> txn_ok toy t \<and> tvalue t = 5 \<and> trecipient t = replicate 32 9 \<and>
     thash t \<in> thash ` set (pool_txns (n_store (w_node (snd s'))) (n_pool (w_node (snd s'))))"
proof -
  obtain s :: host where s: "node_ok toy (w_node (snd s))" by (rule sample_host)
  obtain cli where cli: "start_cli = Inr cli" using start_cli_result by blast
  have env: "e_sodium toy_env = toy" "e_keys toy_env = sample_keys" by (simp_all add: toy_env_def)
  have "length (replicate 32 (9 :: byte)) = 32" "5 < (2 :: nat) ^ 63" by simp_all
  from send_line_pools_transaction [OF cli, of toy_env toy_keypair s, unfolded env, OF toy_ok sample_keypair s refl this, of "[]"]
  obtain s' t where r: "read_stdin (call_command toy_env) cli
       (int (length (bytes_of ''send'' @ 32 # decimal 5 @ 32 # hex_string (replicate 32 9))) + 1)
       ((bytes_of ''send'' @ 32 # decimal 5 @ 32 # hex_string (replicate 32 9)) @ 10 # []) s = Inr (bytes_of ''>>> '', s')"
      "node_ok toy (w_node (snd s'))" "txn_ok toy t" "tvalue t = of_nat 5" "trecipient t = replicate 32 9"
      "pool_txns (n_store (w_node (snd s'))) (n_pool (w_node (snd s'))) =
        pool_txns (n_store (w_node (snd s))) (n_pool (w_node (snd s))) @
        (if thash t \<in> thash ` set (pool_txns (n_store (w_node (snd s))) (n_pool (w_node (snd s)))) then [] else [t])"
    by blast
  have "thash t \<in> thash ` set (pool_txns (n_store (w_node (snd s'))) (n_pool (w_node (snd s'))))"
    unfolding r(6) by auto
  then show ?thesis using r(1-5) by (intro exI [of _ cli] exI [of _ s] exI [of _ s'] exI [of _ t] conjI) simp_all
qed

theorem value_line_prints_ledger_witness:
  "\<exists>cli s. read_stdin (call_command toy_env) cli 6 (bytes_of ''value'' @ 10 # []) s =
     Inr (decimal 1024 @ [10] @ bytes_of ''>>> '', s)"
proof -
  obtain s :: host where s: "node_ok toy (w_node (snd s))" "principal (n_chain (w_node (snd s))) = Some 0"
    "entries (n_store (w_node (snd s))) (Some 0) = [\<lparr>creator = replicate 32 1, transfers = []\<rparr>]"
    by (rule sample_host)
  obtain cli where cli: "start_cli = Inr cli" using start_cli_result by blast
  have env: "e_sodium toy_env = toy" "e_keys toy_env = sample_keys" by (simp_all add: toy_env_def)
  have "ledger (n_store (w_node (snd s))) (Some 0) (replicate 32 1) = Some 1024"
    by (simp add: ledger_def s(3) apply_entry_def credit_def COINBASE_TRANSACTION_def)
  then have "read_stdin (call_command toy_env) cli 6 (bytes_of ''value'' @ 10 # []) s =
     Inr (decimal 1024 @ [10] @ bytes_of ''>>> '', s)"
    using value_line_prints_ledger [OF cli, of toy_env toy_keypair s "[]", unfolded env, OF toy_ok sample_keypair s(1)] s(2)
    by (simp add: sample_keys_def)
  then show ?thesis by (intro exI)
qed

end
