(* ===== verification/Shutdown.thy ===== *)
theory Shutdown
  imports NodeSafety
begin

text \<open>
  The end of the program: \<open>blockchain_destroy\<close> and \<open>pool_destroy\<close> free everything the node holds
  (the last lines of \<open>main\<close> in \<open>src/main/main.c\<close>). The blocks own their transactions, and so does the
  pool; the property says that the end is free of faults exactly if no transaction has two owners.
  A reorganisation gives one two owners: \<open>on_extended\<close> puts the transactions of the blocks it gives up
  into the pool, but the blocks stay in the tree and keep them.
\<close>

definition destroy_node :: "node_t \<Rightarrow> store res" where
  "destroy_node nd = bindR (blockchain_destroy (n_store nd) (n_chain nd)) (\<lambda>st. pool_destroy st (n_pool nd))"

section \<open>Freeing a list of addresses\<close>

abbreviation free_all :: "addr list \<Rightarrow> 'a heap \<Rightarrow> 'a heap res" where
  "free_all \<equiv> foldR (\<lambda>p h. heap_free h p)"

definition wipe :: "addr list \<Rightarrow> 'a heap \<Rightarrow> 'a heap" where
  "wipe = fold (\<lambda>p h. h[p := None])"

lemma wipe_simps [simp]: "wipe [] h = h" "wipe (p # ps) h = wipe ps (h[p := None])"
  by (simp_all add: wipe_def)

lemma length_wipe [simp]: "length (wipe ps h) = length h"
  by (induction ps arbitrary: h) simp_all

lemma nth_freed: "h[p := None] ! a = (if p = a \<and> a < length h then None else h ! a)"
  by (cases "p = a"; cases "a < length h") (simp_all add: list_update_beyond)

lemma wipe_nth: "wipe ps h ! a = (if a \<in> set ps \<and> a < length h then None else h ! a)"
  by (induction ps arbitrary: h) (auto simp: nth_freed)

lemma alive_wipe: "alive (wipe ps h) a \<longleftrightarrow> alive h a \<and> a \<notin> set ps"
  by (auto simp: alive_def wipe_nth)

text \<open>The second time an address comes up it has been freed.\<close>

lemma free_all_result:
  assumes "\<forall>p \<in> set ps. p < length h"
  shows "free_all ps h = (if distinct ps \<and> (\<forall>p \<in> set ps. alive h p) then Inr (wipe ps h) else Inl Use_after_free)"
  using assms
proof (induction ps arbitrary: h)
  case (Cons p ps)
  show ?case
  proof (cases "alive h p")
    case True
    have "alive (h[p := None]) q \<longleftrightarrow> alive h q \<and> q \<noteq> p" for q by (auto simp: alive_def nth_freed)
    moreover have "free_all ps (h[p := None]) =
        (if distinct ps \<and> (\<forall>p' \<in> set ps. alive (h[p := None]) p') then Inr (wipe ps (h[p := None])) else Inl Use_after_free)"
      using Cons.prems by (intro Cons.IH) simp
    ultimately show ?thesis using True by auto
  next
    case False
    moreover from this Cons.prems have "heap_free h p = Inl Use_after_free"
      by (simp add: heap_free_def heap_load_def alive_def)
    ultimately show ?thesis by simp
  qed
qed simp

section \<open>A block\<close>

text \<open>The addresses of the accounts that the map of a block owns.\<close>

definition owned_accounts :: "store \<Rightarrow> addr \<Rightarrow> (byte list, addr) destructor_call list \<Rightarrow> addr list \<Rightarrow> bool" where
  "owned_accounts st b calls as \<longleftrightarrow> map_destroy (accounts (blk st b)) = Inr calls \<and> distinct as \<and>
     (\<forall>a \<in> set as. alive (s_accounts st) a \<and> ablock (obj (s_accounts st) a) = b) \<and>
     (\<forall>h. foldR free_account calls h = free_all as h)"

lemma owned_accounts_exist:
  assumes "good_store S st" "alive (s_blocks st) b"
  shows "\<exists>calls as. owned_accounts st b calls as"
proof -
  let ?m = "accounts (blk st b)"
  have A: "accounts_ok st b (blk st b)" by (rule good_storeD(2) [OF assms])
  have inj: "k = k'" if "map_abs ?m k = Some a" "map_abs ?m k' = Some a" for k k' a
    using A that by (auto simp: accounts_ok_def)
  obtain es where es: "map_destroy ?m = Inr (concat (map (entry_destroy ?m) es))" "distinct (map ekey es)"
      "ekey ` set es = dom (map_abs ?m)" "\<forall>e \<in> set es. eval e = map_abs ?m (ekey e)"
    using map_destroy_entries [of key_ok ?m] A by (auto simp: accounts_ok_def)
  have ev: "\<forall>e \<in> set es. eval e \<noteq> None" using es(3,4) by auto
  have some: "map_abs ?m (ekey e) = Some (the (eval e))" if "e \<in> set es" for e
    using that es(4) ev by (metis option.collapse)
  have "inj_on (\<lambda>e. the (eval e)) (set es)"
  proof (rule inj_onI)
    fix e1 e2 assume e: "e1 \<in> set es" "e2 \<in> set es" "the (eval e1) = the (eval e2)"
    then have "ekey e1 = ekey e2" using inj some by metis
    then show "e1 = e2" using es(2) e(1,2) by (simp add: distinct_map inj_on_def)
  qed
  then have "distinct (map (\<lambda>e. the (eval e)) es)" using es(2) by (simp add: distinct_map)
  moreover have "alive (s_accounts st) (the (eval e)) \<and> ablock (obj (s_accounts st) (the (eval e))) = b"
    if "e \<in> set es" for e
    using A some [OF that] by (auto simp: accounts_ok_def)
  ultimately show ?thesis
    using es(1) free_accounts_calls [OF ev]
    by (intro exI [of _ "concat (map (entry_destroy ?m) es)"]
        exI [of _ "if m_destroy_val ?m then map (\<lambda>e. the (eval e)) es else []"])
      (auto simp: owned_accounts_def)
qed

text \<open>
  Destroying one of the blocks of \<open>st0\<close>: the block and its accounts are still there in \<open>st\<close>, so only
  its transactions decide whether this is a fault.
\<close>

lemma block_destroy_run:
  assumes st0: "good_store S st0" "alive (s_blocks st0) b" and own: "owned_accounts st0 b calls as"
    and same: "length (s_blocks st) = length (s_blocks st0)" "s_blocks st ! b = s_blocks st0 ! b"
      "\<forall>a \<in> set as. alive (s_accounts st) a"
  shows "block_destroy st (Some b) = bindR (free_all (block_ptrs st0 b) (s_txns st)) (\<lambda>txns.
    Inr (st\<lparr>s_txns := txns, s_accounts := wipe as (s_accounts st), s_blocks := (s_blocks st)[b := None]\<rparr>))"
proof -
  have B: "body_ok st0 b (blk st0 b)" "authentic S st0 (blk st0 b)" using good_storeD [OF st0] by simp_all
  have al: "alive (s_blocks st) b" using st0(2) same(1,2) by (simp add: alive_def)
  have "\<forall>p \<in> set (list_elems (transactions (blk st0 b))). p \<noteq> None"
    using B(2) unfolding authentic_def txns_ok_def by fastforce
  then have "map (Some \<circ> the) (list_elems (transactions (blk st0 b))) = list_elems (transactions (blk st0 b))"
    by (intro map_idI) auto
  then have ptrs: "list_elems (transactions (blk st0 b)) = map Some (block_ptrs st0 b)"
    by (simp add: block_ptrs_def)
  have rd: "list_destroy (transactions (blk st0 b)) True = Inr (map Some (block_ptrs st0 b))"
    using list_destroy_rd [of "transactions (blk st0 b)"] B(1) ptrs by (simp add: body_ok_def)
  have acc: "foldR free_account calls (s_accounts st) = Inr (wipe as (s_accounts st))"
    using own same(3) free_all_result [of as "s_accounts st"] by (auto simp: owned_accounts_def alive_less)
  have calls: "map_destroy (accounts (blk st0 b)) = Inr calls" using own by (simp add: owned_accounts_def)
  have x: "heap_load (s_blocks st) b = Inr (blk st0 b)" using al same(2) by simp
  show ?thesis
    using al by (cases "free_all (block_ptrs st0 b) (s_txns st)")
      (simp_all add: block_destroy_def x rd free_ptrs_Some calls acc del: heap_load_alive)
qed

section \<open>The tree\<close>

lemma bindR_case: "bindR (bindR m (\<lambda>x. Inr (f x))) g = bindR m (\<lambda>x. g (f x))"
  by (cases m) simp_all

lemma blocks_destroy_run:
  assumes st0: "good_store S st0" and "distinct bs" "\<forall>b \<in> set bs. alive (s_blocks st0) b"
    and own: "\<And>b. b \<in> set bs \<Longrightarrow> owned_accounts st0 b (calls b) (as b)"
    and "length (s_blocks st) = length (s_blocks st0)" "\<forall>b \<in> set bs. s_blocks st ! b = s_blocks st0 ! b"
      "\<forall>b \<in> set bs. \<forall>a \<in> set (as b). alive (s_accounts st) a"
  shows "foldR (\<lambda>b st. block_destroy st (Some b)) bs st =
    bindR (free_all (concat (map (block_ptrs st0) bs)) (s_txns st)) (\<lambda>txns.
      Inr (st\<lparr>s_txns := txns, s_accounts := wipe (concat (map as bs)) (s_accounts st), s_blocks := wipe bs (s_blocks st)\<rparr>))"
  using assms(2-)
proof (induction bs arbitrary: st)
  case (Cons b bs)
  let ?st = "\<lambda>txns. st\<lparr>s_txns := txns, s_accounts := wipe (as b) (s_accounts st), s_blocks := (s_blocks st)[b := None]\<rparr>"
  have one: "block_destroy st (Some b) = bindR (free_all (block_ptrs st0 b) (s_txns st)) (\<lambda>txns. Inr (?st txns))"
    using Cons.prems by (intro block_destroy_run [OF st0]) auto
  have rest: "foldR (\<lambda>b st. block_destroy st (Some b)) bs (?st txns) =
      bindR (free_all (concat (map (block_ptrs st0) bs)) txns) (\<lambda>txns'.
        Inr ((?st txns)\<lparr>s_txns := txns', s_accounts := wipe (concat (map as bs)) (s_accounts (?st txns)),
          s_blocks := wipe bs (s_blocks (?st txns))\<rparr>))" for txns
  proof -
    have "alive (wipe (as b) (s_accounts st)) a" if "c \<in> set bs" "a \<in> set (as c)" for c a
    proof -
      have "ablock (obj (s_accounts st0) a) = c" using Cons.prems(3) [of c] that by (auto simp: owned_accounts_def)
      moreover have "ablock (obj (s_accounts st0) a) = b" if "a \<in> set (as b)"
        using Cons.prems(3) [of b] that by (auto simp: owned_accounts_def)
      ultimately have "a \<notin> set (as b)" using Cons.prems(1) that(1) by auto
      then show ?thesis using Cons.prems(6) that by (simp add: alive_wipe)
    qed
    moreover have "\<forall>c \<in> set bs. (s_blocks st)[b := None] ! c = s_blocks st0 ! c"
      using Cons.prems(1,5) by (auto simp: nth_freed)
    ultimately show ?thesis using Cons.prems Cons.IH [of "?st txns"] by simp
  qed
  have fold: "wipe (xs @ ys) h = wipe ys (wipe xs h)" for xs ys and h :: "'z heap" by (simp add: wipe_def)
  show ?case
    by (simp add: one bindR_case rest foldR_append bindR_assoc) (simp add: wipe_def)
qed simp

text \<open>The blocks that the tree destroys, in the order of its map.\<close>

lemma blockchain_destroy_run:
  assumes st: "good_store S st" and bc: "chain_state_ok st bc" "owns_blocks bc"
  shows "\<exists>bs as. distinct bs \<and> set bs = registered bc \<and> blockchain_destroy st bc =
    bindR (free_all (concat (map (block_ptrs st) bs)) (s_txns st)) (\<lambda>txns.
      Inr (st\<lparr>s_txns := txns, s_accounts := wipe as (s_accounts st), s_blocks := wipe bs (s_blocks st)\<rparr>))"
proof -
  let ?m = "bc_blocks bc"
  have t: "tree_ok st bc" "map_ok key_ok (bc_txns bc)" using bc(1) by (simp_all add: chain_state_ok_def txn_index_ok_def)
  obtain es where es: "map_destroy ?m = Inr (concat (map (entry_destroy ?m) es))" "distinct (map ekey es)"
      "ekey ` set es = dom (map_abs ?m)" "\<forall>e \<in> set es. eval e = map_abs ?m (ekey e)"
    using map_destroy_entries [OF tree_okD(1) [OF t(1)]] by blast
  have ev: "\<forall>e \<in> set es. map_abs ?m (ekey e) = Some (the (eval e))"
  proof
    fix e assume e: "e \<in> set es"
    then have "map_abs ?m (ekey e) \<noteq> None" using es(3) by auto
    then show "map_abs ?m (ekey e) = Some (the (eval e))" using es(4) e by simp
  qed
  let ?bs = "map (\<lambda>e. the (eval e)) es"
  have set: "set ?bs = registered bc"
  proof
    show "set ?bs \<subseteq> registered bc" using ev by (auto simp: registered_iff) blast
    show "registered bc \<subseteq> set ?bs"
    proof
      fix b assume "b \<in> registered bc"
      then obtain h where h: "map_abs ?m h = Some b" by (auto simp: registered_iff)
      then obtain e where "e \<in> set es" "ekey e = h" using es(3) by (metis domI imageE)
      then show "b \<in> set ?bs" using ev h by force
    qed
  qed
  have "inj_on (\<lambda>e. the (eval e)) (set es)"
  proof (rule inj_onI)
    fix e1 e2 assume e: "e1 \<in> set es" "e2 \<in> set es" "the (eval e1) = the (eval e2)"
    then have "ekey e1 = ekey e2" using ev tree_okD(6) [OF t(1)] by metis
    then show "e1 = e2" using es(2) e(1,2) by (simp add: distinct_map inj_on_def)
  qed
  then have d: "distinct ?bs" using es(2) by (simp add: distinct_map)
  have al: "\<forall>b \<in> set ?bs. alive (s_blocks st) b" unfolding set using tree_okD(2) [OF t(1)] by blast
  then have "\<forall>b. \<exists>calls as. b \<in> set ?bs \<longrightarrow> owned_accounts st b calls as" using owned_accounts_exist [OF st] by blast
  then obtain calls as where own: "\<And>b. b \<in> set ?bs \<Longrightarrow> owned_accounts st b (calls b) (as b)" by metis
  have "entry_destroy ?m e = (if m_destroy_key ?m then [Destroy_key (ekey e)] else []) @ [Destroy_val (Some (the (eval e)))]"
    if "e \<in> set es" for e
    using that ev es(4) bc(2) by (simp add: entry_destroy_def owns_blocks_def)
  then have fold: "foldR (\<lambda>c st. case c of Destroy_key _ \<Rightarrow> Inr st | Destroy_val v \<Rightarrow> block_destroy st v)
      (concat (map (entry_destroy ?m) es)) st' = foldR (\<lambda>b st. block_destroy st (Some b)) ?bs st'" for st'
  proof (induction es arbitrary: st')
    case (Cons e es)
    then show ?case by (cases "m_destroy_key ?m"; cases "block_destroy st' (Some (the (eval e)))") simp_all
  qed simp
  have run: "foldR (\<lambda>b st. block_destroy st (Some b)) ?bs st =
    bindR (free_all (concat (map (block_ptrs st) ?bs)) (s_txns st)) (\<lambda>txns.
      Inr (st\<lparr>s_txns := txns, s_accounts := wipe (concat (map as ?bs)) (s_accounts st), s_blocks := wipe ?bs (s_blocks st)\<rparr>))"
    using own by (intro blocks_destroy_run [OF st d al own]) (auto simp: owned_accounts_def)
  obtain calls' where "map_destroy (bc_txns bc) = Inr calls'" using map_destroy_entries [OF t(2)] by blast
  then have "blockchain_destroy st bc = foldR (\<lambda>b st. block_destroy st (Some b)) ?bs st"
    by (simp add: blockchain_destroy_def es(1) fold del: map_map)
  then show ?thesis unfolding run using d set by blast
qed

section \<open>The end of the node\<close>

text \<open>No transaction has two owners.\<close>

definition single_owner :: "node_t \<Rightarrow> bool" where
  "single_owner nd \<longleftrightarrow>
     (\<forall>b \<in> registered (n_chain nd). distinct (block_ptrs (n_store nd) b) \<and>
        set (block_ptrs (n_store nd) b) \<inter> set (list_elems (n_pool nd)) = {} \<and>
        (\<forall>c \<in> registered (n_chain nd). c \<noteq> b \<longrightarrow> set (block_ptrs (n_store nd) b) \<inter> set (block_ptrs (n_store nd) c) = {}))"

lemma distinct_concat_map:
  "distinct bs \<Longrightarrow> distinct (concat (map f bs)) \<longleftrightarrow>
     (\<forall>b \<in> set bs. distinct (f b) \<and> (\<forall>c \<in> set bs. c \<noteq> b \<longrightarrow> set (f b) \<inter> set (f c) = {}))"
  by (induction bs) (auto, blast+)

lemma pool_distinct: "pool_ok S st pool \<Longrightarrow> distinct (list_elems pool)"
  by (simp add: pool_ok_def pool_txns_def distinct_map)

lemma destroy_node_result:
  assumes nd: "node_ok S nd" "owns_blocks (n_chain nd)"
  shows "if single_owner nd
    then \<exists>st'. destroy_node nd = Inr st' \<and> (\<forall>b \<in> registered (n_chain nd). \<not> alive (s_blocks st') b) \<and>
      (\<forall>b \<in> registered (n_chain nd). \<forall>p \<in> set (block_ptrs (n_store nd) b). \<not> alive (s_txns st') p) \<and>
      (\<forall>p \<in> set (list_elems (n_pool nd)). \<not> alive (s_txns st') p)
    else destroy_node nd = Inl Use_after_free"
proof -
  let ?st = "n_store nd" and ?ps = "list_elems (n_pool nd)"
  note N = node_okD [OF nd(1)]
  obtain bs as where bs: "distinct bs" "set bs = registered (n_chain nd)" "blockchain_destroy ?st (n_chain nd) =
      bindR (free_all (concat (map (block_ptrs ?st) bs)) (s_txns ?st)) (\<lambda>txns.
        Inr (?st\<lparr>s_txns := txns, s_accounts := wipe as (s_accounts ?st), s_blocks := wipe bs (s_blocks ?st)\<rparr>))"
    using blockchain_destroy_run [OF N(1,2) nd(2)] by blast
  let ?all = "concat (map (block_ptrs ?st) bs) @ ?ps"
  have pd: "distinct ?ps" and pool: "list_ok (n_pool nd)" using N(3) pool_distinct by (auto simp: pool_ok_def)
  have single: "single_owner nd \<longleftrightarrow> distinct ?all"
    using pd distinct_concat_map [OF bs(1), of "block_ptrs ?st"] by (auto simp: single_owner_def bs(2))
  have "alive (s_txns ?st) p" if "b \<in> registered (n_chain nd)" "p \<in> set (block_ptrs ?st b)" for b p
    using good_storeD(3) [OF N(1) tree_okD(2) [OF N(5) that(1)]] that(2)
    by (fastforce simp: authentic_def txns_ok_def block_ptrs_def)
  then have al: "\<forall>p \<in> set ?all. alive (s_txns ?st) p" using N(3) bs(2) by (auto simp: pool_ok_def)
  have upd: "?st\<lparr>s_accounts := a, s_blocks := b, s_txns := t\<rparr> = ?st\<lparr>s_txns := t, s_accounts := a, s_blocks := b\<rparr>" for a b t
    by (cases ?st) simp
  have "destroy_node nd = bindR (free_all ?all (s_txns ?st)) (\<lambda>txns.
      Inr (?st\<lparr>s_txns := txns, s_accounts := wipe as (s_accounts ?st), s_blocks := wipe bs (s_blocks ?st)\<rparr>))"
    by (simp add: destroy_node_def bs(3) bindR_assoc pool_destroy_def list_destroy_elems [OF pool] foldR_append upd)
  also have "free_all ?all (s_txns ?st) = (if single_owner nd then Inr (wipe ?all (s_txns ?st)) else Inl Use_after_free)"
    using al alive_less by (subst free_all_result) (auto simp: single simp del: set_append)
  finally show ?thesis using bs(2) by (auto simp: alive_wipe)
qed

section \<open>Reorganisations\<close>

lemma on_timer_owns:
  assumes "owns_blocks (n_chain nd)" "on_timer S keys now nd = Inr (out, nd')"
  shows "owns_blocks (n_chain nd')"
proof -
  have keeps: "n_chain nd2 = n_chain nd1" if "create_next S keys now nd1 prev = Inr (r, nd2)" for prev r nd1 nd2
    using that by (auto simp: create_next_def bindR_eq_Inr simp del: drain_pool.simps)
  show ?thesis
    using assms by (auto simp: on_timer_def Let_def bindR_eq_Inr split: if_splits option.splits dest!: keeps)
      (metis add_block_owns)+
qed

lemma rolled_back_shared:
  assumes S: "sodium_ok S kp" and nd: "node_ok S nd" "owns_blocks (n_chain nd)"
    and b: "prev \<in> registered (n_chain nd)" "block \<in> registered (n_chain nd)"
      "prev \<notin> set (chain (n_store nd) (Some block))" "block_ptrs (n_store nd) prev \<noteq> []"
    and clean: "distinct (hashes_at (n_store nd)
      (list_elems (n_pool nd) @ dropped_ptrs (n_store nd) (Some block) (Some prev)))"
  shows "\<exists>nd'. on_extended S nd (Some prev) (Some block) = Inr nd' \<and> node_ok S nd' \<and> n_chain nd' = n_chain nd \<and>
    list_elems (n_pool nd') = list_elems (n_pool nd) @ dropped_ptrs (n_store nd) (Some block) (Some prev) \<and>
    \<not> single_owner nd'"
proof -
  let ?st = "n_store nd"
  note N = node_okD [OF nd(1)]
  have k: "known ?st (length (s_blocks ?st)) (Some block)" "known ?st (length (s_blocks ?st)) (Some prev)"
    using registered_known [OF N(5)] b(1,2) by blast+
  have "length (chain ?st (Some prev)) < Suc (length (s_blocks ?st))" using chain_length(1) [OF N(4) k(2)] by simp
  from roll_back_result [OF S N(1) k(1) _ k(2) this N(3) clean] obtain pool' where
      r: "roll_back (Suc (length (s_blocks ?st))) S (Some prev) (Some block) (n_pool nd, ?st) = Inr (pool', ?st)"
        "pool_ok S ?st pool'" "list_elems pool' = list_elems (n_pool nd) @ dropped_ptrs ?st (Some block) (Some prev)"
    by blast
  let ?nd = "nd\<lparr>n_pool := pool', n_timer := True\<rparr>"
  have ext: "on_extended S nd (Some prev) (Some block) = Inr ?nd"
    using r(1) by (simp add: on_extended_def del: roll_back.simps)
  have ok: "node_ok S ?nd" using nd(1) r(2) by (simp add: node_ok_def)
  have "chain ?st (Some prev) = prev # chain ?st (prev_block (blk ?st prev))"
    using chain_ok [OF N(4), of prev] k(2) by simp
  then have "set (block_ptrs ?st prev) \<subseteq> set (dropped_ptrs ?st (Some block) (Some prev))"
    using b(3) by (auto simp: dropped_ptrs_def dropped_def)
  moreover obtain p where "p \<in> set (block_ptrs ?st prev)" using b(4) by (cases "block_ptrs ?st prev") auto
  ultimately have "set (block_ptrs ?st prev) \<inter> set (list_elems pool') \<noteq> {}" by (auto simp: r(3))
  then have "\<not> single_owner ?nd" using b(1) by (auto simp: single_owner_def)
  then show ?thesis using ext ok r(3) by (intro exI [of _ ?nd]) simp
qed

section \<open>Properties\<close>

text \<open>
  C24: The end of the program. For every node in order, destroying the block tree and then the pool
  frees all its blocks and transactions without a fault if no transaction has two owners, and is a
  use after free otherwise: the accounts and the blocks themselves are never freed twice.
\<close>

theorem shutdown_frees_once:
  assumes "node_ok S nd" and "owns_blocks (n_chain nd)"
  shows "if single_owner nd
    then \<exists>st'. destroy_node nd = Inr st' \<and> (\<forall>b \<in> registered (n_chain nd). \<not> alive (s_blocks st') b) \<and>
      (\<forall>b \<in> registered (n_chain nd). \<forall>p \<in> set (block_ptrs (n_store nd) b). \<not> alive (s_txns st') p) \<and>
      (\<forall>p \<in> set (list_elems (n_pool nd)). \<not> alive (s_txns st') p)
    else destroy_node nd = Inl Use_after_free"
  by (rule destroy_node_result [OF assms])

lemma sample_single:
  assumes "entries (n_store nd) (Some 0) = [\<lparr>creator = k, transfers = []\<rparr>]" "registered (n_chain nd) = {0}"
    "prev_block (blk (n_store nd) 0) = None"
  shows "single_owner nd"
proof -
  have "block_ptrs (n_store nd) 0 = []"
    using assms(1,3) by (auto simp: entries_def chain_Some block_entry_def block_ptrs_def)
  then show ?thesis by (simp add: single_owner_def assms(2))
qed

theorem shutdown_frees_once_witness:
  "\<exists>nd st'. pool_txns (n_store nd) (n_pool nd) = [pending_txn] \<and> registered (n_chain nd) = {0} \<and>
     destroy_node nd = Inr st' \<and> \<not> alive (s_blocks st') 0 \<and> (\<forall>p \<in> set (list_elems (n_pool nd)). \<not> alive (s_txns st') p)"
proof -
  obtain nd where nd: "owns_blocks (n_chain nd)" "node_ok toy nd" "registered (n_chain nd) = {0}"
    "prev_block (blk (n_store nd) 0) = None"
    "entries (n_store nd) (Some 0) = [\<lparr>creator = replicate 32 1, transfers = []\<rparr>]"
    "pool_txns (n_store nd) (n_pool nd) = [pending_txn]"
    by (rule sample_node_owner) blast
  have "single_owner nd" by (rule sample_single [OF nd(5,3,4)])
  then show ?thesis using shutdown_frees_once [OF nd(2,1)] nd(3,6) by auto
qed



end
