(* ===== verification/Program.thy ===== *)
theory Program
  imports Api Shutdown
begin

text \<open>
  The whole program: \<open>main\<close> from its arguments to the event loop, and what it does after the loop
  (\<open>src/main/main.c\<close>), with \<open>network_listen\<close> (\<open>src/network.c\<close>) and \<open>http_listen\<close>
  (\<open>src/util/http.c\<close>). The calls that open the sockets are recorded in the order they are made; the
  results of \<open>uv_listen\<close> and the names of its errors are the record \<open>loop\<close>.
\<close>

section \<open>Listening\<close>

datatype socket = Network_socket | Http_socket

datatype uv_call = Uv_tcp_bind socket int | Uv_listen socket int

record loop =
  l_listen :: "socket \<Rightarrow> int \<Rightarrow> int"
  l_err_name :: "int \<Rightarrow> byte list"

definition BACKLOG :: int where "BACKLOG = 128"

text \<open>The argument \<open>port\<close> is not used; the port of the settings is.\<close>

definition network_listen :: "loop \<Rightarrow> settings_t \<Rightarrow> int \<Rightarrow> int \<Rightarrow> int \<times> uv_call list" where
  "network_listen lp settings port backlog =
     (l_listen lp Network_socket backlog,
      [Uv_tcp_bind Network_socket (set_port settings), Uv_listen Network_socket backlog])"

definition http_listen :: "loop \<Rightarrow> int \<Rightarrow> uv_call list \<times> byte list" where
  "http_listen lp port =
     ([Uv_tcp_bind Http_socket port, Uv_listen Http_socket BACKLOG],
      if l_listen lp Http_socket BACKLOG \<noteq> 0 then bytes_of ''error: unable to start http server'' @ [10]
      else bytes_of ''info: accepting http connections on port '' @ printf_d port @ [10])"

text \<open>\<open>if (settings.should_listen)\<close>: the calls and what is printed.\<close>

definition listen_for_peers :: "loop \<Rightarrow> settings_t \<Rightarrow> uv_call list \<times> byte list" where
  "listen_for_peers lp settings =
     (if set_should_listen settings = 0 then ([], [])
      else case network_listen lp settings (set_port settings) (set_backlog settings) of (err, calls) \<Rightarrow>
        (calls,
         if err \<noteq> 0 then
           bytes_of ''error: unable to listen on port '' @ printf_d (set_port settings) @ bytes_of '': '' @
             l_err_name lp err @ [10]
         else bytes_of ''info: accepting connections on port '' @ printf_d (set_port settings) @ [10]))"

text \<open>The message for a peer to which no connection can be asked for.\<close>

definition connect_error :: "(byte list \<Rightarrow> int \<Rightarrow> int) \<Rightarrow> byte list \<times> int \<Rightarrow> byte list" where
  "connect_error connect peer =
     (case peer of (address, port) \<Rightarrow>
        if connect address port = 0 then []
        else bytes_of ''error: unable to connect to peer '' @ address @ [58] @ printf_d port @ [10])"

definition argument_error :: "byte list \<Rightarrow> byte list" where
  "argument_error arg = bytes_of ''error: unknown argument: '' @ arg @ [10]"

section \<open>From the arguments to the loop\<close>

record program =
  pr_settings :: settings_t
  pr_host :: host
  pr_http :: "http_request_handler http_t"
  pr_cli :: "command cli_t"
  pr_calls :: "uv_call list"
  pr_printed :: "byte list"

definition PROMPT :: "byte list" where
  "PROMPT = bytes_of ''>>> ''"

text \<open>
  \<open>args\<close> is \<open>argv[1]\<close>, \<open>argv[2]\<close>, ... The handshakes name the port of the settings.
\<close>

definition env_of :: "env \<Rightarrow> settings_t \<Rightarrow> env" where
  "env_of env settings = env\<lparr>e_port := set_port settings\<rparr>"

definition main_start :: "loop \<Rightarrow> env \<Rightarrow> byte list list \<Rightarrow> program res" where
  "main_start lp env args =
     bindR (parse_arguments args settings_zero) (\<lambda>(settings, unknown).
     let env = env_of env settings; peers = settings_peers settings;
         (calls, peer_text) = listen_for_peers lp settings;
         (http_calls, http_text) = http_listen lp 8080 in
     bindR start_http (\<lambda>http.
     bindR (start_host env peers) (\<lambda>s.
     bindR start_cli (\<lambda>cli.
       Inr \<lparr>pr_settings = settings, pr_host = s, pr_http = http, pr_cli = cli, pr_calls = calls @ http_calls,
         pr_printed = concat (map argument_error unknown) @ concat (map (connect_error (e_connect env)) peers) @
           peer_text @ http_text @ PROMPT\<rparr>))))"

section \<open>After the loop\<close>

text \<open>\<open>on_sigint\<close> stops the loop and prints; then \<open>main\<close> destroys its parts in this order.\<close>

definition on_sigint :: "byte list" where
  "on_sigint = [13] @ bytes_of ''info: shutting down'' @ [10]"

definition main_end :: "program \<Rightarrow> store res" where
  "main_end p =
     bindR (destroy_node (w_node (snd (pr_host p)))) (\<lambda>st.
     bindR (http_destroy (pr_http p)) (\<lambda>_.
     bindR (network_destroy (fst (pr_host p))) (\<lambda>_.
     bindR (cli_destroy (Some (pr_cli p))) (\<lambda>_. Inr st))))"

section \<open>Properties\<close>

lemma main_end_node:
  assumes "net_ok (fst (pr_host p))" "destroy_node (w_node (snd (pr_host p))) = Inr st"
  shows "main_end p = Inr st"
proof -
  have "list_ok (net_history (fst (pr_host p)))" using net_okD(1) [OF assms(1)] by (simp add: history_ok_def)
  then have "network_destroy (fst (pr_host p)) = Inr (list_elems (net_history (fst (pr_host p))))"
    by (simp add: network_destroy_def list_destroy_elems)
  then show ?thesis by (simp add: main_end_def assms(2) http_destroy_def cli_destroy_def)
qed



end
