(* ===== verification/Print.thy ===== *)
theory Print
  imports Json Guid
begin

text \<open>
  The functions that print or read for debugging: \<open>buffer_print\<close> and \<open>buffer_read\<close>
  (\<open>src/util/buffer.c\<close>), \<open>guid_print\<close> (\<open>src/util/guid.c\<close>) and the pretty printer of tuples
  (\<open>src/tuple.c\<close>). What is printed is the result. The conversions of \<open>printf\<close> are those of the C
  library: a \<open>double\<close> is decoded from its IEEE 754 bits and printed with six digits after the point;
  of an infinity or NaN the sign is printed too.

  \<open>show_tval\<close> is the reference for the pretty printer; the property says that a tuple that was parsed
  from the wire format is printed as this text.
\<close>

section \<open>Buffers and identifiers\<close>

text \<open>The counter has 8 bits, as in \<open>buffer_to_hex\<close>; the fuel is the number of iterations allowed.\<close>

fun print_hex_loop :: "nat \<Rightarrow> byte arr \<Rightarrow> u32 \<Rightarrow> byte \<Rightarrow> byte list res" where
  "print_hex_loop 0 data len i = Inl Out_of_fuel"
| "print_hex_loop (Suc fuel) data len i =
     (if unat i < unat len then
        bindR (arr_load data (unat i)) (\<lambda>c.
        bindR (print_hex_loop fuel data len (i + 1)) (\<lambda>t. Inr (hex_byte c @ t)))
      else Inr [])"

definition buffer_print :: "nat \<Rightarrow> buffer_t \<Rightarrow> byte list res" where
  "buffer_print fuel b = print_hex_loop fuel (b_data b) (b_length b) 0"

text \<open>
  \<open>file\<close> is the contents of the file and \<open>n_read\<close> what \<open>fread\<close> returns for one element of this
  size. The \<open>NULL\<close> of a failed read is the empty block.
\<close>

definition buffer_read :: "byte list \<Rightarrow> nat \<Rightarrow> buffer_t" where
  "buffer_read file n_read =
     (if n_read \<noteq> 1 then \<lparr>b_length = 0, b_data = []\<rparr>
      else \<lparr>b_length = of_nat (length file), b_data = map Some file @ [Some 0]\<rparr>)"

text \<open>\<open>%04x\<close>: hexadecimal digits, at least four.\<close>

fun hex_number :: "nat \<Rightarrow> byte list" where
  "hex_number n = (if n < 16 then [hex_digit n] else hex_number (n div 16) @ [hex_digit (n mod 16)])"

declare hex_number.simps [simp del]

definition printf_04x :: "nat \<Rightarrow> byte list" where
  "printf_04x n = replicate (4 - length (hex_number n)) 48 @ hex_number n"

definition guid_print :: "guid_t \<Rightarrow> byte list" where
  "guid_print g = concat (map (\<lambda>w. printf_04x (unat w)) (guid_words g)) @ [10]"

section \<open>Floating point numbers\<close>

text \<open>
  A number with \<open>m\<close> bits of fraction, exponent field \<open>e\<close> (all ones: infinity or NaN) and the weight
  \<open>2 ^ - bias\<close> of the least denormal's bit.
\<close>

definition printf_float :: "nat \<Rightarrow> nat \<Rightarrow> nat \<Rightarrow> nat \<Rightarrow> byte list" where
  "printf_float mbits ebits bias v =
     (let frac = v mod 2 ^ mbits; e = v div 2 ^ mbits mod 2 ^ ebits; negative = v div 2 ^ (mbits + ebits) = 1;
          a = (if e = 0 then frac else 2 ^ mbits + frac) in
      (if negative then [45] else []) @
      (if e = 2 ^ ebits - 1 then if frac = 0 then bytes_of ''inf'' else bytes_of ''nan''
       else printf_lf (of_nat (a * 2 ^ (max e 1 - 1)) / 2 ^ bias)))"

definition printf_f32 :: "u32 \<Rightarrow> byte list" where
  "printf_f32 v = printf_float 23 8 149 (unat v)"

definition printf_f64 :: "u64 \<Rightarrow> byte list" where
  "printf_f64 v = printf_float 52 11 1074 (unat v)"

section \<open>Tuples\<close>

definition quoted :: "byte list \<Rightarrow> byte list" where
  "quoted s = [39] @ s @ [39]"

definition print_bool :: "byte \<Rightarrow> byte list" where
  "print_bool c = (if c \<noteq> 0 then bytes_of ''true'' else bytes_of ''false'')"

text \<open>The cases of the \<open>switch\<close> for an element in the message; \<open>data\<close> is its address plus one.\<close>

definition print_scalar :: "byte arr \<Rightarrow> byte \<Rightarrow> nat \<Rightarrow> byte list res" where
  "print_scalar mem kind data =
     (if kind = TUPLE_NULL then Inr (bytes_of ''null'')
      else if kind = TUPLE_I32 then bindR (load_u32 mem data) (\<lambda>v. Inr (printf_d (sint (ntohl v))))
      else if kind = TUPLE_I64 then bindR (load_u64 mem data) (\<lambda>v. Inr (printf_d (sint (ntohll v))))
      else if kind = TUPLE_U32 then bindR (load_u32 mem data) (\<lambda>v. Inr (decimal (unat (ntohl v))))
      else if kind = TUPLE_U64 then bindR (load_u64 mem data) (\<lambda>v. Inr (decimal (unat (ntohll v))))
      else if kind = TUPLE_F32 then bindR (load_u32 mem data) (\<lambda>v. Inr (printf_f32 v))
      else if kind = TUPLE_F64 then bindR (load_u64 mem data) (\<lambda>v. Inr (printf_f64 v))
      else if kind = TUPLE_BOOL then bindR (arr_load mem data) (\<lambda>c. Inr (print_bool c))
      else if kind = TUPLE_STRING then bindR (cstring mem data) (\<lambda>s. Inr (quoted s))
      else if kind = TUPLE_BINARY then
        bindR (load_u32 mem data) (\<lambda>binary_size.
        bindR (arr_load_n mem (data + 4) (unat binary_size)) (\<lambda>bs. Inr (hex_string bs)))
      else if kind = TUPLE_START then Inl Out_of_bounds
      else Inr [])"

text \<open>A space before every text but the first.\<close>

fun spaced :: "byte list list \<Rightarrow> byte list" where
  "spaced [] = []"
| "spaced [t] = t"
| "spaced (t # ts) = t @ [32] @ spaced ts"

fun tuple_element_print :: "byte arr \<Rightarrow> telem \<Rightarrow> byte list res"
  and tuple_print :: "byte arr \<Rightarrow> tuple_t \<Rightarrow> byte list res" where
  "tuple_element_print mem (Ptr p) = bindR (arr_load mem p) (\<lambda>kind. print_scalar mem kind (p + 1))"
| "tuple_element_print mem (Sub t) = (if t_kind t = TUPLE_START then tuple_print mem t else Inl Out_of_bounds)"
| "tuple_print mem (Tuple k es s l) =
     bindR (mapR (tuple_element_print mem) es) (\<lambda>ts. Inr ([40] @ spaced ts @ [41]))"

section \<open>What is printed\<close>

fun show_tval :: "tval \<Rightarrow> byte list" where
  "show_tval (T_i32 v) = printf_d (sint v)"
| "show_tval (T_i64 v) = printf_d (sint v)"
| "show_tval (T_u32 v) = decimal (unat v)"
| "show_tval (T_u64 v) = decimal (unat v)"
| "show_tval (T_f32 v) = printf_f32 v"
| "show_tval (T_f64 v) = printf_f64 v"
| "show_tval (T_bool b) = (if b then bytes_of ''true'' else bytes_of ''false'')"
| "show_tval (T_string s) = quoted s"
| "show_tval (T_binary d) = hex_string d"
| "show_tval (T_tuple vs) = [40] @ spaced (map show_tval vs) @ [41]"

lemma print_hex_loop_result:
  assumes "i \<le> length bs" "length bs < 256" "length bs - i < fuel" "length bs = unat len"
  shows "print_hex_loop fuel (map Some bs @ r) len (of_nat i) = Inr (hex_string (drop i bs))"
  using assms(1,3)
proof (induction "length bs - i" arbitrary: i fuel)
  case 0
  then obtain f where "fuel = Suc f" "i = length bs" by (cases fuel) auto
  then show ?case using assms(2,4) unat_of_nat_u8 [OF assms(2)] by (simp add: hex_string_def)
next
  case (Suc k)
  then have i: "i < length bs" by auto
  obtain f where f: "fuel = Suc f" using Suc.prems by (cases fuel) auto
  have ui: "i mod 256 = i" using i assms(2) by simp
  have "print_hex_loop f (map Some bs @ r) len (of_nat (Suc i)) = Inr (hex_string (drop (Suc i) bs))"
    using Suc i f by (intro Suc.hyps(1)) auto
  moreover have "arr_load (map Some bs @ r) i = Inr (bs ! i)" using i by (rule arr_load_prefix)
  ultimately show ?case
    using i assms(4) by (simp add: f ui add.commute Cons_nth_drop_Suc [symmetric] hex_string_Cons)
qed

lemma buffer_print_hex:
  assumes "b_data b = map Some bs @ r" "length bs = unat (b_length b)" "length bs < 256"
  shows "buffer_print 256 b = Inr (hex_string bs)"
  using print_hex_loop_result [of 0 bs 256 "b_length b" r] assms by (simp add: buffer_print_def)

lemma print_hex_loop_wraps:
  assumes "length data = unat len" "\<forall>i < length data. data ! i \<noteq> None" "256 \<le> unat len"
  shows "print_hex_loop fuel data len i = Inl Out_of_fuel"
proof (induction fuel arbitrary: i)
  case (Suc fuel)
  have "unat i < 256" by simp
  then have i: "unat i < length data" using assms(1,3) by linarith
  with assms(2) obtain c where "arr_load data (unat i) = Inr c" by (auto simp: arr_load_def)
  then show ?case using Suc i assms(1) by simp
qed simp

text \<open>The loop ends exactly for the buffers its counter can count.\<close>

lemma buffer_print_ends_iff:
  assumes "b_data b = map Some bs" "length bs = unat (b_length b)"
  shows "(\<exists>fuel. buffer_print fuel b \<noteq> Inl Out_of_fuel) \<longleftrightarrow> length bs < 256"
proof (cases "length bs < 256")
  case True
  have "buffer_print 256 b = Inr (hex_string bs)"
    by (rule buffer_print_hex [of b bs "[]"]) (use assms True in simp_all)
  then have "buffer_print 256 b \<noteq> Inl Out_of_fuel" by simp
  then show ?thesis using True by blast
next
  case False
  have "buffer_print fuel b = Inl Out_of_fuel" for fuel
    unfolding buffer_print_def by (rule print_hex_loop_wraps) (use assms False in simp_all)
  then show ?thesis using False by simp
qed

text \<open>The words of an identifier are not padded to their width, so two identifiers can print alike.\<close>

lemma guid_print_ambiguous: "guid_print (Guid 4096 65536 0 0) = guid_print (Guid 65537 0 0 0)"
  by (simp add: guid_print_def guid_words_def printf_04x_def hex_number.simps hex_digit_def numeral_3_eq_3)

lemma print_element_at:
  assumes "mem_at mem p (kind # bs)"
  shows "tuple_element_print mem (Ptr p) = print_scalar mem kind (p + 1)" "mem_at mem (p + 1) bs"
  using mem_at_load [OF assms] mem_at_Cons_D [OF assms] by simp_all

lemma print_binary:
  assumes "mem_at mem p (u32_bytes (of_nat (length d)) @ d)" "length d < 2 ^ 32"
  shows "print_scalar mem TUPLE_BINARY p = Inr (hex_string d)"
proof -
  have "load_u32 mem p = Inr (of_nat (length d))" by (rule mem_at_u32 [OF assms(1)])
  moreover have "arr_load_n mem (p + 4) (length d) = Inr d"
    using mem_at_load_n [of mem "p + 4" d] assms(1) by (simp add: mem_at_append)
  ultimately show ?thesis using assms(2) by (simp add: print_scalar_def unat_of_nat)
qed

lemma print_element_enc:
  "mem_at mem p (enc v) \<Longrightarrow> wf_tval v \<Longrightarrow> tuple_element_print mem (expect p v) = Inr (show_tval v)"
proof (induction v arbitrary: p)
  case (T_tuple vs)
  have "tuple_element_print mem (expects (p + 1) vs ! i) = Inr (show_tval (vs ! i))" if i: "i < length vs" for i
    using T_tuple.IH [OF nth_mem [OF i] mem_at_nth_enc [OF T_tuple.prems(1) i]] T_tuple.prems(2) i
    by (simp add: nth_expects)
  then have "mapR (tuple_element_print mem) (expects (p + 1) vs) = Inr (map show_tval vs)"
    by (intro mapR_nth) simp_all
  then show ?case by simp
next
  case (T_string s)
  have "tuple_element_print mem (Ptr p) = print_scalar mem TUPLE_STRING (p + 1)" "mem_at mem (p + 1) (s @ [0])"
    using print_element_at T_string.prems(1) by (simp_all del: tuple_element_print.simps)
  moreover from this(2) have "cstring mem (p + 1) = Inr s" using T_string.prems(2) by (intro cstring_result) simp_all
  ultimately show ?case by (simp add: print_scalar_def del: tuple_element_print.simps)
next
  case (T_binary d)
  note at = print_element_at [of mem p TUPLE_BINARY "u32_bytes (of_nat (length d)) @ d"]
  show ?case using at T_binary print_binary [of mem "p + 1" d] by (simp del: tuple_element_print.simps)
next
  case (T_bool b)
  note at = print_element_at [of mem p TUPLE_BOOL "[bool_byte b]"]
  then show ?case using T_bool mem_at_load [of mem "p + 1" "bool_byte b"]
    by (auto simp: print_scalar_def print_bool_def bool_byte_def simp del: tuple_element_print.simps)
qed (use print_element_at mem_at_u32 [of _ _ _ "[]"] mem_at_u64 [of _ _ _ "[]"] in
    \<open>fastforce simp: print_scalar_def simp del: tuple_element_print.simps\<close>)+

section \<open>Properties\<close>

text \<open>
  C38: The pretty printer: a message that is the encoding of a tuple (strings without NUL, binaries
  below 4 GiB) is parsed, and printing what was parsed ends, stays within the message and writes
  the text of the tuple: the values in order with a space between them, nested tuples in parentheses.
\<close>

theorem tuple_print_text:
  assumes "wf_tval (T_tuple vs)" and "length (enc (T_tuple vs)) \<le> fuel"
  shows "\<exists>t. tuple_parse fuel (map Some (enc (T_tuple vs))) (Some 0) (length (enc (T_tuple vs))) = Inr (Some t) \<and>
    tuple_print (map Some (enc (T_tuple vs))) t = Inr (show_tval (T_tuple vs))"
proof -
  let ?mem = "map Some (enc (T_tuple vs))"
  have mem: "mem_at ?mem 0 (enc (T_tuple vs))" by (rule mem_at_whole)
  have "tuple_parse fuel ?mem (Some 0) (length (enc (T_tuple vs))) = Inr (Some (parsed 0 vs))"
    by (rule tuple_parse_enc [OF assms(1) mem order_refl assms(2)])
  moreover have "tuple_print ?mem (parsed 0 vs) = Inr (show_tval (T_tuple vs))"
    using print_element_enc [OF mem assms(1)] by simp
  ultimately show ?thesis by blast
qed

theorem tuple_print_text_witness:
  "\<exists>t mem. tuple_parse 22 mem (Some 0) 22 = Inr (Some t) \<and>
     tuple_print mem t = Inr (bytes_of ''(-7 ('' @ [39] @ bytes_of ''hi'' @ [39] @ bytes_of '' true) 00ff)'')"
proof -
  let ?vs = "[T_i32 (- 7), T_tuple [T_string (bytes_of ''hi''), T_bool True], T_binary [0, 255]]"
  have "show_tval (T_tuple ?vs) = bytes_of ''(-7 ('' @ [39] @ bytes_of ''hi'' @ [39] @ bytes_of '' true) 00ff)''"
    by (simp add: printf_d_def decimal.simps quoted_def hex_string_def hex_byte_def hex_digit_def bytes_of_def of_char_def)
  moreover have "wf_tval (T_tuple ?vs)" "length (enc (T_tuple ?vs)) = 22"
    by (simp_all add: bytes_of_def of_char_def)
  ultimately show ?thesis
    using tuple_print_text [of ?vs 22] by (metis order_refl)
qed

end
