(* ===== verification/Example.thy ===== *)
theory Example
  imports Shutdown
begin

text \<open>
  The second program of the repository (\<open>src/main/blockchaindb.c\<close>): it creates a chain of 128 blocks with
  one key, printing the height each time the chain gets longer, and destroys it. The clock at block \<open>i\<close>
  is \<open>clock i\<close>.
\<close>

definition N :: nat where "N = 128"

type_synonym example = "store \<times> blockchain_t \<times> byte list"

definition height_line :: "int \<Rightarrow> byte list" where
  "height_line h = bytes_of ''height: '' @ printf_d h @ [10]"

text \<open>The callback \<open>on_extended\<close> of this program.\<close>

definition print_height :: "store \<Rightarrow> event \<Rightarrow> byte list res" where
  "print_height st ev =
     (case ev of
        None \<Rightarrow> Inr []
      | Some (prev, block) \<Rightarrow> bindR (block_get_height st block) (\<lambda>h. Inr (height_line (sint h))))"

definition example_step :: "sodium \<Rightarrow> keys \<Rightarrow> (nat \<Rightarrow> u64) \<Rightarrow> nat \<Rightarrow> example \<Rightarrow> example res" where
  "example_step S keys clock i s =
     (case s of (st, bc, out) \<Rightarrow>
        bindR (block_create S (clock i) st (k_public keys) (k_secret keys) (blockchain_get_principal bc) (list_create 1)) (\<lambda>(block, st).
        bindR (assertR (block \<noteq> None)) (\<lambda>_.
        bindR (blockchain_add_block S st bc (the block)) (\<lambda>(_, ev, bc, st).
        bindR (print_height st ev) (\<lambda>t. Inr (st, bc, out @ t))))))"

definition example_run :: "sodium \<Rightarrow> keys \<Rightarrow> (nat \<Rightarrow> u64) \<Rightarrow> nat \<Rightarrow> example res" where
  "example_run S keys clock n =
     foldR (example_step S keys clock) [0..<n] (\<lparr>s_blocks = [], s_accounts = [], s_txns = []\<rparr>, blockchain_create S, [])"

definition example_main :: "sodium \<Rightarrow> keys \<Rightarrow> (nat \<Rightarrow> u64) \<Rightarrow> (store \<times> byte list) res" where
  "example_main S keys clock =
     bindR (example_run S keys clock N) (\<lambda>(st, bc, out).
     bindR (blockchain_destroy st bc) (\<lambda>st. Inr (st, out)))"

section \<open>The key may always stake\<close>

lemma ledger_alone: "0 < n \<Longrightarrow> ledger_of (replicate n \<lparr>creator = k, transfers = []\<rparr>) k = Some (of_nat (1024 * n))"
proof (induction n)
  case (Suc n)
  then show ?case by (cases n) (simp_all add: apply_entry_def credit_def add.commute)
qed simp

lemma known_since_alone: "0 < n \<Longrightarrow> known_since (replicate n \<lparr>creator = k, transfers = []\<rparr>) k = Some 1"
proof (induction n)
  case (Suc n)
  then show ?case by (cases n) (simp_all add: touched_def)
qed simp

lemma may_stake_alone:
  assumes "n \<le> N"
  shows "may_stake (replicate n \<lparr>creator = k, transfers = []\<rparr>) k"
proof (cases "n = 0")
  case False
  have u: "unat (of_nat (1024 * n) div 1024 :: u64) = n"
  proof -
    have "1024 * n < 2 ^ 64" using assms by (simp add: N_def)
    then have "unat (of_nat (1024 * n) :: u64) = 1024 * n" by (simp only: unat_of_nat) simp
    then show ?thesis by (simp only: unat_div) simp
  qed
  have "delegates (of_nat (1024 * n)) = (of_nat (unat (of_nat (1024 * n) div 1024 :: u64)) :: u32)"
    by (simp only: delegates_def of_nat_unat)
  then have "delegates (of_nat (1024 * n)) = (of_nat n :: u32)" by (simp only: u)
  moreover have "unat (of_nat n :: u32) = n" using assms by (simp add: unat_of_nat N_def)
  ultimately have "delegates (of_nat (1024 * n)) \<noteq> 0" using False by (metis unat_0)
  then show ?thesis using False ledger_alone [of n k] known_since_alone [of n k] by (auto simp: may_stake_def)
qed (simp add: may_stake_def)

section \<open>The loop\<close>

definition example_inv :: "sodium \<Rightarrow> keys \<Rightarrow> (nat \<Rightarrow> u64) \<Rightarrow> nat \<Rightarrow> example \<Rightarrow> bool" where
  "example_inv S keys clock i s \<longleftrightarrow> (case s of (st, bc, out) \<Rightarrow>
     good_store S st \<and> chain_state_ok st bc \<and> owns_blocks bc \<and> length (s_blocks st) = i \<and> registered bc = {..<i} \<and>
     principal bc = (if i = 0 then None else Some (i - 1)) \<and>
     entries st (principal bc) = replicate i \<lparr>creator = k_public keys, transfers = []\<rparr> \<and>
     (\<forall>b < i. list_elems (transactions (blk st b)) = [] \<and> timestamp (blk st b) = clock b) \<and>
     out = concat (map height_line [1..int i]))"

text \<open>The hash of the next block is new.\<close>

definition example_fresh :: "sodium \<Rightarrow> keys \<Rightarrow> (nat \<Rightarrow> u64) \<Rightarrow> nat \<Rightarrow> example \<Rightarrow> bool" where
  "example_fresh S keys clock i s \<longleftrightarrow> (case s of (st, bc, out) \<Rightarrow>
     \<forall>b st'. block_create S (clock i) st (k_public keys) (k_secret keys) (principal bc) (list_create 1) = Inr (Some b, st') \<longrightarrow>
       (\<forall>c \<in> registered bc. bhash (blk st c) \<noteq> bhash (blk st' b)))"

lemma create_with_empty_pool:
  assumes "n_pool nd = pool_create"
  shows "create_next S keys now nd prev =
    bindR (block_create S now (n_store nd) (k_public keys) (k_secret keys) prev (list_create 1)) (\<lambda>(next, st).
      Inr (next, nd\<lparr>n_store := st, n_pool := pool_create\<rparr>))"
proof -
  have "pool_size pool_create = 0" by (simp add: pool_size_def pool_create_def)
  then have "drain_pool (Suc (pool_size pool_create)) pool_create (list_create 1) = Inr (pool_create, list_create 1)" by simp
  then show ?thesis by (simp add: create_next_def assms del: drain_pool.simps)
qed

lemma timestamp_extends:
  "extends n st st' \<Longrightarrow> b < n \<Longrightarrow> alive (s_blocks st) b \<Longrightarrow> timestamp (blk st' b) = timestamp (blk st b)"
  using extendsD(3) [of n st st' b] by (metis block_t.select_convs(1) block_t.surjective block_t.update_convs(13))

lemma example_step_result:
  assumes S: "sodium_ok S keypair" "keypair (k_public keys) (k_secret keys)" and i: "i < N"
    and inv: "example_inv S keys clock i s" and fresh: "example_fresh S keys clock i s"
  shows "\<exists>s'. example_step S keys clock i s = Inr s' \<and> example_inv S keys clock (Suc i) s'"
proof -
  obtain st bc out where s: "s = (st, bc, out)" by (cases s)
  let ?nd = "\<lparr>n_store = st, n_chain = bc, n_pool = pool_create, n_timer = False\<rparr>" and ?k = "k_public keys"
  have I: "good_store S st" "chain_state_ok st bc" "owns_blocks bc" "length (s_blocks st) = i" "registered bc = {..<i}"
      "principal bc = (if i = 0 then None else Some (i - 1))"
      "entries st (principal bc) = replicate i \<lparr>creator = ?k, transfers = []\<rparr>"
      "\<And>b. b < i \<Longrightarrow> list_elems (transactions (blk st b)) = []" "\<And>b. b < i \<Longrightarrow> timestamp (blk st b) = clock b"
      "out = concat (map height_line [1..int i])"
    using inv unfolding example_inv_def s prod.case by blast+
  have nd: "node_ok S ?nd" using I(1,2) pool_ok_create by (simp add: node_ok_def)
  have prev: "\<forall>p. principal bc = Some p \<longrightarrow> p \<in> registered (n_chain ?nd)" using I(5,6) by auto
  have "length (s_blocks (n_store ?nd)) < 2 ^ 31" using i by (simp add: I(4) N_def)
  from create_next_result [OF S nd prev this, of "clock i"] obtain b nd1 where c:
      "create_next S keys (clock i) ?nd (principal bc) = Inr (Some b, nd1)" "next_block S keys ?nd (principal bc) b nd1"
      "timestamp (blk (n_store nd1) b) = clock i"
    using may_stake_alone [of i ?k] i I(7) by auto
  note B = next_blockD [OF c(2)]
  have bi: "b = i" using B(1) I(4) by simp
  obtain st1 where st1: "block_create S (clock i) st ?k (k_secret keys) (principal bc) (list_create 1) = Inr (Some b, st1)"
      "nd1 = ?nd\<lparr>n_store := st1, n_pool := pool_create\<rparr>"
    using c(1) by (auto simp: create_with_empty_pool bindR_eq_Inr)
  have fr: "\<forall>c \<in> registered bc. bhash (blk st c) \<noteq> bhash (blk st1 b)"
    using fresh st1(1) by (simp add: example_fresh_def s)
  have B1: "good_store S st1" "extends (length (s_blocks st)) st st1" "take (length (s_blocks st)) (s_blocks st1) = s_blocks st"
      "b = length (s_blocks st)" "alive (s_blocks st1) b" "list_elems (children (blk st1 b)) = []"
      "prev_block (blk st1 b) = principal bc" "public_key (blk st1 b) = ?k" "list_elems (transactions (blk st1 b)) = []"
      "length (s_blocks st1) = Suc b"
    using B(1-9,15) by (simp_all add: st1(2) pool_create_def)
  have "\<forall>p. prev_block (blk st1 b) = Some p \<longrightarrow> p \<in> registered bc" using prev by (simp add: B1(7))
  from fresh_block_added [OF S(1) I(1,2) B1(1-6) this fr] obtain ev bc' st2 where
      a: "blockchain_add_block S st1 bc b = Inr (True, ev, bc', st2)" "added S st1 bc b (ev, bc', st2)"
        "extends (length (s_blocks st)) st st2"
    by blast
  have "better st1 (principal bc) b" by (simp add: better_def B1(7))
  then have A: "good_store S st2" "chain_state_ok st2 bc'" "extends (length (s_blocks st1)) st1 st2"
      "length (s_blocks st2) = Suc b" "registered bc' = insert b (registered bc)" "principal bc' = Some b"
      "ev = Some (principal bc, Some b)"
    using a(2) B1(10) by (simp_all add: added_def)
  have bs: "blocks_ok st (length (s_blocks st))" "blocks_ok st2 (length (s_blocks st2))"
    using I(1) A(1) by (simp_all add: good_store_def store_ok_def)
  have al: "b < length (s_blocks st1)" "alive (s_blocks st2) b"
    using alive_less [OF B1(5)] extends_fields(9) [OF A(3) _ B1(5)] by blast+
  note F = extends_fields [OF A(3) al(1) B1(5)]
  have old: "alive (s_blocks st) c" if "c < i" for c
    using that I(2,5) tree_okD(2) [of st bc c] by (simp add: chain_state_ok_def)
  have kn: "known st (length (s_blocks st)) (principal bc)" using I(4,6) old [of "i - 1"] by (simp add: known_def)
  have "block_entry st2 b = \<lparr>creator = ?k, transfers = []\<rparr>" using F(2,3) B1(8,9) by (simp add: block_entry_def)
  moreover have "\<forall>p. prev_block (blk st2 b) = Some p \<longrightarrow> p < b" using F(1) B1(7) I(6) bi by simp
  ultimately have ent: "entries st2 (Some b) = replicate (Suc i) \<lparr>creator = ?k, transfers = []\<rparr>"
    using chain_extends(2) [OF bs(1) kn a(3)] I(7) F(1) B1(7) by (simp add: entries_Some)
  have "length (chain st2 (Some b)) = Suc i" using arg_cong [OF ent, of length] by (simp add: entries_def)
  moreover have "known st2 (length (s_blocks st2)) (Some b)" using al(2) alive_less by simp
  ultimately have h: "block_get_height st2 (Some b) = Inr (of_nat (Suc i))" using height_chain [OF bs(2)] by metis
  have "sint (of_nat (Suc i) :: u32) = int (Suc i)" using i sint_of_int32 [of "int (Suc i)"] by (simp add: N_def)
  then have ph: "print_height st2 ev = Inr (height_line (int (Suc i)))" by (simp add: print_height_def A(7) h del: of_nat_Suc)
  have run: "example_step S keys clock i s = Inr (st2, bc', out @ height_line (int (Suc i)))"
    using a(1) ph by (simp add: example_step_def s blockchain_get_principal_def st1(1) del: of_nat_Suc One_nat_def)
  have flds: "list_elems (transactions (blk st2 c)) = [] \<and> timestamp (blk st2 c) = clock c" if "c < Suc i" for c
  proof (cases "c = i")
    case True
    then show ?thesis using F(3) B1(9) c(3) timestamp_extends [OF A(3) al(1) B1(5)] by (simp add: bi st1(2))
  next
    case False
    then have "c < i" using that by simp
    then show ?thesis
      using extends_fields(3) [OF a(3) _ old] timestamp_extends [OF a(3) _ old] I(4,8,9) by simp
  qed
  have "[1..int (Suc i)] = [1..int i] @ [int (Suc i)]" by (simp add: upto_rec2)
  then have "out @ height_line (int (Suc i)) = concat (map height_line [1..int (Suc i)])" by (simp add: I(10))
  moreover have "owns_blocks bc'" by (rule add_block_owns_blocks [OF I(3) a(1)])
  moreover have "insert b {..<i} = {..<Suc i}" by (auto simp: bi)
  ultimately have "example_inv S keys clock (Suc i) (st2, bc', out @ height_line (int (Suc i)))"
    using A(1,2,4,5,6) ent flds I(5) bi by (simp add: example_inv_def del: upto.simps of_nat_Suc)
  then show ?thesis using run by blast
qed

lemma example_run_Suc:
  "example_run S keys clock (Suc i) = bindR (example_run S keys clock i) (example_step S keys clock i)"
proof -
  have "foldR (example_step S keys clock) [i] = example_step S keys clock i" by (rule ext) simp
  then show ?thesis by (simp add: example_run_def foldR_append)
qed

lemma example_inv_start:
  assumes "sodium_ok S keypair"
  shows "\<exists>s. example_run S keys clock 0 = Inr s \<and> example_inv S keys clock 0 s"
proof -
  note N = node_okD [OF node_ok_create [OF assms]]
  have c: "principal (blockchain_create S) = None" by (simp add: blockchain_create_def)
  have "registered (blockchain_create S) = {}"
    using N(2) c by (simp add: node_create_def chain_state_ok_def)
  then show ?thesis
    using N(1,2) c owns_blocks_create by (simp add: example_run_def example_inv_def node_create_def)
qed

lemma example_run_result:
  assumes S: "sodium_ok S keypair" "keypair (k_public keys) (k_secret keys)"
    and fresh: "\<And>j s. j < n \<Longrightarrow> example_run S keys clock j = Inr s \<Longrightarrow> example_inv S keys clock j s \<Longrightarrow>
      example_fresh S keys clock j s"
  shows "i \<le> n \<Longrightarrow> i \<le> N \<Longrightarrow> \<exists>s. example_run S keys clock i = Inr s \<and> example_inv S keys clock i s"
proof (induction i)
  case 0
  show ?case by (rule example_inv_start [OF S(1)])
next
  case (Suc i)
  then obtain s where s: "example_run S keys clock i = Inr s" "example_inv S keys clock i s" by auto
  have "example_fresh S keys clock i s" using fresh s Suc.prems by simp
  then show ?case using example_step_result [OF S _ s(2)] Suc.prems s(1) by (auto simp: example_run_Suc)
qed

lemma example_destroy:
  assumes "example_inv S keys clock i (st, bc, out)"
  shows "\<exists>st'. blockchain_destroy st bc = Inr st' \<and> (\<forall>b. \<not> alive (s_blocks st') b)"
proof -
  have I: "good_store S st" "chain_state_ok st bc" "owns_blocks bc" "length (s_blocks st) = i" "registered bc = {..<i}"
      "\<And>b. b < i \<Longrightarrow> list_elems (transactions (blk st b)) = []"
    using assms unfolding example_inv_def prod.case by blast+
  obtain bs as where bs: "set bs = registered bc" "blockchain_destroy st bc =
      bindR (free_all (concat (map (block_ptrs st) bs)) (s_txns st)) (\<lambda>txns.
        Inr (st\<lparr>s_txns := txns, s_accounts := wipe as (s_accounts st), s_blocks := wipe bs (s_blocks st)\<rparr>))"
    using blockchain_destroy_run [OF I(1-3)] by blast
  have none: "concat (map (block_ptrs st) bs) = []" using I(5,6) bs(1) by (auto simp: block_ptrs_def)
  have "blockchain_destroy st bc =
      Inr (st\<lparr>s_txns := s_txns st, s_accounts := wipe as (s_accounts st), s_blocks := wipe bs (s_blocks st)\<rparr>)"
    unfolding bs(2) none by simp
  moreover have "\<not> alive (wipe bs (s_blocks st)) b" for b
    using alive_less [of "s_blocks st" b] I(4,5) bs(1) by (auto simp: alive_wipe)
  ultimately show ?thesis by auto
qed

section \<open>Properties\<close>

text \<open>
  C27: The chain program gets through. With keys that belong together, and as long as no two of its blocks
  have the same hash, every one of its 128 blocks may be created and extends the chain, whatever the
  clock says; it prints the heights 1 to 128, one line each, and ends after it has freed every block.
\<close>

theorem example_prints_heights:
  assumes S: "sodium_ok S keypair" "keypair (k_public keys) (k_secret keys)"
    and fresh: "\<forall>i < 128. \<forall>s. example_run S keys clock i = Inr s \<longrightarrow> example_fresh S keys clock i s"
  shows "\<exists>st. example_main S keys clock = Inr (st, concat (map height_line [1..128])) \<and>
    (\<forall>b. \<not> alive (s_blocks st) b)"
proof -
  obtain s where s: "example_run S keys clock N = Inr s" "example_inv S keys clock N s"
    using example_run_result [OF S, of N clock N] fresh by (auto simp: N_def)
  obtain st bc out where t: "s = (st, bc, out)" by (cases s)
  have out: "out = concat (map height_line [1..128])" using s(2) unfolding t example_inv_def prod.case by (simp add: N_def)
  from example_destroy [OF s(2) [unfolded t]] show ?thesis
    using s(1) out by (auto simp: example_main_def t simp del: upto.simps)
qed

lemma toy_example_fresh:
  assumes "example_inv toy sample_keys clock i s" "\<forall>j < i. clock j \<noteq> clock i" "i < N"
  shows "example_fresh toy sample_keys clock i s"
proof -
  obtain st bc out where s: "s = (st, bc, out)" by (cases s)
  have I: "good_store toy st" "chain_state_ok st bc" "length (s_blocks st) = i" "registered bc = {..<i}"
      "principal bc = (if i = 0 then None else Some (i - 1))" "\<And>b. b < i \<Longrightarrow> timestamp (blk st b) = clock b"
    using assms(1) unfolding example_inv_def s prod.case by blast+
  let ?nd = "\<lparr>n_store = st, n_chain = bc, n_pool = pool_create, n_timer = False\<rparr>"
  have nd: "node_ok toy ?nd" using I(1,2) pool_ok_create by (simp add: node_ok_def)
  have prev: "\<forall>p. principal bc = Some p \<longrightarrow> p \<in> registered (n_chain ?nd)" using I(4,5) by auto
  have small: "length (s_blocks (n_store ?nd)) < 2 ^ 31" using assms(3) by (simp add: I(3) N_def)
  have "bhash (blk st c) \<noteq> bhash (blk st' b)" if c: "c \<in> registered bc"
    and run: "block_create toy (clock i) st (k_public sample_keys) (k_secret sample_keys) (principal bc) (list_create 1) = Inr (Some b, st')"
    for b st' c
  proof -
    have cn: "create_next toy sample_keys (clock i) ?nd (principal bc) = Inr (Some b, ?nd\<lparr>n_store := st', n_pool := pool_create\<rparr>)"
      using create_with_empty_pool [of ?nd] run by simp
    with create_next_result [OF toy_ok sample_keypair nd prev small, of "clock i"]
    have nb: "next_block toy sample_keys ?nd (principal bc) b (?nd\<lparr>n_store := st', n_pool := pool_create\<rparr>)"
        "timestamp (blk st' b) = clock i"
      by (auto split: if_splits)
    have "timestamp (blk st c) \<noteq> timestamp (blk st' b)" using assms(2) c I(4,6) nb(2) by simp
    moreover have "alive (s_blocks st) c" using tree_okD(2) [of st bc c] I(2) c by (simp add: chain_state_ok_def)
    ultimately show ?thesis using toy_fresh [OF I(1)] next_blockD(2,5) [OF nb(1)] by simp
  qed
  then show ?thesis unfolding example_fresh_def s prod.case by blast
qed

theorem example_prints_heights_witness:
  "\<exists>st. example_main toy sample_keys of_nat = Inr (st, concat (map height_line [1..128])) \<and>
     (\<forall>b. \<not> alive (s_blocks st) b)"
proof (rule example_prints_heights [OF toy_ok sample_keypair], intro allI impI)
  fix i s assume i: "i < (128 :: nat)" and run: "example_run toy sample_keys of_nat i = Inr s"
  have clock: "\<forall>j < k. (of_nat j :: u64) \<noteq> of_nat k" if "k < N" for k
  proof (intro allI impI notI)
    fix j assume "j < k" "(of_nat j :: u64) = of_nat k"
    then have "unat (of_nat j :: u64) = unat (of_nat k :: u64)" "j < 128" "k < 128" using that by (simp_all add: N_def)
    then show False using \<open>j < k\<close> by (simp add: unat_of_nat)
  qed
  have "\<exists>s. example_run toy sample_keys of_nat i = Inr s \<and> example_inv toy sample_keys of_nat i s"
    using i by (intro example_run_result [OF toy_ok sample_keypair, where n = N] toy_example_fresh clock) (simp_all add: N_def)
  then have "example_inv toy sample_keys of_nat i s" using run by auto
  then show "example_fresh toy sample_keys of_nat i s" using i by (intro toy_example_fresh clock) (simp_all add: N_def)
qed

end
