(* ===== verification/CHeap.thy ===== *)
theory CHeap
  imports Prelude
begin

text \<open>
  The binary heap of \<open>src/util/heap.c\<close>: a block of pointers with a capacity and a size, and a
  comparison function. The abstraction is the list of the elements in the order of the block, seen
  as a complete tree; \<open>heap_order\<close> says that no element is greater than one below it. The interface
  \<open>priority_queue\<close> states what a client gets, and the heap is shown to provide it for every
  comparison function that is a total preorder.
\<close>

section \<open>Operations\<close>

record 'a heap_t =
  hdata :: "'a arr"
  hcapacity :: nat
  hsize :: nat
  e_compare :: "'a \<Rightarrow> 'a \<Rightarrow> int"
  e_destroy :: bool

definition HEAP_DEFAULT_CAPACITY :: nat where "HEAP_DEFAULT_CAPACITY = 4"

definition parent :: "nat \<Rightarrow> nat" where "parent i = (i - 1) div 2"
definition left_child :: "nat \<Rightarrow> nat" where "left_child i = 2 * i + 1"
definition right_child :: "nat \<Rightarrow> nat" where "right_child i = 2 * i + 2"

definition heap_create :: "('a \<Rightarrow> 'a \<Rightarrow> int) \<Rightarrow> bool \<Rightarrow> 'a heap_t" where
  "heap_create compare destroy =
     \<lparr>hdata = arr_malloc HEAP_DEFAULT_CAPACITY, hcapacity = HEAP_DEFAULT_CAPACITY, hsize = 0,
      e_compare = compare, e_destroy = destroy\<rparr>"

text \<open>The elements on which the destructor is called, in order.\<close>

definition heap_destroy :: "'a heap_t \<Rightarrow> 'a list res" where
  "heap_destroy self = (if e_destroy self then mapR (arr_load (hdata self)) [0..<hsize self] else Inr [])"

definition heap_size :: "'a heap_t \<Rightarrow> nat" where
  "heap_size self = hsize self"

definition heap_get :: "'a heap_t \<Rightarrow> nat \<Rightarrow> 'a res" where
  "heap_get self i = bindR (assertR (i < hsize self)) (\<lambda>_. arr_load (hdata self) i)"

definition swap_element :: "'a heap_t \<Rightarrow> nat \<Rightarrow> nat \<Rightarrow> 'a heap_t res" where
  "swap_element self a b =
     bindR (arr_load (hdata self) a) (\<lambda>tmp.
     bindR (arr_load (hdata self) b) (\<lambda>y.
     bindR (arr_store (hdata self) a y) (\<lambda>d.
     bindR (arr_store d b tmp) (\<lambda>d. Inr (self\<lparr>hdata := d\<rparr>)))))"

definition compare_elements :: "'a heap_t \<Rightarrow> nat \<Rightarrow> nat \<Rightarrow> int res" where
  "compare_elements self a b =
     bindR (heap_get self a) (\<lambda>e1. bindR (heap_get self b) (\<lambda>e2. Inr (e_compare self e1 e2)))"

lemma parent_less: "0 < i \<Longrightarrow> parent i < i"
  by (simp add: parent_def)

lemma swap_element_size: "swap_element self a b = Inr s \<Longrightarrow> hsize s = hsize self"
  by (auto simp: swap_element_def bindR_eq_Inr)

function move_to_top :: "'a heap_t \<Rightarrow> nat \<Rightarrow> 'a heap_t res" where
  "move_to_top self i =
     (if 0 < i then bindR (swap_element self (parent i) i) (\<lambda>self. move_to_top self (parent i)) else Inr self)"
  by pat_completeness auto
termination by (relation "measure snd") (simp_all add: parent_less)

function shift_up :: "'a heap_t \<Rightarrow> nat \<Rightarrow> 'a heap_t res" where
  "shift_up self i =
     (if 0 < i then
        bindR (compare_elements self i (parent i)) (\<lambda>c.
        if c < 0 then bindR (swap_element self (parent i) i) (\<lambda>self. shift_up self (parent i)) else Inr self)
      else Inr self)"
  by pat_completeness auto
termination by (relation "measure snd") (simp_all add: parent_less)

definition smaller :: "'a heap_t \<Rightarrow> nat \<Rightarrow> nat \<Rightarrow> nat res" where
  "smaller self c m =
     (if c < hsize self then bindR (compare_elements self c m) (\<lambda>r. Inr (if r < 0 then c else m)) else Inr m)"

lemma smaller_bound: "smaller self c m = Inr k \<Longrightarrow> k = m \<or> k = c \<and> c < hsize self"
  by (auto simp: smaller_def bindR_eq_Inr split: if_splits)

function shift_down :: "'a heap_t \<Rightarrow> nat \<Rightarrow> 'a heap_t res" where
  "shift_down self i =
     bindR (smaller self (left_child i) i) (\<lambda>max_i.
     bindR (smaller self (right_child i) max_i) (\<lambda>max_i.
     if i \<noteq> max_i then bindR (swap_element self i max_i) (\<lambda>self. shift_down self max_i) else Inr self))"
  by pat_completeness auto
termination
proof (relation "measure (\<lambda>(self, i). hsize self - i)")
  fix self :: "'a heap_t" and i m k s
  assume m: "smaller self (left_child i) i = Inr m" "smaller self (right_child i) m = Inr k" "i \<noteq> k"
    and s: "swap_element self i k = Inr s"
  have "i < k" "k < hsize self"
    using smaller_bound [OF m(1)] smaller_bound [OF m(2)] m(3) by (auto simp: left_child_def right_child_def)
  then show "((s, k), self, i) \<in> measure (\<lambda>(self, i). hsize self - i)" using swap_element_size [OF s] by simp
qed simp

declare move_to_top.simps [simp del] shift_up.simps [simp del] shift_down.simps [simp del]

definition heap_add :: "'a heap_t \<Rightarrow> 'a \<Rightarrow> 'a heap_t res" where
  "heap_add self e =
     (let self = (if hsize self = hcapacity self
                  then self\<lparr>hcapacity := hcapacity self * 2, hdata := arr_realloc (hdata self) (hcapacity self * 2)\<rparr>
                  else self) in
     bindR (arr_store (hdata self) (hsize self) e) (\<lambda>d.
     let self = self\<lparr>hdata := d, hsize := hsize self + 1\<rparr> in
     shift_up self (hsize self - 1)))"

definition heap_top :: "'a heap_t \<Rightarrow> 'a option res" where
  "heap_top self = (if heap_size self = 0 then Inr None else bindR (heap_get self 0) (\<lambda>e. Inr (Some e)))"

definition heap_pop :: "'a heap_t \<Rightarrow> ('a option \<times> 'a heap_t) res" where
  "heap_pop self =
     (if heap_size self = 0 then Inr (None, self) else
     bindR (arr_load (hdata self) 0) (\<lambda>result.
     let self = self\<lparr>hsize := hsize self - 1\<rparr> in
     bindR (arr_load (hdata self) (hsize self)) (\<lambda>last.
     bindR (arr_store (hdata self) 0 last) (\<lambda>d.
     bindR (shift_down (self\<lparr>hdata := d\<rparr>) 0) (\<lambda>self. Inr (Some result, self))))))"

definition heap_remove :: "'a heap_t \<Rightarrow> nat \<Rightarrow> ('a option \<times> 'a heap_t) res" where
  "heap_remove self i =
     bindR (assertR (i < hsize self)) (\<lambda>_. bindR (move_to_top self i) heap_pop)"

section \<open>The block and the list it stands for\<close>

text \<open>\<open>holds c h xs\<close>: the heap \<open>h\<close> has the comparison function \<open>c\<close> and the elements \<open>xs\<close> in its block.\<close>

definition holds :: "('a \<Rightarrow> 'a \<Rightarrow> int) \<Rightarrow> 'a heap_t \<Rightarrow> 'a list \<Rightarrow> bool" where
  "holds c h xs \<longleftrightarrow> e_compare h = c \<and> hsize h = length xs \<and> length (hdata h) = hcapacity h \<and>
     length xs \<le> hcapacity h \<and> 0 < hcapacity h \<and> take (length xs) (hdata h) = map Some xs"

definition swapped :: "'a list \<Rightarrow> nat \<Rightarrow> nat \<Rightarrow> 'a list" where
  "swapped xs a b = xs[a := xs ! b, b := xs ! a]"

lemma length_swapped [simp]: "length (swapped xs a b) = length xs"
  by (simp add: swapped_def)

lemma swapped_nth:
  "a < length xs \<Longrightarrow> b < length xs \<Longrightarrow> j < length xs \<Longrightarrow>
     swapped xs a b ! j = (if j = b then xs ! a else if j = a then xs ! b else xs ! j)"
  by (auto simp: swapped_def nth_list_update)

lemma mset_swapped: "a < length xs \<Longrightarrow> b < length xs \<Longrightarrow> mset (swapped xs a b) = mset xs"
  by (simp add: swapped_def mset_swap)

lemma holds_nth: "holds c h xs \<Longrightarrow> i < length xs \<Longrightarrow> i < length (hdata h) \<and> hdata h ! i = Some (xs ! i)"
  unfolding holds_def by (metis length_map nth_map nth_take order_less_le_trans)

lemma holds_load: "holds c h xs \<Longrightarrow> i < length xs \<Longrightarrow> arr_load (hdata h) i = Inr (xs ! i)"
  using holds_nth [of c h xs i] by (simp add: arr_load_Inr)

lemma holds_get: "holds c h xs \<Longrightarrow> heap_get h i = (if i < length xs then Inr (xs ! i) else Inl Assert_failed)"
  using holds_load [of c h xs i] by (simp add: heap_get_def holds_def bindR_assertR)

lemma holds_compare:
  "holds c h xs \<Longrightarrow> a < length xs \<Longrightarrow> b < length xs \<Longrightarrow> compare_elements h a b = Inr (c (xs ! a) (xs ! b))"
  by (simp add: compare_elements_def holds_get) (simp add: holds_def)

lemma holds_swap:
  assumes h: "holds c h xs" and ab: "a < length xs" "b < length xs"
  shows "\<exists>h'. swap_element h a b = Inr h' \<and> holds c h' (swapped xs a b)"
proof -
  let ?d = "(hdata h)[a := Some (xs ! b), b := Some (xs ! a)]"
  have "swap_element h a b = Inr (h\<lparr>hdata := ?d\<rparr>)"
    using holds_load [OF h ab(1)] holds_load [OF h ab(2)] holds_nth [OF h ab(1)] holds_nth [OF h ab(2)]
    by (simp add: swap_element_def arr_store_def)
  moreover have "holds c (h\<lparr>hdata := ?d\<rparr>) (swapped xs a b)"
    using h ab by (simp add: holds_def swapped_def take_update_swap map_update)
  ultimately show ?thesis by blast
qed

lemma holds_create: "holds c (heap_create c d) []"
  by (simp add: holds_def heap_create_def HEAP_DEFAULT_CAPACITY_def)

section \<open>The order\<close>

lemma parent_child: "0 < j \<Longrightarrow> parent j = i \<longleftrightarrow> j = left_child i \<or> j = right_child i"
  by (auto simp: parent_def left_child_def right_child_def)

text \<open>
  \<open>heap_order\<close> is the invariant. \<open>order_but_up\<close> allows the element at \<open>i\<close> to be too small for its
  place, \<open>order_but_down\<close> to be too great.
\<close>

definition heap_order :: "('a \<Rightarrow> 'a \<Rightarrow> int) \<Rightarrow> 'a list \<Rightarrow> bool" where
  "heap_order cmp xs \<longleftrightarrow> (\<forall>j < length xs. 0 < j \<longrightarrow> cmp (xs ! parent j) (xs ! j) \<le> 0)"

definition order_but_up :: "('a \<Rightarrow> 'a \<Rightarrow> int) \<Rightarrow> 'a list \<Rightarrow> nat \<Rightarrow> bool" where
  "order_but_up cmp xs i \<longleftrightarrow>
     (\<forall>j < length xs. 0 < j \<longrightarrow> j \<noteq> i \<longrightarrow> cmp (xs ! parent j) (xs ! j) \<le> 0) \<and>
     (\<forall>j < length xs. 0 < j \<longrightarrow> parent j = i \<longrightarrow> 0 < i \<longrightarrow> cmp (xs ! parent i) (xs ! j) \<le> 0)"

definition order_but_down :: "('a \<Rightarrow> 'a \<Rightarrow> int) \<Rightarrow> 'a list \<Rightarrow> nat \<Rightarrow> bool" where
  "order_but_down cmp xs i \<longleftrightarrow>
     (\<forall>j < length xs. 0 < j \<longrightarrow> parent j \<noteq> i \<longrightarrow> cmp (xs ! parent j) (xs ! j) \<le> 0) \<and>
     (\<forall>j < length xs. 0 < j \<longrightarrow> parent j = i \<longrightarrow> 0 < i \<longrightarrow> cmp (xs ! parent i) (xs ! j) \<le> 0)"

text \<open>The heap is in order and has the elements of the multiset \<open>M\<close>.\<close>

definition heap_ok :: "('a \<Rightarrow> 'a \<Rightarrow> int) \<Rightarrow> ('a \<Rightarrow> bool) \<Rightarrow> 'a heap_t \<Rightarrow> 'a multiset \<Rightarrow> bool" where
  "heap_ok cmp valid h M \<longleftrightarrow>
     (\<exists>xs. holds cmp h xs \<and> (\<forall>x \<in> set xs. valid x) \<and> heap_order cmp xs \<and> mset xs = M)"

context comparator
begin

lemma trans_nth:
  assumes "\<forall>x \<in> set xs. valid x" "a < length xs" "b < length xs" "c < length xs"
    "cmp (xs ! a) (xs ! b) \<le> 0" "cmp (xs ! b) (xs ! c) \<le> 0"
  shows "cmp (xs ! a) (xs ! c) \<le> 0"
  using cmp_trans [of "xs ! a" "xs ! b" "xs ! c"] assms by simp

text \<open>The first element is the least.\<close>

lemma heap_order_least:
  assumes v: "\<forall>x \<in> set xs. valid x" and o: "heap_order cmp xs" and i: "i < length xs"
  shows "cmp (xs ! 0) (xs ! i) \<le> 0"
  using i
proof (induction i rule: less_induct)
  case (less i)
  show ?case
  proof (cases "i = 0")
    case True
    then show ?thesis using cmp_refl [of "xs ! 0"] v less.prems by simp
  next
    case False
    then have p: "parent i < i" "parent i < length xs" using parent_less [of i] less.prems by simp_all
    have "0 < length xs" using less.prems by (rule order.strict_trans1 [OF le0])
    moreover have "cmp (xs ! parent i) (xs ! i) \<le> 0" using o False less.prems by (simp add: heap_order_def)
    ultimately show ?thesis using trans_nth [OF v _ p(2) less.prems less.IH [OF p]] by blast
  qed
qed

lemma up_step:
  assumes v: "\<forall>x \<in> set xs. valid x" and o: "order_but_up cmp xs i" and i: "0 < i" "i < length xs"
    and c: "cmp (xs ! i) (xs ! parent i) < 0"
  shows "order_but_up cmp (swapped xs (parent i) i) (parent i)"
proof -
  let ?p = "parent i" and ?ys = "swapped xs (parent i) i"
  have p: "?p < i" "?p < length xs" using parent_less [OF i(1)] i(2) by simp_all
  note ys = swapped_nth [OF p(2) i(2)]
  have rest: "cmp (xs ! parent j) (xs ! j) \<le> 0" if "j < length xs" "0 < j" "j \<noteq> i" for j
    using o that by (simp add: order_but_up_def)
  have below: "cmp (xs ! ?p) (xs ! j) \<le> 0" if "j < length xs" "0 < j" "parent j = i" for j
    using o that i(1) by (simp add: order_but_up_def)
  have c': "cmp (xs ! i) (xs ! ?p) \<le> 0" using c by simp
  have "cmp (?ys ! parent j) (?ys ! j) \<le> 0" if j: "j < length xs" "0 < j" "j \<noteq> ?p" for j
  proof -
    have pj: "parent j < j" "parent j < length xs" using parent_less [OF j(2)] j(1) by simp_all
    consider "j = i" | "j \<noteq> i" "parent j = i" | "j \<noteq> i" "parent j = ?p" | "j \<noteq> i" "parent j \<noteq> i" "parent j \<noteq> ?p" by blast
    then show ?thesis
    proof cases
      case 1
      then show ?thesis using p(1) c' ys [OF pj(2)] ys [OF j(1)] by simp
    next
      case 2
      then show ?thesis using j(3) below [OF j(1,2)] ys [OF pj(2)] ys [OF j(1)] by simp
    next
      case 3
      then have "cmp (xs ! ?p) (xs ! j) \<le> 0" using rest [OF j(1,2)] by simp
      then have "cmp (xs ! i) (xs ! j) \<le> 0" by (rule trans_nth [OF v i(2) p(2) j(1) c'])
      then show ?thesis using 3 j(3) p(1) ys [OF pj(2)] ys [OF j(1)] by simp
    next
      case 4
      then show ?thesis using rest [OF j(1,2)] j(3) ys [OF pj(2)] ys [OF j(1)] by simp
    qed
  qed
  moreover have "cmp (?ys ! parent ?p) (?ys ! j) \<le> 0" if j: "j < length xs" "0 < j" "parent j = ?p" "0 < ?p" for j
  proof -
    have q: "parent ?p < ?p" "parent ?p < length xs" using parent_less [OF j(4)] p(2) by simp_all
    have up: "cmp (xs ! parent ?p) (xs ! ?p) \<le> 0" using rest [OF p(2) j(4)] p(1) by simp
    have jp: "j \<noteq> ?p" using parent_less [OF j(2)] j(3) by auto
    show ?thesis
    proof (cases "j = i")
      case True
      then show ?thesis using up q p(1) ys [OF q(2)] ys [OF j(1)] by simp
    next
      case False
      then have "cmp (xs ! ?p) (xs ! j) \<le> 0" using rest [OF j(1,2)] j(3) by simp
      then have "cmp (xs ! parent ?p) (xs ! j) \<le> 0" by (rule trans_nth [OF v q(2) p(2) j(1) up])
      then show ?thesis using False jp q p(1) ys [OF q(2)] ys [OF j(1)] by simp
    qed
  qed
  ultimately show ?thesis by (simp add: order_but_up_def)
qed

lemma down_step:
  assumes v: "\<forall>x \<in> set xs. valid x" and o: "order_but_down cmp xs i" and k: "0 < k" "k < length xs" "parent k = i"
    and c: "cmp (xs ! k) (xs ! i) < 0"
    and least: "\<And>j. j < length xs \<Longrightarrow> 0 < j \<Longrightarrow> parent j = i \<Longrightarrow> cmp (xs ! k) (xs ! j) \<le> 0"
  shows "order_but_down cmp (swapped xs i k) k"
proof -
  let ?ys = "swapped xs i k"
  have i: "i < k" "i < length xs" using parent_less [OF k(1)] k(2,3) by simp_all
  note ys = swapped_nth [OF i(2) k(2)]
  have rest: "cmp (xs ! parent j) (xs ! j) \<le> 0" if "j < length xs" "0 < j" "parent j \<noteq> i" for j
    using o that by (simp add: order_but_down_def)
  have below: "cmp (xs ! parent i) (xs ! j) \<le> 0" if "j < length xs" "0 < j" "parent j = i" "0 < i" for j
    using o that by (simp add: order_but_down_def)
  have "cmp (?ys ! parent j) (?ys ! j) \<le> 0" if j: "j < length xs" "0 < j" "parent j \<noteq> k" for j
  proof -
    have pj: "parent j < j" "parent j < length xs" using parent_less [OF j(2)] j(1) by simp_all
    consider "j = i" | "j = k" | "j \<noteq> i" "j \<noteq> k" "parent j = i" | "j \<noteq> i" "j \<noteq> k" "parent j \<noteq> i" by blast
    then show ?thesis
    proof cases
      case 1
      then have "cmp (xs ! parent i) (xs ! k) \<le> 0" using below [OF k(2,1,3)] j(2) by simp
      then show ?thesis using 1 pj(1) i(1) j(3) ys [OF pj(2)] ys [OF j(1)] by simp
    next
      case 2
      then show ?thesis using k(3) i(1) c ys [OF pj(2)] ys [OF j(1)] by simp
    next
      case 3
      then show ?thesis using least [OF j(1,2)] i(1) ys [OF pj(2)] ys [OF j(1)] by simp
    next
      case 4
      then show ?thesis using rest [OF j(1,2)] j(3) ys [OF pj(2)] ys [OF j(1)] by simp
    qed
  qed
  moreover have "cmp (?ys ! parent k) (?ys ! j) \<le> 0" if j: "j < length xs" "0 < j" "parent j = k" for j
  proof -
    have jk: "k < j" using parent_less [OF j(2)] j(3) by simp
    have "cmp (xs ! k) (xs ! j) \<le> 0" using rest [OF j(1,2)] j(3) i(1) by simp
    then show ?thesis using k(3) jk i ys [OF i(2)] ys [OF j(1)] by simp
  qed
  ultimately show ?thesis by (simp add: order_but_down_def)
qed

lemma shift_up_result:
  assumes "holds cmp h xs" "\<forall>x \<in> set xs. valid x" "order_but_up cmp xs i" "i < length xs"
  shows "\<exists>h' ys. shift_up h i = Inr h' \<and> holds cmp h' ys \<and> heap_order cmp ys \<and> mset ys = mset xs"
  using assms
proof (induction i arbitrary: h xs rule: less_induct)
  case (less i)
  show ?case
  proof (cases "0 < i \<and> cmp (xs ! i) (xs ! parent i) < 0")
    case True
    then have p: "parent i < i" "parent i < length xs" using parent_less [of i] less.prems(4) by simp_all
    obtain h1 where h1: "swap_element h (parent i) i = Inr h1" "holds cmp h1 (swapped xs (parent i) i)"
      using holds_swap [OF less.prems(1) p(2) less.prems(4)] by blast
    have m: "mset (swapped xs (parent i) i) = mset xs" by (rule mset_swapped [OF p(2) less.prems(4)])
    then have "\<forall>x \<in> set (swapped xs (parent i) i). valid x" using less.prems(2) by (metis set_mset_mset)
    moreover have "order_but_up cmp (swapped xs (parent i) i) (parent i)"
      using up_step [OF less.prems(2,3)] True less.prems(4) by blast
    ultimately obtain h' ys where "shift_up h1 (parent i) = Inr h'" "holds cmp h' ys" "heap_order cmp ys" "mset ys = mset xs"
      using less.IH [OF p(1) h1(2)] p(2) m by auto
    then show ?thesis
      using True h1(1) holds_compare [OF less.prems(1,4) p(2)] by (auto simp: shift_up.simps [of h i])
  next
    case False
    have "heap_order cmp xs"
      unfolding heap_order_def
    proof (intro allI impI)
      fix j assume j: "j < length xs" "0 < j"
      have p: "parent j < length xs" using parent_less [OF j(2)] j(1) by simp
      show "cmp (xs ! parent j) (xs ! j) \<le> 0"
      proof (cases "j = i")
        case True
        then show ?thesis using False j cmp_not_less [of "xs ! i" "xs ! parent i"] less.prems(2) p by simp
      next
        case False
        then show ?thesis using less.prems(3) j by (simp add: order_but_up_def)
      qed
    qed
    moreover have "shift_up h i = Inr h"
    proof (cases "0 < i")
      case True
      then have "parent i < length xs" using parent_less [of i] less.prems(4) by simp
      then show ?thesis
        using True False holds_compare [OF less.prems(1,4)] by (simp add: shift_up.simps [of h i])
    qed (simp add: shift_up.simps [of h 0])
    ultimately show ?thesis using less.prems(1) by blast
  qed
qed

lemma smaller_result:
  assumes "holds cmp h xs" "m < length xs"
  shows "smaller h c m = Inr (if c < length xs \<and> cmp (xs ! c) (xs ! m) < 0 then c else m)"
  using assms holds_compare [OF assms(1) _ assms(2)] by (simp add: smaller_def) (simp add: holds_def)

lemma shift_down_result:
  assumes "holds cmp h xs" "\<forall>x \<in> set xs. valid x" "order_but_down cmp xs i" "i < length xs"
  shows "\<exists>h' ys. shift_down h i = Inr h' \<and> holds cmp h' ys \<and> heap_order cmp ys \<and> mset ys = mset xs"
  using assms
proof (induction "length xs - i" arbitrary: h xs i rule: less_induct)
  case less
  let ?l = "left_child i" and ?r = "right_child i"
  define m where "m = (if ?l < length xs \<and> cmp (xs ! ?l) (xs ! i) < 0 then ?l else i)"
  define k where "k = (if ?r < length xs \<and> cmp (xs ! ?r) (xs ! m) < 0 then ?r else m)"
  have mk: "m < length xs" "k < length xs" using less.prems(4) by (simp_all add: m_def k_def)
  have run: "shift_down h i = (if i \<noteq> k then bindR (swap_element h i k) (\<lambda>h. shift_down h k) else Inr h)"
    using smaller_result [OF less.prems(1,4)] smaller_result [OF less.prems(1) mk(1)]
    by (simp add: shift_down.simps [of h i] m_def [symmetric] k_def [symmetric])
  have v: "valid (xs ! a)" if "a < length xs" for a using less.prems(2) that by simp
  have km: "cmp (xs ! k) (xs ! m) \<le> 0" using cmp_refl [OF v [OF mk(1)]] by (auto simp: k_def)
  have mi: "cmp (xs ! m) (xs ! i) \<le> 0" using cmp_refl [OF v [OF less.prems(4)]] by (auto simp: m_def)
  have least: "cmp (xs ! k) (xs ! j) \<le> 0" if j: "j < length xs" "0 < j" "parent j = i" for j
  proof -
    have "j = ?l \<or> j = ?r" using parent_child [OF j(2), of i] j(3) by blast
    then show ?thesis
    proof
      assume jl: "j = ?l"
      have "cmp (xs ! m) (xs ! j) \<le> 0"
        using cmp_not_less [OF v [OF j(1)] v [OF less.prems(4)]] cmp_refl [OF v [OF j(1)]] j(1)
        by (auto simp: m_def jl)
      then show ?thesis by (rule trans_nth [OF less.prems(2) mk(2,1) j(1) km])
    next
      assume jr: "j = ?r"
      show ?thesis
        using cmp_not_less [OF v [OF j(1)] v [OF mk(1)]] cmp_refl [OF v [OF j(1)]] j(1) by (auto simp: k_def jr)
    qed
  qed
  show ?case
  proof (cases "i = k")
    case True
    have "heap_order cmp xs"
      unfolding heap_order_def
    proof (intro allI impI)
      fix j assume j: "j < length xs" "0 < j"
      show "cmp (xs ! parent j) (xs ! j) \<le> 0"
        using least [OF j] less.prems(3) j True by (cases "parent j = i") (auto simp: order_but_down_def)
    qed
    then show ?thesis using run True less.prems(1) by auto
  next
    case False
    then have kid: "k = ?l \<or> k = ?r" by (auto simp: k_def m_def split: if_splits)
    then have k: "0 < k" "parent k = i" by (auto simp: left_child_def right_child_def parent_def)
    have less: "cmp (xs ! k) (xs ! i) < 0"
    proof (cases "k = m")
      case True
      then show ?thesis using False by (auto simp: m_def split: if_splits)
    next
      case km': False
      then have "cmp (xs ! k) (xs ! m) < 0" by (auto simp: k_def split: if_splits)
      moreover have "cmp (xs ! i) (xs ! m) \<le> 0" if "cmp (xs ! i) (xs ! k) \<le> 0"
        using trans_nth [OF less.prems(2,4) mk(2,1) that km] .
      ultimately show ?thesis
        using cmp_not_less [OF v [OF mk(2)] v [OF less.prems(4)]] cmp_trans [of "xs ! m" "xs ! i" "xs ! k"]
          cmp_not_less [OF v [OF mk(2)] v [OF mk(1)]] mi v mk less.prems(4) by fastforce
    qed
    obtain h1 where h1: "swap_element h i k = Inr h1" "holds cmp h1 (swapped xs i k)"
      using holds_swap [OF less.prems(1,4) mk(2)] by blast
    have ms: "mset (swapped xs i k) = mset xs" by (rule mset_swapped [OF less.prems(4) mk(2)])
    then have vs: "\<forall>x \<in> set (swapped xs i k). valid x" using less.prems(2) by (metis set_mset_mset)
    have od: "order_but_down cmp (swapped xs i k) k"
      by (rule down_step [OF less.prems(2,3) k(1) mk(2) k(2) less least])
    have "i < k" using parent_less [OF k(1)] k(2) by simp
    then have "length (swapped xs i k) - k < length xs - i" using mk(2) by simp
    from less.hyps [OF this h1(2) vs od] mk(2) show ?thesis using run False h1(1) ms by auto
  qed
qed

text \<open>The operations.\<close>

lemma heap_add_result:
  assumes h: "heap_ok cmp valid h M" and e: "valid e"
  shows "\<exists>h'. heap_add h e = Inr h' \<and> heap_ok cmp valid h' (add_mset e M)"
proof -
  obtain xs where xs: "holds cmp h xs" "\<forall>x \<in> set xs. valid x" "heap_order cmp xs" "mset xs = M"
    using h unfolding heap_ok_def by blast
  let ?h1 = "if hsize h = hcapacity h
    then h\<lparr>hcapacity := hcapacity h * 2, hdata := arr_realloc (hdata h) (hcapacity h * 2)\<rparr> else h"
  have h1: "holds cmp ?h1 xs" "length xs < hcapacity ?h1" using xs(1) by (auto simp: holds_def)
  let ?h2 = "?h1\<lparr>hdata := (hdata ?h1)[hsize ?h1 := Some e], hsize := hsize ?h1 + 1\<rparr>"
  have sz: "hsize ?h1 = length xs" "hsize ?h1 < length (hdata ?h1)" using h1 by (simp_all add: holds_def)
  have "holds cmp ?h2 (xs @ [e])"
    using h1 sz by (simp add: holds_def take_Suc_conv_app_nth)
  moreover have "order_but_up cmp (xs @ [e]) (length xs)"
    unfolding order_but_up_def
  proof (intro conjI allI impI)
    fix j assume j: "j < length (xs @ [e])" "0 < j" "j \<noteq> length xs"
    then have "parent j < length xs" "j < length xs" using parent_less [of j] by simp_all
    then show "cmp ((xs @ [e]) ! parent j) ((xs @ [e]) ! j) \<le> 0"
      using xs(3) j(2) by (simp add: heap_order_def nth_append)
  next
    fix j assume "j < length (xs @ [e])" "0 < j" "parent j = length xs"
    then show "cmp ((xs @ [e]) ! parent (length xs)) ((xs @ [e]) ! j) \<le> 0" using parent_less [of j] by simp
  qed
  moreover have "\<forall>x \<in> set (xs @ [e]). valid x" using xs(2) e by simp
  ultimately obtain h' ys where up: "shift_up ?h2 (length xs) = Inr h'" "holds cmp h' ys" "heap_order cmp ys"
      "mset ys = mset (xs @ [e])"
    using shift_up_result [of ?h2 "xs @ [e]" "length xs"] by auto
  have "arr_store (hdata ?h1) (hsize ?h1) e = Inr ((hdata ?h1)[hsize ?h1 := Some e])"
    using sz(2) by (simp add: arr_store_def)
  then have "heap_add h e = shift_up ?h2 (hsize ?h1)"
    by (simp only: heap_add_def Let_def bindR_simps) simp
  then have "heap_add h e = Inr h'" using up(1) sz(1) by simp
  moreover have "set ys = insert e (set xs)" using arg_cong [OF up(4), of set_mset] by simp
  ultimately show ?thesis
    unfolding heap_ok_def by (intro exI [of _ h'] conjI exI [of _ ys]) (use up(2-4) xs(2,4) e in simp_all)
qed

lemma heap_top_result:
  assumes h: "heap_ok cmp valid h M"
  shows "if M = {#} then heap_top h = Inr None
    else \<exists>e. heap_top h = Inr (Some e) \<and> e \<in># M \<and> (\<forall>x \<in># M. cmp e x \<le> 0)"
proof -
  obtain xs where xs: "holds cmp h xs" "\<forall>x \<in> set xs. valid x" "heap_order cmp xs" "mset xs = M"
    using h unfolding heap_ok_def by blast
  have "cmp (xs ! 0) x \<le> 0" if "x \<in># M" for x
    using heap_order_least [OF xs(2,3)] that xs(4) by (metis in_set_conv_nth set_mset_mset)
  then show ?thesis
    using xs(1,4) holds_get [OF xs(1), of 0] by (cases xs) (auto simp: heap_top_def heap_size_def holds_def)
qed

lemma heap_pop_holds:
  assumes h: "holds cmp h xs" and v: "\<forall>x \<in> set xs. valid x" and ne: "xs \<noteq> []"
    and o: "order_but_down cmp xs 0"
  shows "\<exists>h'. heap_pop h = Inr (Some (xs ! 0), h') \<and> heap_ok cmp valid h' (mset xs - {#xs ! 0#})"
proof -
  let ?n = "length xs - 1"
  let ?h1 = "h\<lparr>hsize := ?n, hdata := (hdata h)[0 := Some (xs ! ?n)]\<rparr>"
  define ys where "ys = take ?n (xs[0 := xs ! ?n])"
  have "0 < length xs" using ne by simp
  then have n: "length xs = Suc ?n" "?n < length xs" "0 < length xs" by simp_all
  have d: "0 < length (hdata h)" "?n < length (hdata h)" using holds_nth [OF h] n by blast+
  have "take (length xs) (hdata h) = map Some xs" using h by (simp add: holds_def)
  then have "take ?n (take (length xs) (hdata h)) = take ?n (map Some xs)" by simp
  then have tk: "take ?n (hdata h) = map Some (take ?n xs)" by (simp add: take_map)
  have "take ?n ((hdata h)[0 := Some (xs ! ?n)]) = map Some ys"
    using tk by (simp add: ys_def take_update_swap map_update)
  moreover have ly: "length ys = ?n" by (simp add: ys_def)
  ultimately have h1: "holds cmp ?h1 ys" using h by (auto simp: holds_def)
  have load: "arr_load (hdata h) 0 = Inr (xs ! 0)" "arr_load (hdata h) ?n = Inr (xs ! ?n)"
    using holds_load [OF h] n by blast+
  have run: "heap_pop h = bindR (shift_down ?h1 0) (\<lambda>h. Inr (Some (xs ! 0), h))"
  proof -
    have "hsize h = length xs" using h by (simp add: holds_def)
    then show ?thesis using load d n by (simp add: heap_pop_def heap_size_def Let_def arr_store_def)
  qed
  have ms: "mset ys = mset xs - {#xs ! 0#}"
  proof (cases "?n")
    case 0
    then show ?thesis using n by (cases xs) (simp_all add: ys_def)
  next
    case (Suc k)
    then obtain x rest where x: "xs = x # rest" "rest \<noteq> []" by (cases xs) fastforce+
    then obtain zs z where "rest = zs @ [z]" by (cases rest rule: rev_cases) auto
    then show ?thesis using x(1) by (simp add: ys_def nth_append)
  qed
  have vy: "\<forall>x \<in> set ys. valid x"
  proof
    fix x assume "x \<in> set ys"
    then have "x \<in># mset xs - {#xs ! 0#}" unfolding ms [symmetric] by simp
    then show "valid x" using v by (auto dest: in_diffD)
  qed
  show ?thesis
  proof (cases "ys = []")
    case True
    have "shift_down ?h1 0 = Inr ?h1" using True ly by (simp add: shift_down.simps [of _ 0] smaller_def)
    moreover have "heap_order cmp ys" using True by (simp add: heap_order_def)
    ultimately show ?thesis using run h1 vy ms unfolding heap_ok_def by auto
  next
    case False
    have "order_but_down cmp ys 0"
      unfolding order_but_down_def
    proof (intro conjI allI impI)
      fix j assume j: "j < length ys" "0 < j" "parent j \<noteq> 0"
      then have "parent j < ?n" "j < ?n" using parent_less [OF j(2)] ly by simp_all
      then show "cmp (ys ! parent j) (ys ! j) \<le> 0"
        using o j(2,3) by (simp add: ys_def order_but_down_def)
    qed simp
    moreover have "0 < length ys" using False by simp
    ultimately obtain h' zs where "shift_down ?h1 0 = Inr h'" "holds cmp h' zs" "heap_order cmp zs" "mset zs = mset ys"
      using shift_down_result [OF h1 vy] by blast
    then have z: "shift_down ?h1 0 = Inr h'" "holds cmp h' zs" "heap_order cmp zs" "mset zs = mset ys" by blast+
    have "set zs = set ys" using arg_cong [OF z(4), of set_mset] by simp
    then have "heap_ok cmp valid h' (mset xs - {#xs ! 0#})"
      unfolding heap_ok_def by (intro exI [of _ zs]) (use z(2-4) ms vy in simp)
    then show ?thesis using run z(1) by simp
  qed
qed

lemma heap_pop_result:
  assumes h: "heap_ok cmp valid h M"
  shows "if M = {#} then heap_pop h = Inr (None, h)
    else \<exists>e h'. heap_pop h = Inr (Some e, h') \<and> heap_top h = Inr (Some e) \<and> e \<in># M \<and> heap_ok cmp valid h' (M - {#e#})"
proof -
  obtain xs where xs: "holds cmp h xs" "\<forall>x \<in> set xs. valid x" "heap_order cmp xs" "mset xs = M"
    using h unfolding heap_ok_def by blast
  show ?thesis
  proof (cases "xs = []")
    case True
    then show ?thesis using xs by (simp add: heap_pop_def heap_size_def holds_def)
  next
    case False
    then have "order_but_down cmp xs 0" using xs(3) by (simp add: order_but_down_def heap_order_def)
    from heap_pop_holds [OF xs(1,2) False this] False xs(4)
    show ?thesis using holds_get [OF xs(1), of 0] xs(1) nth_mem [of 0 xs]
      by (auto simp: heap_top_def heap_size_def holds_def)
  qed
qed

text \<open>Moving an element to the top keeps the order of the others.\<close>

lemma move_to_top_result:
  assumes "holds cmp h xs" "\<forall>x \<in> set xs. valid x" "i < length xs"
    and "\<forall>j < length xs. 0 < j \<longrightarrow> j \<noteq> i \<longrightarrow> parent j \<noteq> i \<longrightarrow> cmp (xs ! parent j) (xs ! j) \<le> 0"
    and "\<forall>j < length xs. 0 < j \<longrightarrow> parent j = i \<longrightarrow> 0 < i \<longrightarrow> cmp (xs ! parent i) (xs ! j) \<le> 0"
  shows "\<exists>h' ys. move_to_top h i = Inr h' \<and> holds cmp h' ys \<and> mset ys = mset xs \<and> ys ! 0 = xs ! i \<and>
    order_but_down cmp ys 0"
  using assms
proof (induction i arbitrary: h xs rule: less_induct)
  case (less i)
  show ?case
  proof (cases "0 < i")
    case False
    then have "move_to_top h i = Inr h" by (simp add: move_to_top.simps [of h 0])
    moreover have "order_but_down cmp xs 0" using less.prems(4) False by (simp add: order_but_down_def)
    ultimately show ?thesis using less.prems(1) False by auto
  next
    case True
    let ?p = "parent i" and ?ys = "swapped xs (parent i) i"
    have p: "?p < i" "?p < length xs" using parent_less [OF True] less.prems(3) by simp_all
    note ys = swapped_nth [OF p(2) less.prems(3)]
    obtain h1 where h1: "swap_element h ?p i = Inr h1" "holds cmp h1 ?ys"
      using holds_swap [OF less.prems(1) p(2) less.prems(3)] by blast
    have m: "mset ?ys = mset xs" by (rule mset_swapped [OF p(2) less.prems(3)])
    have v: "\<forall>x \<in> set ?ys. valid x" using less.prems(2) arg_cong [OF m, of set_mset] by simp
    have one: "\<forall>j < length ?ys. 0 < j \<longrightarrow> j \<noteq> ?p \<longrightarrow> parent j \<noteq> ?p \<longrightarrow> cmp (?ys ! parent j) (?ys ! j) \<le> 0"
    proof (intro allI impI)
      fix j assume j: "j < length ?ys" "0 < j" "j \<noteq> ?p" "parent j \<noteq> ?p"
      then have jl: "j < length xs" and pj: "parent j < j" "parent j < length xs" using parent_less [OF j(2)] by simp_all
      have ji: "j \<noteq> i" using j(4) by auto
      show "cmp (?ys ! parent j) (?ys ! j) \<le> 0"
      proof (cases "parent j = i")
        case True
        then have "cmp (xs ! ?p) (xs ! j) \<le> 0" using less.prems(5) jl j(2) \<open>0 < i\<close> by simp
        then show ?thesis using True ji j(3) ys [OF pj(2)] ys [OF jl] by simp
      next
        case False
        then show ?thesis using less.prems(4) ji j jl ys [OF pj(2)] ys [OF jl] by simp
      qed
    qed
    have two: "\<forall>j < length ?ys. 0 < j \<longrightarrow> parent j = ?p \<longrightarrow> 0 < ?p \<longrightarrow> cmp (?ys ! parent ?p) (?ys ! j) \<le> 0"
    proof (intro allI impI)
      fix j assume j: "j < length ?ys" "0 < j" "parent j = ?p" "0 < ?p"
      have jl: "j < length xs" using j(1) by simp
      have q: "parent ?p < ?p" "parent ?p < length xs" using parent_less [OF j(4)] p(2) by simp_all
      have up: "cmp (xs ! parent ?p) (xs ! ?p) \<le> 0" using less.prems(4) p j(4) q(1) by simp
      have jp: "j \<noteq> ?p" using parent_less [OF j(2)] j(3) by auto
      show "cmp (?ys ! parent ?p) (?ys ! j) \<le> 0"
      proof (cases "j = i")
        case True
        then show ?thesis using up q p(1) ys [OF q(2)] ys [OF jl] by simp
      next
        case False
        then have "cmp (xs ! ?p) (xs ! j) \<le> 0" using less.prems(4) jl j(2,3) p(1) by auto
        then have "cmp (xs ! parent ?p) (xs ! j) \<le> 0" by (rule trans_nth [OF less.prems(2) q(2) p(2) jl up])
        then show ?thesis using False jp q p(1) ys [OF q(2)] ys [OF jl] by simp
      qed
    qed
    have "?p < length ?ys" using p(2) by simp
    from less.IH [OF p(1) h1(2) v this one two] obtain h' zs where z: "move_to_top h1 ?p = Inr h'" "holds cmp h' zs"
        "mset zs = mset ?ys" "zs ! 0 = ?ys ! ?p" "order_but_down cmp zs 0"
      by blast
    have "move_to_top h i = Inr h'" using True h1(1) z(1) by (simp add: move_to_top.simps [of h i])
    moreover have "zs ! 0 = xs ! i" using z(4) p(1) ys [OF p(2)] by simp
    ultimately show ?thesis using z m by auto
  qed
qed

lemma heap_remove_result:
  assumes h: "holds cmp h xs" and v: "\<forall>x \<in> set xs. valid x" and o: "heap_order cmp xs"
  shows "if i < length xs then \<exists>h'. heap_remove h i = Inr (Some (xs ! i), h') \<and> heap_ok cmp valid h' (mset xs - {#xs ! i#})
    else heap_remove h i = Inl Assert_failed"
proof (cases "i < length xs")
  case False
  then show ?thesis using h by (simp add: heap_remove_def holds_def)
next
  case True
  have "\<forall>j < length xs. 0 < j \<longrightarrow> parent j = i \<longrightarrow> 0 < i \<longrightarrow> cmp (xs ! parent i) (xs ! j) \<le> 0"
  proof (intro allI impI)
    fix j assume j: "j < length xs" "0 < j" "parent j = i" "0 < i"
    have "parent i < length xs" using parent_less [OF j(4)] True by simp
    moreover have "cmp (xs ! parent i) (xs ! i) \<le> 0" "cmp (xs ! i) (xs ! j) \<le> 0"
      using o j True by (auto simp: heap_order_def)
    ultimately show "cmp (xs ! parent i) (xs ! j) \<le> 0" using trans_nth [OF v _ True j(1)] by blast
  qed
  moreover have "\<forall>j < length xs. 0 < j \<longrightarrow> j \<noteq> i \<longrightarrow> parent j \<noteq> i \<longrightarrow> cmp (xs ! parent j) (xs ! j) \<le> 0"
    using o by (simp add: heap_order_def)
  ultimately obtain h1 ys where m: "move_to_top h i = Inr h1" "holds cmp h1 ys" "mset ys = mset xs" "ys ! 0 = xs ! i"
      "order_but_down cmp ys 0"
    using move_to_top_result [OF h v True] by blast
  have "\<forall>x \<in> set ys. valid x" using v arg_cong [OF m(3), of set_mset] by simp
  moreover have "ys \<noteq> []" using m(3) True by auto
  ultimately show ?thesis
    using heap_pop_holds [OF m(2) _ _ m(5)] m True h by (simp add: heap_remove_def holds_def)
qed

end

section \<open>Priority queues\<close>

text \<open>Pops \<open>n\<close> times and lists what comes out.\<close>

fun pops :: "('q \<Rightarrow> ('a option \<times> 'q) res) \<Rightarrow> nat \<Rightarrow> 'q \<Rightarrow> 'a list res" where
  "pops pop 0 q = Inr []"
| "pops pop (Suc n) q =
     bindR (pop q) (\<lambda>(e, q). bindR (derefR e) (\<lambda>x. bindR (pops pop n q) (\<lambda>xs. Inr (x # xs))))"

locale priority_queue =
  fixes add :: "'q \<Rightarrow> 'a \<Rightarrow> 'q res"
    and pop :: "'q \<Rightarrow> ('a option \<times> 'q) res"
    and ok :: "'q \<Rightarrow> 'a multiset \<Rightarrow> bool"
    and le :: "'a \<Rightarrow> 'a \<Rightarrow> bool"
    and element :: "'a \<Rightarrow> bool"
  assumes add_law: "ok q M \<Longrightarrow> element e \<Longrightarrow> \<exists>q'. add q e = Inr q' \<and> ok q' (add_mset e M)"
    and pop_empty_law: "ok q {#} \<Longrightarrow> pop q = Inr (None, q)"
    and pop_law: "ok q M \<Longrightarrow> M \<noteq> {#} \<Longrightarrow>
      \<exists>e q'. pop q = Inr (Some e, q') \<and> e \<in># M \<and> (\<forall>x \<in># M. le e x) \<and> ok q' (M - {#e#})"
begin

lemma add_all:
  assumes "ok q M" "\<forall>x \<in> set xs. element x"
  shows "\<exists>q'. foldR (\<lambda>x q. add q x) xs q = Inr q' \<and> ok q' (M + mset xs)"
  using assms
proof (induction xs arbitrary: q M)
  case (Cons x xs)
  obtain q1 where "add q x = Inr q1" "ok q1 (add_mset x M)" using add_law Cons.prems by force
  with Cons.IH [of q1 "add_mset x M"] Cons.prems(2) show ?case by auto
qed simp

lemma pops_sorted:
  assumes "ok q M"
  shows "\<exists>xs. pops pop (size M) q = Inr xs \<and> mset xs = M \<and> sorted_wrt le xs"
  using assms
proof (induction "size M" arbitrary: q M)
  case 0
  then show ?case by simp
next
  case (Suc n)
  then have "M \<noteq> {#}" by auto
  then obtain e q1 where e: "pop q = Inr (Some e, q1)" "e \<in># M" "\<forall>x \<in># M. le e x" "ok q1 (M - {#e#})"
    using pop_law Suc.prems by blast
  have n: "n = size (M - {#e#})" using Suc.hyps(2) e(2) by (simp add: size_Diff_singleton)
  obtain xs where xs: "pops pop n q1 = Inr xs" "mset xs = M - {#e#}" "sorted_wrt le xs"
    using Suc.hyps(1) [OF n e(4)] n by auto
  have "mset (e # xs) = M" using xs(2) e(2) by simp
  moreover have "le e x" if "x \<in> set xs" for x
  proof -
    have "x \<in># M - {#e#}" using that xs(2) by (metis set_mset_mset)
    then show ?thesis using e(3) by (auto dest: in_diffD)
  qed
  ultimately show ?case using e(1) xs by (intro exI [of _ "e # xs"]) (simp flip: Suc.hyps(2))
qed

end

sublocale comparator \<subseteq> pq: priority_queue heap_add heap_pop "heap_ok cmp valid" "\<lambda>a b. cmp a b \<le> 0" valid
proof
  fix h M e
  assume h: "heap_ok cmp valid h M"
  show "valid e \<Longrightarrow> \<exists>q'. heap_add h e = Inr q' \<and> heap_ok cmp valid q' (add_mset e M)"
    by (rule heap_add_result [OF h])
  show "\<exists>e q'. heap_pop h = Inr (Some e, q') \<and> e \<in># M \<and> (\<forall>x \<in># M. cmp e x \<le> 0) \<and> heap_ok cmp valid q' (M - {#e#})"
    if "M \<noteq> {#}"
    using heap_pop_result [OF h] heap_top_result [OF h] that by auto
next
  fix h assume "heap_ok cmp valid h {#}"
  from heap_pop_result [OF this] show "heap_pop h = Inr (None, h)" by simp
qed

context comparator
begin

lemma heap_ok_create: "heap_ok cmp valid (heap_create cmp d) {#}"
  unfolding heap_ok_def by (intro exI [of _ "[]"]) (simp add: holds_create heap_order_def)

lemma heap_sort:
  assumes "\<forall>x \<in> set xs. valid x"
  shows "\<exists>h ys. foldR (\<lambda>x h. heap_add h x) xs (heap_create cmp d) = Inr h \<and>
    pops heap_pop (length xs) h = Inr ys \<and> mset ys = mset xs \<and> sorted_wrt (\<lambda>a b. cmp a b \<le> 0) ys"
proof -
  obtain h where h: "foldR (\<lambda>x h. heap_add h x) xs (heap_create cmp d) = Inr h" "heap_ok cmp valid h (mset xs)"
    using pq.add_all [OF heap_ok_create assms] by auto
  from pq.pops_sorted [OF h(2)] h(1) show ?thesis by auto
qed

end

section \<open>Properties\<close>

text \<open>
  C22: The heap is a priority queue. For every comparison function that is a total preorder on the
  elements added, adding any number of elements to a new heap succeeds whatever the number of times
  the block is doubled, and popping as often gives all of them back in ascending order.
\<close>

theorem heap_sorts:
  assumes "comparator cmp valid" "\<forall>x \<in> set xs. valid x"
  shows "\<exists>h ys. foldR (\<lambda>x h. heap_add h x) xs (heap_create cmp d) = Inr h \<and>
    pops heap_pop (length xs) h = Inr ys \<and> mset ys = mset xs \<and> sorted_wrt (\<lambda>a b. cmp a b \<le> 0) ys"
  by (rule comparator.heap_sort [OF assms])

text \<open>The comparison of the program's own test of the heap, on numbers.\<close>

interpretation int_order: key_comparator "\<lambda>a b :: int. a - b" "\<lambda>_. True"
  by unfold_locales auto

theorem heap_sorts_witness:
  "\<exists>h ys. foldR (\<lambda>x h. heap_add h x) [3, 1, 2, 9, 0, 4 :: int] (heap_create (\<lambda>a b. a - b) False) = Inr h \<and>
    pops heap_pop 6 h = Inr ys \<and> mset ys = {#3, 1, 2, 9, 0, 4#} \<and> sorted_wrt (\<lambda>a b. a - b \<le> 0) ys"
proof -
  let ?xs = "[3, 1, 2, 9, 0, 4 :: int]"
  have l: "length ?xs = 6" "mset ?xs = {#3, 1, 2, 9, 0, 4#}" by simp_all
  have "\<forall>x \<in> set ?xs. True" by simp
  from heap_sorts [OF int_order.comparator_axioms this, of False] show ?thesis unfolding l .
qed

text \<open>
  Removing any element. \<open>heap_remove\<close> of an index within the size returns the element at the
  index and leaves a heap in order of all the others; an index out of range fails the assertion.
\<close>

lemma heap_remove_any:
  assumes "comparator cmp valid" "holds cmp h xs" "\<forall>x \<in> set xs. valid x" "heap_order cmp xs"
  shows "if i < length xs then \<exists>h'. heap_remove h i = Inr (Some (xs ! i), h') \<and> heap_ok cmp valid h' (mset xs - {#xs ! i#})
    else heap_remove h i = Inl Assert_failed"
  by (rule comparator.heap_remove_result [OF assms])

lemma heap_remove_any_witness:
  "\<exists>h h'. heap_remove h 2 = Inr (Some 7, h') \<and> heap_ok (\<lambda>a b :: int. a - b) (\<lambda>_. True) h' {#1, 5#}"
proof -
  let ?h = "\<lparr>hdata = [Some 1, Some 5, Some 7, None], hcapacity = 4, hsize = 3, e_compare = (\<lambda>a b :: int. a - b), e_destroy = False\<rparr>"
  have "holds (\<lambda>a b. a - b) ?h [1, 5, 7]" by (simp add: holds_def)
  moreover have "heap_order (\<lambda>a b :: int. a - b) [1, 5, 7]"
    by (auto simp: heap_order_def parent_def less_Suc_eq)
  ultimately show ?thesis
    using heap_remove_any [OF int_order.comparator_axioms, of ?h "[1, 5, 7]" 2] by (auto simp: add_mset_commute)
qed

end
