(* ===== verification/Spec2Isabelle.thy ===== *)
theory Spec2Isabelle
  imports Program Print Example CHeap
begin

text \<open>
  A model of whosecoin-core, the C program of a proof-of-stake currency, with the theorems that make it
  correct and the ones that show where it is not. This file imports the other theories; each of them
  opens with what it holds.

  \<^bold>\<open>The program.\<close> A node (\<open>src/main/main.c\<close>) holds a tree of blocks (\<open>src/blockchain.c\<close>,
  \<open>src/block.c\<close>) and a pool of pending transactions (\<open>src/pool.c\<close>, \<open>src/transaction.c\<close>). It talks to its
  peers through a gossip network (\<open>src/network.c\<close>) with messages of a fixed header (\<open>src/message.c\<close>) and a
  body in a tuple format (\<open>src/tuple.c\<close>), and to its user through a command line (\<open>src/cli.c\<close>) and an HTTP
  server (\<open>src/util/http.c\<close>) that answers in JSON (\<open>src/util/json.c\<close>). A timer lets it create a block on
  its principal chain if the staking rule allows its key to. Beneath are an array list, a hash map, a
  heap, byte buffers and identifiers (\<open>src/util\<close>). A second program, \<open>src/main/blockchaindb.c\<close>, creates a
  chain of 128 blocks.

  \<^bold>\<open>How C is modelled.\<close> Integers have their width (words, on which \<open>+\<close> wraps; an \<open>int\<close> is bounded where it
  matters). A function that can abort, fault or be undefined returns \<open>'a res\<close>: \<open>Inr\<close> a
  result or \<open>Inl\<close> an error (\<open>Assert_failed\<close>, \<open>Null_deref\<close>, \<open>Out_of_bounds\<close>, \<open>Uninit_read\<close>,
  \<open>Use_after_free\<close>, \<open>Div_by_zero\<close>, \<open>Bad_conversion\<close>). A block of memory is a list of cells, \<open>None\<close> where nothing was
  written. What is shared through pointers lives in heaps (lists of cells that are \<open>None\<close> once freed),
  and \<open>NULL\<close> is \<open>None\<close>; so freeing twice and reading what was freed are errors of the model. Functions
  that change a struct return it updated. What is printed, and what is handed to libuv, is returned or
  recorded in the order in which the code does it. \<open>malloc\<close> is taken to succeed.

  \<^bold>\<open>The theories, from below.\<close>
  \<^item> \<open>Prelude\<close>: results, memory, integers as bytes, \<open>memcmp\<close>, comparison functions, shared lemmas.
    \<open>Sodium\<close>: libsodium as a parameter.
  \<^item> \<open>CList\<close> (\<open>util/list.c\<close>), \<open>CMap\<close> (\<open>util/map.c\<close>), \<open>CHeap\<close> (\<open>util/heap.c\<close>), \<open>Buffer\<close> (\<open>util/buffer.c\<close>),
    \<open>Guid\<close> (\<open>util/guid.c\<close>): the containers, each with its invariant (\<open>list_ok\<close>, \<open>map_ok\<close>, \<open>heap_ok\<close>,
    \<open>dbuf_ok\<close>) and its abstraction (\<open>list_elems\<close>, \<open>map_abs\<close>, \<open>dbuf_bytes\<close>).
  \<^item> \<open>Message\<close> (\<open>message.c\<close>), \<open>Tuple\<close> (\<open>tuple.c\<close>): the wire format. \<open>enc\<close> is its specification on values of
    the type \<open>tval\<close>; \<open>writes\<close> says that a writer appends given bytes.
  \<^item> \<open>Transaction\<close> (\<open>transaction.c\<close>), \<open>Store\<close>, \<open>Ledger\<close>, \<open>Merkle\<close>, \<open>Block\<close>, \<open>Acceptance\<close> (\<open>block.c\<close>): the
    structs and accessors; the accounts of a block, specified by \<open>ledger\<close>, a fold over the chain; the
    in-place Merkle loop, specified by a tree; creation, writing and checking of blocks.
  \<^item> \<open>Pool\<close> (\<open>pool.c\<close>), \<open>Blockchain\<close>, \<open>ForkChoice\<close> (\<open>blockchain.c\<close>): the fork choice, specified as the
    greedy path in a tree of hashes with priorities.
  \<^item> \<open>Network\<close> (\<open>network.c\<close>): peers, history, shared buffers, framing and dispatch.
  \<^item> \<open>Node\<close>, \<open>NodeSafety\<close>, \<open>Host\<close> (\<open>main.c\<close>): the handlers of blocks, transactions, pools and the timer;
    their invariant \<open>node_ok\<close>; the remaining handlers, the table of \<open>main\<close> and the steps of the event
    loop as the relation \<open>host_step\<close>.
  \<^item> \<open>Json\<close> (\<open>util/json.c\<close> and the JSON forms in \<open>block.c\<close> and \<open>transaction.c\<close>), \<open>Http\<close> (\<open>util/http.c\<close>),
    \<open>Cli\<close> (\<open>cli.c\<close>), \<open>Settings\<close> (\<open>settings.c\<close>), \<open>Api\<close> (the requests and commands of \<open>main.c\<close>): the user's
    side, up to the bytes of an answer.
  \<^item> \<open>Shutdown\<close> and \<open>Program\<close> (\<open>main\<close>, from its arguments to the loop and after it), \<open>Example\<close>
    (\<open>blockchaindb.c\<close>), \<open>Print\<close> (the functions for debugging).
\<close>

text \<open>
  \<^bold>\<open>Interfaces.\<close> Where one part relies on another, the contract is a locale, and the part that provides
  it interprets it on its own definitions: \<open>comparator\<close> and \<open>key_comparator\<close> (comparison functions;
  \<open>memcmp\<close>, \<open>guid_compare\<close>), \<open>sequence\<close> (\<open>CList\<close>), \<open>dictionary\<close> (\<open>CMap\<close>), \<open>priority_queue\<close> (the heap, for
  every comparator, as a \<open>sublocale\<close>), \<open>byte_sink\<close> (\<open>Buffer\<close>), \<open>event_handlers\<close> (what the network asks of
  the handlers; \<open>Host\<close> provides it) and \<open>http_service\<close> (what the HTTP server asks of its handlers; \<open>Api\<close>
  provides it).

  \<^bold>\<open>What is proved.\<close>
  \<^item> Wire format: writing and parsing tuples, transactions, blocks, handshakes and lists of peers are
    inverse; the parser returns within two rounds per byte or never.
  \<^item> Authenticity: whatever bytes a peer sends, a transaction or block that is accepted is signed, hashes
    to its hash, and (a block) was allowed by the staking rule; the Merkle root binds the transactions.
  \<^item> Ledger: the accounts of a block are the fold of the transactions over the chain, the staking rule is
    the one intended, and the values add up to the coinbases.
  \<^item> Fork choice: adding a block keeps the principal chain the greedy path, which does not depend on the
    order of arrival.
  \<^item> Node: the handlers keep the invariant of store, tree and pool; the timer extends the principal
    chain; network, history and buffers stay bounded in every reachable state.
  \<^item> Network: the messages in a read are delivered in order, and each is handled and relayed once.
  \<^item> User's side: whole requests and commands, from the bytes read to the bytes written.
  \<^item> Program: it starts with its arguments, and ends without freeing anything twice exactly if no
    transaction has two owners.
  \<^item> Errors: overspending is accepted; a long block signature is written past its field; a reorganisation
    leaves a transaction with two owners; a message split over two reads gets zeros; a colon in a URL
    ends the program; a large value has no defined JSON form; \<open>buffer_to_hex\<close> never ends for 256 bytes;
    the mask of \<open>hash_satisfies_difficulty\<close> is compared strictly.

  \<^bold>\<open>Loops and fuel.\<close> A loop without an obvious bound takes the number of rounds allowed, and
  \<open>Inl Out_of_fuel\<close> is running out of it; the theorems show that the bound in the definition is enough.
  \<^item> \<open>tuple_parse\<close> takes its fuel as an argument: the length of the encoding is enough for an encoding, and
    \<open>2 * length + 2\<close> decides whether the loop ends at all.
  \<^item> Walks along \<open>prev\<close> (accounts, ancestors, forks, the JSON chain) get one more round than there are
    blocks or accounts, since a chain of a well-formed store does not repeat.
  \<^item> Doubling a capacity gets 34 rounds: 32 bits are exhausted before.
  \<^item> Draining the pool gets one more round than it has transactions; printing a buffer gets 256, the range
    of its 8-bit counter.

  \<^bold>\<open>Outside the program.\<close> libsodium is the record \<open>sodium\<close>, and \<open>sodium_ok\<close> its documented behaviour
  (sizes, signatures and proofs verify under their own keys); nothing is assumed about collisions or
  forgery. libuv is outside: requests to it are recorded, and its callbacks are operations. The keys,
  the clock, random identifiers and the results of opening sockets are the records \<open>env\<close> and \<open>loop\<close>. The
  contents of memory that was allocated and not written are an argument where the code reads them. What
  \<open>printf\<close>, \<open>sscanf\<close>, \<open>atoll\<close> and \<open>strtok\<close> do is modelled for the conversions that are used.

  \<^bold>\<open>Not modelled.\<close> Callbacks that only allocate or free a buffer or a socket for libuv; the arguments
  \<open>data\<close> and \<open>free_data\<close> of the network, which are \<open>NULL\<close> in every call; messages on the terminal from the
  network and the node; code that is commented out (\<open>block_mine\<close>); the tests. \<open>htonl\<close> and its
  kin are those of a little-endian host.
\<close>

end
